(* ===== verification/Prelude.thy ===== *)
theory Prelude
  imports Main "HOL-Library.Word" "HOL-Library.Monad_Syntax"
begin

text \<open>
  Shared vocabulary of the development: the machine integer types of
  \<^verbatim>\<open>stdint.h\<close>, the convention for code that never gives control back,
  address spans, and the generic facts on words, lists and options that the
  component theories use.

  Conventions.
  \<^item> \<open>uint8_t\<close> \dots \<open>uint64_t\<close> and pointers are words of their width, so
    arithmetic on them wraps as on the machine.
  \<^item> A \<open>size_t\<close> that only counts or indexes (loop counters, capacities, bit
    numbers) is a \<open>nat\<close>; wherever it is turned into an address it passes through
    \<open>of_nat\<close>, which wraps at \<open>2^64\<close>.
  \<^item> \<^verbatim>\<open>panic\<close>, a page fault (whose handler halts the core for ever) and a lock
    that is never released all mean that control does not return to the caller.
    Such code is modelled in the option type: \<open>None\<close> is "does not return".
\<close>

unbundle bit_operations_syntax

type_synonym u8 = "8 word"
type_synonym u16 = "16 word"
type_synonym u32 = "32 word"
type_synonym u64 = "64 word"

named_theorems frame_simps \<open>what an operation leaves unchanged\<close>
named_theorems span_intros \<open>membership and inclusion of address spans\<close>

section \<open>Macros shared by several files\<close>

definition PAGE_SIZE :: nat where
  "PAGE_SIZE = 4096"

definition PHYSICAL_BASE_ADDRESS :: u64 where
  "PHYSICAL_BASE_ADDRESS = 0xffff800000000000"

definition DIV_CEIL :: "nat \<Rightarrow> nat \<Rightarrow> nat" where
  "DIV_CEIL y x = (y + x - 1) div x"

lemma DIV_CEIL_mult_ge: "0 < x \<Longrightarrow> y \<le> DIV_CEIL y x * x"
proof -
  assume x: "0 < x"
  have "y + x - 1 < (y + x - 1) div x * x + x"
    using x by (metis add.commute div_mult_mod_eq mod_less_divisor nat_add_left_cancel_less)
  then show ?thesis using x by (simp add: DIV_CEIL_def)
qed

lemma DIV_CEIL_mult_less: "0 < x \<Longrightarrow> DIV_CEIL y x * x < y + x"
proof -
  assume x: "0 < x"
  have "(y + x - 1) div x * x \<le> y + x - 1" by simp
  also have "\<dots> < y + x" using x by simp
  finally show ?thesis by (simp add: DIV_CEIL_def)
qed

section \<open>Address spans\<close>

text \<open>The \<open>n\<close> addresses from \<open>a\<close> on, wrapping at the end of the address space.\<close>

definition span :: "u64 \<Rightarrow> nat \<Rightarrow> u64 set" where
  "span a n = {x. unat (x - a) < n}"

lemma in_span: "x \<in> span a n \<longleftrightarrow> unat (x - a) < n"
  by (simp add: span_def)

lemma span_0 [simp]: "span a 0 = {}"
  by (simp add: span_def)

lemma span_start [simp, span_intros]: "0 < n \<Longrightarrow> a \<in> span a n"
  by (simp add: in_span)

lemma span_mono: "n \<le> n' \<Longrightarrow> span a n \<subseteq> span a n'"
  by (auto simp: in_span)

lemma unat_of_nat64: "n < 2 ^ 64 \<Longrightarrow> unat (of_nat n :: u64) = n"
  by (simp add: unsigned_of_nat take_bit_nat_eq_self)

lemma unat_add_of_nat:
  assumes "unat (a :: u64) + n < 2 ^ 64"
  shows "unat (a + of_nat n) = unat a + n"
proof -
  have "a + of_nat n = of_nat (unat a + n)" by simp
  then show ?thesis using assms by (simp only: unat_of_nat64)
qed

lemma unat_u64_less: "unat (x :: u64) < 2 ^ 64"
  using unsigned_less [of x] by simp

lemma add_of_nat_in_span [span_intros]:
  "k < n \<Longrightarrow> a + of_nat k \<in> span a n"
  by (simp add: in_span) (metis le_unat_uoi less_imp_le_nat linorder_not_le order_le_less_trans)

lemma in_span_iff_offset:
  "x \<in> span a n \<longleftrightarrow> (\<exists>k < n. k < 2 ^ 64 \<and> x = a + of_nat k)"
proof
  assume "x \<in> span a n"
  then have "unat (x - a) < n" by (simp add: in_span)
  moreover have "x = a + of_nat (unat (x - a))" by simp
  ultimately show "\<exists>k < n. k < 2 ^ 64 \<and> x = a + of_nat k"
    using unat_u64_less by blast
next
  assume "\<exists>k < n. k < 2 ^ 64 \<and> x = a + of_nat k"
  then show "x \<in> span a n" by (auto intro: add_of_nat_in_span)
qed

lemma span_offset_subset:
  assumes "k + n \<le> N"
  shows "span (a + of_nat k) n \<subseteq> span a N"
proof
  fix x assume "x \<in> span (a + of_nat k) n"
  then obtain j where "j < n" and "x = a + of_nat k + of_nat j"
    by (auto simp: in_span_iff_offset)
  then have "x = a + of_nat (k + j)" and "k + j < N" using assms by auto
  then show "x \<in> span a N" by (simp only: add_of_nat_in_span)
qed

lemma span_offset_disjoint:
  assumes "k + n \<le> j" and "j + n' \<le> 2 ^ 64"
  shows "span (a + of_nat k) n \<inter> span (a + of_nat j) n' = {}"
proof -
  have False if i: "i < n" and i': "i' < n'" and
    eq: "a + of_nat k + of_nat i = a + of_nat j + of_nat i'" for i i'
  proof -
    from eq have "(of_nat (k + i) :: u64) = of_nat (j + i')"
      by (simp add: add.assoc)
    then have "unat (of_nat (k + i) :: u64) = unat (of_nat (j + i') :: u64)"
      by simp
    moreover have "k + i < 2 ^ 64" and "j + i' < 2 ^ 64"
      using assms i i' by linarith+
    ultimately have "k + i = j + i'"
      by (simp only: unat_of_nat64)
    then show False using assms i by linarith
  qed
  then show ?thesis by (auto simp: in_span_iff_offset)
qed

lemma span_split:
  assumes "n + n' \<le> 2 ^ 64"
  shows "span a (n + n') = span a n \<union> span (a + of_nat n) n'"
proof
  show "span a (n + n') \<subseteq> span a n \<union> span (a + of_nat n) n'"
  proof
    fix x assume "x \<in> span a (n + n')"
    then obtain k where k: "k < n + n'" "x = a + of_nat k"
      by (auto simp: in_span_iff_offset)
    show "x \<in> span a n \<union> span (a + of_nat n) n'"
    proof (cases "k < n")
      case True
      with k show ?thesis by (simp add: add_of_nat_in_span)
    next
      case False
      then have "k = n + (k - n)" by simp
      then have "x = a + of_nat n + of_nat (k - n)"
        using k by (metis add.assoc of_nat_add)
      moreover have "k - n < n'" using k False by linarith
      ultimately show ?thesis by (simp add: add_of_nat_in_span)
    qed
  qed
  show "span a n \<union> span (a + of_nat n) n' \<subseteq> span a (n + n')"
    using span_mono [of n "n + n'" a] span_offset_subset [of n n' "n + n'" a] by simp
qed

section \<open>Lists and options\<close>

lemma bind_eq_Some_iff:
  "Option.bind m f = Some y \<longleftrightarrow> (\<exists>x. m = Some x \<and> f x = Some y)"
  by (cases m) auto

lemma bind_eq_None_iff:
  "Option.bind m f = None \<longleftrightarrow> (m = None \<or> (\<exists>x. m = Some x \<and> f x = None))"
  by (cases m) auto

text \<open>A sequence of calls that may not return.\<close>

lemma foldl_bind_None: "foldl (\<lambda>m k. Option.bind m (f k)) None ks = None"
  by (induction ks) auto

lemma foldl_bind_Cons:
  "foldl (\<lambda>m k. Option.bind m (f k)) (Some x) (k # ks) =
     Option.bind (f k x) (\<lambda>y. foldl (\<lambda>m k. Option.bind m (f k)) (Some y) ks)"
  by (cases "f k x") (simp_all add: foldl_bind_None)

end
