(* ===== verification/Phys_Mem.thy ===== *)
theory Phys_Mem
  imports Prelude
begin

text \<open>
  The memory the kernel's low-level code works on, and the routines of
  \<^verbatim>\<open>klibc/memory.cpp\<close>. Memory is a function from 64-bit addresses to bytes; the
  kernel reaches physical memory through the direct map at
  \<open>PHYSICAL_BASE_ADDRESS\<close>, so the addresses here are the virtual addresses the code
  itself computes. A \<open>uint64_t\<close> in memory is eight bytes, least significant first.
\<close>

type_synonym mem = "u64 \<Rightarrow> u8"

section \<open>Quad-words in memory\<close>

definition read64 :: "mem \<Rightarrow> u64 \<Rightarrow> u64" where
  "read64 m a =
     ucast (m a) OR push_bit 8 (ucast (m (a + 1))) OR
     push_bit 16 (ucast (m (a + 2))) OR push_bit 24 (ucast (m (a + 3))) OR
     push_bit 32 (ucast (m (a + 4))) OR push_bit 40 (ucast (m (a + 5))) OR
     push_bit 48 (ucast (m (a + 6))) OR push_bit 56 (ucast (m (a + 7)))"

definition write64 :: "mem \<Rightarrow> u64 \<Rightarrow> u64 \<Rightarrow> mem" where
  "write64 m a v =
     m(a := ucast v, a + 1 := ucast (drop_bit 8 v),
       a + 2 := ucast (drop_bit 16 v), a + 3 := ucast (drop_bit 24 v),
       a + 4 := ucast (drop_bit 32 v), a + 5 := ucast (drop_bit 40 v),
       a + 6 := ucast (drop_bit 48 v), a + 7 := ucast (drop_bit 56 v))"

text \<open>Shorter words.\<close>

definition read16 :: "mem \<Rightarrow> u64 \<Rightarrow> u16" where
  "read16 m a = ucast (m a) OR push_bit 8 (ucast (m (a + 1)))"

definition read32 :: "mem \<Rightarrow> u64 \<Rightarrow> u32" where
  "read32 m a = ucast (m a) OR push_bit 8 (ucast (m (a + 1))) OR push_bit 16 (ucast (m (a + 2))) OR push_bit 24 (ucast (m (a + 3)))"

section \<open>klibc/memory.cpp\<close>

text \<open>\<open>memset\<close>: the loop over \<open>i < bytes\<close>; the \<open>size_t\<close> value is cut to a byte.\<close>

primrec memset :: "mem \<Rightarrow> u64 \<Rightarrow> u64 \<Rightarrow> nat \<Rightarrow> mem" where
  "memset m ptr v 0 = m"
| "memset m ptr v (Suc i) = (memset m ptr v i)(ptr + of_nat i := ucast v)"

text \<open>\<open>memcpy\<close>: byte by byte upwards, each byte read from the memory written so far.\<close>

primrec memcpy :: "mem \<Rightarrow> u64 \<Rightarrow> u64 \<Rightarrow> nat \<Rightarrow> mem" where
  "memcpy m dest src 0 = m"
| "memcpy m dest src (Suc i) =
     (let m' = memcpy m dest src i in m'(dest + of_nat i := m' (src + of_nat i)))"

text \<open>\<open>memcpy8\<close>: \<open>bytes/8\<close> quad-words; a rest of fewer than eight bytes is not copied.\<close>

primrec memcpy8_loop :: "mem \<Rightarrow> u64 \<Rightarrow> u64 \<Rightarrow> nat \<Rightarrow> mem" where
  "memcpy8_loop m dest src 0 = m"
| "memcpy8_loop m dest src (Suc i) =
     (let m' = memcpy8_loop m dest src i
      in write64 m' (dest + of_nat (8 * i)) (read64 m' (src + of_nat (8 * i))))"

definition memcpy8 :: "mem \<Rightarrow> u64 \<Rightarrow> u64 \<Rightarrow> nat \<Rightarrow> mem" where
  "memcpy8 m dest src bytes = memcpy8_loop m dest src (bytes div 8)"

section \<open>Laws of quad-word access\<close>

lemma span8: "span a 8 = {a, a + 1, a + 2, a + 3, a + 4, a + 5, a + 6, a + 7}"
proof -
  have *: "{k::nat. k < 8} = {0, 1, 2, 3, 4, 5, 6, 7}" by auto
  have "x \<in> span a 8 \<longleftrightarrow> (\<exists>k < 8. x = a + of_nat k)" for x
    unfolding in_span_iff_offset by fastforce
  then have "span a 8 = (\<lambda>k. a + of_nat k) ` {k. k < 8}" by auto
  then show ?thesis unfolding * by simp
qed

lemma write64_other [frame_simps]: "x \<notin> span a 8 \<Longrightarrow> write64 m a v x = m x"
  by (simp add: write64_def span8)

lemma read64_cong: "(\<And>x. x \<in> span a 8 \<Longrightarrow> m x = m' x) \<Longrightarrow> read64 m a = read64 m' a"
  by (simp add: read64_def span8)

lemma join_bytes:
  fixes v :: u64
  shows "ucast (ucast v :: u8) OR push_bit 8 (ucast (ucast (drop_bit 8 v) :: u8)) OR
     push_bit 16 (ucast (ucast (drop_bit 16 v) :: u8)) OR push_bit 24 (ucast (ucast (drop_bit 24 v) :: u8)) OR
     push_bit 32 (ucast (ucast (drop_bit 32 v) :: u8)) OR push_bit 40 (ucast (ucast (drop_bit 40 v) :: u8)) OR
     push_bit 48 (ucast (ucast (drop_bit 48 v) :: u8)) OR push_bit 56 (ucast (ucast (drop_bit 56 v) :: u8)) = v"
  (is "?l = v")
proof (rule bit_word_eqI)
  fix n assume "n < LENGTH(64)"
  then have n: "n < 64" by simp
  then consider "n < 8" | "8 \<le> n" "n < 16" | "16 \<le> n" "n < 24" | "24 \<le> n" "n < 32"
    | "32 \<le> n" "n < 40" | "40 \<le> n" "n < 48" | "48 \<le> n" "n < 56" | "56 \<le> n"
    by linarith
  then show "bit ?l n \<longleftrightarrow> bit v n"
    by cases (use n in \<open>auto simp: bit_simps\<close>)
qed

lemma read64_write64_same [simp]: "read64 (write64 m a v) a = v"
proof -
  have "read64 (write64 m a v) a =
     ucast (ucast v :: u8) OR push_bit 8 (ucast (ucast (drop_bit 8 v) :: u8)) OR
     push_bit 16 (ucast (ucast (drop_bit 16 v) :: u8)) OR push_bit 24 (ucast (ucast (drop_bit 24 v) :: u8)) OR
     push_bit 32 (ucast (ucast (drop_bit 32 v) :: u8)) OR push_bit 40 (ucast (ucast (drop_bit 40 v) :: u8)) OR
     push_bit 48 (ucast (ucast (drop_bit 48 v) :: u8)) OR push_bit 56 (ucast (ucast (drop_bit 56 v) :: u8))"
    by (simp add: read64_def write64_def)
  then show ?thesis by (simp only: join_bytes)
qed

lemma read64_write64_other [frame_simps]:
  "span a 8 \<inter> span b 8 = {} \<Longrightarrow> read64 (write64 m b v) a = read64 m a"
  by (rule read64_cong, rule write64_other) blast

lemma byte_of_join:
  fixes b0 b1 b2 b3 b4 b5 b6 b7 :: u8
  defines "w \<equiv> (ucast b0 OR push_bit 8 (ucast b1) OR push_bit 16 (ucast b2) OR
     push_bit 24 (ucast b3) OR push_bit 32 (ucast b4) OR push_bit 40 (ucast b5) OR
     push_bit 48 (ucast b6) OR push_bit 56 (ucast b7) :: u64)"
  shows "ucast w = b0" "ucast (drop_bit 8 w) = b1" "ucast (drop_bit 16 w) = b2"
    "ucast (drop_bit 24 w) = b3" "ucast (drop_bit 32 w) = b4" "ucast (drop_bit 40 w) = b5"
    "ucast (drop_bit 48 w) = b6" "ucast (drop_bit 56 w) = b7"
  unfolding w_def by (rule bit_word_eqI; auto simp: bit_simps dest: bit_imp_le_length)+

text \<open>Storing a loaded quad-word copies its eight bytes.\<close>

lemma write64_read64_copies:
  "write64 m d (read64 m' s) =
     m(d := m' s, d + 1 := m' (s + 1), d + 2 := m' (s + 2), d + 3 := m' (s + 3),
       d + 4 := m' (s + 4), d + 5 := m' (s + 5), d + 6 := m' (s + 6), d + 7 := m' (s + 7))"
  by (simp only: write64_def read64_def byte_of_join)

lemma write64_read64_at:
  assumes "k < 8"
  shows "write64 m d (read64 m' s) (d + of_nat k) = m' (s + of_nat k)"
proof -
  from assms have "k \<in> {0, 1, 2, 3, 4, 5, 6, 7}" by auto
  then show ?thesis by (auto simp: write64_read64_copies)
qed

lemma write64_same: "write64 m b (read64 m b) = m"
proof
  fix x
  show "write64 m b (read64 m b) x = m x"
  proof (cases "x \<in> span b 8")
    case True
    then obtain k where "k < 8" "x = b + of_nat k" by (auto simp: in_span_iff_offset)
    then show ?thesis using write64_read64_at [of k m b m b] by simp
  qed (rule write64_other)
qed

section \<open>What the copy and fill loops compute\<close>

lemma span_Suc: "k < 2 ^ 64 \<Longrightarrow> span a (Suc k) = insert (a + of_nat k) (span a k)"
  by (fastforce simp: in_span_iff_offset less_Suc_eq)

lemma memset_fills:
  assumes "bytes \<le> 2 ^ 64"
  shows "memset m ptr v bytes = (\<lambda>x. if x \<in> span ptr bytes then ucast v else m x)"
  using assms
proof (induction bytes)
  case (Suc i)
  then show ?case by (auto simp: span_Suc fun_eq_iff)
qed simp

lemma memset_other [frame_simps]:
  assumes "x \<notin> span ptr bytes"
  shows "memset m ptr v bytes x = m x"
  using assms
proof (induction bytes)
  case (Suc i)
  have "x \<noteq> ptr + of_nat i" and "x \<notin> span ptr i"
    using Suc.prems add_of_nat_in_span [of i "Suc i" ptr] span_mono [of i "Suc i" ptr] by auto
  with Suc.IH show ?case by simp
qed simp

lemma memcpy_spec:
  assumes "span dest bytes \<inter> span src bytes = {}" and "bytes \<le> 2 ^ 64"
  shows "memcpy m dest src bytes x = (if x \<in> span dest bytes then m (src + (x - dest)) else m x)"
  using assms
proof (induction bytes arbitrary: x)
  case (Suc i)
  have sub: "span dest i \<inter> span src i = {}"
    using Suc.prems(1) span_mono [of i "Suc i"] by fastforce
  have "src + of_nat i \<notin> span dest i"
    using Suc.prems(1) add_of_nat_in_span [of i "Suc i" src] span_mono [of i "Suc i" dest] by auto
  then show ?case
    using Suc.IH [OF sub] Suc.prems(2) by (auto simp: Let_def span_Suc)
qed simp

lemma memcpy_other [frame_simps]:
  assumes "x \<notin> span dest bytes"
  shows "memcpy m dest src bytes x = m x"
  using assms
proof (induction bytes)
  case (Suc i)
  have "x \<noteq> dest + of_nat i" and "x \<notin> span dest i"
    using Suc.prems add_of_nat_in_span [of i "Suc i" dest] span_mono [of i "Suc i" dest] by auto
  with Suc.IH show ?case by (simp add: Let_def)
qed simp

lemma memcpy8_loop_other [frame_simps]:
  assumes "x \<notin> span dest (8 * n)"
  shows "memcpy8_loop m dest src n x = m x"
  using assms
proof (induction n)
  case (Suc i)
  have "span (dest + of_nat (8 * i)) 8 \<subseteq> span dest (8 * Suc i)"
    by (rule span_offset_subset) simp
  moreover have "span dest (8 * i) \<subseteq> span dest (8 * Suc i)" by (rule span_mono) simp
  ultimately have "x \<notin> span (dest + of_nat (8 * i)) 8" and "x \<notin> span dest (8 * i)"
    using Suc.prems by auto
  with Suc.IH show ?case by (simp add: Let_def write64_other del: of_nat_mult)
qed simp

lemma memcpy8_loop_spec:
  assumes "span dest (8 * n) \<inter> span src (8 * n) = {}" and "8 * n \<le> 2 ^ 64"
  shows "memcpy8_loop m dest src n x =
    (if x \<in> span dest (8 * n) then m (src + (x - dest)) else m x)"
  using assms
proof (induction n arbitrary: x)
  case (Suc i)
  let ?d = "dest + of_nat (8 * i)" and ?s = "src + of_nat (8 * i)"
  let ?m = "memcpy8_loop m dest src i"
  have split: "span dest (8 * Suc i) = span dest (8 * i) \<union> span ?d 8"
    using span_split [of "8 * i" 8 dest] Suc.prems(2) by (simp add: algebra_simps)
  have sub: "span src (8 * i) \<subseteq> span src (8 * Suc i)" "span ?s 8 \<subseteq> span src (8 * Suc i)"
    by (rule span_mono, simp, rule span_offset_subset, simp)
  have "span dest (8 * i) \<inter> span src (8 * i) = {}"
    using Suc.prems(1) split sub(1) by blast
  then have IH: "?m y = (if y \<in> span dest (8 * i) then m (src + (y - dest)) else m y)" for y
    using Suc.prems(2) by (intro Suc.IH) auto
  have step: "memcpy8_loop m dest src (Suc i) = write64 ?m ?d (read64 ?m ?s)"
    by (simp add: Let_def del: of_nat_mult)
  show ?case
  proof (cases "x \<in> span ?d 8")
    case True
    then obtain k where k: "k < 8" "x = ?d + of_nat k" by (auto simp: in_span_iff_offset)
    have "?s + of_nat k \<notin> span dest (8 * i)"
      using Suc.prems(1) split sub(2) add_of_nat_in_span [OF k(1), of ?s] by blast
    then have "write64 ?m ?d (read64 ?m ?s) x = m (?s + of_nat k)"
      using k IH by (simp only: write64_read64_at) simp
    then show ?thesis unfolding step using True k split by (simp add: algebra_simps)
  next
    case False
    then show ?thesis unfolding step using IH split by (simp add: write64_other)
  qed
qed simp

text \<open>On buffers that do not overlap, \<open>memcpy8\<close> of a multiple of eight bytes computes the
  same memory as the byte-wise \<open>memcpy\<close>.\<close>

theorem memcpy8_eq_memcpy:
  assumes "8 dvd bytes" and "bytes \<le> 2 ^ 64"
    and "span dest bytes \<inter> span src bytes = {}"
  shows "memcpy8 m dest src bytes = memcpy m dest src bytes"
proof
  fix x
  have "8 * (bytes div 8) = bytes" using assms(1) by simp
  then show "memcpy8 m dest src bytes x = memcpy m dest src bytes x"
    using assms memcpy8_loop_spec [of dest "bytes div 8" src m x]
    by (simp add: memcpy8_def memcpy_spec)
qed

lemma memcpy8_eq_memcpy_witness:
  "span 0x1000 16 \<inter> span (0x1000 + of_nat 4096) 16 = {} \<and>
   memcpy8 (\<lambda>x. ucast x) 0x1000 (0x1000 + of_nat 4096) 16 = memcpy (\<lambda>x. ucast x) 0x1000 (0x1000 + of_nat 4096) 16"
proof -
  have "span (0x1000 + of_nat 0) 16 \<inter> span (0x1000 + of_nat 4096) 16 = {}"
    by (rule span_offset_disjoint) simp_all
  then show ?thesis using memcpy8_eq_memcpy [of 16 "0x1000" "0x1000 + of_nat 4096" "\<lambda>x. ucast x"] by simp
qed

end
