(* ===== verification/Bitmap.thy ===== *)
theory Bitmap
  imports Phys_Mem
begin

text \<open>
  \<^verbatim>\<open>klibc/bitmap.hpp\<close>: bit arrays in memory, most significant bit of each byte
  first, and the allocator of the first clear bit that hands out process and thread
  ids. The locale \<open>bit_array\<close> is the interface the page allocator relies on; it is
  interpreted on the operations of this file.
\<close>

section \<open>The operations\<close>

definition bit_mask :: "nat \<Rightarrow> u8" where
  "bit_mask i = push_bit (7 - i mod 8) 1"

definition bm_set_bit :: "mem \<Rightarrow> u64 \<Rightarrow> nat \<Rightarrow> mem" where
  "bm_set_bit m bitmap i =
     (let a = bitmap + of_nat (i div 8) in m(a := m a OR bit_mask i))"

definition bm_toggle_bit :: "mem \<Rightarrow> u64 \<Rightarrow> nat \<Rightarrow> mem" where
  "bm_toggle_bit m bitmap i =
     (let a = bitmap + of_nat (i div 8) in m(a := m a XOR bit_mask i))"

definition bm_clear_bit :: "mem \<Rightarrow> u64 \<Rightarrow> nat \<Rightarrow> mem" where
  "bm_clear_bit m bitmap i =
     (let a = bitmap + of_nat (i div 8) in m(a := m a AND NOT (bit_mask i)))"

definition is_bit_set :: "mem \<Rightarrow> u64 \<Rightarrow> nat \<Rightarrow> bool" where
  "is_bit_set m bitmap i \<longleftrightarrow> m (bitmap + of_nat (i div 8)) AND bit_mask i \<noteq> 0"

text \<open>
  \<open>Bitmap::allocate\<close>: \<open>sizeof(bitmap)\<close> is the size of the pointer, eight bytes, so the
  search ends after 64 bits whatever the size of the array.
\<close>

definition sizeof_pointer :: nat where
  "sizeof_pointer = 8"

function allocate_loop :: "mem \<Rightarrow> u64 \<Rightarrow> nat \<Rightarrow> int \<times> mem" where
  "allocate_loop m bitmap i =
     (if i < sizeof_pointer * 8 then
        (if is_bit_set m bitmap i then allocate_loop m bitmap (Suc i)
         else (int i, bm_set_bit m bitmap i))
      else (-1, m))"
  by pat_completeness auto
termination
  by (relation "measure (\<lambda>(m, bitmap, i). sizeof_pointer * 8 - i)") auto

declare allocate_loop.simps [simp del]

definition bitmap_allocate :: "mem \<Rightarrow> u64 \<Rightarrow> int \<times> mem" where
  "bitmap_allocate m bitmap = allocate_loop m bitmap 0"

section \<open>The interface of a bit array\<close>

locale bit_array =
  fixes test :: "'m \<Rightarrow> nat \<Rightarrow> bool"
    and set :: "'m \<Rightarrow> nat \<Rightarrow> 'm"
    and clear :: "'m \<Rightarrow> nat \<Rightarrow> 'm"
    and bound :: nat
  assumes test_set: "i < bound \<Longrightarrow> j < bound \<Longrightarrow> test (set m i) j \<longleftrightarrow> j = i \<or> test m j"
    and test_clear: "i < bound \<Longrightarrow> j < bound \<Longrightarrow> test (clear m i) j \<longleftrightarrow> j \<noteq> i \<and> test m j"
begin

lemma test_fold_set:
  assumes "\<And>i. i \<in> List.set is \<Longrightarrow> i < bound" and "j < bound"
  shows "test (fold (\<lambda>i m. set m i) is m) j \<longleftrightarrow> j \<in> List.set is \<or> test m j"
  using assms by (induction "is" arbitrary: m) (auto simp: test_set)

lemma test_fold_clear:
  assumes "\<And>i. i \<in> List.set is \<Longrightarrow> i < bound" and "j < bound"
  shows "test (fold (\<lambda>i m. clear m i) is m) j \<longleftrightarrow> j \<notin> List.set is \<and> test m j"
  using assms by (induction "is" arbitrary: m) (auto simp: test_clear)

end

section \<open>The operations implement it\<close>

lemma bit_mask_bit: "bit (bit_mask i) n \<longleftrightarrow> n = 7 - i mod 8"
  by (auto simp: bit_mask_def bit_simps)

lemma and_bit_mask_zero: "w AND bit_mask i = 0 \<longleftrightarrow> \<not> bit w (7 - i mod 8)"
proof
  assume "w AND bit_mask i = 0"
  then have "\<not> bit (w AND bit_mask i) (7 - i mod 8)" by simp
  then show "\<not> bit w (7 - i mod 8)" by (simp add: bit_simps bit_mask_bit)
next
  assume "\<not> bit w (7 - i mod 8)"
  then show "w AND bit_mask i = 0"
    by (intro bit_word_eqI) (auto simp: bit_simps bit_mask_bit)
qed

lemma is_bit_set_iff: "is_bit_set m p i \<longleftrightarrow> bit (m (p + of_nat (i div 8))) (7 - i mod 8)"
  by (simp add: is_bit_set_def and_bit_mask_zero)

text \<open>Bit numbers below \<open>2^67\<close> name different bytes when their quotients differ.\<close>

lemma byte_addr_eq_iff:
  assumes "i < 2 ^ 67" "j < 2 ^ 67"
  shows "(p :: u64) + of_nat (i div 8) = p + of_nat (j div 8) \<longleftrightarrow> i div 8 = j div 8"
proof -
  have "i div 8 < 2 ^ 64" "j div 8 < 2 ^ 64" using assms by auto
  then show ?thesis by (metis add_left_cancel unat_of_nat64)
qed

lemma same_bit_iff: "i = j \<longleftrightarrow> i div 8 = j div 8 \<and> 7 - i mod 8 = 7 - (j :: nat) mod 8"
proof -
  have "i mod 8 = j mod 8" if "7 - i mod 8 = 7 - j mod 8"
    using that mod_less_divisor [of 8 i] mod_less_divisor [of 8 j] by linarith
  then show ?thesis by (metis div_mult_mod_eq)
qed

lemma is_bit_set_upd:
  assumes "i < 2 ^ 67" "j < 2 ^ 67"
  shows "is_bit_set (m(p + of_nat (i div 8) := w)) p j \<longleftrightarrow>
    (if i div 8 = j div 8 then bit w (7 - j mod 8) else is_bit_set m p j)"
  unfolding is_bit_set_iff using byte_addr_eq_iff [OF assms, of p] by auto

lemma is_bit_set_bm_set_bit:
  assumes "i < 2 ^ 67" "j < 2 ^ 67"
  shows "is_bit_set (bm_set_bit m p i) p j \<longleftrightarrow> j = i \<or> is_bit_set m p j"
  unfolding bm_set_bit_def Let_def is_bit_set_upd [OF assms] same_bit_iff [of j i]
  by (auto simp: bit_or_iff bit_mask_bit is_bit_set_iff)

lemma is_bit_set_bm_clear_bit:
  assumes "i < 2 ^ 67" "j < 2 ^ 67"
  shows "is_bit_set (bm_clear_bit m p i) p j \<longleftrightarrow> j \<noteq> i \<and> is_bit_set m p j"
  unfolding bm_clear_bit_def Let_def is_bit_set_upd [OF assms] same_bit_iff [of j i]
  by (auto simp: bit_and_iff bit_not_iff bit_mask_bit is_bit_set_iff)

lemma is_bit_set_bm_toggle_bit:
  assumes "i < 2 ^ 67" "j < 2 ^ 67"
  shows "is_bit_set (bm_toggle_bit m p i) p j \<longleftrightarrow> (j = i) \<noteq> is_bit_set m p j"
  unfolding bm_toggle_bit_def Let_def is_bit_set_upd [OF assms] same_bit_iff [of j i]
  by (auto simp: bit_xor_iff bit_mask_bit is_bit_set_iff)

interpretation bm: bit_array "\<lambda>m. is_bit_set m p" "\<lambda>m. bm_set_bit m p" "\<lambda>m. bm_clear_bit m p" "2 ^ 67"
  for p
  by unfold_locales (simp_all only: is_bit_set_bm_set_bit is_bit_set_bm_clear_bit)

text \<open>What an update leaves alone: every byte but the one that holds the bit.\<close>

lemma bm_set_bit_other [frame_simps]: "x \<notin> span p n \<Longrightarrow> i < 8 * n \<Longrightarrow> bm_set_bit m p i x = m x"
  using add_of_nat_in_span [of "i div 8" n p] by (auto simp: bm_set_bit_def Let_def)

lemma bm_clear_bit_other [frame_simps]: "x \<notin> span p n \<Longrightarrow> i < 8 * n \<Longrightarrow> bm_clear_bit m p i x = m x"
  using add_of_nat_in_span [of "i div 8" n p] by (auto simp: bm_clear_bit_def Let_def)

lemma is_bit_set_cong:
  assumes "\<And>x. x \<in> span p n \<Longrightarrow> m x = m' x" and "i < 8 * n"
  shows "is_bit_set m p i = is_bit_set m' p i"
  using assms add_of_nat_in_span [of "i div 8" n p] by (simp add: is_bit_set_def)

section \<open>The id allocator\<close>

lemma allocate_loop_skip:
  "i \<le> k \<Longrightarrow> k \<le> 64 \<Longrightarrow> \<forall>j. i \<le> j \<and> j < k \<longrightarrow> is_bit_set m p j \<Longrightarrow>
     allocate_loop m p i = allocate_loop m p k"
proof (induction k)
  case (Suc k)
  show ?case
  proof (cases "i = Suc k")
    case False
    then have "allocate_loop m p i = allocate_loop m p k" using Suc by auto
    also have "\<dots> = allocate_loop m p (Suc k)"
      using Suc.prems False by (simp add: allocate_loop.simps [of m p k] sizeof_pointer_def)
    finally show ?thesis .
  qed simp
qed simp

lemma allocate_loop_found:
  assumes "k < 64" "\<not> is_bit_set m p k" "\<forall>j < k. is_bit_set m p j"
  shows "bitmap_allocate m p = (int k, bm_set_bit m p k)"
  using assms allocate_loop_skip [of 0 k m p]
  by (simp add: bitmap_allocate_def allocate_loop.simps [of m p k] sizeof_pointer_def)

text \<open>An id is handed out when one of the first 64 bits is clear: the result is the lowest
  clear bit, that bit and no other becomes set, and no byte beyond the first eight changes.\<close>

theorem bitmap_allocate_lowest:
  assumes "\<exists>k < 64. \<not> is_bit_set m p k"
  shows "\<exists>k < 64. fst (bitmap_allocate m p) = int k \<and> \<not> is_bit_set m p k \<and>
    (\<forall>j < k. is_bit_set m p j) \<and>
    (\<forall>j < 64. is_bit_set (snd (bitmap_allocate m p)) p j \<longleftrightarrow> j = k \<or> is_bit_set m p j) \<and>
    (\<forall>x. x \<notin> span p 8 \<longrightarrow> snd (bitmap_allocate m p) x = m x)"
proof -
  from assms obtain k0 where k0: "k0 < 64" "\<not> is_bit_set m p k0" by blast
  then obtain k where k: "k < 64" "\<not> is_bit_set m p k" "\<forall>j < k. is_bit_set m p j"
    using exists_least_iff [of "\<lambda>k. \<not> is_bit_set m p k"] by (metis linorder_neqE_nat order.strict_trans)
  have al: "bitmap_allocate m p = (int k, bm_set_bit m p k)"
    using k by (rule allocate_loop_found)
  have "is_bit_set (bm_set_bit m p k) p j \<longleftrightarrow> j = k \<or> is_bit_set m p j" if "j < 64" for j
    using k(1) that by (intro is_bit_set_bm_set_bit) (erule order_less_trans, simp)+
  moreover have "bm_set_bit m p k x = m x" if "x \<notin> span p 8" for x
    using that k(1) by (intro bm_set_bit_other [of x p 8]) simp_all
  ultimately show ?thesis using k al by auto
qed

theorem bitmap_allocate_lowest_witness:
  "\<exists>k < 64. fst (bitmap_allocate (\<lambda>_. 0xC0) 0x1000) = int k \<and> \<not> is_bit_set (\<lambda>_. 0xC0) 0x1000 k \<and>
    (\<forall>j < k. is_bit_set (\<lambda>_. 0xC0) 0x1000 j) \<and>
    (\<forall>j < 64. is_bit_set (snd (bitmap_allocate (\<lambda>_. 0xC0) 0x1000)) 0x1000 j \<longleftrightarrow>
       j = k \<or> is_bit_set (\<lambda>_. 0xC0) 0x1000 j) \<and>
    (\<forall>x. x \<notin> span 0x1000 8 \<longrightarrow> snd (bitmap_allocate (\<lambda>_. 0xC0) 0x1000) x = 0xC0)"
proof -
  have "\<not> is_bit_set (\<lambda>_. 0xC0) 0x1000 2" by (simp add: is_bit_set_def bit_mask_def)
  then have "\<exists>k < 64. \<not> is_bit_set (\<lambda>_. 0xC0) 0x1000 k" by (intro exI [of _ 2]) simp
  from bitmap_allocate_lowest [OF this] show ?thesis .
qed

text \<open>With the first 64 bits set the allocator answers -1 and changes nothing, also when the
  page it searches has free bits after them: at most 64 ids are ever in use.\<close>

theorem bitmap_allocate_full:
  assumes "\<forall>k < 64. is_bit_set m p k"
  shows "bitmap_allocate m p = (-1, m)"
  using assms allocate_loop_skip [of 0 64 m p]
  by (simp add: bitmap_allocate_def allocate_loop.simps [of m p 64] sizeof_pointer_def)

theorem bitmap_allocate_full_witness:
  "bitmap_allocate (\<lambda>x. if x \<in> span 0x1000 8 then 0xFF else 0) 0x1000 =
     (-1, \<lambda>x. if x \<in> span 0x1000 8 then 0xFF else 0)"
proof (rule bitmap_allocate_full, intro allI impI)
  fix k :: nat assume "k < 64"
  have "bit (0xFF :: u8) n" if "n < 8" for n
    using that by (auto simp: less_Suc_eq numeral_eq_Suc)
  moreover have "0x1000 + of_nat (k div 8) \<in> span 0x1000 8"
    using \<open>k < 64\<close> by (intro add_of_nat_in_span) auto
  ultimately show "is_bit_set (\<lambda>x. if x \<in> span 0x1000 8 then 0xFF else 0) 0x1000 k"
    by (simp add: is_bit_set_iff)
qed

end
