(* ===== verification/Spinlock.thy ===== *)
theory Spinlock
  imports Prelude
begin

text \<open>
  \<^verbatim>\<open>kernel/lock.hpp\<close>: the spin lock. First the two operations as one core executes
  them, then the lock shared by any number of cores as a step relation.
\<close>

section \<open>The operations on one core\<close>

type_synonym lock_t = u8

text \<open>\<open>__atomic_test_and_set\<close>: whether the byte was set, and the byte set.\<close>

definition atomic_test_and_set :: "lock_t \<Rightarrow> bool \<times> lock_t" where
  "atomic_test_and_set l = (l \<noteq> 0, 1)"

text \<open>
  \<open>acquire\<close> spins until the test finds the lock clear. Run by a core while no other core
  writes the byte, it returns at once or never; \<open>None\<close> is "never".
\<close>

partial_function (option) acquire :: "lock_t \<Rightarrow> lock_t option" where
  "acquire l = (let (was_set, l') = atomic_test_and_set l in
     if was_set then acquire l' else Some l')"

declare acquire.simps [code]

definition release :: "lock_t \<Rightarrow> lock_t" where
  "release l = 0"

lemma acquire_free [simp]: "acquire 0 = Some 1"
  by (subst acquire.simps) (simp add: atomic_test_and_set_def)

lemma acquire_held:
  assumes "l \<noteq> 0"
  shows "acquire l = None"
proof (cases "acquire l")
  case (Some r)
  have "l = 0"
  proof (rule acquire.raw_induct [where P = "\<lambda>l r. l = 0", OF _ Some])
    fix f l r
    assume IH: "\<And>l r. f l = Some r \<Longrightarrow> l = 0"
      and eq: "(let (was_set, l') = atomic_test_and_set l in if was_set then f l' else Some l') = Some r"
    show "l = (0 :: u8)"
    proof (rule ccontr)
      assume "l \<noteq> 0"
      with eq have "f 1 = Some r" by (simp add: atomic_test_and_set_def)
      then have "(1 :: u8) = 0" by (rule IH)
      then show False by simp
    qed
  qed
  with assms show ?thesis by simp
qed

lemma acquire_eq_Some: "acquire l = Some l' \<longleftrightarrow> l = 0 \<and> l' = 1"
  by (cases "l = 0") (auto simp: acquire_held)

lemma release_0 [simp]: "release l = 0"
  by (simp add: release_def)

section \<open>The lock shared by the cores\<close>

text \<open>
  Every core is outside, spinning in \<open>acquire\<close>, or past it and holding the lock. A step is
  one atomic instruction of one core: entering \<open>acquire\<close>, one test-and-set of the loop,
  or the clear of \<open>release\<close>.
\<close>

datatype core_pc = Outside | Spinning | Holding

record lock_state =
  lock_byte :: lock_t
  core_pcs :: "nat \<Rightarrow> core_pc"

inductive lock_step :: "lock_state \<Rightarrow> nat \<Rightarrow> lock_state \<Rightarrow> bool" where
  enter: "core_pcs s c = Outside \<Longrightarrow>
    lock_step s c (s\<lparr>core_pcs := (core_pcs s)(c := Spinning)\<rparr>)"
| spin: "core_pcs s c = Spinning \<Longrightarrow> atomic_test_and_set (lock_byte s) = (True, l) \<Longrightarrow>
    lock_step s c (s\<lparr>lock_byte := l\<rparr>)"
| win: "core_pcs s c = Spinning \<Longrightarrow> atomic_test_and_set (lock_byte s) = (False, l) \<Longrightarrow>
    lock_step s c (s\<lparr>lock_byte := l, core_pcs := (core_pcs s)(c := Holding)\<rparr>)"
| leave: "core_pcs s c = Holding \<Longrightarrow>
    lock_step s c (s\<lparr>lock_byte := release (lock_byte s), core_pcs := (core_pcs s)(c := Outside)\<rparr>)"

definition lock_start :: lock_state where
  "lock_start = \<lparr>lock_byte = 0, core_pcs = (\<lambda>_. Outside)\<rparr>"

inductive lock_reachable :: "lock_state \<Rightarrow> bool" where
  start: "lock_reachable lock_start"
| step: "lock_reachable s \<Longrightarrow> lock_step s c t \<Longrightarrow> lock_reachable t"

text \<open>The byte is clear exactly when no core holds the lock, and at most one holds it.\<close>

definition lock_ok :: "lock_state \<Rightarrow> bool" where
  "lock_ok s \<longleftrightarrow> (\<forall>c d. core_pcs s c = Holding \<and> core_pcs s d = Holding \<longrightarrow> c = d) \<and>
     (lock_byte s = 0 \<longleftrightarrow> (\<forall>c. core_pcs s c \<noteq> Holding))"

lemma lock_step_ok: "lock_step s c t \<Longrightarrow> lock_ok s \<Longrightarrow> lock_ok t"
proof (induction rule: lock_step.induct)
  case (enter s c)
  then have "((core_pcs s)(c := Spinning)) d = Holding \<longleftrightarrow> core_pcs s d = Holding" for d by auto
  with enter show ?case by (simp add: lock_ok_def del: fun_upd_apply)
next
  case (spin s c l)
  then show ?case by (auto simp: lock_ok_def atomic_test_and_set_def)
next
  case (win s c l)
  then show ?case by (auto simp: lock_ok_def atomic_test_and_set_def)
next
  case (leave s c)
  then have "core_pcs s d \<noteq> Holding" if "d \<noteq> c" for d
    using that by (auto simp: lock_ok_def)
  then show ?case by (auto simp: lock_ok_def)
qed

lemma lock_reachable_ok: "lock_reachable s \<Longrightarrow> lock_ok s"
proof (induction rule: lock_reachable.induct)
  case start
  show ?case by (simp add: lock_ok_def lock_start_def)
next
  case (step s c t)
  then show ?case by (blast intro: lock_step_ok)
qed

text \<open>C22: two cores are never past \<open>acquire\<close> on the same lock, in any interleaving of their
  instructions, and as soon as no core holds the lock every spinning core can take it with its
  next instruction.\<close>

theorem spinlock_mutual_exclusion:
  assumes "lock_reachable s"
  shows "(core_pcs s c = Holding \<and> core_pcs s d = Holding \<longrightarrow> c = d) \<and>
    ((\<forall>e. core_pcs s e \<noteq> Holding) \<and> core_pcs s c = Spinning \<longrightarrow>
       (\<exists>t. lock_step s c t \<and> core_pcs t c = Holding))"
proof -
  have ok: "lock_ok s" using assms by (rule lock_reachable_ok)
  have "\<exists>t. lock_step s c t \<and> core_pcs t c = Holding"
    if "\<forall>e. core_pcs s e \<noteq> Holding" "core_pcs s c = Spinning"
  proof -
    have "atomic_test_and_set (lock_byte s) = (False, 1)"
      using ok that(1) by (auto simp: lock_ok_def atomic_test_and_set_def)
    from lock_step.win [OF that(2) this] show ?thesis by fastforce
  qed
  then show ?thesis using ok by (auto simp: lock_ok_def)
qed

theorem spinlock_mutual_exclusion_witness:
  "\<exists>s. lock_reachable s \<and> core_pcs s 0 = Spinning \<and>
     (\<exists>t. lock_step s 0 t \<and> core_pcs t 0 = Holding)"
proof -
  let ?s = "lock_start\<lparr>core_pcs := (core_pcs lock_start)(0 := Spinning)\<rparr>"
  have r: "lock_reachable ?s"
    by (rule lock_reachable.step [OF lock_reachable.start lock_step.enter]) (simp add: lock_start_def)
  have "core_pcs ?s 0 = Spinning" "\<forall>e. core_pcs ?s e \<noteq> Holding"
    by (simp_all add: lock_start_def)
  with spinlock_mutual_exclusion [OF r, of 0 0] r show ?thesis by blast
qed

end
