(* ===== verification/Pmm.thy ===== *)
theory Pmm
  imports Bitmap Spinlock
begin

text \<open>
  \<^verbatim>\<open>kernel/memory/pmm.cpp\<close>: the physical page allocator. Its static variables and
  the memory they point into form the record \<open>kmem\<close>; a bit of the bitmap is set when
  the page is in use. The bitmap itself lives in the memory it describes, so every
  operation is modelled on that memory, and that the allocator never hands out the pages
  of its own bitmap is an invariant (\<open>pmm_wf\<close>).
\<close>

section \<open>State\<close>

record kmem =
  mem :: mem
  bitmap :: u64
  bitmapSize :: nat
  lastUsablePage :: u64
  pmm_lock :: lock_t

record mmap_entry =
  mm_base :: u64
  mm_length :: u64
  mm_type :: u32

definition STIVALE2_MMAP_USABLE :: u32 where
  "STIVALE2_MMAP_USABLE = 1"

definition STIVALE2_MMAP_BOOTLOADER_RECLAIMABLE :: u32 where
  "STIVALE2_MMAP_BOOTLOADER_RECLAIMABLE = 0x1000"

definition STIVALE2_MMAP_KERNEL_AND_MODULES :: u32 where
  "STIVALE2_MMAP_KERNEL_AND_MODULES = 0x1001"

section \<open>PMM::init\<close>

text \<open>First loop: the highest end of a region that is usable or holds the kernel.\<close>

fun find_last_usable :: "mmap_entry list \<Rightarrow> u64 \<Rightarrow> u64" where
  "find_last_usable [] lastUsable = lastUsable"
| "find_last_usable (e # es) lastUsable =
     (if mm_type e \<noteq> STIVALE2_MMAP_USABLE \<and> mm_type e \<noteq> STIVALE2_MMAP_KERNEL_AND_MODULES
      then find_last_usable es lastUsable
      else let top = mm_base e + mm_length e
           in find_last_usable es (if top > lastUsable then top else lastUsable))"

text \<open>
  Second loop: the bitmap goes to the start of the first large enough region, which is
  shortened by the pages the bitmap takes. Without such a region nothing happens.
\<close>

fun place_bitmap :: "mmap_entry list \<Rightarrow> 'a kmem_scheme \<Rightarrow> mmap_entry list \<times> 'a kmem_scheme" where
  "place_bitmap [] s = ([], s)"
| "place_bitmap (e # es) s =
     (if (mm_type e \<noteq> STIVALE2_MMAP_USABLE \<and> mm_type e \<noteq> STIVALE2_MMAP_BOOTLOADER_RECLAIMABLE)
         \<or> unat (mm_length e) < bitmapSize s
      then let (es', s') = place_bitmap es s in (e # es', s')
      else let bm = mm_base e + PHYSICAL_BASE_ADDRESS;
               bitmapPages = DIV_CEIL (bitmapSize s) PAGE_SIZE;
               e' = e\<lparr>mm_base := mm_base e + of_nat (bitmapPages * PAGE_SIZE),
                      mm_length := mm_length e - of_nat (bitmapPages * PAGE_SIZE)\<rparr>
           in (e' # es, s\<lparr>bitmap := bm, mem := memset (mem s) bm 0xFF (bitmapSize s)\<rparr>))"

text \<open>
  Third loop: the pages of the usable and reclaimable regions are marked free. The inner
  loop runs to \<open>i <= pageNumber + length\<close>.
\<close>

fun mark_free :: "u64 \<Rightarrow> mmap_entry list \<Rightarrow> mem \<Rightarrow> mem" where
  "mark_free bm [] m = m"
| "mark_free bm (e # es) m =
     (if mm_type e \<noteq> STIVALE2_MMAP_USABLE \<and> mm_type e \<noteq> STIVALE2_MMAP_BOOTLOADER_RECLAIMABLE
      then mark_free bm es m
      else let pageNumber = unat (mm_base e) div PAGE_SIZE;
               len = unat (mm_length e) div PAGE_SIZE
           in mark_free bm es
                (fold (\<lambda>i m. bm_clear_bit m bm i) [pageNumber ..< Suc (pageNumber + len)] m))"

definition pmm_init :: "mmap_entry list \<Rightarrow> 'a kmem_scheme \<Rightarrow> mmap_entry list \<times> 'a kmem_scheme" where
  "pmm_init mmap s =
     (let lastUsable = find_last_usable mmap (lastUsablePage s);
          s1 = s\<lparr>lastUsablePage := lastUsable, bitmapSize := DIV_CEIL (unat lastUsable div PAGE_SIZE) 8\<rparr>;
          (mmap', s2) = place_bitmap mmap s1
      in (mmap', s2\<lparr>mem := mark_free (bitmap s2) mmap' (mem s2)\<rparr>))"

section \<open>PMM::alloc, PMM::free, PMM::get\_available\_memory\<close>

text \<open>The body of \<open>alloc\<close> once a run is found: mark the pages, clear them, release the lock.\<close>

definition take_pages :: "nat \<Rightarrow> nat \<Rightarrow> 'a kmem_scheme \<Rightarrow> u64 \<times> 'a kmem_scheme" where
  "take_pages page count s =
     (let m = fold (\<lambda>c m. bm_set_bit m (bitmap s) c) [page ..< page + count] (mem s);
          addr = of_nat (page * PAGE_SIZE) :: u64
      in (addr, s\<lparr>mem := memset m (addr + PHYSICAL_BASE_ADDRESS) 0 (count * PAGE_SIZE),
                  pmm_lock := release (pmm_lock s)\<rparr>))"

function alloc_loop :: "nat \<Rightarrow> nat \<Rightarrow> nat \<Rightarrow> 'a kmem_scheme \<Rightarrow> u64 \<times> 'a kmem_scheme" where
  "alloc_loop count i currentCount s =
     (if i < bitmapSize s * 8 then
        (if \<not> is_bit_set (mem s) (bitmap s) i then
           (if Suc currentCount = count then take_pages (i + 1 - count) count s
            else alloc_loop count (Suc i) (Suc currentCount) s)
         else alloc_loop count (Suc i) 0 s)
      else (0, s\<lparr>pmm_lock := release (pmm_lock s)\<rparr>))"
  by pat_completeness auto
termination
  by (relation "measure (\<lambda>(count, i, cur, s). bitmapSize s * 8 - i)") auto

declare alloc_loop.simps [simp del]

definition pmm_alloc :: "nat \<Rightarrow> 'a kmem_scheme \<Rightarrow> (u64 \<times> 'a kmem_scheme) option" where
  "pmm_alloc count s = do {
     l \<leftarrow> acquire (pmm_lock s);
     Some (alloc_loop count 0 0 (s\<lparr>pmm_lock := l\<rparr>))
   }"

definition pmm_free :: "u64 \<Rightarrow> nat \<Rightarrow> 'a kmem_scheme \<Rightarrow> 'a kmem_scheme option" where
  "pmm_free ptr count s = do {
     let page = unat ptr div PAGE_SIZE;
     l \<leftarrow> acquire (pmm_lock s);
     Some (s\<lparr>mem := fold (\<lambda>i m. bm_clear_bit m (bitmap s) i) [page ..< page + count] (mem s),
             pmm_lock := release l\<rparr>)
   }"

function available_loop :: "'a kmem_scheme \<Rightarrow> nat \<Rightarrow> nat \<Rightarrow> nat" where
  "available_loop s i free_pages =
     (if i < bitmapSize s * 8 then
        available_loop s (Suc i)
          (if \<not> is_bit_set (mem s) (bitmap s) i then Suc free_pages else free_pages)
      else free_pages)"
  by pat_completeness auto
termination
  by (relation "measure (\<lambda>(s, i, n). bitmapSize s * 8 - i)") auto

declare available_loop.simps [simp del]

definition get_available_memory :: "'a kmem_scheme \<Rightarrow> nat" where
  "get_available_memory s = available_loop s 0 0 * PAGE_SIZE"

section \<open>Pages, frames and the invariant\<close>

definition page_addr :: "nat \<Rightarrow> u64" where
  "page_addr i = of_nat (i * PAGE_SIZE)"

text \<open>The bytes of page \<open>i\<close>, as the kernel addresses them.\<close>

definition frame :: "nat \<Rightarrow> u64 set" where
  "frame i = span (PHYSICAL_BASE_ADDRESS + page_addr i) PAGE_SIZE"

definition free_page :: "'a kmem_scheme \<Rightarrow> nat \<Rightarrow> bool" where
  "free_page s i \<longleftrightarrow> i < bitmapSize s * 8 \<and> \<not> is_bit_set (mem s) (bitmap s) i"

definition free_run :: "'a kmem_scheme \<Rightarrow> nat \<Rightarrow> nat \<Rightarrow> bool" where
  "free_run s p n \<longleftrightarrow> (\<forall>i. p \<le> i \<and> i < p + n \<longrightarrow> free_page s i)"

definition bitmap_bytes :: "'a kmem_scheme \<Rightarrow> u64 set" where
  "bitmap_bytes s = span (bitmap s) (bitmapSize s)"

text \<open>The bitmap covers at most the 52-bit page numbers of the machine, and no free page holds a
  byte of the bitmap.\<close>

definition pmm_wf :: "'a kmem_scheme \<Rightarrow> bool" where
  "pmm_wf s \<longleftrightarrow> bitmapSize s \<le> 2 ^ 49 \<and>
     (\<forall>i. free_page s i \<longrightarrow> frame i \<inter> bitmap_bytes s = {})"

lemma pages_span:
  assumes "(p + n) * PAGE_SIZE \<le> 2 ^ 64"
  shows "span (PHYSICAL_BASE_ADDRESS + page_addr p) (n * PAGE_SIZE) = (\<Union>i \<in> {p ..< p + n}. frame i)"
  using assms
proof (induction n)
  case (Suc n)
  have "span (PHYSICAL_BASE_ADDRESS + page_addr p) (n * PAGE_SIZE + PAGE_SIZE) =
      span (PHYSICAL_BASE_ADDRESS + page_addr p) (n * PAGE_SIZE) \<union>
      span (PHYSICAL_BASE_ADDRESS + page_addr p + of_nat (n * PAGE_SIZE)) PAGE_SIZE"
    using Suc.prems by (intro span_split) (simp add: algebra_simps)
  moreover have "PHYSICAL_BASE_ADDRESS + page_addr p + of_nat (n * PAGE_SIZE) =
      PHYSICAL_BASE_ADDRESS + page_addr (p + n)"
    by (simp add: page_addr_def algebra_simps)
  moreover have "{p ..< p + Suc n} = insert (p + n) {p ..< p + n}" by auto
  ultimately show ?case using Suc by (auto simp: frame_def algebra_simps)
qed simp

lemma unat_page_addr:
  assumes "p < 2 ^ 52"
  shows "unat (page_addr p) = p * 4096"
proof -
  have "p * 4096 < 2 ^ 64" using assms by simp
  then show ?thesis unfolding page_addr_def PAGE_SIZE_def by (rule unat_of_nat64)
qed

lemma page_addr_inj:
  assumes "p < 2 ^ 52" "q < 2 ^ 52" "page_addr p = page_addr q"
  shows "p = q"
proof -
  have "p * 4096 = q * 4096"
    unfolding unat_page_addr [OF assms(1), symmetric] unat_page_addr [OF assms(2), symmetric]
    using assms(3) by (rule arg_cong)
  then show ?thesis by simp
qed

lemma frame_disjoint:
  assumes "i \<noteq> j" "i < 2 ^ 52" "j < 2 ^ 52"
  shows "frame i \<inter> frame j = {}"
proof -
  have *: "frame a \<inter> frame b = {}" if "a < b" "b < 2 ^ 52" for a b
  proof -
    have "a * 4096 + 4096 \<le> b * 4096" using that(1) by simp
    moreover have "b * 4096 + 4096 \<le> 2 ^ 64" using that(2) by simp
    ultimately show ?thesis
      unfolding frame_def page_addr_def PAGE_SIZE_def by (rule span_offset_disjoint)
  qed
  from assms show ?thesis
    using * [of i j] * [of j i] by (cases "i < j") auto
qed

lemma bitmap_byte: "i < bitmapSize s * 8 \<Longrightarrow> bitmap s + of_nat (i div 8) \<in> bitmap_bytes s"
  unfolding bitmap_bytes_def by (rule add_of_nat_in_span) auto

lemma fold_set_other:
  assumes "\<forall>i \<in> set is. i < 8 * n" and "x \<notin> span b n"
  shows "fold (\<lambda>i m. bm_set_bit m b i) is m x = m x"
  using assms by (induction "is" arbitrary: m) (auto simp: bm_set_bit_other [of x b n])

lemma fold_clear_other:
  assumes "\<forall>i \<in> set is. i < 8 * n" and "x \<notin> span b n"
  shows "fold (\<lambda>i m. bm_clear_bit m b i) is m x = m x"
  using assms by (induction "is" arbitrary: m) (auto simp: bm_clear_bit_other [of x b n])

lemma pmm_page_bounds:
  assumes "bitmapSize s \<le> 2 ^ 49" "i < bitmapSize s * 8"
  shows "i < 2 ^ 52" "i < 2 ^ 67"
  using assms by simp_all

section \<open>PMM::alloc takes the first fit\<close>

lemma free_run_bounds:
  assumes "free_run s p n" "0 < n" "i < p + n"
  shows "i < bitmapSize s * 8"
proof -
  have "free_page s (p + n - 1)" using assms(1,2) by (auto simp: free_run_def)
  then show ?thesis using assms(3) unfolding free_page_def by linarith
qed

lemma free_run_span:
  assumes "pmm_wf s" "free_run s p n" "0 < n"
  shows "span (PHYSICAL_BASE_ADDRESS + page_addr p) (n * PAGE_SIZE) = (\<Union>i \<in> {p ..< p + n}. frame i)"
    and "n * PAGE_SIZE \<le> 2 ^ 64"
proof -
  have "p + n - 1 < bitmapSize s * 8" using free_run_bounds [OF assms(2,3)] assms(3) by simp
  moreover have "bitmapSize s \<le> 562949953421312" using assms(1) by (simp add: pmm_wf_def)
  ultimately have "p + n \<le> 4503599627370496" using assms(3) by linarith
  then have "p + n \<le> 2 ^ 52" by simp
  then show "span (PHYSICAL_BASE_ADDRESS + page_addr p) (n * PAGE_SIZE) = (\<Union>i \<in> {p ..< p + n}. frame i)"
    by (intro pages_span) (simp add: PAGE_SIZE_def)
  show "n * PAGE_SIZE \<le> 2 ^ 64" using \<open>p + n \<le> 2 ^ 52\<close> by (simp add: PAGE_SIZE_def)
qed

text \<open>The bits after marking a run.\<close>

abbreviation mark_used :: "'a kmem_scheme \<Rightarrow> nat \<Rightarrow> nat \<Rightarrow> mem" where
  "mark_used s p n \<equiv> fold (\<lambda>c m. bm_set_bit m (bitmap s) c) [p ..< p + n] (mem s)"

lemma take_pages_mem:
  assumes "pmm_wf s" "free_run s p n" "0 < n" and t: "take_pages p n s = (addr, s')"
  shows "mem s' = (\<lambda>x. if x \<in> (\<Union>i \<in> {p ..< p + n}. frame i) then 0 else mark_used s p n x)"
  using t memset_fills [OF free_run_span(2) [OF assms(1-3)], of "mark_used s p n" "PHYSICAL_BASE_ADDRESS + page_addr p" 0]
  unfolding free_run_span(1) [OF assms(1-3)]
  by (auto simp: take_pages_def Let_def page_addr_def add.commute)

lemma take_pages_bits:
  assumes wf: "pmm_wf s" and run: "free_run s p n" "0 < n"
    and t: "take_pages p n s = (addr, s')" and j: "j < bitmapSize s * 8"
  shows "is_bit_set (mem s') (bitmap s) j \<longleftrightarrow> (p \<le> j \<and> j < p + n) \<or> is_bit_set (mem s) (bitmap s) j"
proof -
  have small: "bitmapSize s \<le> 2 ^ 49" using wf by (simp add: pmm_wf_def)
  have "x \<notin> (\<Union>i \<in> {p ..< p + n}. frame i)" if "x \<in> bitmap_bytes s" for x
    using wf run(1) that by (fastforce simp: pmm_wf_def free_run_def)
  then have "mem s' x = mark_used s p n x" if "x \<in> bitmap_bytes s" for x
    using that unfolding take_pages_mem [OF wf run t] by simp
  then have "is_bit_set (mem s') (bitmap s) j = is_bit_set (mark_used s p n) (bitmap s) j"
    using bitmap_byte [OF j] by (simp add: is_bit_set_def)
  also have "\<dots> \<longleftrightarrow> j \<in> set [p ..< p + n] \<or> is_bit_set (mem s) (bitmap s) j"
    using pmm_page_bounds(2) [OF small] free_run_bounds [OF run] j by (intro bm.test_fold_set) auto
  finally show ?thesis by simp
qed

lemma take_pages_spec:
  assumes wf: "pmm_wf s" and run: "free_run s p n" "0 < n"
    and t: "take_pages p n s = (addr, s')"
  shows "addr = page_addr p"
    and "free_page s' j \<longleftrightarrow> free_page s j \<and> \<not> (p \<le> j \<and> j < p + n)"
    and "x \<in> span (PHYSICAL_BASE_ADDRESS + addr) (n * PAGE_SIZE) \<Longrightarrow> mem s' x = 0"
    and "x \<notin> span (PHYSICAL_BASE_ADDRESS + addr) (n * PAGE_SIZE) \<Longrightarrow> x \<notin> bitmap_bytes s \<Longrightarrow>
      mem s' x = mem s x"
    and "pmm_wf s'" and "bitmap s' = bitmap s" and "bitmapSize s' = bitmapSize s"
    and "pmm_lock s' = 0" and "kmem.more s' = kmem.more s"
proof -
  note m' = take_pages_mem [OF wf run t]
  show addr: "addr = page_addr p"
    and "pmm_lock s' = 0" and bm: "bitmap s' = bitmap s" and sz: "bitmapSize s' = bitmapSize s"
    and "kmem.more s' = kmem.more s"
    using t by (auto simp: take_pages_def Let_def page_addr_def)
  show "x \<in> span (PHYSICAL_BASE_ADDRESS + addr) (n * PAGE_SIZE) \<Longrightarrow> mem s' x = 0" for x
    by (simp only: addr free_run_span(1) [OF wf run] m' if_True)
  show "mem s' x = mem s x"
    if "x \<notin> span (PHYSICAL_BASE_ADDRESS + addr) (n * PAGE_SIZE)" "x \<notin> bitmap_bytes s" for x
  proof -
    have "mark_used s p n x = mem s x"
      using that(2) free_run_bounds [OF run]
      by (intro fold_set_other [where n = "bitmapSize s"]) (auto simp: bitmap_bytes_def mult.commute)
    then show ?thesis using that(1) unfolding addr free_run_span(1) [OF wf run] m' by simp
  qed
  show iff: "free_page s' j \<longleftrightarrow> free_page s j \<and> \<not> (p \<le> j \<and> j < p + n)" for j
    using take_pages_bits [OF wf run t, of j] by (auto simp: free_page_def bm sz)
  show "pmm_wf s'"
    using wf by (auto simp: pmm_wf_def iff sz bm bitmap_bytes_def)
qed

text \<open>The scan: \<open>cur\<close> free pages end just before \<open>i\<close>, the page before them is in use, and no
  run of the wanted length ends before \<open>i\<close>.\<close>

definition scan_inv :: "'a kmem_scheme \<Rightarrow> nat \<Rightarrow> nat \<Rightarrow> nat \<Rightarrow> bool" where
  "scan_inv s count i cur \<longleftrightarrow> cur < count \<and> cur \<le> i \<and> (\<forall>j. i - cur \<le> j \<and> j < i \<longrightarrow> free_page s j) \<and>
     (cur = i \<or> \<not> free_page s (i - cur - 1)) \<and> (\<forall>p. p + count \<le> i \<longrightarrow> \<not> free_run s p count)"

lemma scan_inv_free:
  assumes "scan_inv s count i cur" "free_page s i" "Suc cur \<noteq> count"
  shows "scan_inv s count (Suc i) (Suc cur)"
proof -
  have "\<not> free_run s p count" if "p + count \<le> Suc i" for p
  proof (cases "p + count = Suc i")
    case True
    then have "p \<le> i - cur - 1" "i - cur - 1 < p + count" "cur \<noteq> i"
      using assms unfolding scan_inv_def by linarith+
    then show ?thesis using assms(1) by (auto simp: scan_inv_def free_run_def)
  qed (use that assms(1) in \<open>auto simp: scan_inv_def\<close>)
  then show ?thesis using assms by (auto simp: scan_inv_def less_Suc_eq)
qed

lemma scan_inv_used:
  assumes "scan_inv s count i cur" "\<not> free_page s i"
  shows "scan_inv s count (Suc i) 0"
proof -
  have "\<not> free_run s p count" if "p + count \<le> Suc i" for p
  proof (cases "p + count = Suc i")
    case True
    then have "p \<le> i" "i < p + count" using assms(1) unfolding scan_inv_def by linarith+
    then show ?thesis using assms(2) by (auto simp: free_run_def)
  qed (use that assms(1) in \<open>auto simp: scan_inv_def\<close>)
  then show ?thesis using assms by (auto simp: scan_inv_def)
qed

lemma alloc_loop_finds:
  assumes "scan_inv s count i cur"
  shows "(\<exists>p. free_run s p count \<and> (\<forall>q < p. \<not> free_run s q count) \<and>
            alloc_loop count i cur s = take_pages p count s) \<or>
         ((\<forall>p. \<not> free_run s p count) \<and> alloc_loop count i cur s = (0, s\<lparr>pmm_lock := 0\<rparr>))"
  using assms
proof (induction count i cur s rule: alloc_loop.induct)
  case (1 count i cur s)
  note step = alloc_loop.simps [of count i cur s]
  consider "\<not> i < bitmapSize s * 8" | "i < bitmapSize s * 8" "\<not> free_page s i"
    | "free_page s i" "Suc cur \<noteq> count" | "free_page s i" "Suc cur = count"
    by (auto simp: free_page_def)
  then show ?case
  proof cases
    case 1
    have "\<not> free_run s p count" for p
    proof (cases "p + count \<le> i")
      case False
      then have "p \<le> max p i" "max p i < p + count" "\<not> free_page s (max p i)"
        using 1 "1.prems" unfolding scan_inv_def free_page_def by auto
      then show ?thesis unfolding free_run_def by blast
    qed (use "1.prems" in \<open>simp add: scan_inv_def\<close>)
    then show ?thesis using 1 by (simp add: step)
  next
    case 2
    then show ?thesis using "1.IH"(2) scan_inv_used [OF "1.prems"] by (simp add: step free_page_def)
  next
    case 3
    then show ?thesis using "1.IH"(1) scan_inv_free [OF "1.prems"] by (simp add: step free_page_def)
  next
    case 4
    have "free_run s (i + 1 - count) count"
      using 4 "1.prems" by (auto simp: free_run_def scan_inv_def less_Suc_eq)
    moreover have "\<not> free_run s q count" if "q < i + 1 - count" for q
      using that "1.prems" by (auto simp: scan_inv_def)
    ultimately show ?thesis using 4 by (auto simp: step free_page_def)
  qed
qed

text \<open>With the lock free the allocator always returns, whatever the bitmap holds, and leaves every
  field but the memory alone.\<close>

lemma alloc_loop_frame:
  "\<exists>p m. alloc_loop count i cur s = (page_addr p, s\<lparr>mem := m, pmm_lock := 0\<rparr>) \<and> p \<le> bitmapSize s * 8"
proof (induction count i cur s rule: alloc_loop.induct)
  case (1 count i cur s)
  consider "\<not> i < bitmapSize s * 8" | "i < bitmapSize s * 8" "is_bit_set (mem s) (bitmap s) i"
    | "i < bitmapSize s * 8" "\<not> is_bit_set (mem s) (bitmap s) i" "Suc cur = count"
    | "i < bitmapSize s * 8" "\<not> is_bit_set (mem s) (bitmap s) i" "Suc cur \<noteq> count" by blast
  then show ?case
  proof cases
    case 1
    then show ?thesis
      by (subst alloc_loop.simps) (auto intro!: exI [of _ 0] exI [of _ "mem s"] simp: page_addr_def)
  next
    case 2 then show ?thesis using "1.IH"(2) by (subst alloc_loop.simps) simp
  next
    case 3
    then show ?thesis
      by (subst alloc_loop.simps) (auto intro!: exI [of _ "i + 1 - count"] simp: take_pages_def page_addr_def Let_def)
  next
    case 4 then show ?thesis using "1.IH"(1) by (subst alloc_loop.simps) simp
  qed
qed

lemma pmm_alloc_returns:
  assumes "pmm_lock s = 0"
  shows "\<exists>p m. pmm_alloc count s = Some (page_addr p, s\<lparr>mem := m\<rparr>) \<and> p \<le> bitmapSize s * 8"
proof -
  obtain p m where "alloc_loop count 0 0 (s\<lparr>pmm_lock := 1\<rparr>) = (page_addr p, s\<lparr>mem := m, pmm_lock := 0\<rparr>)"
    "p \<le> bitmapSize s * 8"
    using alloc_loop_frame [of count 0 0 "s\<lparr>pmm_lock := 1\<rparr>"] by auto
  moreover have "s\<lparr>mem := m, pmm_lock := 0\<rparr> = s\<lparr>mem := m\<rparr>" using assms by (cases s) simp
  ultimately show ?thesis using assms by (auto simp: pmm_alloc_def)
qed

lemma only_mem_refl [simp]: "\<exists>m. s = s\<lparr>mem := m\<rparr>"
  by (intro exI [of _ "mem s"]) simp

lemma pmm_alloc_frame: "pmm_alloc k s = Some (a, s') \<Longrightarrow> \<exists>m. s' = s\<lparr>mem := m\<rparr>"
proof -
  assume al: "pmm_alloc k s = Some (a, s')"
  then have "pmm_lock s = 0" by (auto simp: pmm_alloc_def acquire_eq_Some split: Option.bind_splits)
  then show ?thesis using pmm_alloc_returns [of s k] al by auto
qed

lemma pmm_alloc_run:
  assumes "pmm_wf s" "pmm_lock s = 0" "0 < count"
    and "free_run s p count" "\<forall>q < p. \<not> free_run s q count"
  obtains s' where "pmm_alloc count s = Some (page_addr p, s')" "pmm_wf s'" "pmm_lock s' = 0"
    "\<And>j. free_page s' j \<longleftrightarrow> free_page s j \<and> \<not> (p \<le> j \<and> j < p + count)"
    "\<And>x. x \<in> span (PHYSICAL_BASE_ADDRESS + page_addr p) (count * PAGE_SIZE) \<Longrightarrow> mem s' x = 0"
    "\<And>x. x \<notin> span (PHYSICAL_BASE_ADDRESS + page_addr p) (count * PAGE_SIZE) \<Longrightarrow> x \<notin> bitmap_bytes s \<Longrightarrow>
       mem s' x = mem s x"
    "bitmap s' = bitmap s" "bitmapSize s' = bitmapSize s" "kmem.more s' = kmem.more s"
proof -
  let ?s = "s\<lparr>pmm_lock := 1\<rparr>"
  have eqs: "free_page ?s = free_page s" "bitmap_bytes ?s = bitmap_bytes s" "free_run ?s = free_run s"
    by (auto simp: fun_eq_iff free_page_def bitmap_bytes_def free_run_def)
  have wf: "pmm_wf ?s" using assms(1) by (simp add: pmm_wf_def eqs)
  have "scan_inv ?s count 0 0" using assms(3) by (simp add: scan_inv_def)
  from alloc_loop_finds [OF this] assms(4,5) have "alloc_loop count 0 0 ?s = take_pages p count ?s"
    unfolding eqs by (metis linorder_neqE_nat)
  moreover obtain addr s' where t: "take_pages p count ?s = (addr, s')" by fastforce
  ultimately have "pmm_alloc count s = Some (addr, s')" using assms(2) by (simp add: pmm_alloc_def)
  moreover have run: "free_run ?s p count" using assms(4) by (simp only: eqs)
  moreover note take_pages_spec [OF wf run assms(3) t]
  ultimately show ?thesis by (intro that [of s']) (simp_all add: eqs)
qed

text \<open>C9: \<open>PMM::alloc\<close> takes the lowest run of \<open>count\<close> consecutive free pages: it returns the
  address of its first page, marks exactly those pages used, fills exactly them with zeros, leaves
  every other byte outside the bitmap as it was, keeps the allocator's invariant and releases the
  lock.\<close>

theorem pmm_alloc_first_fit:
  assumes "pmm_wf s" "pmm_lock s = 0" "0 < count"
    and "free_run s p count" "\<forall>q < p. \<not> free_run s q count"
  shows "\<exists>s'. pmm_alloc count s = Some (page_addr p, s') \<and> pmm_wf s' \<and> pmm_lock s' = 0 \<and>
    (\<forall>j. free_page s' j \<longleftrightarrow> free_page s j \<and> \<not> (p \<le> j \<and> j < p + count)) \<and>
    (\<forall>x. x \<in> span (PHYSICAL_BASE_ADDRESS + page_addr p) (count * PAGE_SIZE) \<longrightarrow> mem s' x = 0) \<and>
    (\<forall>x. x \<notin> span (PHYSICAL_BASE_ADDRESS + page_addr p) (count * PAGE_SIZE) \<and> x \<notin> bitmap_bytes s \<longrightarrow>
       mem s' x = mem s x)"
  using pmm_alloc_run [OF assms] by metis

text \<open>An allocator with eight free pages whose bitmap byte lies at one megabyte.\<close>

definition pmm_sample :: kmem where
  "pmm_sample = \<lparr>mem = (\<lambda>_. 0), bitmap = PHYSICAL_BASE_ADDRESS + 0x100000, bitmapSize = 1,
     lastUsablePage = 0x8000, pmm_lock = 0\<rparr>"

lemma pmm_sample_free: "free_page pmm_sample i \<longleftrightarrow> i < 8"
  by (auto simp: free_page_def pmm_sample_def is_bit_set_def)

lemma pmm_sample_lock [simp]: "pmm_lock pmm_sample = 0"
  by (simp add: pmm_sample_def)

lemma pmm_sample_wf: "pmm_wf pmm_sample"
proof -
  have "frame i \<inter> bitmap_bytes pmm_sample = {}" if "i < 8" for i
  proof -
    have "span (PHYSICAL_BASE_ADDRESS + of_nat (i * 4096)) 4096 \<inter>
        span (PHYSICAL_BASE_ADDRESS + of_nat 0x100000) 1 = {}"
      by (rule span_offset_disjoint) (use that in auto)
    then show ?thesis by (simp add: frame_def page_addr_def PAGE_SIZE_def bitmap_bytes_def pmm_sample_def)
  qed
  then show ?thesis by (simp add: pmm_wf_def pmm_sample_free) (simp add: pmm_sample_def)
qed

theorem pmm_alloc_first_fit_witness:
  "\<exists>s'. pmm_alloc 2 pmm_sample = Some (page_addr 0, s') \<and> pmm_wf s' \<and> free_page s' 2 \<and> \<not> free_page s' 1"
proof -
  have "free_run pmm_sample 0 2" by (simp add: free_run_def pmm_sample_free)
  then obtain s' where "pmm_alloc 2 pmm_sample = Some (page_addr 0, s')" "pmm_wf s'"
      "\<forall>j. free_page s' j \<longleftrightarrow> free_page pmm_sample j \<and> \<not> (0 \<le> j \<and> j < 0 + 2)"
    using pmm_alloc_first_fit [OF pmm_sample_wf, of 2 0] by auto
  then show ?thesis by (auto simp: pmm_sample_free)
qed

text \<open>When no run of \<open>count\<close> free pages exists, \<open>PMM::alloc\<close> returns the null pointer and
  changes neither memory nor bitmap; the lock is released on this path too.\<close>

theorem pmm_alloc_exhausted:
  assumes "pmm_lock s = 0" "0 < count" "\<forall>p. \<not> free_run s p count"
  shows "pmm_alloc count s = Some (0, s)"
proof -
  let ?s = "s\<lparr>pmm_lock := 1\<rparr>"
  have eqs: "free_run ?s = free_run s" by (auto simp: fun_eq_iff free_page_def free_run_def)
  have "scan_inv ?s count 0 0" using assms(2) by (simp add: scan_inv_def)
  from alloc_loop_finds [OF this] assms(3) have "alloc_loop count 0 0 ?s = (0, ?s\<lparr>pmm_lock := 0\<rparr>)"
    unfolding eqs by blast
  then show ?thesis using assms(1) by (simp add: pmm_alloc_def)
qed

theorem pmm_alloc_exhausted_witness:
  "pmm_alloc 1 \<lparr>mem = (\<lambda>_. 0xFF), bitmap = 0x1000, bitmapSize = 1, lastUsablePage = 0x8000, pmm_lock = 0\<rparr> =
     Some (0, \<lparr>mem = (\<lambda>_. 0xFF), bitmap = 0x1000, bitmapSize = 1, lastUsablePage = 0x8000, pmm_lock = 0\<rparr>)"
proof (rule pmm_alloc_exhausted)
  have "bit (0xFF :: u8) n" if "n < 8" for n
    using that by (auto simp: less_Suc_eq numeral_eq_Suc)
  then have "is_bit_set (\<lambda>_. 0xFF) p i" for p i by (simp add: is_bit_set_iff)
  then show "\<forall>p. \<not> free_run \<lparr>mem = (\<lambda>_. 0xFF), bitmap = 0x1000, bitmapSize = 1, lastUsablePage = 0x8000, pmm_lock = 0\<rparr> p 1"
    by (auto simp: free_run_def free_page_def)
qed simp_all

section \<open>PMM::free and the free-page count\<close>

lemma pmm_free_spec:
  assumes wf: "pmm_wf s" and lock: "pmm_lock s = 0"
    and lim: "p + n \<le> bitmapSize s * 8"
    and apart: "\<And>i. p \<le> i \<Longrightarrow> i < p + n \<Longrightarrow> frame i \<inter> bitmap_bytes s = {}"
  obtains s' where "pmm_free (page_addr p) n s = Some s'" "pmm_wf s'" "pmm_lock s' = 0"
    "\<And>j. free_page s' j \<longleftrightarrow> free_page s j \<or> (p \<le> j \<and> j < p + n)"
    "\<And>x. x \<notin> bitmap_bytes s \<Longrightarrow> mem s' x = mem s x"
    "bitmap s' = bitmap s" "bitmapSize s' = bitmapSize s" "kmem.more s' = kmem.more s"
proof -
  define m where "m = fold (\<lambda>i m. bm_clear_bit m (bitmap s) i) [p ..< p + n] (mem s)"
  define s' where "s' = s\<lparr>mem := m, pmm_lock := 0\<rparr>"
  have small: "bitmapSize s \<le> 2 ^ 49" using wf by (simp add: pmm_wf_def)
  have "p * 4096 < 2 ^ 64 \<or> n = 0" using lim small by (cases n) auto
  then have run: "[unat (page_addr p) div PAGE_SIZE ..< unat (page_addr p) div PAGE_SIZE + n] = [p ..< p + n]"
    by (auto simp: page_addr_def PAGE_SIZE_def unat_of_nat64 simp del: of_nat_mult)
  then have eq: "pmm_free (page_addr p) n s = Some s'"
    using lock by (simp add: pmm_free_def s'_def m_def)
  have iff: "free_page s' j \<longleftrightarrow> free_page s j \<or> (p \<le> j \<and> j < p + n)" for j
  proof (cases "j < bitmapSize s * 8")
    case True
    have "is_bit_set m (bitmap s) j \<longleftrightarrow> j \<notin> set [p ..< p + n] \<and> is_bit_set (mem s) (bitmap s) j"
      unfolding m_def using pmm_page_bounds(2) [OF small] lim True by (intro bm.test_fold_clear) auto
    then show ?thesis using True by (auto simp: free_page_def s'_def)
  qed (use lim in \<open>auto simp: free_page_def s'_def\<close>)
  have "mem s' x = mem s x" if "x \<notin> bitmap_bytes s" for x
    using that lim unfolding s'_def m_def bitmap_bytes_def
    by simp (rule fold_clear_other [where n = "bitmapSize s"], auto)
  moreover have "pmm_wf s'"
    using wf apart by (auto simp: pmm_wf_def iff bitmap_bytes_def) (auto simp: s'_def)
  ultimately show ?thesis using eq iff by (intro that [of s']) (simp_all add: s'_def)
qed

lemma available_loop_card:
  "available_loop s i n = n + card {j. i \<le> j \<and> free_page s j}"
proof (induction s i n rule: available_loop.induct)
  case (1 s i n)
  show ?case
  proof (cases "i < bitmapSize s * 8")
    case True
    have fin: "finite {j. Suc i \<le> j \<and> free_page s j}"
      by (rule finite_subset [of _ "{..< bitmapSize s * 8}"]) (auto simp: free_page_def)
    have "{j. i \<le> j \<and> free_page s j} =
        (if free_page s i then insert i else (\<lambda>X. X)) {j. Suc i \<le> j \<and> free_page s j}"
      by (auto simp: Suc_le_eq order_le_less)
    moreover have "available_loop s i n =
        available_loop s (Suc i) (if free_page s i then Suc n else n)"
      using True by (simp add: available_loop.simps [of s i n] free_page_def)
    ultimately show ?thesis using "1.IH" True fin by (simp add: free_page_def)
  next
    case False
    then have "{j. i \<le> j \<and> free_page s j} = {}" by (auto simp: free_page_def)
    moreover have "available_loop s i n = n" using False by (simp add: available_loop.simps [of s i n])
    ultimately show ?thesis by (simp only: card.empty add_0_right)
  qed
qed

lemma available_card: "get_available_memory s = card {j. free_page s j} * PAGE_SIZE"
  by (simp add: get_available_memory_def available_loop_card)

text \<open>C19: giving back what \<open>PMM::alloc\<close> returned restores the set of free pages, and the free memory
  the kernel reports goes down by exactly \<open>count\<close> pages and up again.\<close>

theorem pmm_alloc_free_roundtrip:
  assumes "pmm_wf s" "pmm_lock s = 0" "0 < count" "free_run s p0 count"
  shows "\<exists>a s' s''. pmm_alloc count s = Some (a, s') \<and> pmm_free a count s' = Some s'' \<and>
    (\<forall>j. free_page s'' j = free_page s j) \<and> pmm_wf s'' \<and>
    get_available_memory s = get_available_memory s' + count * PAGE_SIZE \<and>
    get_available_memory s'' = get_available_memory s"
proof -
  obtain p where p: "free_run s p count" "\<forall>q < p. \<not> free_run s q count"
    using assms(4) exists_least_iff [of "\<lambda>p. free_run s p count"] by blast
  obtain s' where s': "pmm_alloc count s = Some (page_addr p, s')" "pmm_wf s'" "pmm_lock s' = 0"
    "\<And>j. free_page s' j \<longleftrightarrow> free_page s j \<and> \<not> (p \<le> j \<and> j < p + count)"
    "bitmap s' = bitmap s" "bitmapSize s' = bitmapSize s"
    by (rule pmm_alloc_run [OF assms(1-3) p]) (rule that)
  have apart: "frame i \<inter> bitmap_bytes s' = {}" if "p \<le> i" "i < p + count" for i
    using that assms(1) p(1) s'(5,6) by (auto simp: pmm_wf_def free_run_def bitmap_bytes_def)
  have lim: "p + count \<le> bitmapSize s' * 8"
    using free_run_bounds [OF p(1) assms(3), of "p + count - 1"] assms(3) s'(6) by simp
  obtain s'' where s'': "pmm_free (page_addr p) count s' = Some s''" "pmm_wf s''"
    "\<And>j. free_page s'' j \<longleftrightarrow> free_page s' j \<or> (p \<le> j \<and> j < p + count)"
    by (rule pmm_free_spec [OF s'(2,3) lim]) (erule (1) apart, rule that)
  have same: "free_page s'' = free_page s"
    using s'(4) s''(3) p(1) by (auto simp: free_run_def fun_eq_iff)
  have "{j. free_page s j} = {j. free_page s' j} \<union> {p ..< p + count}"
    using s'(4) p(1) by (auto simp: free_run_def)
  moreover have "{j. free_page s' j} \<inter> {p ..< p + count} = {}" using s'(4) by auto
  moreover have "finite {j. free_page s' j}"
    by (rule finite_subset [of _ "{..< bitmapSize s' * 8}"]) (auto simp: free_page_def)
  ultimately have "card {j. free_page s j} = card {j. free_page s' j} + count"
    by (simp add: card_Un_disjoint)
  then have "get_available_memory s = get_available_memory s' + count * PAGE_SIZE"
    by (simp only: available_card add_mult_distrib)
  then show ?thesis using s'(1) s''(1,2) by (auto simp: available_card same)
qed

theorem pmm_alloc_free_roundtrip_witness:
  "\<exists>a s' s''. pmm_alloc 3 pmm_sample = Some (a, s') \<and> pmm_free a 3 s' = Some s'' \<and>
    (\<forall>j. free_page s'' j = free_page pmm_sample j) \<and> pmm_wf s'' \<and>
    get_available_memory pmm_sample = get_available_memory s' + 3 * PAGE_SIZE \<and>
    get_available_memory s'' = get_available_memory pmm_sample"
  by (rule pmm_alloc_free_roundtrip [OF pmm_sample_wf, of 3 0])
    (simp_all add: free_run_def pmm_sample_free)

section \<open>The interface the page tables rely on\<close>

text \<open>An allocator of single zeroed frames over some bookkeeping bytes, and what follows for any
  client that keeps data in frames it was given.\<close>

definition pages_ok :: "'a kmem_scheme \<Rightarrow> bool" where
  "pages_ok s \<longleftrightarrow> pmm_wf s \<and> pmm_lock s = 0 \<and> bitmapSize s \<le> 2 ^ 31"

text \<open>Below 64 TiB the direct map does not wrap around.\<close>

lemma direct_map:
  assumes "r < 2 ^ 34"
  shows "unat (PHYSICAL_BASE_ADDRESS + page_addr r) = unat PHYSICAL_BASE_ADDRESS + r * 4096"
    and "PHYSICAL_BASE_ADDRESS + page_addr r \<noteq> 0"
proof -
  show u: "unat (PHYSICAL_BASE_ADDRESS + page_addr r) = unat PHYSICAL_BASE_ADDRESS + r * 4096"
    unfolding page_addr_def PAGE_SIZE_def using assms
    by (intro unat_add_of_nat) (simp add: PHYSICAL_BASE_ADDRESS_def)
  then show "PHYSICAL_BASE_ADDRESS + page_addr r \<noteq> 0"
    by (auto simp: PHYSICAL_BASE_ADDRESS_def simp flip: unat_eq_zero)
qed

locale frame_allocator =
  fixes alloc :: "'s \<Rightarrow> (u64 \<times> 's) option"
    and inv :: "'s \<Rightarrow> bool"
    and free :: "'s \<Rightarrow> nat \<Rightarrow> bool"
    and bytes :: "'s \<Rightarrow> mem"
    and meta :: "'s \<Rightarrow> u64 set"
  assumes alloc_frame: "inv s \<Longrightarrow> free s q \<Longrightarrow>
      \<exists>p s'. alloc s = Some (page_addr p, s') \<and> free s p \<and> inv s' \<and> meta s' = meta s \<and>
        (\<forall>j. free s' j \<longleftrightarrow> free s j \<and> j \<noteq> p) \<and> (\<forall>x \<in> frame p. bytes s' x = 0) \<and>
        (\<forall>x. x \<notin> frame p \<and> x \<notin> meta s \<longrightarrow> bytes s' x = bytes s x)"
    and free_apart: "inv s \<Longrightarrow> free s i \<Longrightarrow> frame i \<inter> meta s = {}"
    and free_bound: "inv s \<Longrightarrow> free s i \<Longrightarrow> i < 2 ^ 34"
begin

lemma alloc_keeps_used_frame:
  assumes "inv s" "free s q" "\<not> free s j" "j < 2 ^ 52" "frame j \<inter> meta s = {}"
    and "alloc s = Some (a, s')" "x \<in> frame j"
  shows "bytes s' x = bytes s x"
proof -
  obtain p s'' where p: "alloc s = Some (page_addr p, s'')" "free s p"
    "\<forall>x. x \<notin> frame p \<and> x \<notin> meta s \<longrightarrow> bytes s'' x = bytes s x"
    using alloc_frame [OF assms(1,2)] by blast
  have "p \<noteq> j" "p < 2 ^ 34" using p(2) assms(1,3) free_bound by auto
  then have "x \<notin> frame p" using frame_disjoint [of p j] assms(4,7) by auto
  then show ?thesis using p(1,3) assms(5,6,7) by auto
qed

lemma alloc_never_twice:
  assumes "inv s" "free s q" "alloc s = Some (a, s')" "free s' q'" "alloc s' = Some (b, s'')"
  shows "a \<noteq> b"
proof -
  obtain p t where p: "alloc s = Some (page_addr p, t)" "free s p" "inv t"
    "\<forall>j. free t j \<longleftrightarrow> free s j \<and> j \<noteq> p"
    using alloc_frame [OF assms(1,2)] by blast
  then have t: "t = s'" "a = page_addr p" using assms(3) by auto
  obtain r u where r: "alloc s' = Some (page_addr r, u)" "free s' r"
    using alloc_frame [of s' q'] assms(4) p(3) t by blast
  have "r \<noteq> p" "r < 2 ^ 34" "p < 2 ^ 34"
    using p r(2) t free_bound assms(1) by auto
  then have "page_addr r \<noteq> page_addr p" using page_addr_inj [of r p] by auto
  then show ?thesis using r(1) t(2) assms(5) by auto
qed

end

interpretation pa: frame_allocator "pmm_alloc 1" pages_ok free_page mem bitmap_bytes
proof
  fix s :: "'a kmem_scheme" and q
  assume ok: "pages_ok s" and q: "free_page s q"
  have inv: "pmm_wf s \<and> pmm_lock s = 0" using ok by (simp add: pages_ok_def)
  have run: "free_run s p 1 \<longleftrightarrow> free_page s p" for p
    by (auto simp: free_run_def) (metis Suc_leI le_antisym less_Suc_eq_le)
  obtain p where p: "free_run s p 1" "\<forall>r < p. \<not> free_run s r 1"
    using q exists_least_iff [of "free_page s"] unfolding run by blast
  obtain s' where s': "pmm_alloc 1 s = Some (page_addr p, s')" "pmm_wf s'" "pmm_lock s' = 0"
    "\<And>j. free_page s' j \<longleftrightarrow> free_page s j \<and> \<not> (p \<le> j \<and> j < p + 1)"
    "\<And>x. x \<in> span (PHYSICAL_BASE_ADDRESS + page_addr p) (1 * PAGE_SIZE) \<Longrightarrow> mem s' x = 0"
    "\<And>x. x \<notin> span (PHYSICAL_BASE_ADDRESS + page_addr p) (1 * PAGE_SIZE) \<Longrightarrow> x \<notin> bitmap_bytes s \<Longrightarrow>
       mem s' x = mem s x"
    "bitmap s' = bitmap s" "bitmapSize s' = bitmapSize s"
    by (rule pmm_alloc_run [OF conjunct1 [OF inv] conjunct2 [OF inv] zero_less_one p]) (rule that)
  have "free_page s' j \<longleftrightarrow> free_page s j \<and> j \<noteq> p" for j using s'(4) [of j] by auto
  moreover have "free_page s p" using p(1) run by simp
  ultimately show "\<exists>p s'. pmm_alloc 1 s = Some (page_addr p, s') \<and> free_page s p \<and>
      pages_ok s' \<and> bitmap_bytes s' = bitmap_bytes s \<and>
      (\<forall>j. free_page s' j \<longleftrightarrow> free_page s j \<and> j \<noteq> p) \<and> (\<forall>x \<in> frame p. mem s' x = 0) \<and>
      (\<forall>x. x \<notin> frame p \<and> x \<notin> bitmap_bytes s \<longrightarrow> mem s' x = mem s x)"
    using s' ok by (intro exI [of _ p] exI [of _ s']) (simp add: frame_def bitmap_bytes_def pages_ok_def)
next
  fix s :: "'a kmem_scheme" and i
  assume "pages_ok s" "free_page s i"
  then show "frame i \<inter> bitmap_bytes s = {}" and "i < 2 ^ 34"
    by (auto simp: pages_ok_def pmm_wf_def free_page_def)
qed

text \<open>A store outside the bitmap does not concern the allocator.\<close>

lemma pmm_store:
  assumes "\<And>x. x \<in> bitmap_bytes s \<Longrightarrow> m x = mem s x"
  shows "free_page (s\<lparr>mem := m\<rparr>) = free_page s" "pages_ok (s\<lparr>mem := m\<rparr>) = pages_ok s"
proof -
  have "is_bit_set m (bitmap s) i = is_bit_set (mem s) (bitmap s) i" if "i < bitmapSize s * 8" for i
    using assms [OF bitmap_byte [OF that]] by (simp add: is_bit_set_def)
  then show fp: "free_page (s\<lparr>mem := m\<rparr>) = free_page s" by (auto simp: fun_eq_iff free_page_def)
  show "pages_ok (s\<lparr>mem := m\<rparr>) = pages_ok s" by (simp add: pages_ok_def pmm_wf_def fp bitmap_bytes_def)
qed

section \<open>PMM::init\<close>

definition free_type :: "mmap_entry \<Rightarrow> bool" where
  "free_type e \<longleftrightarrow> mm_type e = STIVALE2_MMAP_USABLE \<or> mm_type e = STIVALE2_MMAP_BOOTLOADER_RECLAIMABLE"

text \<open>The page numbers the third loop clears for a region.\<close>

definition cleared_page :: "mmap_entry \<Rightarrow> nat \<Rightarrow> bool" where
  "cleared_page e j \<longleftrightarrow> free_type e \<and> unat (mm_base e) div PAGE_SIZE \<le> j \<and>
     j \<le> unat (mm_base e) div PAGE_SIZE + unat (mm_length e) div PAGE_SIZE"

lemma mark_free_bits:
  assumes "j < 2 ^ 67"
  shows "is_bit_set (mark_free bm es m) bm j \<longleftrightarrow>
    is_bit_set m bm j \<and> \<not> (\<exists>e \<in> set es. cleared_page e j)"
proof (induction es arbitrary: m)
  case (Cons e es)
  let ?pn = "unat (mm_base e) div PAGE_SIZE" and ?len = "unat (mm_length e) div PAGE_SIZE"
  have "unat (mm_base e) div 4096 < 2 ^ 64" "unat (mm_length e) div 4096 < 2 ^ 64"
    using unat_u64_less div_le_dividend order_le_less_trans by blast+
  then have "i < 2 ^ 67" if "i < Suc (?pn + ?len)" for i
    using that by (simp add: PAGE_SIZE_def)
  then have "is_bit_set (fold (\<lambda>i m. bm_clear_bit m bm i) [?pn ..< Suc (?pn + ?len)] m) bm j \<longleftrightarrow>
      j \<notin> set [?pn ..< Suc (?pn + ?len)] \<and> is_bit_set m bm j"
    using assms by (intro bm.test_fold_clear) auto
  then show ?case
    using Cons.IH by (auto simp: Let_def cleared_page_def free_type_def simp del: upt_Suc)
qed simp

lemma place_bitmap_fills:
  assumes "\<exists>e \<in> set es. free_type e \<and> bitmapSize s \<le> unat (mm_length e)"
    and "bitmapSize s \<le> 2 ^ 64" and "place_bitmap es s = (es', s')"
  shows "bitmapSize s' = bitmapSize s \<and> (\<forall>x \<in> bitmap_bytes s'. mem s' x = 0xFF)"
  using assms
proof (induction es arbitrary: es')
  case (Cons e es)
  show ?case
  proof (cases "free_type e \<and> bitmapSize s \<le> unat (mm_length e)")
    case True
    then show ?thesis using Cons.prems
      by (auto simp: Let_def free_type_def memset_fills bitmap_bytes_def)
  next
    case False
    then obtain es'' where "place_bitmap es s = (es'', s')"
      using Cons.prems(3) by (auto simp: Let_def free_type_def split: prod.splits if_splits)
    then show ?thesis using Cons.IH Cons.prems(1,2) False by auto
  qed
qed simp

lemma bit_FF: "n < 8 \<Longrightarrow> bit (0xFF :: u8) n"
  by (auto simp: less_Suc_eq numeral_eq_Suc)

lemma DIV_CEIL_pages_small: "DIV_CEIL (unat (a :: u64) div PAGE_SIZE) 8 \<le> 2 ^ 49"
proof -
  have "unat a div 4096 < 2 ^ 52" using unat_u64_less [of a] by simp
  then show ?thesis by (simp add: DIV_CEIL_def PAGE_SIZE_def)
qed

lemma pmm_init_free_iff:
  assumes "pmm_init mmap s = (mmap', s')"
    and "\<exists>e \<in> set mmap. free_type e \<and>
      DIV_CEIL (unat (find_last_usable mmap (lastUsablePage s)) div PAGE_SIZE) 8 \<le> unat (mm_length e)"
  shows "free_page s' j \<longleftrightarrow> j < bitmapSize s' * 8 \<and> (\<exists>e \<in> set mmap'. cleared_page e j)"
proof -
  let ?lu = "find_last_usable mmap (lastUsablePage s)"
  let ?s1 = "s\<lparr>lastUsablePage := ?lu, bitmapSize := DIV_CEIL (unat ?lu div PAGE_SIZE) 8\<rparr>"
  obtain s2 where pb: "place_bitmap mmap ?s1 = (mmap', s2)"
    and s': "s' = s2\<lparr>mem := mark_free (bitmap s2) mmap' (mem s2)\<rparr>"
    using assms(1) by (auto simp: pmm_init_def Let_def split: prod.splits)
  have small: "bitmapSize ?s1 \<le> 2 ^ 49" using DIV_CEIL_pages_small by simp
  then have "bitmapSize ?s1 \<le> 2 ^ 64" by simp
  from place_bitmap_fills [OF _ this pb] assms(2)
  have sz: "bitmapSize s2 = bitmapSize ?s1" and ff: "\<forall>x \<in> bitmap_bytes s2. mem s2 x = 0xFF"
    by auto
  have "is_bit_set (mem s2) (bitmap s2) j" if "j < bitmapSize s2 * 8"
  proof -
    have "mem s2 (bitmap s2 + of_nat (j div 8)) = 0xFF" using ff bitmap_byte [OF that] by blast
    then show ?thesis unfolding is_bit_set_iff by (simp only: bit_FF)
  qed
  moreover have "j < 2 ^ 67" if "j < bitmapSize s2 * 8"
    using that small sz by simp
  ultimately show ?thesis
    using mark_free_bits [of j "bitmap s2" mmap' "mem s2"] by (auto simp: free_page_def s')
qed

text \<open>A memory map: sixteen usable pages, sixteen reserved ones, and the kernel's.\<close>

definition sample_mmap :: "mmap_entry list" where
  "sample_mmap =
     [\<lparr>mm_base = 0, mm_length = 0x10000, mm_type = 1\<rparr>,
      \<lparr>mm_base = 0x10000, mm_length = 0x10000, mm_type = 2\<rparr>,
      \<lparr>mm_base = 0x20000, mm_length = 0x10000, mm_type = 0x1001\<rparr>]"

lemma sample_mmap_fits:
  "\<exists>e \<in> set sample_mmap. free_type e \<and>
     DIV_CEIL (unat (find_last_usable sample_mmap (lastUsablePage pmm_sample)) div PAGE_SIZE) 8 \<le> unat (mm_length e)"
  by (simp add: sample_mmap_def pmm_sample_def free_type_def STIVALE2_MMAP_USABLE_def
      STIVALE2_MMAP_KERNEL_AND_MODULES_def DIV_CEIL_def PAGE_SIZE_def Let_def)

lemma sample_mmap_init:
  "fst (pmm_init sample_mmap pmm_sample) =
     [\<lparr>mm_base = 0x1000, mm_length = 0xF000, mm_type = 1\<rparr>,
      \<lparr>mm_base = 0x10000, mm_length = 0x10000, mm_type = 2\<rparr>,
      \<lparr>mm_base = 0x20000, mm_length = 0x10000, mm_type = 0x1001\<rparr>]"
  "bitmapSize (snd (pmm_init sample_mmap pmm_sample)) = 6"
  by (simp_all add: pmm_init_def sample_mmap_def pmm_sample_def STIVALE2_MMAP_USABLE_def
      STIVALE2_MMAP_KERNEL_AND_MODULES_def STIVALE2_MMAP_BOOTLOADER_RECLAIMABLE_def DIV_CEIL_def
      PAGE_SIZE_def Let_def)

text \<open>After \<open>PMM::init\<close>, given a region large enough for the bitmap, a page below the bitmap's
  limit is free exactly when it lies in a usable or reclaimable region of the (shortened) memory
  map, counting from the first page of the region up to and including the page after its last
  one.\<close>

theorem pmm_init_free_pages:
  assumes "pmm_init mmap s = (mmap', s')"
    and "\<exists>e \<in> set mmap. free_type e \<and>
      DIV_CEIL (unat (find_last_usable mmap (lastUsablePage s)) div PAGE_SIZE) 8 \<le> unat (mm_length e)"
  shows "free_page s' j \<longleftrightarrow> j < bitmapSize s' * 8 \<and> (\<exists>e \<in> set mmap'. cleared_page e j)"
  using assms by (rule pmm_init_free_iff)

theorem pmm_init_free_pages_witness:
  "free_page (snd (pmm_init sample_mmap pmm_sample)) 1 \<and> \<not> free_page (snd (pmm_init sample_mmap pmm_sample)) 0"
  using pmm_init_free_pages [OF surjective_pairing sample_mmap_fits, of 0]
    pmm_init_free_pages [OF surjective_pairing sample_mmap_fits, of 1]
  by (simp add: sample_mmap_init cleared_page_def free_type_def STIVALE2_MMAP_USABLE_def
      STIVALE2_MMAP_BOOTLOADER_RECLAIMABLE_def PAGE_SIZE_def)

text \<open>\<open>PMM::init\<close> also marks the page that follows each usable region as free, whatever the
  memory map says about it; in the sample map it is the first page of a reserved region.\<close>

theorem pmm_init_frees_page_after_region:
  assumes "pmm_init mmap s = (mmap', s')"
    and "\<exists>e \<in> set mmap. free_type e \<and>
      DIV_CEIL (unat (find_last_usable mmap (lastUsablePage s)) div PAGE_SIZE) 8 \<le> unat (mm_length e)"
    and "e \<in> set mmap'" "free_type e"
    and "j = unat (mm_base e) div PAGE_SIZE + unat (mm_length e) div PAGE_SIZE"
    and "j < bitmapSize s' * 8"
  shows "free_page s' j"
  using pmm_init_free_iff [OF assms(1,2)] assms(3-6) by (auto simp: cleared_page_def)

theorem pmm_init_frees_page_after_region_witness:
  "free_page (snd (pmm_init sample_mmap pmm_sample)) 16 \<and>
     \<lparr>mm_base = 16 * 4096, mm_length = 0x10000, mm_type = 2\<rparr> \<in> set sample_mmap"
proof -
  let ?e = "\<lparr>mm_base = 0x1000, mm_length = 0xF000, mm_type = 1\<rparr>"
  have "?e \<in> set (fst (pmm_init sample_mmap pmm_sample))" by (simp add: sample_mmap_init)
  moreover have "free_type ?e" by (simp add: free_type_def STIVALE2_MMAP_USABLE_def)
  ultimately have "free_page (snd (pmm_init sample_mmap pmm_sample)) 16"
    by (rule pmm_init_frees_page_after_region [OF surjective_pairing sample_mmap_fits])
      (simp_all add: PAGE_SIZE_def sample_mmap_init)
  then show ?thesis by (simp add: sample_mmap_def)
qed

end
