(* ===== verification/Buddy_Heap.thy ===== *)
theory Buddy_Heap
  imports Pmm
begin

text \<open>
  \<^verbatim>\<open>kernel/memory/heap.cpp\<close>: the buddy allocator behind \<open>new\<close> and \<open>delete\<close>. Its
  free lists are linked through the headers of the free blocks, in the same memory the
  blocks are made of; \<open>Block** \<close> and \<open>Block* \<close> are addresses into that memory.
  A call that never returns (a null pointer is followed, a list is circular, the lock is
  held) is \<open>None\<close>.
\<close>

section \<open>State\<close>

record kheap = kmem +
  bucketList :: u64
  baseAddr :: u64
  heap_lock :: lock_t

definition INITIAL_PAGES :: nat where "INITIAL_PAGES = 256"
definition MAX_POWER :: nat where "MAX_POWER = 20"
definition MIN_POWER :: nat where "MIN_POWER = 4"

text \<open>\<open>struct Block\<close>: \<open>size\<close> at offset 0, \<open>next\<close> at 8, \<open>reserved\<close> at 16; 24 bytes with padding.\<close>

definition sizeof_Block :: nat where "sizeof_Block = 24"

definition blk_size :: "mem \<Rightarrow> u64 \<Rightarrow> u64" where
  "blk_size m b = read64 m b"

definition blk_next :: "mem \<Rightarrow> u64 \<Rightarrow> u64" where
  "blk_next m b = read64 m (b + 8)"

definition set_size :: "u64 \<Rightarrow> u64 \<Rightarrow> mem \<Rightarrow> mem" where
  "set_size b v m = write64 m b v"

definition set_next :: "u64 \<Rightarrow> u64 \<Rightarrow> mem \<Rightarrow> mem" where
  "set_next b v m = write64 m (b + 8) v"

text \<open>\<open>b->next\<close> with the fault on a null pointer.\<close>

definition next_of :: "mem \<Rightarrow> u64 \<Rightarrow> u64 option" where
  "next_of m b = (if b = 0 then None else Some (blk_next m b))"

text \<open>\<open>&bucketList[index]\<close> for a \<open>size_t\<close> index, which may have wrapped.\<close>

definition slot :: "u64 \<Rightarrow> u64 \<Rightarrow> u64" where
  "slot bl index = bl + 8 * index"

definition index_from_order :: "nat \<Rightarrow> u64" where
  "index_from_order order = of_nat MAX_POWER - of_nat order"

section \<open>find\_buddy\<close>

primrec walk :: "mem \<Rightarrow> u64 \<Rightarrow> nat \<Rightarrow> u64 option" where
  "walk m cur 0 = Some cur"
| "walk m cur (Suc i) = do { c \<leftarrow> next_of m cur; walk m c i }"

partial_function (option) find_index :: "mem \<Rightarrow> u64 \<Rightarrow> u64 \<Rightarrow> nat \<Rightarrow> int option" where
  "find_index m buddy cur i =
     (if cur = 0 then Some (-1)
      else if cur = buddy then Some (int i)
      else find_index m buddy (blk_next m cur) (Suc i))"

declare find_index.simps [code]

definition find_buddy :: "u64 \<Rightarrow> nat \<Rightarrow> nat \<Rightarrow> mem \<Rightarrow> int option" where
  "find_buddy bl order i m =
     (if order \<le> MIN_POWER then Some (-1)
      else let head = read64 m (slot bl (index_from_order order)) in
        if head = 0 then Some (-1)
        else do {
          cur \<leftarrow> walk m head i;
          if cur = 0 then Some (-1)
          else find_index m (cur XOR push_bit order 1) head 0
        })"

section \<open>split\_block\<close>

text \<open>The guard is the code's: it asks for \<open>order <= MIN_POWER\<close> and \<open>order > MAX_POWER\<close> at once.
  \<open>(1 << order)/2\<close> is computed in \<open>int\<close>; the definition is meant for orders below 31, where that
  does not overflow.\<close>

definition split_block :: "u64 \<Rightarrow> nat \<Rightarrow> mem \<Rightarrow> bool \<times> mem" where
  "split_block bl order m =
     (if order \<le> MIN_POWER \<and> order > MAX_POWER then (False, m)
      else let index = index_from_order order; block = read64 m (slot bl index) in
        if block = 0 then (False, m)
        else let m1 = write64 m (slot bl index) (blk_next m block);
                 half = push_bit order 1 div 2 :: u64;
                 block2 = block + half;
                 m2 = set_next block2 (read64 m1 (slot bl (index + 1))) m1;
                 m3 = set_size block2 half m2;
                 m4 = set_next block block2 m3;
                 m5 = set_size block half m4
             in (True, write64 m5 (slot bl (index + 1)) block))"

section \<open>try\_to\_merge\<close>

text \<open>The loop \<open>while (buddy--)\<close> that walks to the buddy and unlinks \<open>cur\<close> on the way.\<close>

primrec unlink_walk :: "u64 \<Rightarrow> u64 \<Rightarrow> u64 \<Rightarrow> nat \<Rightarrow> mem \<Rightarrow> (u64 \<times> u64 \<times> mem) option" where
  "unlink_walk cur p buddyBlock 0 m = Some (p, buddyBlock, m)"
| "unlink_walk cur p buddyBlock (Suc n) m =
     (if read64 m p = cur then do {
        nx \<leftarrow> next_of m buddyBlock;
        let m' = write64 m p nx;
        nx' \<leftarrow> next_of m' buddyBlock;
        unlink_walk cur p nx' n m'
      } else do {
        nx \<leftarrow> next_of m buddyBlock;
        unlink_walk cur (buddyBlock + 8) nx n m
      })"

text \<open>Putting the merged block, the lower of the two, on the list of the next order.\<close>

definition push_merged :: "u64 \<Rightarrow> nat \<Rightarrow> u64 \<Rightarrow> mem \<Rightarrow> mem" where
  "push_merged bl order b m =
     (let up = slot bl (index_from_order order - 1);
          m1 = set_size b (push_bit (order + 1) 1) m;
          m2 = set_next b (read64 m1 up) m1
      in write64 m2 up b)"

partial_function (option) merge_loop ::
  "u64 \<Rightarrow> nat \<Rightarrow> u64 \<Rightarrow> nat \<Rightarrow> bool \<Rightarrow> mem \<Rightarrow> (bool \<times> mem) option" where
  "merge_loop bl order cur i merged m =
     (if cur = 0 then Some (merged, m)
      else do {
        buddy \<leftarrow> find_buddy bl order i m;
        if buddy \<ge> 0 then do {
          let head = slot bl (index_from_order order);
          (p, buddyBlock, m1) \<leftarrow> unlink_walk cur head (read64 m head) (nat buddy) m;
          nx \<leftarrow> next_of m1 buddyBlock;
          let m2 = write64 m1 p nx;
          let block = cur;
          let cur1 = blk_next m2 cur;
          cur2 \<leftarrow> (if cur1 = buddyBlock then next_of m2 cur1 else Some cur1);
          merge_loop bl order cur2 (Suc i) True
            (if buddyBlock > block then push_merged bl order block m2
             else push_merged bl order buddyBlock m2)
        } else merge_loop bl order (blk_next m cur) (Suc i) merged m
      })"

declare merge_loop.simps [code]

definition try_to_merge :: "u64 \<Rightarrow> nat \<Rightarrow> mem \<Rightarrow> (bool \<times> mem) option" where
  "try_to_merge bl order m =
     (if order > MAX_POWER then Some (False, m)
      else merge_loop bl order (read64 m (slot bl (index_from_order order))) 0 False m)"

section \<open>kmalloc\<close>

text \<open>\<open>1 << order\<close> is an \<open>int\<close>, compared with a \<open>size_t\<close>: bit 31 is the sign bit and a shift
  by 32 or more has no defined result.\<close>

definition shl1 :: "nat \<Rightarrow> u64 option" where
  "shl1 order = (if order < 31 then Some (push_bit order 1)
     else if order = 31 then Some 0xFFFFFFFF80000000 else None)"

function find_order :: "u64 \<Rightarrow> nat \<Rightarrow> nat option" where
  "find_order sz order =
     (case shl1 order of None \<Rightarrow> None
      | Some b \<Rightarrow> if b < sz then find_order sz (Suc order) else Some order)"
  by pat_completeness auto
termination
  by (relation "measure (\<lambda>(sz, order). 32 - order)") (auto simp: shl1_def split: if_splits)

declare find_order.simps [simp del]

text \<open>\<open>while (!split_block(t++)) { if (t > MAX_POWER) return nullptr; }\<close>\<close>

function try_split :: "u64 \<Rightarrow> nat \<Rightarrow> mem \<Rightarrow> nat option \<times> mem" where
  "try_split bl t m =
     (let (ok, m') = split_block bl t m in
      if ok then (Some (Suc t), m')
      else if Suc t > MAX_POWER then (None, m')
      else try_split bl (Suc t) m')"
  by pat_completeness auto
termination
  by (relation "measure (\<lambda>(bl, t, m). MAX_POWER - t)") auto

declare try_split.simps [simp del]

text \<open>\<open>while (--t > order) split_block(t);\<close>\<close>

function split_down :: "u64 \<Rightarrow> nat \<Rightarrow> nat \<Rightarrow> mem \<Rightarrow> mem" where
  "split_down bl order t m =
     (if t - 1 > order then split_down bl order (t - 1) (snd (split_block bl (t - 1) m)) else m)"
  by pat_completeness auto
termination
  by (relation "measure (\<lambda>(bl, order, t, m). t)") auto

declare split_down.simps [simp del]

definition pop_block :: "u64 \<Rightarrow> u64 \<Rightarrow> mem \<Rightarrow> (u64 \<times> mem) option" where
  "pop_block bl index m = do {
     let allocated = read64 m (slot bl index);
     nx \<leftarrow> next_of m allocated;
     Some (allocated, set_next allocated 0 (write64 m (slot bl index) nx))
   }"

definition kmalloc :: "u64 \<Rightarrow> 'a kheap_scheme \<Rightarrow> (u64 \<times> 'a kheap_scheme) option" where
  "kmalloc bytes h = do {
     order \<leftarrow> find_order (bytes + of_nat sizeof_Block) 4;
     let index = index_from_order order;
     l \<leftarrow> acquire (heap_lock h);
     let h = h\<lparr>heap_lock := l\<rparr>;
     if read64 (mem h) (slot (bucketList h) index) = 0 then
       (case try_split (bucketList h) (order + 1) (mem h) of
          (None, m) \<Rightarrow> Some (0, h\<lparr>mem := m\<rparr>)
        | (Some t, m) \<Rightarrow> do {
            (allocated, m') \<leftarrow> pop_block (bucketList h) index (split_down (bucketList h) order (t - 1) m);
            Some (allocated + of_nat sizeof_Block, h\<lparr>mem := m', heap_lock := release l\<rparr>)
          })
     else do {
       (allocated, m') \<leftarrow> pop_block (bucketList h) index (mem h);
       Some (allocated + of_nat sizeof_Block, h\<lparr>mem := m', heap_lock := release l\<rparr>)
     }
   }"

section \<open>kfree, krealloc, construction\<close>

function merge_up :: "u64 \<Rightarrow> nat \<Rightarrow> mem \<Rightarrow> mem option" where
  "merge_up bl order m =
     (if order < MAX_POWER then
        (case try_to_merge bl order m of None \<Rightarrow> None
         | Some (ok, m') \<Rightarrow> if ok then merge_up bl (Suc order) m' else Some m')
      else Some m)"
  by pat_completeness auto
termination
  by (relation "measure (\<lambda>(bl, order, m). MAX_POWER - order)") auto

declare merge_up.simps [simp del]

definition kfree :: "u64 \<Rightarrow> 'a kheap_scheme \<Rightarrow> 'a kheap_scheme option" where
  "kfree ptr h =
     (if ptr < baseAddr h \<or> ptr > baseAddr h + push_bit MAX_POWER 1 then Some h
      else do {
        let block = ptr - of_nat sizeof_Block;
        order \<leftarrow> find_order (blk_size (mem h) block) 4;
        let head = slot (bucketList h) (index_from_order order);
        l \<leftarrow> acquire (heap_lock h);
        let m1 = set_next block (read64 (mem h) head) (mem h);
        m2 \<leftarrow> merge_up (bucketList h) order (write64 m1 head block);
        Some (h\<lparr>mem := m2, heap_lock := release l\<rparr>)
      })"

definition krealloc :: "u64 \<Rightarrow> u64 \<Rightarrow> 'a kheap_scheme \<Rightarrow> (u64 \<times> 'a kheap_scheme) option" where
  "krealloc ptr bytes h =
     (if ptr < baseAddr h \<or> ptr > baseAddr h + push_bit MAX_POWER 1 then Some (0, h)
      else do {
        let block = ptr - of_nat sizeof_Block;
        (newPtr, h1) \<leftarrow> kmalloc bytes h;
        let n = (if bytes > blk_size (mem h1) block then blk_size (mem h1) block else bytes);
        let h2 = h1\<lparr>mem := memcpy (mem h1) newPtr ptr (unat n)\<rparr>;
        h3 \<leftarrow> kfree ptr h2;
        Some (newPtr, h3)
      })"

text \<open>\<open>Heap::init\<close> with the constructor: a page for the object itself, one for the bucket list,
  and 256 pages for the first block. The null checks come after the direct-map offset is added, so
  they never fire.\<close>

definition heap_init :: "'a kheap_scheme \<Rightarrow> 'a kheap_scheme option" where
  "heap_init h = do {
     (allocator, h) \<leftarrow> pmm_alloc 1 h;
     if allocator + PHYSICAL_BASE_ADDRESS = 0 then None
     else do {
       (bl, h) \<leftarrow> pmm_alloc 1 h;
       (first, h) \<leftarrow> pmm_alloc INITIAL_PAGES h;
       let bl = bl + PHYSICAL_BASE_ADDRESS;
       let firstBlock = first + PHYSICAL_BASE_ADDRESS;
       if bl = 0 \<or> firstBlock = 0 then None
       else let m = write64 (mem h) (slot bl 0) firstBlock;
                m = set_size firstBlock (push_bit MAX_POWER 1) m;
                m = set_next firstBlock 0 m
            in Some (h\<lparr>mem := m, bucketList := bl, baseAddr := firstBlock\<rparr>)
     }
   }"

end
