(* ===== verification/Buddy_Layout.thy ===== *)
theory Buddy_Layout
  imports Buddy_Heap
begin

text \<open>
  What the memory of the buddy allocator stands for: the bucket slots and block headers as
  independent cells, linked lists in memory, and the representation predicate
  \<open>heap_rep\<close> that ties the free lists of each order to the bytes they consist of.
\<close>

section \<open>Where things are\<close>

abbreviation arena :: "u64 \<Rightarrow> u64 set" where
  "arena base \<equiv> span base (2 ^ 20)"

text \<open>The seventeen slots of \<open>bucketList\<close>, orders 20 down to 4.\<close>

abbreviation table :: "u64 \<Rightarrow> u64 set" where
  "table bl \<equiv> span bl 136"

text \<open>The fields the allocator uses of a block header.\<close>

abbreviation hdr :: "u64 \<Rightarrow> u64 set" where
  "hdr b \<equiv> span b 16"

definition heap_static :: "u64 \<Rightarrow> u64 \<Rightarrow> bool" where
  "heap_static bl base \<longleftrightarrow> base \<noteq> 0 \<and> unat base + 2 ^ 20 < 2 ^ 64 \<and> table bl \<inter> arena base = {}"

text \<open>Blocks start at multiples of sixteen bytes from the base.\<close>

definition grid :: "u64 \<Rightarrow> u64 set" where
  "grid base = {base + of_nat (16 * k) | k. k < 2 ^ 16}"

definition bucket :: "mem \<Rightarrow> u64 \<Rightarrow> nat \<Rightarrow> u64" where
  "bucket m bl order = read64 m (slot bl (index_from_order order))"

definition set_bucket :: "u64 \<Rightarrow> nat \<Rightarrow> u64 \<Rightarrow> mem \<Rightarrow> mem" where
  "set_bucket bl order v m = write64 m (slot bl (index_from_order order)) v"

lemma slot_order: "order \<le> 20 \<Longrightarrow> slot bl (index_from_order order) = bl + of_nat (8 * (20 - order))"
  by (simp add: slot_def index_from_order_def MAX_POWER_def of_nat_diff algebra_simps)

lemma slot_below: "index_from_order (Suc order) + 1 = index_from_order order"
  by (simp add: index_from_order_def)

lemma slot_above: "index_from_order order - 1 = index_from_order (Suc order)"
  by (simp add: index_from_order_def)

lemma slot_cell: "4 \<le> order \<Longrightarrow> order \<le> 20 \<Longrightarrow> span (slot bl (index_from_order order)) 8 \<subseteq> table bl"
  by (subst slot_order, assumption, rule span_offset_subset) auto

lemma slots_apart:
  assumes "4 \<le> o1" "o1 \<le> 20" "4 \<le> o2" "o2 \<le> 20" "o1 \<noteq> o2"
  shows "span (slot bl (index_from_order o1)) 8 \<inter> span (slot bl (index_from_order o2)) 8 = {}"
proof -
  have *: "span (bl + of_nat (8 * (20 - a))) 8 \<inter> span (bl + of_nat (8 * (20 - b))) 8 = {}"
    if "b < a" "a \<le> 20" for a b
    using that by (intro span_offset_disjoint) auto
  show ?thesis
    using assms * [of o1 o2] * [of o2 o1] by (cases "o1 < o2") (auto simp only: slot_order)
qed

lemma grid_hdr:
  assumes "b \<in> grid base"
  shows "hdr b \<subseteq> arena base"
proof -
  obtain k where k: "k < 2 ^ 16" "b = base + of_nat (16 * k)" using assms by (auto simp: grid_def)
  have "16 * k + 16 \<le> 2 ^ 20" using k(1) by simp
  then show ?thesis unfolding k(2) by (rule span_offset_subset)
qed

lemma hdr_apart:
  assumes "b \<in> grid base" "c \<in> grid base" "b \<noteq> c"
  shows "hdr b \<inter> hdr c = {}"
proof -
  obtain i j where i: "i < 2 ^ 16" "b = base + of_nat (16 * i)"
    and j: "j < 2 ^ 16" "c = base + of_nat (16 * j)"
    using assms(1,2) by (auto simp: grid_def)
  have *: "span (base + of_nat (16 * x)) 16 \<inter> span (base + of_nat (16 * y)) 16 = {}"
    if "x < y" "y < 2 ^ 16" for x y
    using that by (intro span_offset_disjoint) auto
  show ?thesis
  proof (cases i j rule: linorder_cases)
    case equal
    with assms(3) i j show ?thesis by simp
  qed (use * [of i j] * [of j i] i j in blast)+
qed

lemma grid_nonnull:
  assumes "heap_static bl base" "b \<in> grid base"
  shows "b \<noteq> 0"
proof
  assume "b = 0"
  obtain k where k: "k < 2 ^ 16" "b = base + of_nat (16 * k)" using assms(2) by (auto simp: grid_def)
  have lt: "unat base + 16 * k < 2 ^ 64"
    using assms(1) k(1) by (auto simp: heap_static_def)
  have "unat (base + of_nat (16 * k)) = unat base + 16 * k"
    using lt by (rule unat_add_of_nat)
  moreover have "unat base \<noteq> 0" using assms(1) by (simp add: heap_static_def unat_eq_zero)
  ultimately show False using \<open>b = 0\<close> k(2) by simp
qed

lemma size_cell: "span b 8 \<subseteq> hdr b"
  by (rule span_mono) simp

lemma next_cell: "span (b + 8) 8 \<subseteq> hdr b"
  using span_offset_subset [of 8 8 16 b] by simp

lemma size_next_apart: "span b 8 \<inter> span (b + 8) 8 = {}"
  using span_offset_disjoint [of 0 8 8 8 b] by simp

section \<open>The cells are independent\<close>

named_theorems cells \<open>reading one cell after writing another\<close>

lemma next_set_next [cells]:
  assumes "b \<in> grid base" "c \<in> grid base"
  shows "blk_next (set_next b v m) c = (if c = b then v else blk_next m c)"
proof (cases "c = b")
  case False
  then have "span (c + 8) 8 \<inter> span (b + 8) 8 = {}"
    using hdr_apart [OF assms(2,1)] next_cell by blast
  with False show ?thesis by (simp add: blk_next_def set_next_def read64_write64_other)
qed (simp add: blk_next_def set_next_def)

lemma next_set_size [cells]:
  assumes "b \<in> grid base" "c \<in> grid base"
  shows "blk_next (set_size b v m) c = blk_next m c"
proof -
  have "span (c + 8) 8 \<inter> span b 8 = {}"
    using hdr_apart [OF assms(2,1)] next_cell size_cell size_next_apart by (cases "c = b") blast+
  then show ?thesis by (simp add: blk_next_def set_size_def read64_write64_other)
qed

lemma size_set_size [cells]:
  assumes "b \<in> grid base" "c \<in> grid base"
  shows "blk_size (set_size b v m) c = (if c = b then v else blk_size m c)"
proof (cases "c = b")
  case False
  then have "span c 8 \<inter> span b 8 = {}"
    using hdr_apart [OF assms(2,1)] size_cell by blast
  with False show ?thesis by (simp add: blk_size_def set_size_def read64_write64_other)
qed (simp add: blk_size_def set_size_def)

lemma size_set_next [cells]:
  assumes "b \<in> grid base" "c \<in> grid base"
  shows "blk_size (set_next b v m) c = blk_size m c"
proof -
  have "span c 8 \<inter> span (b + 8) 8 = {}"
    using hdr_apart [OF assms(2,1)] next_cell size_cell size_next_apart by (cases "c = b") blast+
  then show ?thesis by (simp add: blk_size_def set_next_def read64_write64_other)
qed

lemma bucket_set_hdr [cells]:
  assumes "heap_static bl base" "b \<in> grid base" "4 \<le> order" "order \<le> 20"
  shows "bucket (set_next b v m) bl order = bucket m bl order"
    and "bucket (set_size b v m) bl order = bucket m bl order"
proof -
  have "span (slot bl (index_from_order order)) 8 \<inter> hdr b = {}"
    using slot_cell [OF assms(3,4), of bl] grid_hdr [OF assms(2)] assms(1) unfolding heap_static_def by blast
  then show "bucket (set_next b v m) bl order = bucket m bl order"
    and "bucket (set_size b v m) bl order = bucket m bl order"
    using next_cell [of b] size_cell [of b]
    unfolding bucket_def set_next_def set_size_def
    by (auto intro!: read64_write64_other)
qed

lemma hdr_set_bucket [cells]:
  assumes "heap_static bl base" "b \<in> grid base" "4 \<le> order" "order \<le> 20"
  shows "blk_next (set_bucket bl order v m) b = blk_next m b"
    and "blk_size (set_bucket bl order v m) b = blk_size m b"
proof -
  have "hdr b \<inter> span (slot bl (index_from_order order)) 8 = {}"
    using slot_cell [OF assms(3,4), of bl] grid_hdr [OF assms(2)] assms(1) unfolding heap_static_def by blast
  then show "blk_next (set_bucket bl order v m) b = blk_next m b"
    and "blk_size (set_bucket bl order v m) b = blk_size m b"
    using next_cell [of b] size_cell [of b]
    unfolding blk_next_def blk_size_def set_bucket_def
    by (auto intro!: read64_write64_other)
qed

lemma bucket_set_bucket [cells]:
  assumes "4 \<le> o1" "o1 \<le> 20" "4 \<le> o2" "o2 \<le> 20"
  shows "bucket (set_bucket bl o2 v m) bl o1 = (if o1 = o2 then v else bucket m bl o1)"
  using slots_apart [OF assms] by (simp add: bucket_def set_bucket_def read64_write64_other)

lemma set_hdr_other [frame_simps]:
  assumes "x \<notin> hdr b"
  shows "set_next b v m x = m x" and "set_size b v m x = m x"
  using assms next_cell [of b] size_cell [of b]
  by (auto simp: set_next_def set_size_def intro!: write64_other)

lemma set_bucket_other [frame_simps]:
  assumes "x \<notin> table bl" "4 \<le> order" "order \<le> 20"
  shows "set_bucket bl order v m x = m x"
  using assms slot_cell [OF assms(2,3), of bl] by (auto simp: set_bucket_def intro!: write64_other)

end
