(* ===== verification/Buddy_Rep.thy ===== *)
theory Buddy_Rep
  imports Buddy_Layout
begin

text \<open>
  The free lists as a mathematical object: \<open>F order\<close> is the list of free blocks of each
  order. The first part is about such families alone (blocks are disjoint pieces of the
  arena), the second ties them to memory.
\<close>

section \<open>Families of blocks\<close>

type_synonym freelists = "nat \<Rightarrow> u64 list"

definition reg :: "nat \<times> u64 \<Rightarrow> u64 set" where
  "reg = (\<lambda>(k, b). span b (2 ^ k))"

definition blks :: "freelists \<Rightarrow> (nat \<times> u64) set" where
  "blks F = {(k, b). b \<in> set (F k)}"

definition free_bytes :: "freelists \<Rightarrow> u64 set" where
  "free_bytes F = (\<Union>p \<in> blks F. reg p)"

abbreviation apart :: "(nat \<times> u64) set \<Rightarrow> bool" where
  "apart \<equiv> pairwise (\<lambda>p q. reg p \<inter> reg q = {})"

definition valid_block :: "u64 \<Rightarrow> nat \<times> u64 \<Rightarrow> bool" where
  "valid_block base p \<longleftrightarrow> 5 \<le> fst p \<and> fst p \<le> 20 \<and> snd p \<in> grid base \<and> reg p \<subseteq> arena base"

definition blocks_ok :: "u64 \<Rightarrow> freelists \<Rightarrow> bool" where
  "blocks_ok base F \<longleftrightarrow> (\<forall>p \<in> blks F. valid_block base p) \<and> apart (blks F) \<and> (\<forall>k. distinct (F k))"

text \<open>No block and its buddy are both free; order 20 is never merged.\<close>

definition no_buddies :: "freelists \<Rightarrow> bool" where
  "no_buddies F \<longleftrightarrow> (\<forall>k < 20. \<forall>b \<in> set (F k). b XOR push_bit k 1 \<notin> set (F k))"

lemma in_blks [simp]: "(k, b) \<in> blks F \<longleftrightarrow> b \<in> set (F k)"
  by (simp add: blks_def)

lemma reg_pair [simp]: "reg (k, b) = span b (2 ^ k)"
  by (simp add: reg_def)

lemma reg_start: "snd p \<in> reg p"
  by (cases p) simp

lemma block_free: "b \<in> set (F k) \<Longrightarrow> span b (2 ^ k) \<subseteq> free_bytes F"
  unfolding free_bytes_def using UN_upper [of "(k, b)" "blks F" reg] by simp

lemma span_pow_nonempty [simp]: "span b (2 ^ k) \<noteq> {}"
  using span_start [of "2 ^ k" b] by fastforce

lemma push_bit_one: "push_bit k (1 :: u64) = of_nat (2 ^ k)"
  by simp

lemma half_bit: "k < 63 \<Longrightarrow> push_bit (Suc k) (1 :: u64) div 2 = of_nat (2 ^ k)"
proof -
  assume "k < 63"
  then have "drop_bit 1 (push_bit (Suc k) (1 :: u64)) = push_bit k 1"
    by (intro bit_word_eqI) (auto simp: bit_simps)
  then show ?thesis by (simp add: drop_bit_eq_div)
qed

lemma half_pow: "k < 63 \<Longrightarrow> 2 * 2 ^ k div 2 = (2 ^ k :: u64)"
  using half_bit [of k] by simp

lemma reg_halves:
  assumes "k < 63"
  shows "reg (Suc k, b) = reg (k, b) \<union> reg (k, b + of_nat (2 ^ k))"
    and "reg (k, b) \<inter> reg (k, b + of_nat (2 ^ k)) = {}"
proof -
  have le: "(2 :: nat) ^ k + 2 ^ k \<le> 2 ^ 64"
    using power_increasing [of "Suc k" 64 "2 :: nat"] assms by simp
  have "span b (2 ^ k + 2 ^ k) = span b (2 ^ k) \<union> span (b + of_nat (2 ^ k)) (2 ^ k)"
    using le by (rule span_split)
  then show "reg (Suc k, b) = reg (k, b) \<union> reg (k, b + of_nat (2 ^ k))" by (simp add: mult_2)
  show "reg (k, b) \<inter> reg (k, b + of_nat (2 ^ k)) = {}"
    using span_offset_disjoint [of 0 "2 ^ k" "2 ^ k" "2 ^ k" b] le by simp
qed

lemma apart_ne: "reg p \<inter> reg q = {} \<Longrightarrow> p \<noteq> q"
  using reg_start [of p] by auto

lemma grid_halves:
  assumes "valid_block base (Suc k, b)" "5 \<le> k"
  shows "valid_block base (k, b)" "valid_block base (k, b + of_nat (2 ^ k))"
proof -
  have k: "Suc k \<le> 20" and b: "b \<in> grid base" and sub: "reg (Suc k, b) \<subseteq> arena base"
    using assms(1) by (auto simp: valid_block_def simp del: reg_pair)
  have halves: "reg (k, b) \<subseteq> arena base" "reg (k, b + of_nat (2 ^ k)) \<subseteq> arena base"
    using sub reg_halves(1) [of k b] k by (auto simp del: reg_pair)
  obtain j where j: "j < 2 ^ 16" "b = base + of_nat (16 * j)" using b by (auto simp: grid_def)
  define n where "n = k - 4"
  have n: "k = n + 4" using assms(2) by (simp add: n_def)
  have at: "b + of_nat (2 ^ k) = base + of_nat (16 * (j + 2 ^ n))"
    unfolding j(2) n by (simp add: power_add algebra_simps)
  have "(2 :: nat) ^ n \<le> 2 ^ 15" using k n by (intro power_increasing) auto
  then have small: "16 * (j + 2 ^ n) < 2 ^ 64" using j(1) by simp
  have "b + of_nat (2 ^ k) \<in> arena base"
    using halves(2) reg_start [of "(k, b + of_nat (2 ^ k))"] by auto
  then have "unat (of_nat (16 * (j + 2 ^ n)) :: u64) < 2 ^ 20" unfolding at in_span by simp
  then have "j + 2 ^ n < 2 ^ 16" unfolding unat_of_nat64 [OF small] by simp
  then have "b + of_nat (2 ^ k) \<in> grid base" unfolding at grid_def by blast
  then show "valid_block base (k, b + of_nat (2 ^ k))" using halves k assms(2) by (simp add: valid_block_def)
  show "valid_block base (k, b)" using halves k b assms(2) by (simp add: valid_block_def)
qed

lemma blocks_okD:
  assumes "blocks_ok base F"
  shows "b \<in> set (F k) \<Longrightarrow> valid_block base (k, b)" and "apart (blks F)" and "distinct (F k)"
    and "b \<in> set (F k) \<Longrightarrow> b \<in> grid base" and "b \<in> set (F k) \<Longrightarrow> 5 \<le> k \<and> k \<le> 20"
    and "b \<in> set (F k) \<Longrightarrow> span b (2 ^ k) \<subseteq> arena base"
proof -
  show v: "b \<in> set (F k) \<Longrightarrow> valid_block base (k, b)" and "apart (blks F)" and "distinct (F k)" for b k
    using assms bspec [of "blks F" _ "(k, b)"] by (auto simp: blocks_ok_def)
  then show "b \<in> set (F k) \<Longrightarrow> b \<in> grid base" and "b \<in> set (F k) \<Longrightarrow> 5 \<le> k \<and> k \<le> 20"
    and "b \<in> set (F k) \<Longrightarrow> span b (2 ^ k) \<subseteq> arena base"
    by (auto simp: valid_block_def)
qed

text \<open>Two free blocks of which one holds the other's first byte are the same block.\<close>

lemma blocks_same:
  assumes "blocks_ok base F" "b \<in> set (F k)" "c \<in> set (F j)" "c \<in> span b (2 ^ k)"
  shows "k = j \<and> b = c"
proof (rule ccontr)
  assume "\<not> (k = j \<and> b = c)"
  then have "reg (k, b) \<inter> reg (j, c) = {}"
    using assms by (intro pairwiseD [OF blocks_okD(2) [OF assms(1)]]) auto
  then show False using assms(4) span_start [of "2 ^ j" c] by auto
qed

lemma blks_del:
  assumes "distinct (F k)" "F k = xs @ b # ys"
  shows "blks F = insert (k, b) (blks (F(k := xs @ ys)))" "(k, b) \<notin> blks (F(k := xs @ ys))"
  using assms by (auto simp: blks_def split: if_splits)

lemma blks_push: "blks (F(k := b # F k)) = insert (k, b) (blks F)"
  by (auto simp: blks_def split: if_splits)

text \<open>Removing a block from a list.\<close>

lemma blocks_del:
  assumes ok: "blocks_ok base F" and b: "F k = xs @ b # ys"
  shows "blocks_ok base (F(k := xs @ ys))"
    and "free_bytes (F(k := xs @ ys)) = free_bytes F - span b (2 ^ k)"
    and "span b (2 ^ k) \<subseteq> free_bytes F"
proof -
  note del = blks_del [of F k, OF blocks_okD(3) [OF ok] b]
  have a: "reg (k, b) \<inter> reg p = {}" if "p \<in> blks (F(k := xs @ ys))" for p
    by (rule pairwiseD [OF blocks_okD(2) [OF ok]]) (use that del in blast)+
  show "blocks_ok base (F(k := xs @ ys))"
    unfolding blocks_ok_def
  proof (intro conjI)
    show "apart (blks (F(k := xs @ ys)))" using blocks_okD(2) [OF ok] unfolding del(1) by (rule pairwise_subset) blast
    show "\<forall>p \<in> blks (F(k := xs @ ys)). valid_block base p" using ok unfolding blocks_ok_def del(1) by blast
    show "\<forall>j. distinct ((F(k := xs @ ys)) j)"
      using blocks_okD(3) [OF ok, of k] blocks_okD(3) [OF ok] b by auto
  qed
  show "free_bytes (F(k := xs @ ys)) = free_bytes F - span b (2 ^ k)"
    using a unfolding free_bytes_def del(1) by fastforce
  show "span b (2 ^ k) \<subseteq> free_bytes F" unfolding free_bytes_def del(1) by auto
qed

lemmas blocks_pop = blocks_del [where xs = "[]", simplified]

text \<open>Adding a block made of bytes that are not free.\<close>

lemma blocks_push:
  assumes ok: "blocks_ok base F" and v: "valid_block base (k, b)" and new: "span b (2 ^ k) \<inter> free_bytes F = {}"
  shows "blocks_ok base (F(k := b # F k))" and "free_bytes (F(k := b # F k)) = free_bytes F \<union> span b (2 ^ k)"
proof -
  have a: "reg (k, b) \<inter> reg p = {}" "reg p \<inter> reg (k, b) = {}" if "p \<in> blks F" for p
    using new that by (auto simp: free_bytes_def)
  have "b \<notin> set (F k)" using a [of "(k, b)"] by auto
  moreover have "apart (insert (k, b) (blks F))"
    unfolding pairwise_insert using a blocks_okD(2) [OF ok] by blast
  ultimately show "blocks_ok base (F(k := b # F k))"
    using ok v unfolding blocks_ok_def blks_push by auto
  show "free_bytes (F(k := b # F k)) = free_bytes F \<union> span b (2 ^ k)"
    unfolding free_bytes_def blks_push by auto
qed

section \<open>Lists in memory\<close>

primrec chain :: "mem \<Rightarrow> u64 \<Rightarrow> u64 list \<Rightarrow> bool" where
  "chain m p [] \<longleftrightarrow> p = 0"
| "chain m p (b # bs) \<longleftrightarrow> p = b \<and> b \<noteq> 0 \<and> chain m (blk_next m b) bs"

lemma chain_cong:
  "(\<And>b. b \<in> set bs \<Longrightarrow> blk_next m' b = blk_next m b) \<Longrightarrow> chain m' p bs \<longleftrightarrow> chain m p bs"
  by (induction bs arbitrary: p) auto

lemma chain_null: "chain m p bs \<Longrightarrow> p = 0 \<longleftrightarrow> bs = []"
  by (cases bs) auto

text \<open>The memory holds the free lists \<open>F\<close>, and every free block's size field says its order.\<close>

definition heap_rep :: "u64 \<Rightarrow> u64 \<Rightarrow> mem \<Rightarrow> freelists \<Rightarrow> bool" where
  "heap_rep bl base m F \<longleftrightarrow> heap_static bl base \<and> blocks_ok base F \<and>
     (\<forall>k. 4 \<le> k \<and> k \<le> 20 \<longrightarrow> chain m (bucket m bl k) (F k)) \<and>
     (\<forall>k. \<forall>b \<in> set (F k). blk_size m b = of_nat (2 ^ k))"

lemma heap_repD:
  assumes "heap_rep bl base m F"
  shows "heap_static bl base" "blocks_ok base F"
    "4 \<le> k \<Longrightarrow> k \<le> 20 \<Longrightarrow> chain m (bucket m bl k) (F k)"
    "b \<in> set (F k) \<Longrightarrow> blk_size m b = of_nat (2 ^ k)"
  using assms by (simp_all add: heap_rep_def)

lemma heap_rep_head:
  assumes "heap_rep bl base m F" "F k = b # bs"
  shows "bucket m bl k = b" "b \<noteq> 0" "chain m (blk_next m b) bs" "b \<in> grid base" "5 \<le> k" "k \<le> 20"
proof -
  note ok = heap_repD(2) [OF assms(1)]
  show b: "b \<in> grid base" and k: "5 \<le> k" "k \<le> 20"
    using blocks_okD(4,5) [OF ok, of b k] assms(2) by auto
  then show "bucket m bl k = b" "b \<noteq> 0" "chain m (blk_next m b) bs"
    using heap_repD(3) [OF assms(1), of k] assms(2) by auto
qed

lemma heap_rep_null:
  assumes "heap_rep bl base m F" "4 \<le> k" "k \<le> 20"
  shows "bucket m bl k = 0 \<longleftrightarrow> F k = []"
  using chain_null [OF heap_repD(3) [OF assms]] .

lemma hdr_in_block:
  assumes "4 \<le> k"
  shows "hdr b \<subseteq> span b (2 ^ k)"
proof -
  have "(2 :: nat) ^ 4 \<le> 2 ^ k" using assms by (rule power_increasing) simp
  then show ?thesis by (intro span_mono) simp
qed

text \<open>Two memories that agree on every cell represent the same lists.\<close>

definition same_cells :: "u64 \<Rightarrow> u64 \<Rightarrow> mem \<Rightarrow> mem \<Rightarrow> bool" where
  "same_cells bl base m m' \<longleftrightarrow> (\<forall>k. 4 \<le> k \<and> k \<le> 20 \<longrightarrow> bucket m' bl k = bucket m bl k) \<and>
     (\<forall>b \<in> grid base. blk_next m' b = blk_next m b \<and> blk_size m' b = blk_size m b)"

lemma heap_rep_cells:
  assumes "same_cells bl base m m'" "heap_rep bl base m F"
  shows "heap_rep bl base m' F"
proof -
  note ok = heap_repD(2) [OF assms(2)]
  have "chain m' p (F k) = chain m p (F k)" for p k
    using assms(1) blocks_okD(4) [OF ok] by (intro chain_cong) (auto simp: same_cells_def)
  then show ?thesis
    using assms blocks_okD(4) [OF ok] by (auto simp: heap_rep_def same_cells_def)
qed

text \<open>Only the bucket table and the free bytes matter: whoever holds a block may write to it.\<close>

lemma heap_rep_frame:
  assumes rep: "heap_rep bl base m F" and eq: "\<And>x. x \<in> table bl \<union> free_bytes F \<Longrightarrow> m' x = m x"
  shows "heap_rep bl base m' F"
proof -
  note ok = heap_repD(2) [OF rep]
  have hdr: "hdr b \<subseteq> free_bytes F" if "b \<in> set (F k)" for b k
    using hdr_in_block [of k b] block_free [of b F k] blocks_okD(5) [OF ok that] that by auto
  have "blk_next m' b = blk_next m b" "blk_size m' b = blk_size m b" if "b \<in> set (F k)" for b k
    using hdr [OF that] next_cell [of b] size_cell [of b]
    by (auto simp: blk_next_def blk_size_def intro!: read64_cong eq)
  moreover have "bucket m' bl k = bucket m bl k" if "4 \<le> k" "k \<le> 20" for k
    using slot_cell [OF that, of bl] by (auto simp: bucket_def intro!: read64_cong eq)
  moreover have "chain m' p (F k) = chain m p (F k)" for p k
    using calculation(1) by (rule chain_cong)
  ultimately show ?thesis using rep by (simp add: heap_rep_def)
qed

section \<open>Taking and adding the first block of a list\<close>

lemma heap_rep_pop:
  assumes rep: "heap_rep bl base m F" and b: "F k = b # bs"
  shows "heap_rep bl base (set_bucket bl k (blk_next m b) m) (F(k := bs))" (is "heap_rep bl base ?m ?F")
proof -
  note st = heap_repD(1) [OF rep] and ok = heap_repD(2) [OF rep] and hd = heap_rep_head [OF rep b]
  have grid: "c \<in> grid base" if "c \<in> set (?F j)" for c j
    using blocks_okD(4) [OF ok, of c j] that b by (auto split: if_splits)
  have k: "4 \<le> k" "k \<le> 20" using hd(5,6) by auto
  have "chain ?m p (?F j) = chain m p (?F j)" for p j
    using grid k by (intro chain_cong) (simp add: hdr_set_bucket [OF st])
  moreover have "blk_size ?m c = blk_size m c" if "c \<in> set (?F j)" for c j
    using grid [OF that] k by (simp add: hdr_set_bucket [OF st])
  moreover have "blk_size m c = of_nat (2 ^ j)" if "c \<in> set (?F j)" for c j
    using that heap_repD(4) [OF rep, of c j] b by (auto split: if_splits)
  moreover have "chain m (bucket ?m bl j) (?F j)" if "4 \<le> j" "j \<le> 20" for j
    using that k hd(3) heap_repD(3) [OF rep, of j] by (simp add: bucket_set_bucket)
  ultimately show ?thesis using st blocks_pop(1) [OF ok b] by (simp add: heap_rep_def)
qed

lemma heap_rep_push:
  assumes rep: "heap_rep bl base m F" and v: "valid_block base (k, b)"
    and new: "span b (2 ^ k) \<inter> free_bytes F = {}"
  shows "heap_rep bl base (set_bucket bl k b (set_size b (of_nat (2 ^ k)) (set_next b (bucket m bl k) m)))
    (F(k := b # F k))" (is "heap_rep bl base ?m ?F")
proof -
  note st = heap_repD(1) [OF rep] and ok = heap_repD(2) [OF rep]
  have b: "b \<in> grid base" and k: "4 \<le> k" "k \<le> 20" using v by (auto simp: valid_block_def)
  have other: "c \<in> grid base" "c \<noteq> b" if "c \<in> set (F j)" for c j
  proof -
    show "c \<in> grid base" using blocks_okD(4) [OF ok that] .
    have "c \<in> free_bytes F" using block_free [of c F j] span_start [of "2 ^ j" c] that by auto
    moreover have "b \<in> span b (2 ^ k)" by (simp add: span_start)
    ultimately show "c \<noteq> b" using new by blast
  qed
  note cells' = next_set_next [where base = base] next_set_size [where base = base] size_set_size [where base = base]
    size_set_next [where base = base] bucket_set_hdr [OF st] hdr_set_bucket [OF st] bucket_set_bucket
  have same: "chain ?m p (F j) = chain m p (F j)" for p j
    using other b k by (intro chain_cong) (simp add: cells')
  have "chain ?m (bucket ?m bl j) (?F j)" if "4 \<le> j" "j \<le> 20" for j
    using that b k same heap_repD(3) [OF rep, of j] grid_nonnull [OF st b]
    by (cases "j = k") (simp_all add: cells')
  moreover have "blk_size ?m c = of_nat (2 ^ j)" if "c \<in> set (?F j)" for c j
    using that other [of c j] heap_repD(4) [OF rep, of c j] b k by (auto simp: cells' split: if_splits)
  ultimately show ?thesis using st blocks_push(1) [OF ok v new] by (simp add: heap_rep_def)
qed

section \<open>split\_block\<close>

lemma split_block_none:
  assumes "heap_rep bl base m F" "4 \<le> k" "k \<le> 20" "F k = []"
  shows "split_block bl k m = (False, m)"
  using heap_rep_null [OF assms(1-3)] assms(4)
  by (simp add: split_block_def Let_def bucket_def)

lemma split_block_writes:
  assumes rep: "heap_rep bl base m F" and b: "F (Suc k) = b # bs" and k: "5 \<le> k"
  defines "b2 \<equiv> b + of_nat (2 ^ k)"
  shows "split_block bl (Suc k) m =
    (True, set_bucket bl k b (set_size b (of_nat (2 ^ k)) (set_next b b2 (set_size b2 (of_nat (2 ^ k))
       (set_next b2 (bucket m bl k) (set_bucket bl (Suc k) (blk_next m b) m))))))"
proof -
  note hd = heap_rep_head [OF rep b]
  have "bucket (set_bucket bl (Suc k) v m) bl k = bucket m bl k" for v
    using k hd(6) by (simp add: bucket_set_bucket)
  then show ?thesis
    using hd k
    by (simp add: split_block_def Let_def MIN_POWER_def MAX_POWER_def slot_below half_pow b2_def
        flip: bucket_def set_bucket_def)
qed

text \<open>A split is: take the block, add its upper half, add its lower half.\<close>

lemma split_block_rep:
  assumes rep: "heap_rep bl base m F" and b: "F (Suc k) = b # bs" and k: "5 \<le> k"
  obtains m' where "split_block bl (Suc k) m = (True, m')"
    "heap_rep bl base m' (F(Suc k := bs, k := b # (b + of_nat (2 ^ k)) # F k))"
    "free_bytes (F(Suc k := bs, k := b # (b + of_nat (2 ^ k)) # F k)) = free_bytes F"
    "\<And>x. x \<notin> table bl \<Longrightarrow> x \<notin> free_bytes F \<Longrightarrow> m' x = m x"
proof -
  define b2 where "b2 = b + of_nat (2 ^ k)"
  define m1 where "m1 = set_bucket bl (Suc k) (blk_next m b) m"
  define m2 where "m2 = set_bucket bl k b2 (set_size b2 (of_nat (2 ^ k)) (set_next b2 (bucket m1 bl k) m1))"
  define m3 where "m3 = set_bucket bl k b (set_size b (of_nat (2 ^ k)) (set_next b (bucket m2 bl k) m2))"
  define m' where "m' = set_bucket bl k b (set_size b (of_nat (2 ^ k)) (set_next b b2 (set_size b2 (of_nat (2 ^ k))
       (set_next b2 (bucket m bl k) m1))))"
  let ?F1 = "F(Suc k := bs)"
  let ?F2 = "?F1(k := b2 # ?F1 k)"
  note st = heap_repD(1) [OF rep] and ok = heap_repD(2) [OF rep] and hd = heap_rep_head [OF rep b]
  have v: "valid_block base (Suc k, b)" using blocks_okD(1) [OF ok, of b "Suc k"] b by simp
  have k': "4 \<le> k" "k \<le> 20" "4 \<le> Suc k" "Suc k \<le> 20" "k < 63" using k hd(6) by auto
  note half = grid_halves [OF v k, folded b2_def] reg_halves [OF k'(5), of b, folded b2_def, simplified reg_pair]
  note pop = blocks_pop [OF ok b]
  have r1: "heap_rep bl base m1 ?F1" unfolding m1_def by (rule heap_rep_pop [OF rep b])
  have fr: "span b2 (2 ^ k) \<inter> free_bytes ?F1 = {}" using half(3) unfolding pop(2) by auto
  have r2: "heap_rep bl base m2 ?F2" unfolding m2_def by (rule heap_rep_push [OF r1 half(2) fr])
  note push2 = blocks_push(2) [OF heap_repD(2) [OF r1] half(2) fr]
  have fr2: "span b (2 ^ k) \<inter> free_bytes ?F2 = {}" using half(3,4) unfolding push2 pop(2) by auto
  from heap_rep_push [OF r2 half(1) this]
  have r3: "heap_rep bl base m3 (F(Suc k := bs, k := b # b2 # F k))" by (simp add: m3_def)
  have "free_bytes (?F2(k := b # ?F2 k)) = free_bytes F"
    unfolding blocks_push(2) [OF heap_repD(2) [OF r2] half(1) fr2] push2 pop(2) using half(3) pop(3) by auto
  then have fb: "free_bytes (F(Suc k := bs, k := b # b2 # F k)) = free_bytes F" by simp
  have g: "b \<in> grid base" "b2 \<in> grid base" using half(1,2) by (auto simp: valid_block_def)
  have "same_cells bl base m3 m'"
    using g k' unfolding same_cells_def m3_def m2_def m'_def m1_def
    by (simp add: next_set_next [where base = base] next_set_size [where base = base]
        size_set_size [where base = base] size_set_next [where base = base] bucket_set_hdr [OF st]
        hdr_set_bucket [OF st] bucket_set_bucket)
  then have "heap_rep bl base m' (F(Suc k := bs, k := b # b2 # F k))" using r3 by (rule heap_rep_cells)
  moreover have "m' x = m x" if x: "x \<notin> table bl" "x \<notin> free_bytes F" for x
  proof -
    have "x \<notin> hdr b" "x \<notin> hdr b2"
      using x(2) pop(3) half(3) hdr_in_block [OF k'(1), of b] hdr_in_block [OF k'(1), of b2] by blast+
    then show ?thesis using x(1) k' unfolding m'_def m1_def
      by (simp add: set_hdr_other set_bucket_other)
  qed
  moreover have "split_block bl (Suc k) m = (True, m')"
    using split_block_writes [OF rep b k] by (simp add: m'_def m1_def b2_def)
  ultimately show ?thesis using fb unfolding b2_def by (intro that [of m'])
qed

end
