(* ===== verification/Buddy_Malloc.thy ===== *)
theory Buddy_Malloc
  imports Buddy_Rep
begin

text \<open>
  \<open>BuddyAllocator::kmalloc\<close>: whenever some free block is large enough, the smallest order that
  holds the request is served from the free bytes, and nothing outside the free bytes and the
  bucket table is written.
\<close>

section \<open>The order of a request\<close>

lemma shl1_small: "order < 31 \<Longrightarrow> shl1 order = Some (of_nat (2 ^ order))"
  by (simp add: shl1_def)

lemma find_order_least:
  assumes "unat sz \<le> 2 ^ 20" "4 \<le> i" "i \<le> 20" "\<And>j. 4 \<le> j \<Longrightarrow> j < i \<Longrightarrow> 2 ^ j < unat sz"
  shows "\<exists>k. find_order sz i = Some k \<and> 4 \<le> k \<and> k \<le> 20 \<and> unat sz \<le> 2 ^ k
    \<and> (\<forall>j. 4 \<le> j \<and> j < k \<longrightarrow> 2 ^ j < unat sz)"
  using assms
proof (induction "20 - i" arbitrary: i rule: less_induct)
  case less
  have lt: "(2 :: nat) ^ i \<le> 2 ^ 20" using less.prems(3) by (rule power_increasing) simp
  have u: "unat (of_nat (2 ^ i) :: u64) = 2 ^ i" using lt by (intro unat_of_nat64) simp
  have cmp: "(of_nat (2 ^ i) :: u64) < sz \<longleftrightarrow> 2 ^ i < unat sz" by (simp only: word_less_nat_alt u)
  have sh: "shl1 i = Some (of_nat (2 ^ i))" using less.prems(3) by (intro shl1_small) simp
  show ?case
  proof (cases "2 ^ i < unat sz")
    case True
    then have i: "i < 20" using less.prems(1,3) by (cases "i = 20") auto
    have "\<exists>k. find_order sz (Suc i) = Some k \<and> 4 \<le> k \<and> k \<le> 20 \<and> unat sz \<le> 2 ^ k
      \<and> (\<forall>j. 4 \<le> j \<and> j < k \<longrightarrow> 2 ^ j < unat sz)"
      using less.prems i True by (intro less.hyps) (auto simp: less_Suc_eq)
    moreover have "find_order sz i = find_order sz (Suc i)"
      using True by (subst find_order.simps) (simp only: sh cmp option.case if_True)
    ultimately show ?thesis by simp
  next
    case False
    then have "find_order sz i = Some i"
      by (subst find_order.simps) (simp only: sh cmp option.case if_False)
    then show ?thesis using False less.prems by auto
  qed
qed

lemma find_order_exact:
  assumes "5 \<le> k" "k \<le> 20"
  shows "find_order (of_nat (2 ^ k)) 4 = Some k"
proof -
  have le: "(2 :: nat) ^ k \<le> 2 ^ 20" using assms(2) by (rule power_increasing) simp
  have u: "unat (of_nat (2 ^ k) :: u64) = 2 ^ k" using le by (intro unat_of_nat64) simp
  obtain j where j: "find_order (of_nat (2 ^ k)) 4 = Some j" "4 \<le> j" "(2 :: nat) ^ k \<le> 2 ^ j"
      "\<forall>i. 4 \<le> i \<and> i < j \<longrightarrow> (2 :: nat) ^ i < 2 ^ k"
    using find_order_least [of "of_nat (2 ^ k)" 4] le unfolding u by auto
  have "k \<le> j" using j(3) by simp
  moreover have "\<not> k < j" using j(4) [rule_format, of k] assms(1) by auto
  ultimately show ?thesis using j(1) by simp
qed

section \<open>Splitting\<close>

lemma no_buddies_sub:
  assumes "no_buddies F" "\<And>k. set (G k) \<subseteq> set (F k)"
  shows "no_buddies G"
  using assms unfolding no_buddies_def by (meson subsetD)

lemma xor_bit_ne: "k < 64 \<Longrightarrow> b XOR push_bit k 1 \<noteq> (b :: u64)"
  by (auto simp: bit_eq_iff bit_simps)

lemma no_buddies_single:
  assumes "no_buddies F" "k \<le> 20"
  shows "no_buddies (F(k := [b]))"
  using assms xor_bit_ne [of k b] unfolding no_buddies_def by auto

text \<open>On the way down, the order just cut holds two halves and the smaller orders are empty.\<close>

definition carved :: "nat \<Rightarrow> nat \<Rightarrow> u64 \<Rightarrow> freelists \<Rightarrow> bool" where
  "carved order k b G \<longleftrightarrow> G k = [b, b + of_nat (2 ^ k)] \<and> no_buddies (G(k := [b + of_nat (2 ^ k)])) \<and>
     (\<forall>j. order \<le> j \<and> j < k \<longrightarrow> G j = [])"

lemma carved_step:
  assumes "no_buddies F" "F (Suc k) = b # bs" "\<forall>j. order \<le> j \<and> j \<le> k \<longrightarrow> F j = []" "order \<le> k" "k \<le> 20"
  shows "carved order k b (F(Suc k := bs, k := b # (b + of_nat (2 ^ k)) # F k))"
proof -
  have "no_buddies (F(Suc k := bs))" using assms(1) by (rule no_buddies_sub) (auto simp: assms(2))
  from no_buddies_single [OF this assms(5)] show ?thesis using assms(3,4) by (simp add: carved_def)
qed

lemma carved_down:
  assumes "carved order (Suc k) b G" "order \<le> k" "k \<le> 20"
  shows "carved order k b (G(Suc k := [b + of_nat (2 ^ Suc k)], k := b # (b + of_nat (2 ^ k)) # G k))"
  using assms no_buddies_single [of "G(Suc k := [b + of_nat (2 ^ Suc k)])" k "b + of_nat (2 ^ k)"]
  by (simp add: carved_def)

lemma split_down_rep:
  assumes "heap_rep bl base m G" "carved order k b G" "5 \<le> order" "order \<le> k"
  shows "\<exists>G'. heap_rep bl base (split_down bl order (Suc k) m) G' \<and> carved order order b G'
    \<and> free_bytes G' = free_bytes G
    \<and> (\<forall>x. x \<notin> table bl \<longrightarrow> x \<notin> free_bytes G \<longrightarrow> split_down bl order (Suc k) m x = m x)"
  using assms
proof (induction k arbitrary: m G)
  case (Suc k)
  show ?case
  proof (cases "order = Suc k")
    case False
    then have k: "order \<le> k" "5 \<le> k" using Suc.prems by auto
    have g: "G (Suc k) = b # [b + of_nat (2 ^ Suc k)]" using Suc.prems(2) by (simp add: carved_def)
    let ?G = "G(Suc k := [b + of_nat (2 ^ Suc k)], k := b # (b + of_nat (2 ^ k)) # G k)"
    obtain m' where m': "split_block bl (Suc k) m = (True, m')" "heap_rep bl base m' ?G"
        "free_bytes ?G = free_bytes G"
        and fr: "\<And>x. x \<notin> table bl \<Longrightarrow> x \<notin> free_bytes G \<Longrightarrow> m' x = m x"
      by (rule split_block_rep [OF Suc.prems(1) g k(2)]) (rule that)
    have "k \<le> 20" using heap_rep_head(6) [OF Suc.prems(1) g] by simp
    then have c: "carved order k b ?G" using Suc.prems(2) k by (intro carved_down)
    have eq: "split_down bl order (Suc (Suc k)) m = split_down bl order (Suc k) m'"
      using k m'(1) by (subst split_down.simps) simp
    show ?thesis
      using Suc.IH [OF m'(2) c Suc.prems(3) k(1)] fr unfolding eq m'(3) by auto
  qed (use Suc.prems in \<open>auto simp: split_down.simps [of bl "Suc k"]\<close>)
qed (simp add: split_down.simps)

lemma try_split_rep:
  assumes "heap_rep bl base m F" "5 \<le> order" "t \<le> u" "F u \<noteq> []" "\<And>j. order \<le> j \<Longrightarrow> j < t \<Longrightarrow> F j = []"
    "order < t"
  shows "\<exists>k b bs m'. order \<le> k \<and> F (Suc k) = b # bs \<and> (\<forall>j. order \<le> j \<and> j \<le> k \<longrightarrow> F j = [])
    \<and> split_block bl (Suc k) m = (True, m') \<and> try_split bl t m = (Some (Suc (Suc k)), m')"
  using assms
proof (induction "u - t" arbitrary: t rule: less_induct)
  case less
  have u: "u \<le> 20" using less.prems(4) blocks_okD(5) [OF heap_repD(2) [OF assms(1)], of "hd (F u)" u] by auto
  show ?case
  proof (cases "F t")
    case Nil
    have t: "t < u" using Nil less.prems by (cases "t = u") auto
    have "split_block bl t m = (False, m)" using less.prems u by (intro split_block_none [OF assms(1) _ _ Nil]) auto
    then have eq: "try_split bl t m = try_split bl (Suc t) m"
      using t u by (subst try_split.simps) (simp add: MAX_POWER_def)
    show ?thesis
      unfolding eq using less.prems t Nil by (intro less.hyps) (auto simp: less_Suc_eq)
  next
    case (Cons b bs)
    obtain k where k: "t = Suc k" using less.prems(6) by (cases t) auto
    have k5: "5 \<le> k" using less.prems(2,6) k by simp
    obtain m' where m': "split_block bl (Suc k) m = (True, m')"
      by (rule split_block_rep [OF assms(1) Cons [unfolded k] k5]) (rule that)
    then have "try_split bl t m = (Some (Suc (Suc k)), m')" by (subst try_split.simps) (simp add: k)
    with m' show ?thesis using less.prems Cons k by (intro exI [of _ k]) auto
  qed
qed

section \<open>kmalloc\<close>

lemma pop_block_rep:
  assumes rep: "heap_rep bl base m F" and b: "F k = b # bs"
  obtains m' where "pop_block bl (index_from_order k) m = Some (b, m')" "heap_rep bl base m' (F(k := bs))"
    "blk_size m' b = of_nat (2 ^ k)" "\<And>x. x \<notin> table bl \<Longrightarrow> x \<notin> free_bytes F \<Longrightarrow> m' x = m x"
proof -
  note hd = heap_rep_head [OF rep b] and st = heap_repD(1) [OF rep] and pop = blocks_pop [OF heap_repD(2) [OF rep] b]
  define m1 where "m1 = set_bucket bl k (blk_next m b) m"
  have h: "hdr b \<subseteq> span b (2 ^ k)" using hd(5) by (intro hdr_in_block) simp
  have k: "4 \<le> k" using hd(5) by simp
  have "table bl \<inter> hdr b = {}" using st grid_hdr [OF hd(4)] by (auto simp: heap_static_def)
  then have "set_next b 0 m1 x = m1 x" if "x \<in> table bl \<union> free_bytes (F(k := bs))" for x
    using h that by (intro set_hdr_other(1)) (auto simp: pop(2))
  from heap_rep_frame [OF heap_rep_pop [OF rep b, folded m1_def] this]
  have "heap_rep bl base (set_next b 0 m1) (F(k := bs))" .
  moreover have "blk_size (set_next b 0 m1) b = of_nat (2 ^ k)"
    using heap_repD(4) [OF rep, of b k] b k hd(6)
    by (simp add: m1_def size_set_next [OF hd(4) hd(4)] hdr_set_bucket [OF st hd(4)])
  moreover have "pop_block bl (index_from_order k) m = Some (b, set_next b 0 m1)"
    using hd(1,2) by (simp add: pop_block_def next_of_def m1_def bucket_def set_bucket_def)
  moreover have "set_next b 0 m1 x = m x" if "x \<notin> table bl" "x \<notin> free_bytes F" for x
  proof -
    have "x \<notin> hdr b" using that h pop(3) by blast
    then show ?thesis using that k hd(6) by (simp add: m1_def set_hdr_other set_bucket_other)
  qed
  ultimately show ?thesis by (intro that)
qed

text \<open>Before the block is taken, its list has been filled by splitting if it was empty.\<close>

definition prepared :: "u64 \<Rightarrow> nat \<Rightarrow> mem \<Rightarrow> mem" where
  "prepared bl k m = (if read64 m (slot bl (index_from_order k)) = 0
      then case try_split bl (k + 1) m of (None, m') \<Rightarrow> m' | (Some t, m') \<Rightarrow> split_down bl k (t - 1) m'
      else m)"

lemma kmalloc_prepare:
  assumes rep: "heap_rep bl base m F" and nb: "no_buddies F" and k: "5 \<le> k" "k \<le> u" and big: "F u \<noteq> []"
  obtains G b bs where "read64 m (slot bl (index_from_order k)) = 0 \<Longrightarrow> fst (try_split bl (k + 1) m) \<noteq> None"
    "heap_rep bl base (prepared bl k m) G" "G k = b # bs" "no_buddies (G(k := bs))" "free_bytes G = free_bytes F"
    "F k \<noteq> [] \<Longrightarrow> G = F"
    "\<And>x. x \<notin> table bl \<Longrightarrow> x \<notin> free_bytes F \<Longrightarrow> prepared bl k m x = m x"
proof (cases "F k")
  case Nil
  have "u \<le> 20" using big blocks_okD(5) [OF heap_repD(2) [OF rep], of "hd (F u)" u] by auto
  then have z: "read64 m (slot bl (index_from_order k)) = 0"
    using heap_rep_null [OF rep, of k] Nil k by (simp add: bucket_def)
  have "k < u" using Nil big k(2) by (cases "k = u") auto
  then obtain t b bs m2 where t: "k \<le> t" "F (Suc t) = b # bs" "\<forall>j. k \<le> j \<and> j \<le> t \<longrightarrow> F j = []"
      "split_block bl (Suc t) m = (True, m2)" "try_split bl (k + 1) m = (Some (Suc (Suc t)), m2)"
    using try_split_rep [OF rep k(1) _ big, of "k + 1"] Nil by (auto simp: less_Suc_eq)
  let ?G = "F(Suc t := bs, t := b # (b + of_nat (2 ^ t)) # F t)"
  have t5: "5 \<le> t" using k t(1) by simp
  have g: "heap_rep bl base m2 ?G" "free_bytes ?G = free_bytes F"
    "\<And>x. x \<notin> table bl \<Longrightarrow> x \<notin> free_bytes F \<Longrightarrow> m2 x = m x"
    by (rule split_block_rep [OF rep t(2) t5]; simp add: t(4))+
  have "t \<le> 20" using heap_rep_head(6) [OF rep t(2)] by simp
  then have "carved k t b ?G" using t by (intro carved_step [OF nb]) auto
  then obtain G where G: "heap_rep bl base (split_down bl k (Suc t) m2) G" "carved k k b G"
      "free_bytes G = free_bytes F"
      "\<And>x. x \<notin> table bl \<Longrightarrow> x \<notin> free_bytes F \<Longrightarrow> split_down bl k (Suc t) m2 x = m x"
    using split_down_rep [OF g(1) _ k(1) t(1), of b] g(2,3) by auto
  have m1: "prepared bl k m = split_down bl k (Suc t) m2" using z t(5) by (simp add: prepared_def)
  show ?thesis using G t(5) unfolding m1 [symmetric] carved_def
    by (intro that [of G]) (auto simp: Nil)
next
  case (Cons b bs)
  have "prepared bl k m = m" using heap_rep_head(1,2) [OF rep Cons] by (simp add: prepared_def bucket_def)
  moreover have "no_buddies (F(k := bs))" using nb by (rule no_buddies_sub) (auto simp: Cons)
  ultimately show ?thesis
    using rep Cons heap_rep_head(1,2) [OF rep Cons] by (intro that [of F]) (auto simp: bucket_def)
qed

text \<open>A block handed out: what the caller gets and what the allocator keeps.\<close>

lemma kmalloc_rep:
  assumes rep: "heap_rep (bucketList h) base (mem h) F" and nb: "no_buddies F" and lk: "heap_lock h = 0"
    and big: "F u \<noteq> []" and fits: "unat bytes + 24 \<le> 2 ^ u"
  obtains k b m' F' where "kmalloc bytes h = Some (b + 24, h\<lparr>mem := m', heap_lock := 0\<rparr>)"
    "heap_rep (bucketList h) base m' F'" "no_buddies F'"
    "valid_block base (k, b)" "unat bytes + 24 \<le> 2 ^ k" "\<And>j. 4 \<le> j \<Longrightarrow> j < k \<Longrightarrow> 2 ^ j < unat bytes + 24"
    "span b (2 ^ k) \<subseteq> free_bytes F" "free_bytes F' = free_bytes F - span b (2 ^ k)"
    "blk_size m' b = of_nat (2 ^ k)" "F k \<noteq> [] \<Longrightarrow> F' = F(k := tl (F k))"
    "\<And>x. x \<notin> table (bucketList h) \<Longrightarrow> x \<notin> free_bytes F \<Longrightarrow> m' x = mem h x"
proof -
  let ?bl = "bucketList h"
  have u: "5 \<le> u" "u \<le> 20" using big blocks_okD(5) [OF heap_repD(2) [OF rep], of "hd (F u)" u] by auto
  have "(2 :: nat) ^ u \<le> 2 ^ 20" using u(2) by (rule power_increasing) simp
  then have small: "unat bytes + 24 \<le> 2 ^ 20" using fits by simp
  have sz: "unat (bytes + of_nat sizeof_Block) = unat bytes + 24"
    using unat_add_of_nat [of bytes 24] small by (simp add: sizeof_Block_def)
  obtain k where k: "find_order (bytes + of_nat sizeof_Block) 4 = Some k" "4 \<le> k" "unat bytes + 24 \<le> 2 ^ k"
      "\<And>j. 4 \<le> j \<Longrightarrow> j < k \<Longrightarrow> 2 ^ j < unat bytes + 24"
    using find_order_least [of "bytes + of_nat sizeof_Block" 4] small unfolding sz by auto
  have "k \<noteq> 4" using k(3) by auto
  then have k5: "5 \<le> k" using k(2) by simp
  have ku: "k \<le> u" using k(4) [of u] fits u by (cases "k \<le> u") auto
  let ?m1 = "prepared ?bl k (mem h)"
  obtain G b bs where some: "read64 (mem h) (slot ?bl (index_from_order k)) = 0 \<Longrightarrow> fst (try_split ?bl (k + 1) (mem h)) \<noteq> None"
    and G: "heap_rep ?bl base ?m1 G" "G k = b # bs" "no_buddies (G(k := bs))" "free_bytes G = free_bytes F"
    and same: "F k \<noteq> [] \<Longrightarrow> G = F"
    and fr: "\<And>x. x \<notin> table ?bl \<Longrightarrow> x \<notin> free_bytes F \<Longrightarrow> ?m1 x = mem h x"
    by (rule kmalloc_prepare [OF rep nb k5 ku big]) (rule that)
  obtain m' where m': "pop_block ?bl (index_from_order k) ?m1 = Some (b, m')" "heap_rep ?bl base m' (G(k := bs))"
    "blk_size m' b = of_nat (2 ^ k)" and fr': "\<And>x. x \<notin> table ?bl \<Longrightarrow> x \<notin> free_bytes G \<Longrightarrow> m' x = ?m1 x"
    by (rule pop_block_rep [OF G(1,2)]) (rule that)
  note pop = blocks_pop [OF heap_repD(2) [OF G(1)] G(2)]
  have "kmalloc bytes h = Some (b + 24, h\<lparr>mem := m', heap_lock := 0\<rparr>)"
    using some m'(1) k(1)
    by (auto simp: kmalloc_def lk Let_def prepared_def sizeof_Block_def split: prod.splits option.splits if_splits)
  moreover have "valid_block base (k, b)" using blocks_okD(1) [OF heap_repD(2) [OF G(1)], of b k] G(2) by simp
  moreover have "m' x = mem h x" if "x \<notin> table ?bl" "x \<notin> free_bytes F" for x
    using fr fr' that by (simp add: G(4))
  moreover have "G(k := bs) = F(k := tl (F k))" if "F k \<noteq> []" using same [OF that] G(2) by auto
  ultimately show ?thesis
    using m'(2,3) G(3) k(3,4) pop(2,3) unfolding G(4) by (intro that [of b m' "G(k := bs)" k])
qed

end
