(* ===== verification/Buddy_Free.thy ===== *)
theory Buddy_Free
  imports Buddy_Malloc
begin

text \<open>
  \<open>BuddyAllocator::kfree\<close>: the block goes back to the free bytes and is merged with its buddy
  as long as the buddy is free. The search of \<open>try_to_merge\<close> goes on with a list index that a
  merge has made stale; it is harmless because only the block just added can have a free buddy.
\<close>

section \<open>Searching a list\<close>

lemma find_index_absent:
  assumes "chain m p bs" "x \<notin> set bs"
  shows "find_index m x p i = Some (-1)"
  using assms
proof (induction bs arbitrary: p i)
  case Nil
  then show ?case by (subst find_index.simps) simp
next
  case (Cons b bs)
  then show ?case by (subst find_index.simps) auto
qed

lemma find_index_present:
  assumes "chain m p (xs @ x # ys)" "x \<notin> set xs"
  shows "find_index m x p i = Some (int (i + length xs))"
  using assms
proof (induction xs arbitrary: p i)
  case Nil
  then show ?case by (subst find_index.simps) auto
next
  case (Cons b xs)
  then show ?case by (subst find_index.simps) auto
qed

lemma walk_chain:
  assumes "chain m p bs" "i \<le> length bs"
  shows "walk m p i = Some (if i < length bs then bs ! i else 0)"
  using assms
proof (induction i arbitrary: p bs)
  case 0
  then show ?case by (cases bs) auto
next
  case (Suc i)
  then show ?case by (cases bs) (auto simp: next_of_def)
qed

text \<open>In a list without buddies every search fails, whatever the index.\<close>

lemma find_buddy_none:
  assumes c: "chain m (bucket m bl k) L" and i: "i \<le> length L"
    and nb: "\<And>e. e \<in> set L \<Longrightarrow> e XOR push_bit k 1 \<notin> set L"
  shows "find_buddy bl k i m = Some (-1)"
proof (cases "i < length L")
  case True
  then show ?thesis
    using walk_chain [OF c i] find_index_absent [OF c nb, of "L ! i"]
    by (auto simp: find_buddy_def Let_def simp flip: bucket_def)
next
  case False
  then show ?thesis using walk_chain [OF c i] by (auto simp: find_buddy_def Let_def simp flip: bucket_def)
qed

lemma merge_loop_none:
  assumes "chain m (bucket m bl k) L" "\<And>e. e \<in> set L \<Longrightarrow> e XOR push_bit k 1 \<notin> set L"
    "chain m cur bs" "i + length bs \<le> Suc (length L)"
  shows "merge_loop bl k cur i merged m = Some (merged, m)"
  using assms(3,4)
proof (induction bs arbitrary: cur i)
  case Nil
  then show ?case by (subst merge_loop.simps) simp
next
  case (Cons b bs)
  then have "find_buddy bl k i m = Some (-1)" by (intro find_buddy_none [OF assms(1) _ assms(2)]) auto
  then show ?case using Cons by (subst merge_loop.simps) simp
qed

section \<open>Unlinking the block and its buddy\<close>

lemma unlink_walk_rest:
  assumes "chain m q (xs @ d # ys)" "read64 m p = q" "cur \<notin> set xs"
  shows "unlink_walk cur p q (length xs) m = Some (if xs = [] then p else last xs + 8, d, m)"
  using assms
proof (induction xs arbitrary: p q)
  case Nil
  then show ?case by auto
next
  case (Cons x xs)
  then have "unlink_walk cur (x + 8) (blk_next m x) (length xs) m
      = Some (if xs = [] then x + 8 else last xs + 8, d, m)"
    by (intro Cons.IH) (auto simp: blk_next_def)
  with Cons.prems show ?case by (auto simp: next_of_def)
qed

lemma chain_unlink:
  assumes "chain m p (zs @ z # d # ys)" "distinct (zs @ z # d # ys)" "set (zs @ z # d # ys) \<subseteq> grid base"
  shows "chain (set_next z (blk_next m d) m) p (zs @ z # ys)"
  using assms
proof (induction zs arbitrary: p)
  case Nil
  then have "chain (set_next z (blk_next m d) m) (blk_next m d) ys \<longleftrightarrow> chain m (blk_next m d) ys"
    by (intro chain_cong) (auto simp: next_set_next [where base = base])
  with Nil show ?case by (simp add: next_set_next [where base = base])
next
  case (Cons y zs)
  then show ?case by (simp add: next_set_next [where base = base])
qed

lemma heap_rep_unlink:
  assumes rep: "heap_rep bl base m F" and d: "F k = zs @ z # d # ys"
  shows "heap_rep bl base (set_next z (blk_next m d) m) (F(k := zs @ z # ys))" (is "heap_rep bl base ?m ?F")
proof -
  note st = heap_repD(1) [OF rep] and ok = heap_repD(2) [OF rep]
  have grid: "c \<in> grid base" if "c \<in> set (F j)" for c j using blocks_okD(4) [OF ok that] .
  have z: "z \<in> grid base" and k: "4 \<le> k" "k \<le> 20"
    using grid [of z k] blocks_okD(5) [OF ok, of z k] d by auto
  have g: "set (F k) \<subseteq> grid base" using grid by blast
  have "chain ?m p (zs @ z # ys)" if "chain m p (F k)" for p
    using chain_unlink [of m p zs z d ys base] that blocks_okD(3) [OF ok, of k] g unfolding d by blast
  moreover have "chain ?m p (F j) = chain m p (F j)" if "j \<noteq> k" for p j
  proof -
    have "z \<notin> set (F j)" using blocks_same [OF ok, of z k z j] d that span_start [of "2 ^ k" z] by auto
    then show ?thesis using grid z by (intro chain_cong) (auto simp: next_set_next [where base = base])
  qed
  moreover have "bucket ?m bl j = bucket m bl j" if "4 \<le> j" "j \<le> 20" for j
    using that by (simp add: bucket_set_hdr [OF st z])
  moreover have "blk_size ?m c = of_nat (2 ^ j)" if "c \<in> set (?F j)" for c j
  proof -
    have "c \<in> set (F j)" using that d by (auto split: if_splits)
    then show ?thesis using heap_repD(4) [OF rep, of c j] grid z by (simp add: size_set_next [where base = base])
  qed
  ultimately show ?thesis
    using rep blocks_del(1) [OF ok, of k "zs @ [z]" d ys] d by (auto simp: heap_rep_def)
qed

text \<open>The cell that points to a block of a list: the bucket slot or the \<open>next\<close> of the block before.\<close>

definition link_cell :: "u64 \<Rightarrow> nat \<Rightarrow> u64 list \<Rightarrow> u64" where
  "link_cell bl k xs = (if xs = [] then slot bl (index_from_order k) else last xs + 8)"

lemma unlink_first:
  assumes rep: "heap_rep bl base m F" and c: "F k = c # xs @ d # ys"
  shows "unlink_walk c (slot bl (index_from_order k)) (bucket m bl k) (Suc (length xs)) m
    = Some (link_cell bl k xs, d, set_bucket bl k (blk_next m c) m)"
proof -
  note st = heap_repD(1) [OF rep] and hd = heap_rep_head [OF rep c]
  define m1 where "m1 = set_bucket bl k (blk_next m c) m"
  have rep1: "heap_rep bl base m1 (F(k := xs @ d # ys))" unfolding m1_def by (rule heap_rep_pop [OF rep c])
  have k: "4 \<le> k" "k \<le> 20" using hd(5,6) by auto
  have nx: "blk_next m1 c = blk_next m c" using k by (simp add: m1_def hdr_set_bucket [OF st hd(4)])
  have b1: "bucket m1 bl k = blk_next m c" using k by (simp add: m1_def bucket_set_bucket)
  have dist: "c \<notin> set xs" using blocks_okD(3) [OF heap_repD(2) [OF rep], of k] c by simp
  have ch: "chain m1 (blk_next m c) (xs @ d # ys)" using heap_repD(3) [OF rep1, of k] k b1 by simp
  have "unlink_walk c (slot bl (index_from_order k)) (blk_next m c) (length xs) m1 = Some (link_cell bl k xs, d, m1)"
    unfolding link_cell_def using b1 dist by (intro unlink_walk_rest [OF ch]) (auto simp: bucket_def)
  then show ?thesis
    using hd(1,2) nx by (simp add: next_of_def bucket_def m1_def set_bucket_def)
qed

lemma relink:
  assumes rep: "heap_rep bl base m F" and d: "F k = xs @ d # ys"
  defines "m2 \<equiv> write64 m (link_cell bl k xs) (blk_next m d)"
  shows "heap_rep bl base m2 (F(k := xs @ ys))"
    and "bucket m2 bl k = (if xs = [] then blk_next m d else hd xs)"
    and "e \<in> grid base \<Longrightarrow> e \<notin> set xs \<Longrightarrow> blk_next m2 e = blk_next m e"
    and "x \<notin> table bl \<Longrightarrow> x \<notin> free_bytes F \<Longrightarrow> m2 x = m x"
proof -
  note st = heap_repD(1) [OF rep] and ok = heap_repD(2) [OF rep]
  have k: "4 \<le> k" "k \<le> 20" using blocks_okD(5) [OF ok, of d k] d by auto
  have "heap_rep bl base m2 (F(k := xs @ ys)) \<and> bucket m2 bl k = (if xs = [] then blk_next m d else hd xs)
    \<and> (e \<in> grid base \<longrightarrow> e \<notin> set xs \<longrightarrow> blk_next m2 e = blk_next m e)
    \<and> (x \<notin> table bl \<longrightarrow> x \<notin> free_bytes F \<longrightarrow> m2 x = m x)"
  proof (cases xs rule: rev_cases)
    case Nil
    then have "m2 = set_bucket bl k (blk_next m d) m" by (simp add: m2_def link_cell_def set_bucket_def)
    then show ?thesis using heap_rep_pop [OF rep, of k d ys] d Nil k
      by (simp add: bucket_set_bucket hdr_set_bucket [OF st] set_bucket_other)
  next
    case (snoc zs z)
    then have m2: "m2 = set_next z (blk_next m d) m" by (simp add: m2_def link_cell_def set_next_def)
    have z: "z \<in> grid base" "z \<in> set (F k)" using blocks_okD(4) [OF ok, of z k] d snoc by auto
    have "hdr z \<subseteq> free_bytes F" using hdr_in_block [OF k(1), of z] block_free [of z F k] z(2) by blast
    moreover have "bucket m bl k = hd xs" using heap_repD(3) [OF rep k] d snoc by (cases zs) auto
    ultimately show ?thesis using heap_rep_unlink [OF rep, of k zs z d ys] d snoc k z
      by (auto simp: m2 bucket_set_hdr [OF st] next_set_next [where base = base] intro!: set_hdr_other)
  qed
  then show "heap_rep bl base m2 (F(k := xs @ ys))"
    and "bucket m2 bl k = (if xs = [] then blk_next m d else hd xs)"
    and "e \<in> grid base \<Longrightarrow> e \<notin> set xs \<Longrightarrow> blk_next m2 e = blk_next m e"
    and "x \<notin> table bl \<Longrightarrow> x \<notin> free_bytes F \<Longrightarrow> m2 x = m x" by auto
qed

section \<open>Joining two buddies\<close>

lemma xor_buddy:
  fixes c :: u64
  assumes "k < 64"
  shows "if bit c k then c = (c XOR push_bit k 1) + of_nat (2 ^ k) \<and> (c XOR push_bit k 1) < c
    else c XOR push_bit k 1 = c + of_nat (2 ^ k) \<and> c < c XOR push_bit k 1"
proof -
  have add: "e XOR push_bit k 1 = e + of_nat (2 ^ k)" "e < e XOR push_bit k 1" if "\<not> bit e k" for e :: u64
  proof -
    have dis: "e AND push_bit k 1 = 0" using that by (intro bit_word_eqI) (auto simp: bit_simps)
    have "e XOR push_bit k 1 = e + push_bit k 1" using dis by (simp only: disjunctive_add_eq_xor)
    then show "e XOR push_bit k 1 = e + of_nat (2 ^ k)" by simp
    have "e \<le> e XOR push_bit k 1" unfolding disjunctive_xor_eq_or [OF dis] by (rule le_word_or2)
    then show "e < e XOR push_bit k 1" using xor_bit_ne [OF assms, of e] by simp
  qed
  have inv: "(c XOR push_bit k 1) XOR push_bit k 1 = c" by (simp only: xor.assoc xor_self_eq xor.right_neutral)
  have flip: "bit (c XOR push_bit k 1) k = (\<not> bit c k)" using assms by (simp add: bit_simps)
  show ?thesis
  proof (cases "bit c k")
    case True
    then show ?thesis using add [of "c XOR push_bit k 1"] unfolding flip inv by simp
  qed (use add [of c] in simp)
qed

lemma buddies_join:
  assumes v: "valid_block base (k, c)" "valid_block base (k, c XOR push_bit k 1)" and k: "k < 20"
  defines "e \<equiv> min c (c XOR push_bit k 1)"
  shows "valid_block base (Suc k, e)"
    and "span e (2 ^ Suc k) = span c (2 ^ k) \<union> span (c XOR push_bit k 1) (2 ^ k)"
proof -
  have k64: "k < 64" "k < 63" using k by auto
  show sp: "span e (2 ^ Suc k) = span c (2 ^ k) \<union> span (c XOR push_bit k 1) (2 ^ k)"
  proof (cases "bit c k")
    case True
    note x = xor_buddy [OF k64(1), of c, unfolded if_P [OF True]]
    have e: "e = c XOR push_bit k 1" unfolding e_def by (rule min_absorb2 [OF less_imp_le [OF conjunct2 [OF x]]])
    show ?thesis
      using reg_halves(1) [OF k64(2), of e] unfolding reg_pair e conjunct1 [OF x, symmetric] by (simp only: Un_commute)
  next
    case False
    note x = xor_buddy [OF k64(1), of c, unfolded if_not_P [OF False]]
    have e: "e = c" unfolding e_def by (rule min_absorb1 [OF less_imp_le [OF conjunct2 [OF x]]])
    show ?thesis using reg_halves(1) [OF k64(2), of e] unfolding reg_pair e conjunct1 [OF x, symmetric] .
  qed
  have "e \<in> grid base" using v unfolding e_def min_def by (auto simp: valid_block_def)
  then show "valid_block base (Suc k, e)" using v k sp by (auto simp: valid_block_def)
qed

lemma push_merged_rep:
  assumes rep: "heap_rep bl base m F" and v: "valid_block base (Suc k, e)"
    and new: "span e (2 ^ Suc k) \<inter> free_bytes F = {}" and k: "4 \<le> k"
  shows "heap_rep bl base (push_merged bl k e m) (F(Suc k := e # F (Suc k)))"
    and "bucket (push_merged bl k e m) bl k = bucket m bl k"
    and "x \<notin> table bl \<Longrightarrow> x \<notin> span e (2 ^ Suc k) \<Longrightarrow> push_merged bl k e m x = m x"
proof -
  note st = heap_repD(1) [OF rep]
  have e: "e \<in> grid base" and k': "Suc k \<le> 20" using v by (auto simp: valid_block_def)
  define m1 where "m1 = set_size e (of_nat (2 ^ Suc k)) m"
  have m: "push_merged bl k e m = set_bucket bl (Suc k) e (set_next e (bucket m1 bl (Suc k)) m1)"
    by (simp add: push_merged_def Let_def slot_above bucket_def set_bucket_def m1_def)
  have "same_cells bl base (set_bucket bl (Suc k) e (set_size e (of_nat (2 ^ Suc k))
      (set_next e (bucket m bl (Suc k)) m))) (push_merged bl k e m)"
    using e k k' unfolding same_cells_def m m1_def
    by (simp add: next_set_next [where base = base] next_set_size [where base = base]
        size_set_size [where base = base] size_set_next [where base = base] bucket_set_hdr [OF st]
        hdr_set_bucket [OF st] bucket_set_bucket)
  then show "heap_rep bl base (push_merged bl k e m) (F(Suc k := e # F (Suc k)))"
    using heap_rep_push [OF rep v new] by (rule heap_rep_cells)
  show "bucket (push_merged bl k e m) bl k = bucket m bl k"
    using e k k' by (simp add: m m1_def bucket_set_bucket bucket_set_hdr [OF st])
  show "push_merged bl k e m x = m x" if "x \<notin> table bl" "x \<notin> span e (2 ^ Suc k)"
  proof -
    have "x \<notin> hdr e" using that(2) hdr_in_block [of "Suc k" e] k by auto
    then show ?thesis using that(1) k k' by (simp add: m m1_def set_bucket_other set_hdr_other)
  qed
qed

section \<open>One merge\<close>

lemma find_buddy_head:
  assumes rep: "heap_rep bl base m F" and c: "F k = c # xs @ (c XOR push_bit k 1) # ys"
  shows "find_buddy bl k 0 m = Some (int (Suc (length xs)))"
proof -
  note hd = heap_rep_head [OF rep c]
  have "distinct (c # xs @ (c XOR push_bit k 1) # ys)"
    using blocks_okD(3) [OF heap_repD(2) [OF rep], of k] c by simp
  then have "find_index m (c XOR push_bit k 1) (bucket m bl k) 0 = Some (int (0 + length (c # xs)))"
    using heap_repD(3) [OF rep, of k] hd(5,6) c by (intro find_index_present) auto
  then show ?thesis using hd by (simp add: find_buddy_def MIN_POWER_def Let_def flip: bucket_def)
qed

lemma merge_loop_found:
  assumes "cur \<noteq> 0" "find_buddy bl k i m = Some (int n)"
    "unlink_walk cur (slot bl (index_from_order k)) (bucket m bl k) n m = Some (p, d, m1)" "d \<noteq> 0"
    "m2 = write64 m1 p (blk_next m1 d)"
    "(if blk_next m2 cur = d then next_of m2 (blk_next m2 cur) else Some (blk_next m2 cur)) = Some cur2"
  shows "merge_loop bl k cur i merged m = merge_loop bl k cur2 (Suc i) True (push_merged bl k (min cur d) m2)"
proof -
  have nx: "next_of m1 d = Some (blk_next m1 d)" using assms(4) by (simp add: next_of_def)
  have pm: "(if d > cur then push_merged bl k cur m2 else push_merged bl k d m2) = push_merged bl k (min cur d) m2"
    by (cases "cur < d") (simp_all add: min.absorb1 min.absorb2)
  have "merge_loop bl k cur i merged m =
      (if blk_next m2 cur = d then next_of m2 (blk_next m2 cur) else Some (blk_next m2 cur)) \<bind>
        (\<lambda>c2. merge_loop bl k c2 (Suc i) True (if d > cur then push_merged bl k cur m2 else push_merged bl k d m2))"
    using assms(1,2,3) nx
    by (subst merge_loop.simps) (simp only: Let_def assms(5) [symmetric] bucket_def bind.bind_lunit prod.case
        option.case if_False nat_int of_nat_0_le_iff if_True)
  then show ?thesis unfolding pm assms(6) by simp
qed

lemma merge_loop_merge:
  assumes rep: "heap_rep bl base m F" and c: "F k = c # xs @ d # ys" and d: "d = c XOR push_bit k 1"
    and k: "k < 20" and nb: "no_buddies (F(k := xs @ d # ys))"
  defines "G \<equiv> F(k := xs @ ys, Suc k := min c d # F (Suc k))"
  obtains m' where "merge_loop bl k c 0 False m = Some (True, m')" "heap_rep bl base m' G"
    "free_bytes G = free_bytes F" "no_buddies (G(Suc k := F (Suc k)))"
    "\<And>x. x \<notin> table bl \<Longrightarrow> x \<notin> free_bytes F \<Longrightarrow> m' x = m x"
proof -
  note st = heap_repD(1) [OF rep] and ok = heap_repD(2) [OF rep] and hd = heap_rep_head [OF rep c]
  define m1 where "m1 = set_bucket bl k (blk_next m c) m"
  define m2 where "m2 = write64 m1 (link_cell bl k xs) (blk_next m1 d)"
  define m3 where "m3 = push_merged bl k (min c d) m2"
  let ?F1 = "F(k := xs @ d # ys)" and ?F2 = "F(k := xs @ ys)"
  have k4: "4 \<le> k" "k \<le> 20" using hd(5) k by auto
  have mem: "c \<in> set (F k)" "d \<in> set (F k)" using c by auto
  have dist: "distinct (c # xs @ d # ys)" using blocks_okD(3) [OF ok, of k] c by simp
  have g: "c \<in> grid base" "d \<in> grid base" using blocks_okD(4) [OF ok] mem by blast+
  note nn = grid_nonnull [OF st g(1)] grid_nonnull [OF st g(2)]
  have r1: "heap_rep bl base m1 ?F1" unfolding m1_def by (rule heap_rep_pop [OF rep c])
  have f1: "free_bytes ?F1 = free_bytes F - span c (2 ^ k)" using blocks_pop(2) [OF ok c] .
  note re = relink [OF r1, of k xs d ys, folded m2_def, simplified]
  have f2: "free_bytes ?F2 = free_bytes ?F1 - span d (2 ^ k)"
    using blocks_del(2) [OF heap_repD(2) [OF r1], of k xs d ys] by simp
  note join = buddies_join [OF blocks_okD(1) [OF ok mem(1)] blocks_okD(1) [OF ok mem(2), unfolded d] k, folded d]
  have new: "span (min c d) (2 ^ Suc k) \<inter> free_bytes ?F2 = {}" unfolding join(2) f2 f1 by auto
  note pm = push_merged_rep [OF re(1) join(1) new k4(1), folded m3_def]
  have fG: "free_bytes G = free_bytes F"
    using blocks_push(2) [OF heap_repD(2) [OF re(1)] join(1) new] block_free [of c F k] block_free [of d F k] mem
    unfolding join(2) f2 f1 G_def by auto
  have cur: "(if blk_next m2 c = d then next_of m2 (blk_next m2 c) else Some (blk_next m2 c)) = Some (bucket m2 bl k)"
  proof -
    have "blk_next m2 c = blk_next m c" using re(3) [OF g(1)] dist k4 by (simp add: m1_def hdr_set_bucket [OF st g(1)])
    moreover have "blk_next m2 d = blk_next m1 d" using re(3) [OF g(2)] dist by simp
    ultimately show ?thesis
      using re(2) hd(3) dist nn(2) by (cases xs) (auto simp: next_of_def)
  qed
  have "merge_loop bl k c 0 False m = merge_loop bl k (bucket m2 bl k) 1 True m3"
    using merge_loop_found [OF nn(1) _ unlink_first [OF rep c] nn(2), folded m1_def, OF _ m2_def cur]
      find_buddy_head [OF rep c [unfolded d]] unfolding m3_def by simp
  also have "\<dots> = Some (True, m3)"
  proof (rule merge_loop_none)
    show "chain m3 (bucket m3 bl k) (xs @ ys)" using heap_repD(3) [OF pm(1) k4] by simp
    then show "chain m3 (bucket m2 bl k) (xs @ ys)" using pm(2) by simp
    show "e XOR push_bit k 1 \<notin> set (xs @ ys)" if "e \<in> set (xs @ ys)" for e
      using nb that k unfolding no_buddies_def by auto
  qed simp
  finally have loop: "merge_loop bl k c 0 False m = Some (True, m3)" .
  have "no_buddies (G(Suc k := F (Suc k)))" using nb by (rule no_buddies_sub) (auto simp: G_def)
  moreover have "m3 x = m x" if "x \<notin> table bl" "x \<notin> free_bytes F" for x
    using that pm(3) [of x] re(4) [of x] block_free [of c F k] block_free [of d F k] mem f1 k4
    unfolding join(2) by (auto simp: m1_def set_bucket_other)
  moreover have "heap_rep bl base m3 G" using pm(1) unfolding G_def by simp
  ultimately show ?thesis using loop fG by (intro that [of m3])
qed

section \<open>Merging upwards\<close>

lemma no_buddies_cons:
  assumes "no_buddies (F(k := bs))" "c XOR push_bit k 1 \<notin> set bs" "k < 20"
  shows "no_buddies (F(k := c # bs))"
proof -
  have "e XOR push_bit k 1 \<notin> set (c # bs)" if e: "e \<in> set (c # bs)" for e
  proof (cases "e = c")
    case True
    then show ?thesis using assms(2,3) xor_bit_ne [of k c] by simp
  next
    case False
    then have "e \<in> set bs" using e by simp
    moreover have "e XOR push_bit k 1 \<noteq> c"
    proof
      assume "e XOR push_bit k 1 = c"
      then have "c XOR push_bit k 1 = e" by (metis xor.assoc xor_self_eq xor.right_neutral)
      with assms(2) \<open>e \<in> set bs\<close> show False by simp
    qed
    ultimately show ?thesis using assms(1,3) unfolding no_buddies_def by auto
  qed
  then show ?thesis using assms(1) unfolding no_buddies_def by (auto simp del: set_simps)
qed

text \<open>Only the first block of order \<open>k\<close> may have its buddy free.\<close>

lemma merge_up_rep:
  assumes "heap_rep bl base m F" "F k = c # bs" "no_buddies (F(k := bs))"
  shows "\<exists>m' F'. merge_up bl k m = Some m' \<and> heap_rep bl base m' F' \<and> no_buddies F'
    \<and> free_bytes F' = free_bytes F \<and> (\<forall>x. x \<notin> table bl \<longrightarrow> x \<notin> free_bytes F \<longrightarrow> m' x = m x)"
  using assms
proof (induction "20 - k" arbitrary: k m F c bs rule: less_induct)
  case less
  note rep = less.prems(1) and c = less.prems(2) and nb = less.prems(3)
  note hd = heap_rep_head [OF rep c] and ok = heap_repD(2) [OF rep]
  show ?case
  proof (cases "k = 20")
    case True
    have "no_buddies F" using nb True by (auto simp: no_buddies_def)
    then show ?thesis using rep True by (intro exI [of _ m] exI [of _ F]) (simp add: merge_up.simps MAX_POWER_def)
  next
    case False
    then have k: "k < 20" using hd(6) by simp
    have t: "try_to_merge bl k m = merge_loop bl k c 0 False m"
      using k hd(1) by (simp add: try_to_merge_def MAX_POWER_def bucket_def)
    show ?thesis
    proof (cases "c XOR push_bit k 1 \<in> set bs")
      case True
      then obtain xs ys where bs: "bs = xs @ (c XOR push_bit k 1) # ys" by (meson split_list)
      let ?e = "min c (c XOR push_bit k 1)"
      let ?G = "F(k := xs @ ys, Suc k := ?e # F (Suc k))"
      obtain m' where m': "merge_loop bl k c 0 False m = Some (True, m')" "heap_rep bl base m' ?G"
          "free_bytes ?G = free_bytes F" "no_buddies (?G(Suc k := F (Suc k)))"
          and fr: "\<And>x. x \<notin> table bl \<Longrightarrow> x \<notin> free_bytes F \<Longrightarrow> m' x = m x"
        by (rule merge_loop_merge [OF rep c [unfolded bs] refl k nb [unfolded bs]]) (rule that)
      have "merge_up bl k m = merge_up bl (Suc k) m'"
        using k t m'(1) by (subst merge_up.simps) (simp add: MAX_POWER_def)
      then show ?thesis
        using less.hyps [OF _ m'(2), of "Suc k" ?e "F (Suc k)"] k m'(3,4) fr by auto
    next
      case False
      then have "no_buddies F" using no_buddies_cons [OF nb, of c] k c by (simp add: fun_upd_idem)
      then have "merge_loop bl k c 0 False m = Some (False, m)"
        using heap_repD(3) [OF rep, of k] hd k c
        by (intro merge_loop_none [of m bl k "c # bs" c "c # bs"]) (auto simp: no_buddies_def)
      then have "merge_up bl k m = Some m" using k t by (subst merge_up.simps) (simp add: MAX_POWER_def)
      then show ?thesis using rep \<open>no_buddies F\<close> by blast
    qed
  qed
qed

section \<open>kfree\<close>

lemma set_size_same: "blk_size m b = v \<Longrightarrow> set_size b v m = m"
  by (auto simp: blk_size_def set_size_def write64_same)

lemma block_in_range:
  assumes st: "heap_static bl base" and v: "valid_block base (k, b)"
  shows "base \<le> b + 24" "b + 24 \<le> base + push_bit MAX_POWER 1"
proof -
  have b: "b \<in> grid base" and sub: "span b (2 ^ k) \<subseteq> arena base" and k: "5 \<le> k"
    using v by (auto simp: valid_block_def)
  obtain j where j: "j < 2 ^ 16" "b = base + of_nat (16 * j)" using b by (auto simp: grid_def)
  have lim: "unat base + 2 ^ 20 < 2 ^ 64" using st by (simp add: heap_static_def)
  have at: "b + 24 = base + of_nat (16 * j + 24)" by (simp add: j(2) algebra_simps)
  have "(2 :: nat) ^ 5 \<le> 2 ^ k" using k by (rule power_increasing) simp
  then have "b + 24 \<in> span b (2 ^ k)" using add_of_nat_in_span [of 24 "2 ^ k" b] by simp
  then have "base + of_nat (16 * j + 24) \<in> arena base" using sub unfolding at by blast
  moreover have small: "16 * j + 24 < 2 ^ 64" using j(1) by simp
  ultimately have le: "16 * j + 24 < 2 ^ 20" using unat_of_nat64 [OF small] by (simp add: in_span)
  have u: "unat (b + 24) = unat base + (16 * j + 24)"
    unfolding at using le lim by (intro unat_add_of_nat) simp
  have u2: "unat (base + push_bit MAX_POWER 1) = unat base + 2 ^ 20"
    using unat_add_of_nat [OF lim] by (simp add: MAX_POWER_def)
  show "base \<le> b + 24" "b + 24 \<le> base + push_bit MAX_POWER 1"
    unfolding word_le_nat_alt u u2 using le by simp_all
qed

lemma kfree_rep:
  assumes rep: "heap_rep (bucketList h) (baseAddr h) (mem h) F" and nb: "no_buddies F" and lk: "heap_lock h = 0"
    and v: "valid_block (baseAddr h) (k, b)" and new: "span b (2 ^ k) \<inter> free_bytes F = {}"
    and sz: "blk_size (mem h) b = of_nat (2 ^ k)"
  obtains m' F' where "kfree (b + 24) h = Some (h\<lparr>mem := m', heap_lock := 0\<rparr>)"
    "heap_rep (bucketList h) (baseAddr h) m' F'" "no_buddies F'"
    "free_bytes F' = free_bytes F \<union> span b (2 ^ k)"
    "\<And>x. x \<notin> table (bucketList h) \<Longrightarrow> x \<notin> free_bytes F \<union> span b (2 ^ k) \<Longrightarrow> m' x = mem h x"
proof -
  let ?bl = "bucketList h" and ?base = "baseAddr h"
  note st = heap_repD(1) [OF rep] and ok = heap_repD(2) [OF rep]
  have k: "5 \<le> k" "k \<le> 20" and b: "b \<in> grid ?base" using v by (auto simp: valid_block_def)
  have in_range: "\<not> b + 24 < ?base" "\<not> ?base + push_bit MAX_POWER 1 < b + 24"
    using block_in_range [OF st v] by auto
  define m1 where "m1 = set_bucket ?bl k b (set_next b (bucket (mem h) ?bl k) (mem h))"
  have same: "set_size b (of_nat (2 ^ k)) (set_next b x (mem h)) = set_next b x (mem h)" for x
    by (rule set_size_same) (simp add: sz size_set_next [OF b b])
  have r1: "heap_rep ?bl ?base m1 (F(k := b # F k))"
    using heap_rep_push [OF rep v new] unfolding same m1_def .
  have f1: "free_bytes (F(k := b # F k)) = free_bytes F \<union> span b (2 ^ k)" using blocks_push(2) [OF ok v new] .
  obtain m' F' where m': "merge_up ?bl k m1 = Some m'" "heap_rep ?bl ?base m' F'" "no_buddies F'"
      "free_bytes F' = free_bytes F \<union> span b (2 ^ k)"
      "\<And>x. x \<notin> table ?bl \<Longrightarrow> x \<notin> free_bytes F \<union> span b (2 ^ k) \<Longrightarrow> m' x = m1 x"
    using merge_up_rep [OF r1, of k b "F k"] nb unfolding f1 by auto
  have "kfree (b + 24) h = Some (h\<lparr>mem := m', heap_lock := 0\<rparr>)"
    using in_range m'(1) find_order_exact [OF k] sz
    by (simp add: kfree_def sizeof_Block_def lk m1_def bucket_def set_bucket_def Let_def)
  moreover have "m' x = mem h x" if "x \<notin> table ?bl" "x \<notin> free_bytes F \<union> span b (2 ^ k)" for x
  proof -
    have "x \<notin> hdr b" using that(2) hdr_in_block [of k b] k by auto
    then show ?thesis using m'(5) [OF that] that(1) k by (simp add: m1_def set_bucket_other set_hdr_other)
  qed
  ultimately show ?thesis using m'(2-4) by (intro that [of m' F'])
qed

end
