(* ===== verification/Kernel_Heap.thy ===== *)
theory Kernel_Heap
  imports Buddy_Free
begin

text \<open>
  What the kernel may rely on when it calls \<open>kmalloc\<close> and \<open>kfree\<close>: the two calls as an
  interface, the clients of that interface, and the state the constructor leaves.
\<close>

section \<open>The heap and the blocks handed out\<close>

text \<open>A well-formed heap with the set of its free bytes. The lock is not part of it.\<close>

definition heap_wf :: "'a kheap_scheme \<Rightarrow> u64 set \<Rightarrow> bool" where
  "heap_wf h A \<longleftrightarrow> (\<exists>F. heap_rep (bucketList h) (baseAddr h) (mem h) F \<and> no_buddies F \<and> free_bytes F = A)"

definition block_bytes :: "'a kheap_scheme \<Rightarrow> u64 \<Rightarrow> u64 set" where
  "block_bytes h p = span (p - 24) (unat (blk_size (mem h) (p - 24)))"

text \<open>A pointer the heap has handed out: the header before it says the order of its block.\<close>

definition handed_out :: "'a kheap_scheme \<Rightarrow> u64 \<Rightarrow> bool" where
  "handed_out h p \<longleftrightarrow> (\<exists>k. valid_block (baseAddr h) (k, p - 24) \<and> blk_size (mem h) (p - 24) = of_nat (2 ^ k))"

text \<open>Some list of a large enough order is not empty.\<close>

definition can_serve :: "u64 \<Rightarrow> 'a kheap_scheme \<Rightarrow> bool" where
  "can_serve bytes h \<longleftrightarrow> (\<exists>u \<in> {5..20}. bucket (mem h) (bucketList h) u \<noteq> 0 \<and> unat bytes + 24 \<le> 2 ^ u)"

lemma block_bytes_at:
  assumes "blk_size (mem h) (p - 24) = of_nat (2 ^ k)" "k \<le> 20"
  shows "block_bytes h p = span (p - 24) (2 ^ k)"
proof -
  have "(2 :: nat) ^ k \<le> 2 ^ 20" using assms(2) by (rule power_increasing) simp
  then have "unat (of_nat (2 ^ k) :: u64) = 2 ^ k" by (intro unat_of_nat64) simp
  then show ?thesis by (simp only: block_bytes_def assms(1))
qed

lemma handed_out_bytes:
  assumes "handed_out h p"
  obtains k where "valid_block (baseAddr h) (k, p - 24)" "blk_size (mem h) (p - 24) = of_nat (2 ^ k)"
    "block_bytes h p = span (p - 24) (2 ^ k)" "hdr (p - 24) \<subseteq> block_bytes h p" "p \<in> block_bytes h p"
    "block_bytes h p \<subseteq> arena (baseAddr h)"
proof -
  obtain k where k: "valid_block (baseAddr h) (k, p - 24)" "blk_size (mem h) (p - 24) = of_nat (2 ^ k)"
    using assms by (auto simp: handed_out_def)
  have le: "5 \<le> k" "k \<le> 20" using k(1) by (auto simp: valid_block_def)
  have bb: "block_bytes h p = span (p - 24) (2 ^ k)" using block_bytes_at [OF k(2) le(2)] .
  have "(2 :: nat) ^ 5 \<le> 2 ^ k" using le(1) by (rule power_increasing) simp
  then have "p \<in> span (p - 24) (2 ^ k)" by (simp add: in_span)
  then show ?thesis using k bb hdr_in_block [of k "p - 24"] le by (intro that) (auto simp: valid_block_def)
qed

text \<open>A block keeps its meaning as long as nobody writes its header.\<close>

lemma handed_out_frame:
  assumes "handed_out h p" "baseAddr h' = baseAddr h" "\<And>x. x \<in> hdr (p - 24) \<Longrightarrow> mem h' x = mem h x"
  shows "handed_out h' p \<and> block_bytes h' p = block_bytes h p"
proof -
  have "blk_size (mem h') (p - 24) = blk_size (mem h) (p - 24)"
    unfolding blk_size_def using size_cell [of "p - 24"] assms(3) by (intro read64_cong) auto
  then show ?thesis using assms(1,2) by (simp add: handed_out_def block_bytes_def)
qed

lemma heap_wf_table:
  assumes "heap_wf h A" "handed_out h p"
  shows "block_bytes h p \<inter> table (bucketList h) = {}"
proof -
  have "block_bytes h p \<subseteq> arena (baseAddr h)" by (rule handed_out_bytes [OF assms(2)])
  moreover have "table (bucketList h) \<inter> arena (baseAddr h) = {}"
    using assms(1) by (auto simp: heap_wf_def heap_rep_def heap_static_def)
  ultimately show ?thesis by blast
qed

section \<open>kmalloc and kfree on well-formed heaps\<close>

lemma kmalloc_wf:
  assumes wf: "heap_wf h A" and lk: "heap_lock h = 0" and can: "can_serve bytes h"
  obtains p h' where "kmalloc bytes h = Some (p, h')" "p \<noteq> 0" "heap_wf h' (A - block_bytes h' p)" "handed_out h' p"
    "block_bytes h' p \<subseteq> A" "span p (unat bytes) \<subseteq> block_bytes h' p"
    "\<And>x. x \<notin> table (bucketList h) \<Longrightarrow> x \<notin> A \<Longrightarrow> mem h' x = mem h x"
    "h' = h\<lparr>mem := mem h'\<rparr>"
proof -
  obtain F where F: "heap_rep (bucketList h) (baseAddr h) (mem h) F" "no_buddies F" "free_bytes F = A"
    using wf by (auto simp: heap_wf_def)
  obtain u where u: "F u \<noteq> []" "unat bytes + 24 \<le> 2 ^ u"
    using can heap_rep_null [OF F(1)] by (force simp: can_serve_def)
  obtain k b m' F' where m': "kmalloc bytes h = Some (b + 24, h\<lparr>mem := m', heap_lock := 0\<rparr>)"
    "heap_rep (bucketList h) (baseAddr h) m' F'" "no_buddies F'" "valid_block (baseAddr h) (k, b)"
    "unat bytes + 24 \<le> 2 ^ k" "span b (2 ^ k) \<subseteq> A" "free_bytes F' = A - span b (2 ^ k)"
    "blk_size m' b = of_nat (2 ^ k)"
    and fr: "\<And>x. x \<notin> table (bucketList h) \<Longrightarrow> x \<notin> A \<Longrightarrow> m' x = mem h x"
    by (rule kmalloc_rep [OF F(1,2) lk u, unfolded F(3)]) (rule that)
  let ?h = "h\<lparr>mem := m', heap_lock := 0\<rparr>"
  have k: "5 \<le> k" "k \<le> 20" using m'(4) by (auto simp: valid_block_def)
  have bb: "block_bytes ?h (b + 24) = span b (2 ^ k)"
    using block_bytes_at [of ?h "b + 24" k] m'(8) k(2) by simp
  have "b + 24 \<noteq> 0"
    using block_in_range(1) [OF heap_repD(1) [OF F(1)] m'(4)] heap_repD(1) [OF F(1)]
    by (auto simp: heap_static_def)
  moreover have "span (b + of_nat 24) (unat bytes) \<subseteq> span b (2 ^ k)"
    using m'(5) by (intro span_offset_subset) simp
  ultimately show ?thesis
    using m' fr lk by (intro that [of "b + 24" ?h]) (auto simp: bb heap_wf_def handed_out_def)
qed

lemma kfree_wf:
  assumes wf: "heap_wf h A" and lk: "heap_lock h = 0" and p: "handed_out h p" and new: "block_bytes h p \<inter> A = {}"
  obtains h' where "kfree p h = Some h'" "heap_wf h' (A \<union> block_bytes h p)"
    "\<And>x. x \<notin> table (bucketList h) \<Longrightarrow> x \<notin> A \<union> block_bytes h p \<Longrightarrow> mem h' x = mem h x"
    "h' = h\<lparr>mem := mem h'\<rparr>"
proof -
  obtain F where F: "heap_rep (bucketList h) (baseAddr h) (mem h) F" "no_buddies F" "free_bytes F = A"
    using wf by (auto simp: heap_wf_def)
  obtain k where k: "valid_block (baseAddr h) (k, p - 24)" "blk_size (mem h) (p - 24) = of_nat (2 ^ k)"
      "block_bytes h p = span (p - 24) (2 ^ k)"
    by (rule handed_out_bytes [OF p]) (rule that)
  have ptr: "p - 24 + 24 = p" by simp
  obtain m' F' where m': "kfree p h = Some (h\<lparr>mem := m', heap_lock := 0\<rparr>)"
    "heap_rep (bucketList h) (baseAddr h) m' F'" "no_buddies F'" "free_bytes F' = A \<union> block_bytes h p"
    and fr: "\<And>x. x \<notin> table (bucketList h) \<Longrightarrow> x \<notin> A \<union> block_bytes h p \<Longrightarrow> m' x = mem h x"
    by (rule kfree_rep [OF F(1,2) lk k(1) _ k(2), unfolded ptr F(3) k(3) [symmetric], OF new]) (rule that)
  then show ?thesis using lk by (intro that [of "h\<lparr>mem := m', heap_lock := 0\<rparr>"]) (auto simp: heap_wf_def)
qed

text \<open>A request nobody can serve. The order must be below 20: for a larger one the code goes on to
  read before the start of the bucket list.\<close>

lemma try_split_none:
  assumes "heap_rep bl base m F" "4 \<le> t" "t \<le> 20" "\<And>j. t \<le> j \<Longrightarrow> j \<le> 20 \<Longrightarrow> F j = []"
  shows "try_split bl t m = (None, m)"
  using assms(2-4)
proof (induction "20 - t" arbitrary: t rule: less_induct)
  case less
  have none: "split_block bl t m = (False, m)" using less.prems by (intro split_block_none [OF assms(1)]) auto
  show ?case
  proof (cases "t = 20")
    case False
    then have "try_split bl (Suc t) m = (None, m)" using less.prems by (intro less.hyps) auto
    then show ?thesis using none by (subst try_split.simps) simp
  qed (use none in \<open>simp add: try_split.simps MAX_POWER_def\<close>)
qed

lemma kmalloc_fails:
  assumes wf: "heap_wf h A" and lk: "heap_lock h = 0" and can: "\<not> can_serve bytes h" and small: "unat bytes + 24 \<le> 2 ^ 19"
  shows "kmalloc bytes h = Some (0, h\<lparr>heap_lock := 1\<rparr>)"
proof -
  obtain F where F: "heap_rep (bucketList h) (baseAddr h) (mem h) F" using wf by (auto simp: heap_wf_def)
  have sz: "unat (bytes + of_nat sizeof_Block) = unat bytes + 24"
    using unat_add_of_nat [of bytes 24] small by (simp add: sizeof_Block_def)
  obtain k where k: "find_order (bytes + of_nat sizeof_Block) 4 = Some k" "4 \<le> k" "k \<le> 20" "unat bytes + 24 \<le> 2 ^ k"
      "\<And>j. 4 \<le> j \<Longrightarrow> j < k \<Longrightarrow> 2 ^ j < unat bytes + 24"
    using find_order_least [of "bytes + of_nat sizeof_Block" 4] small unfolding sz by auto
  have "k \<noteq> 4" using k(4) by auto
  moreover have "k \<le> 19" using k(5) [of 19] small by (cases "19 < k") auto
  ultimately have k5: "5 \<le> k" "k < 20" using k(2) by auto
  have nil: "bucket (mem h) (bucketList h) j = 0" if "k \<le> j" "j \<le> 20" for j
  proof -
    have "(2 :: nat) ^ k \<le> 2 ^ j" using that(1) by (rule power_increasing) simp
    then have "unat bytes + 24 \<le> 2 ^ j" using k(4) by (rule order_trans [rotated])
    moreover have "j \<in> {5..20}" using that k5(1) by simp
    ultimately show ?thesis using can unfolding can_serve_def by blast
  qed
  have "try_split (bucketList h) (k + 1) (mem h) = (None, mem h)"
    using nil heap_rep_null [OF F] k5 by (intro try_split_none [OF F]) auto
  moreover have "read64 (mem h) (slot (bucketList h) (index_from_order k)) = 0"
    using nil [of k] k5 by (simp add: bucket_def)
  ultimately show ?thesis using k(1) lk by (simp add: kmalloc_def Let_def)
qed

lemma kmalloc_held: "heap_lock h \<noteq> 0 \<Longrightarrow> kmalloc bytes h = None"
  by (cases "find_order (bytes + of_nat sizeof_Block) 4") (simp_all add: kmalloc_def acquire_held Let_def)

lemma kfree_held:
  assumes "heap_lock h \<noteq> 0" "baseAddr h \<le> p" "p \<le> baseAddr h + push_bit MAX_POWER 1"
  shows "kfree p h = None"
  using assms
  by (cases "find_order (blk_size (mem h) (p - of_nat sizeof_Block)) 4")
    (simp_all add: kfree_def acquire_held Let_def not_less)

section \<open>The interface\<close>

text \<open>
  A block allocator over a state: \<open>wf s A\<close> says that \<open>A\<close> are the free bytes, \<open>valid\<close> and
  \<open>block\<close> are about a pointer that was handed out.
\<close>

locale block_allocator =
  fixes wf :: "'s \<Rightarrow> u64 set \<Rightarrow> bool"
    and valid :: "'s \<Rightarrow> u64 \<Rightarrow> bool"
    and block :: "'s \<Rightarrow> u64 \<Rightarrow> u64 set"
    and payload :: "'s \<Rightarrow> u64 \<Rightarrow> u64 set"
    and supported :: "u64 \<Rightarrow> bool"
    and alloc :: "u64 \<Rightarrow> 's \<Rightarrow> (u64 \<times> 's) option"
    and dealloc :: "u64 \<Rightarrow> 's \<Rightarrow> 's option"
    and store :: "u64 \<Rightarrow> u8 \<Rightarrow> 's \<Rightarrow> 's"
  assumes alloc_takes: "wf s A \<Longrightarrow> supported n \<Longrightarrow> alloc n s = Some (p, s') \<Longrightarrow> p \<noteq> 0 \<Longrightarrow>
      valid s' p \<and> block s' p \<subseteq> A \<and> wf s' (A - block s' p)"
    and alloc_null: "wf s A \<Longrightarrow> supported n \<Longrightarrow> alloc n s = Some (p, s') \<Longrightarrow> p = 0 \<Longrightarrow> wf s' A"
    and alloc_keeps: "wf s A \<Longrightarrow> supported n \<Longrightarrow> alloc n s = Some (p, s') \<Longrightarrow> valid s q \<Longrightarrow> block s q \<inter> A = {} \<Longrightarrow>
      valid s' q \<and> block s' q = block s q"
    and dealloc_gives: "wf s A \<Longrightarrow> valid s p \<Longrightarrow> block s p \<inter> A = {} \<Longrightarrow> dealloc p s = Some s' \<Longrightarrow>
      wf s' (A \<union> block s p)"
    and dealloc_keeps: "wf s A \<Longrightarrow> valid s p \<Longrightarrow> block s p \<inter> A = {} \<Longrightarrow> dealloc p s = Some s' \<Longrightarrow> valid s q \<Longrightarrow>
      block s q \<inter> (A \<union> block s p) = {} \<Longrightarrow> valid s' q \<and> block s' q = block s q"
    and store_wf: "wf s A \<Longrightarrow> valid s p \<Longrightarrow> block s p \<inter> A = {} \<Longrightarrow> x \<in> payload s p \<Longrightarrow> wf (store x v s) A"
    and store_keeps: "wf s A \<Longrightarrow> valid s p \<Longrightarrow> x \<in> payload s p \<Longrightarrow> valid s q \<Longrightarrow>
      q = p \<or> block s q \<inter> block s p = {} \<Longrightarrow> valid (store x v s) q \<and> block (store x v s) q = block s q"
begin

text \<open>The live pointers of a client: pairwise disjoint blocks, none of them free, and together with
  the free bytes exactly the bytes \<open>U\<close> the allocator manages.\<close>

definition live :: "u64 set \<Rightarrow> 's \<Rightarrow> u64 set \<Rightarrow> bool" where
  "live U s L \<longleftrightarrow> (\<exists>A. wf s A \<and> (\<forall>p \<in> L. valid s p \<and> block s p \<inter> A = {}) \<and>
     pairwise (\<lambda>p q. block s p \<inter> block s q = {}) L \<and> A \<union> (\<Union>p \<in> L. block s p) = U)"

lemma live_alloc:
  assumes "live U s L" "supported n" "alloc n s = Some (p, s')"
  shows "live U s' (if p = 0 then L else insert p L)"
proof -
  obtain A where A: "wf s A" "\<forall>q \<in> L. valid s q \<and> block s q \<inter> A = {}"
      "pairwise (\<lambda>p q. block s p \<inter> block s q = {}) L" "A \<union> (\<Union>p \<in> L. block s p) = U"
    using assms(1) by (auto simp: live_def)
  have keep: "valid s' q" "block s' q = block s q" if "q \<in> L" for q
    using alloc_keeps [OF A(1) assms(2,3)] A(2) that by blast+
  have pw: "pairwise (\<lambda>p q. block s' p \<inter> block s' q = {}) L"
    using A(3) keep(2) by (simp add: pairwise_def)
  show ?thesis
  proof (cases "p = 0")
    case True
    then have "wf s' A" using alloc_null [OF A(1) assms(2,3)] by simp
    then show ?thesis using True A(2,4) keep pw unfolding live_def by (intro exI [of _ A]) simp
  next
    case False
    note t = alloc_takes [OF A(1) assms(2,3) False]
    have "block s' p \<inter> block s' q = {}" "block s' q \<inter> block s' p = {}" if "q \<in> L" for q
      using t A(2) keep(2) [OF that] that by blast+
    then have "pairwise (\<lambda>p q. block s' p \<inter> block s' q = {}) (insert p L)"
      using pw by (simp add: pairwise_insert)
    moreover have "A - block s' p \<union> (\<Union>q \<in> insert p L. block s' q) = U"
      using t A(4) keep(2) by auto
    moreover have "\<forall>q \<in> insert p L. valid s' q \<and> block s' q \<inter> (A - block s' p) = {}"
      using t A(2) keep by auto
    ultimately show ?thesis using t False unfolding live_def by (intro exI [of _ "A - block s' p"]) simp
  qed
qed

lemma live_dealloc:
  assumes "live U s L" "p \<in> L" "dealloc p s = Some s'"
  shows "live U s' (L - {p})"
proof -
  obtain A where A: "wf s A" "\<forall>q \<in> L. valid s q \<and> block s q \<inter> A = {}"
      "pairwise (\<lambda>p q. block s p \<inter> block s q = {}) L" "A \<union> (\<Union>p \<in> L. block s p) = U"
    using assms(1) by (auto simp: live_def)
  have p: "valid s p" "block s p \<inter> A = {}" using A(2) assms(2) by auto
  have other: "block s q \<inter> (A \<union> block s p) = {}" if "q \<in> L - {p}" for q
    using A(2) pairwiseD [OF A(3), of q p] assms(2) that by blast
  have keep: "valid s' q" "block s' q = block s q" if "q \<in> L - {p}" for q
    using dealloc_keeps [OF A(1) p assms(3) _ other [OF that]] A(2) that by blast+
  have "pairwise (\<lambda>p q. block s' p \<inter> block s' q = {}) (L - {p})"
    using A(3) keep(2) by (simp add: pairwise_def)
  moreover have "A \<union> block s p \<union> (\<Union>q \<in> L - {p}. block s' q) = U"
    using A(4) keep(2) assms(2) by auto
  ultimately show ?thesis
    using dealloc_gives [OF A(1) p assms(3)] keep other unfolding live_def
    by (intro exI [of _ "A \<union> block s p"]) simp
qed

lemma live_store:
  assumes "live U s L" "p \<in> L" "x \<in> payload s p"
  shows "live U (store x v s) L"
proof -
  obtain A where A: "wf s A" "\<forall>q \<in> L. valid s q \<and> block s q \<inter> A = {}"
      "pairwise (\<lambda>p q. block s p \<inter> block s q = {}) L" "A \<union> (\<Union>p \<in> L. block s p) = U"
    using assms(1) by (auto simp: live_def)
  have p: "valid s p" "block s p \<inter> A = {}" using A(2) assms(2) by auto
  have keep: "valid (store x v s) q" "block (store x v s) q = block s q" if "q \<in> L" for q
    using store_keeps [OF A(1) p(1) assms(3), of q v] A(2) pairwiseD [OF A(3), of q p] assms(2) that by blast+
  have "pairwise (\<lambda>p q. block (store x v s) p \<inter> block (store x v s) q = {}) L"
    using A(3) keep(2) by (simp add: pairwise_def)
  then show ?thesis
    using store_wf [OF A(1) p assms(3)] A(2,4) keep unfolding live_def by (intro exI [of _ A]) simp
qed

lemma live_disjoint:
  "live U s L \<Longrightarrow> p \<in> L \<Longrightarrow> q \<in> L \<Longrightarrow> p \<noteq> q \<Longrightarrow> block s p \<inter> block s q = {}"
  unfolding live_def by (blast dest: pairwiseD)

lemma live_none: "live U s {} \<Longrightarrow> wf s U"
  by (auto simp: live_def)

end

definition heap_store :: "u64 \<Rightarrow> u8 \<Rightarrow> 'a kheap_scheme \<Rightarrow> 'a kheap_scheme" where
  "heap_store x v h = h\<lparr>mem := (mem h)(x := v)\<rparr>"

definition payload_bytes :: "'a kheap_scheme \<Rightarrow> u64 \<Rightarrow> u64 set" where
  "payload_bytes h p = span p (unat (blk_size (mem h) (p - 24)) - 24)"

definition supported_size :: "u64 \<Rightarrow> bool" where
  "supported_size n \<longleftrightarrow> unat n + 24 \<le> 2 ^ 19"

lemma payload_in_block:
  assumes "handed_out h p" "x \<in> payload_bytes h p"
  shows "x \<in> block_bytes h p" "x \<notin> hdr (p - 24)"
proof -
  obtain k where k: "valid_block (baseAddr h) (k, p - 24)" "blk_size (mem h) (p - 24) = of_nat (2 ^ k)"
      "block_bytes h p = span (p - 24) (2 ^ k)"
    by (rule handed_out_bytes [OF assms(1)]) (rule that)
  have le: "5 \<le> k" "k \<le> 20" using k(1) by (auto simp: valid_block_def)
  have p5: "(2 :: nat) ^ 5 \<le> 2 ^ k" using le(1) by (rule power_increasing) simp
  have p20: "(2 :: nat) ^ k \<le> 2 ^ 20" using le(2) by (rule power_increasing) simp
  have "unat (of_nat (2 ^ k) :: u64) = 2 ^ k" using p20 by (intro unat_of_nat64) simp
  then have x: "x \<in> span (p - 24 + of_nat 24) (2 ^ k - 24)"
    using assms(2) unfolding payload_bytes_def k(2) by simp
  have "span (p - 24 + of_nat 24) (2 ^ k - 24) \<subseteq> span (p - 24) (2 ^ k)"
    using p5 by (intro span_offset_subset) simp
  then show "x \<in> block_bytes h p" using x unfolding k(3) by blast
  have "span (p - 24 + of_nat 0) 16 \<inter> span (p - 24 + of_nat 24) (2 ^ k - 24) = {}"
    using p20 by (intro span_offset_disjoint) simp_all
  then show "x \<notin> hdr (p - 24)" using x by auto
qed

lemma kmalloc_Some_cases:
  assumes "heap_wf h A" "supported_size n" "kmalloc n h = Some (p, h')"
  obtains "p \<noteq> 0" "heap_wf h' (A - block_bytes h' p)" "handed_out h' p" "block_bytes h' p \<subseteq> A"
      "\<And>x. x \<notin> table (bucketList h) \<Longrightarrow> x \<notin> A \<Longrightarrow> mem h' x = mem h x" "h' = h\<lparr>mem := mem h'\<rparr>"
    | "p = 0" "h' = h\<lparr>heap_lock := 1\<rparr>"
proof (cases "can_serve n h")
  case True
  have lk: "heap_lock h = 0" using assms(3) kmalloc_held [of h n] by (cases "heap_lock h = 0") auto
  show ?thesis by (rule kmalloc_wf [OF assms(1) lk True]) (rule that(1); use assms(3) in simp)
next
  case False
  have lk: "heap_lock h = 0" using assms(3) kmalloc_held [of h n] by (cases "heap_lock h = 0") auto
  show ?thesis using kmalloc_fails [OF assms(1) lk False] assms(2,3) by (intro that(2)) (simp_all add: supported_size_def)
qed

lemma kmalloc_takes:
  assumes "heap_wf h A" "supported_size n" "kmalloc n h = Some (p, h')"
  shows "p \<noteq> 0 \<Longrightarrow> handed_out h' p \<and> block_bytes h' p \<subseteq> A \<and> heap_wf h' (A - block_bytes h' p)"
    and "p = 0 \<Longrightarrow> heap_wf h' A"
  using assms(1) by - (rule kmalloc_Some_cases [OF assms]; simp add: heap_wf_def)+

lemma kmalloc_keeps:
  assumes wf: "heap_wf h A" and k: "supported_size n" "kmalloc n h = Some (p, h')"
    and q: "handed_out h q" "block_bytes h q \<inter> A = {}"
  shows "handed_out h' q \<and> block_bytes h' q = block_bytes h q"
proof -
  have hq: "hdr (q - 24) \<subseteq> block_bytes h q" by (rule handed_out_bytes [OF q(1)])
  show ?thesis
  proof (rule kmalloc_Some_cases [OF wf k])
    assume fr: "\<And>x. x \<notin> table (bucketList h) \<Longrightarrow> x \<notin> A \<Longrightarrow> mem h' x = mem h x" and eq: "h' = h\<lparr>mem := mem h'\<rparr>"
    have "baseAddr h' = baseAddr h" by (subst eq) simp
    then show ?thesis using hq q(2) heap_wf_table [OF wf q(1)] by (intro handed_out_frame [OF q(1)] fr) auto
  next
    assume "h' = h\<lparr>heap_lock := 1\<rparr>"
    then show ?thesis by (intro handed_out_frame [OF q(1)]) simp_all
  qed
qed

lemma kfree_Some_unlocked:
  assumes "heap_wf h A" "handed_out h p" "kfree p h = Some h'"
  shows "heap_lock h = 0"
proof (rule ccontr)
  assume "heap_lock h \<noteq> 0"
  moreover obtain k where v: "valid_block (baseAddr h) (k, p - 24)" using assms(2) by (auto simp: handed_out_def)
  moreover have "heap_static (bucketList h) (baseAddr h)" using assms(1) by (auto simp: heap_wf_def heap_rep_def)
  ultimately show False using kfree_held [of h p] block_in_range [OF _ v] assms(3) by auto
qed

lemma kfree_gives:
  assumes wf: "heap_wf h A" and p: "handed_out h p" "block_bytes h p \<inter> A = {}" and f: "kfree p h = Some h'"
  shows "heap_wf h' (A \<union> block_bytes h p)"
  by (rule kfree_wf [OF wf kfree_Some_unlocked [OF wf p(1) f] p]) (use f in simp)

lemma kfree_keeps:
  assumes wf: "heap_wf h A" and p: "handed_out h p" "block_bytes h p \<inter> A = {}" and f: "kfree p h = Some h'"
    and q: "handed_out h q" "block_bytes h q \<inter> (A \<union> block_bytes h p) = {}"
  shows "handed_out h' q \<and> block_bytes h' q = block_bytes h q"
proof -
  have hq: "hdr (q - 24) \<subseteq> block_bytes h q" by (rule handed_out_bytes [OF q(1)])
  have fr: "mem h' x = mem h x" if "x \<notin> table (bucketList h)" "x \<notin> A \<union> block_bytes h p" for x
    by (rule kfree_wf [OF wf kfree_Some_unlocked [OF wf p(1) f] p]) (use f that in simp)
  have "h' = h\<lparr>mem := mem h'\<rparr>"
    by (rule kfree_wf [OF wf kfree_Some_unlocked [OF wf p(1) f] p]) (use f in simp)
  from arg_cong [OF this, of baseAddr] show ?thesis
    using hq q(2) heap_wf_table [OF wf q(1)] by (intro handed_out_frame [OF q(1)] fr) auto
qed

lemma heap_store_laws:
  assumes wf: "heap_wf h A" and p: "handed_out h p" and x: "x \<in> payload_bytes h p"
  shows "block_bytes h p \<inter> A = {} \<Longrightarrow> heap_wf (heap_store x v h) A"
    and "handed_out h q \<Longrightarrow> q = p \<or> block_bytes h q \<inter> block_bytes h p = {} \<Longrightarrow>
      handed_out (heap_store x v h) q \<and> block_bytes (heap_store x v h) q = block_bytes h q"
proof -
  note xb = payload_in_block [OF p x]
  show "heap_wf (heap_store x v h) A" if dis: "block_bytes h p \<inter> A = {}"
  proof -
    obtain F where F: "heap_rep (bucketList h) (baseAddr h) (mem h) F" "no_buddies F" "free_bytes F = A"
      using wf by (auto simp: heap_wf_def)
    have "heap_rep (bucketList h) (baseAddr h) ((mem h)(x := v)) F"
      using xb(1) dis heap_wf_table [OF wf p] F(3) by (intro heap_rep_frame [OF F(1)]) auto
    then show ?thesis using F by (auto simp: heap_wf_def heap_store_def)
  qed
  show "handed_out (heap_store x v h) q \<and> block_bytes (heap_store x v h) q = block_bytes h q"
    if q: "handed_out h q" "q = p \<or> block_bytes h q \<inter> block_bytes h p = {}"
  proof -
    have "hdr (q - 24) \<subseteq> block_bytes h q" by (rule handed_out_bytes [OF q(1)])
    then show ?thesis using q(2) xb by (intro handed_out_frame [OF q(1)]) (auto simp: heap_store_def)
  qed
qed

interpretation kh: block_allocator heap_wf handed_out block_bytes payload_bytes supported_size kmalloc kfree heap_store
  by unfold_locales
    (fact kmalloc_takes kmalloc_keeps kfree_gives kfree_keeps | (rule heap_store_laws; assumption))+

section \<open>Clients of the heap\<close>

text \<open>
  Kernel code uses the heap by asking for blocks, giving back blocks it holds, and writing to the
  bytes of blocks it holds. \<open>L\<close> are the pointers handed out and not yet freed.
\<close>

inductive heap_step :: "'a kheap_scheme \<times> u64 set \<Rightarrow> 'a kheap_scheme \<times> u64 set \<Rightarrow> bool" where
  malloc: "supported_size n \<Longrightarrow> kmalloc n h = Some (p, h') \<Longrightarrow>
    heap_step (h, L) (h', if p = 0 then L else insert p L)"
| free: "p \<in> L \<Longrightarrow> kfree p h = Some h' \<Longrightarrow> heap_step (h, L) (h', L - {p})"
| store: "p \<in> L \<Longrightarrow> x \<in> payload_bytes h p \<Longrightarrow> heap_step (h, L) (heap_store x v h, L)"

lemma heap_step_live: "heap_step s s' \<Longrightarrow> kh.live U (fst s) (snd s) \<Longrightarrow> kh.live U (fst s') (snd s')"
  by (induction rule: heap_step.induct) (auto intro: kh.live_alloc kh.live_dealloc kh.live_store simp del: if_split split del: if_split)

lemma heap_run_live:
  assumes "heap_wf h U" "heap_step\<^sup>*\<^sup>* (h, {}) (h', L)"
  shows "kh.live U h' L"
proof -
  have "kh.live U (fst s) (snd s)" if "heap_step\<^sup>*\<^sup>* (h, {}) s" for s
    using that
  proof (induction rule: rtranclp_induct)
    case base
    then show ?case using assms(1) by (auto simp: kh.live_def)
  qed (rule heap_step_live)
  from this [OF assms(2)] show ?thesis by simp
qed

section \<open>The state the constructor leaves\<close>

definition one_block :: "u64 \<Rightarrow> freelists" where
  "one_block base = (\<lambda>k. if k = 20 then [base] else [])"

lemma fresh_heap_rep:
  assumes st: "heap_static bl base" and z: "\<And>k. 4 \<le> k \<Longrightarrow> k < 20 \<Longrightarrow> bucket m bl k = 0"
  shows "heap_rep bl base (set_next base 0 (set_size base (of_nat (2 ^ 20)) (set_bucket bl 20 base m))) (one_block base)"
proof -
  have g: "base \<in> grid base" unfolding grid_def by (intro CollectI exI [of _ 0]) simp
  have "blks (one_block base) = {(20, base)}" by (auto simp: blks_def one_block_def split: if_splits)
  then have "blocks_ok base (one_block base)"
    using g by (auto simp: blocks_ok_def valid_block_def one_block_def)
  moreover have "base \<noteq> 0" using st by (simp add: heap_static_def)
  ultimately show ?thesis
    using st z g unfolding heap_rep_def one_block_def
    by (auto simp: bucket_set_hdr [OF st g] bucket_set_bucket next_set_next [OF g g] size_set_size [OF g g]
        size_set_next [OF g g] split: if_splits)
qed

lemma one_block_bytes: "free_bytes (one_block base) = arena base"
proof -
  have "blks (one_block base) = {(20, base)}" by (auto simp: blks_def one_block_def split: if_splits)
  then show ?thesis by (simp add: free_bytes_def)
qed

lemma one_block_no_buddies: "no_buddies (one_block base)"
  by (simp add: no_buddies_def one_block_def)

text \<open>\<open>Heap::init\<close> with three allocations from the page allocator.\<close>

lemma alloc_least:
  assumes "pages_ok h" "0 < n" "free_run h p n"
  obtains q h' where "pmm_alloc n h = Some (page_addr q, h')" "q \<le> p" "free_run h q n" "pages_ok h'"
    "\<And>j. free_page h' j \<longleftrightarrow> free_page h j \<and> \<not> (q \<le> j \<and> j < q + n)"
    "\<And>x. x \<in> (\<Union>i \<in> {q ..< q + n}. frame i) \<Longrightarrow> mem h' x = 0"
    "\<And>x. x \<notin> (\<Union>i \<in> {q ..< q + n}. frame i) \<Longrightarrow> x \<notin> bitmap_bytes h \<Longrightarrow> mem h' x = mem h x"
    "kmem.more h' = kmem.more h" "bitmap_bytes h' = bitmap_bytes h"
proof -
  have wf: "pmm_wf h" "pmm_lock h = 0" using assms(1) by (auto simp: pages_ok_def)
  obtain q where q: "free_run h q n" "\<forall>r < q. \<not> free_run h r n"
    using assms(3) exists_least_iff [of "\<lambda>p. free_run h p n"] by blast
  have "q \<le> p" using q(2) assms(3) by (cases "p < q") auto
  obtain h' where h': "pmm_alloc n h = Some (page_addr q, h')" "pmm_wf h'" "pmm_lock h' = 0"
    "\<And>j. free_page h' j \<longleftrightarrow> free_page h j \<and> \<not> (q \<le> j \<and> j < q + n)"
    "\<And>x. x \<in> (\<Union>i \<in> {q ..< q + n}. frame i) \<Longrightarrow> mem h' x = 0"
    "\<And>x. x \<notin> (\<Union>i \<in> {q ..< q + n}. frame i) \<Longrightarrow> x \<notin> bitmap_bytes h \<Longrightarrow> mem h' x = mem h x"
    "bitmap h' = bitmap h" "bitmapSize h' = bitmapSize h" "kmem.more h' = kmem.more h"
    by (rule pmm_alloc_run [OF wf assms(2) q, unfolded free_run_span(1) [OF wf(1) q(1) assms(2)]]) (rule that)
  show ?thesis
    using h' \<open>q \<le> p\<close> q(1) assms(1)
    by (intro that [of q h']) (simp_all add: pages_ok_def bitmap_bytes_def)
qed

lemma heap_static_pages:
  assumes q: "q < 2 ^ 34" "r + 256 \<le> 2 ^ 34" "q \<notin> {r ..< r + 256}"
  shows "heap_static (PHYSICAL_BASE_ADDRESS + page_addr q) (PHYSICAL_BASE_ADDRESS + page_addr r)"
    and "table (PHYSICAL_BASE_ADDRESS + page_addr q) \<subseteq> frame q"
proof -
  have lim: "PHYSICAL_BASE_ADDRESS + page_addr r \<noteq> 0" "unat (PHYSICAL_BASE_ADDRESS + page_addr r) + 2 ^ 20 < 2 ^ 64"
    using q(2) direct_map [of r] by (simp_all add: PHYSICAL_BASE_ADDRESS_def)
  have ar: "arena (PHYSICAL_BASE_ADDRESS + page_addr r) = (\<Union>i \<in> {r ..< r + 256}. frame i)"
    using pages_span [of r 256] q(2) by (simp add: PAGE_SIZE_def)
  show t: "table (PHYSICAL_BASE_ADDRESS + page_addr q) \<subseteq> frame q"
    unfolding frame_def by (rule span_mono) (simp add: PAGE_SIZE_def)
  have "frame q \<inter> frame i = {}" if "i \<in> {r ..< r + 256}" for i
    using that q by (intro frame_disjoint) auto
  then have "frame q \<inter> arena (PHYSICAL_BASE_ADDRESS + page_addr r) = {}" unfolding ar by blast
  then show "heap_static (PHYSICAL_BASE_ADDRESS + page_addr q) (PHYSICAL_BASE_ADDRESS + page_addr r)"
    using lim t unfolding heap_static_def by blast
qed

lemma bucket_zero:
  assumes "\<And>x. x \<in> table bl \<Longrightarrow> m x = 0" "4 \<le> k" "k \<le> 20"
  shows "bucket m bl k = 0"
proof -
  have "read64 m (slot bl (index_from_order k)) = read64 (\<lambda>_. 0) (slot bl (index_from_order k))"
    using slot_cell [OF assms(2,3), of bl] assms(1) by (intro read64_cong) auto
  then show ?thesis by (simp add: bucket_def read64_def)
qed

text \<open>The three runs of pages are free to begin with, apart from each other, and zero in the end.\<close>

lemma heap_init_pages:
  fixes h :: "'a kheap_scheme"
  assumes ok: "pages_ok h" and run: "free_run h p 258"
  obtains q1 q2 q3 h1 h2 h3 where "pmm_alloc 1 h = Some (page_addr q1, h1)" "pmm_alloc 1 h1 = Some (page_addr q2, h2)"
    "pmm_alloc 256 h2 = Some (page_addr q3, h3)" "q1 < 2 ^ 34" "q2 < 2 ^ 34" "q3 + 256 \<le> 2 ^ 34"
    "q2 \<notin> {q3 ..< q3 + 256}" "\<And>x. x \<in> frame q2 \<Longrightarrow> mem h3 x = 0" "kmem.more h3 = kmem.more h"
proof -
  have lim: "j < 2 ^ 34" if "free_page g j" "pages_ok g" for j and g :: "'a kheap_scheme"
    using that by (auto simp: free_page_def pages_ok_def)
  obtain q1 h1 where h1: "pmm_alloc 1 h = Some (page_addr q1, h1)" "q1 \<le> p" "free_run h q1 1" "pages_ok h1"
      "\<And>j. free_page h1 j \<longleftrightarrow> free_page h j \<and> \<not> (q1 \<le> j \<and> j < q1 + 1)" "kmem.more h1 = kmem.more h"
    by (rule alloc_least [OF ok, of 1 p]) (use run in \<open>simp_all add: free_run_def that\<close>)
  have "free_run h1 (p + 1) 257" using run h1(2,5) by (auto simp: free_run_def)
  then obtain q2 h2 where h2: "pmm_alloc 1 h1 = Some (page_addr q2, h2)" "q2 \<le> p + 1" "free_run h1 q2 1" "pages_ok h2"
      "\<And>j. free_page h2 j \<longleftrightarrow> free_page h1 j \<and> \<not> (q2 \<le> j \<and> j < q2 + 1)" "kmem.more h2 = kmem.more h1"
      and z2: "\<And>x. x \<in> frame q2 \<Longrightarrow> mem h2 x = 0"  and bb: "bitmap_bytes h2 = bitmap_bytes h1"
    by (rule_tac alloc_least [OF h1(4), of 1 "p + 1"]) (auto simp: free_run_def intro: that)
  have "free_run h2 (p + 2) 256" using run h1(2,5) h2(2,5) by (auto simp: free_run_def)
  then obtain q3 h3 where h3: "pmm_alloc 256 h2 = Some (page_addr q3, h3)" "free_run h2 q3 256" "pages_ok h3"
      "kmem.more h3 = kmem.more h2"
      and same: "\<And>x. x \<notin> (\<Union>i \<in> {q3 ..< q3 + 256}. frame i) \<Longrightarrow> x \<notin> bitmap_bytes h2 \<Longrightarrow> mem h3 x = mem h2 x"
    by (rule_tac alloc_least [OF h2(4), of 256 "p + 2"]) (auto intro: that)
  have q1: "q1 < 2 ^ 34" using h1(3) lim [of h q1] ok by (auto simp: free_run_def)
  have q2: "free_page h1 q2" "q2 < 2 ^ 34" using h2(3) lim [of h1 q2] h1(4) by (auto simp: free_run_def)
  have f3: "free_page h2 i" if "q3 \<le> i" "i < q3 + 256" for i using h3(2) that by (simp add: free_run_def)
  have q3: "q3 + 256 \<le> 2 ^ 34" using lim [OF f3 h2(4), of "q3 + 255"] by simp
  have q23: "q2 \<notin> {q3 ..< q3 + 256}" using f3 [of q2] h2(5) by auto
  have "frame q2 \<inter> bitmap_bytes h2 = {}" using q2(1) h1(4) bb by (auto simp: pages_ok_def pmm_wf_def)
  moreover have "frame q2 \<inter> frame i = {}" if "i \<in> {q3 ..< q3 + 256}" for i
    using that q2(2) q3 q23 by (intro frame_disjoint) auto
  ultimately have "mem h3 x = 0" if "x \<in> frame q2" for x using that z2 same [of x] by fastforce
  then show ?thesis using h1(1,6) h2(1,6) h3(1,4) q1 q2(2) q3 q23 by (intro that [of q1 h1 q2 h2 q3 h3]) simp_all
qed

lemma heap_init_run:
  assumes ok: "pages_ok h" and run: "free_run h p 258"
  obtains h' where "heap_init h = Some h'" "heap_wf h' (arena (baseAddr h'))" "heap_lock h' = heap_lock h"
    "\<And>n. unat n + 24 \<le> 2 ^ 20 \<Longrightarrow> can_serve n h'"
proof -
  obtain q1 q2 q3 h1 h2 h3 where al: "pmm_alloc 1 h = Some (page_addr q1, h1)" "pmm_alloc 1 h1 = Some (page_addr q2, h2)"
    "pmm_alloc 256 h2 = Some (page_addr q3, h3)" and q: "q1 < 2 ^ 34" "q2 < 2 ^ 34" "q3 + 256 \<le> 2 ^ 34"
    "q2 \<notin> {q3 ..< q3 + 256}" and zero: "\<And>x. x \<in> frame q2 \<Longrightarrow> mem h3 x = 0" and more: "kmem.more h3 = kmem.more h"
    by (rule heap_init_pages [OF assms]) (rule that)
  define bl where "bl = PHYSICAL_BASE_ADDRESS + page_addr q2"
  define base where "base = PHYSICAL_BASE_ADDRESS + page_addr q3"
  note st = heap_static_pages [OF q(2-4), folded bl_def base_def]
  have z: "bucket (mem h3) bl k = 0" if "4 \<le> k" "k < 20" for k
    using that st(2) zero by (intro bucket_zero) auto
  let ?h = "h3\<lparr>mem := set_next base 0 (set_size base (of_nat (2 ^ 20)) (set_bucket bl 20 base (mem h3))),
    bucketList := bl, baseAddr := base\<rparr>"
  have nn: "base \<noteq> 0" "bl \<noteq> 0" "PHYSICAL_BASE_ADDRESS + page_addr q1 \<noteq> 0"
    using direct_map(2) [of q1] direct_map(2) [of q2] direct_map(2) [of q3] q by (simp_all add: bl_def base_def)
  have "heap_init h = Some ?h"
    using al nn
    by (simp add: heap_init_def INITIAL_PAGES_def Let_def bl_def base_def set_bucket_def index_from_order_def
        MAX_POWER_def add.commute)
  moreover have "heap_wf ?h (arena (baseAddr ?h))"
    using fresh_heap_rep [OF st(1) z] one_block_no_buddies one_block_bytes
    by (auto simp: heap_wf_def intro!: exI [of _ "one_block base"])
  moreover have "heap_lock ?h = heap_lock h" using more by (cases h; cases h3) simp
  moreover have "bucket (mem ?h) (bucketList ?h) 20 \<noteq> 0"
    using heap_rep_null [OF fresh_heap_rep [OF st(1) z], of 20] by (simp add: one_block_def)
  then have "can_serve n ?h" if "unat n + 24 \<le> 2 ^ 20" for n unfolding can_serve_def using that by (intro bexI [of _ 20]) simp_all
  ultimately show ?thesis by (rule that)
qed

text \<open>A heap of one megabyte at \<open>0x100000\<close> with its bucket list at \<open>0x1000\<close>.\<close>

definition heap_sample :: kheap where
  "heap_sample = \<lparr>mem = set_next 0x100000 0 (set_size 0x100000 (of_nat (2 ^ 20)) (set_bucket 0x1000 20 0x100000 (\<lambda>_. 0))),
     bitmap = 0, bitmapSize = 0, lastUsablePage = 0, pmm_lock = 0,
     bucketList = 0x1000, baseAddr = 0x100000, heap_lock = 0\<rparr>"

lemma heap_sample_rep:
  "heap_rep (bucketList heap_sample) (baseAddr heap_sample) (mem heap_sample) (one_block (baseAddr heap_sample))"
proof -
  have "span (0x1000 + of_nat 0) 136 \<inter> span (0x1000 + of_nat 0xFF000) (2 ^ 20) = {}"
    by (rule span_offset_disjoint) simp_all
  then have "heap_static 0x1000 0x100000" by (simp add: heap_static_def)
  from fresh_heap_rep [OF this, of "\<lambda>_. 0"] show ?thesis
    by (simp add: heap_sample_def bucket_def read64_def)
qed

lemma heap_sample_wf: "heap_wf heap_sample (arena 0x100000)"
  using heap_sample_rep one_block_no_buddies one_block_bytes [of "0x100000"]
  by (auto simp: heap_wf_def heap_sample_def intro!: exI [of _ "one_block 0x100000"])

lemma heap_sample_lock [simp]: "heap_lock heap_sample = 0"
  by (simp add: heap_sample_def)

lemma heap_sample_serves: "unat bytes + 24 \<le> 2 ^ 20 \<Longrightarrow> can_serve bytes heap_sample"
  using heap_rep_null [OF heap_sample_rep, of 20]
  by (auto simp: can_serve_def one_block_def intro!: bexI [of _ 20])

text \<open>A heap with two free blocks, of orders 19 and 18, and one with none.\<close>

definition push_block :: "u64 \<Rightarrow> nat \<Rightarrow> u64 \<Rightarrow> mem \<Rightarrow> mem" where
  "push_block bl k b m = set_bucket bl k b (set_size b (of_nat (2 ^ k)) (set_next b (bucket m bl k) m))"

definition heap_at :: "mem \<Rightarrow> kheap" where
  "heap_at m = \<lparr>mem = m, bitmap = 0, bitmapSize = 0, lastUsablePage = 0, pmm_lock = 0,
     bucketList = 0x1000, baseAddr = 0x100000, heap_lock = 0\<rparr>"

definition pair_heap :: kheap where
  "pair_heap = heap_at (push_block 0x1000 18 0x180000 (push_block 0x1000 19 0x100000 (\<lambda>_. 0)))"

lemma heap_at_simps [simp]: "mem (heap_at m) = m" "bucketList (heap_at m) = 0x1000"
  "baseAddr (heap_at m) = 0x100000" "heap_lock (heap_at m) = 0"
  by (simp_all add: heap_at_def)

lemma sample_static: "heap_static 0x1000 0x100000"
proof -
  have "span (0x1000 + of_nat 0) 136 \<inter> span (0x1000 + of_nat 0xFF000) (2 ^ 20) = {}"
    by (rule span_offset_disjoint) simp_all
  then show ?thesis by (simp add: heap_static_def)
qed

lemma empty_heap_rep: "heap_rep 0x1000 0x100000 (\<lambda>_. 0) (\<lambda>_. [])"
proof -
  have "bucket (\<lambda>_. 0) bl k = 0" for bl k by (simp add: bucket_def read64_def)
  then show ?thesis using sample_static by (simp add: heap_rep_def blocks_ok_def blks_def)
qed

lemma empty_heap_wf: "heap_wf (heap_at (\<lambda>_. 0)) {}"
  unfolding heap_wf_def
  by (rule exI [of _ "\<lambda>_. []"]) (simp add: empty_heap_rep no_buddies_def free_bytes_def blks_def)

definition pair_lists :: freelists where
  "pair_lists = ((\<lambda>_. [])(19 := [0x100000]))(18 := [0x180000])"

lemma pair_heap_rep: "heap_rep 0x1000 0x100000 (mem pair_heap) pair_lists"
proof -
  have v: "valid_block 0x100000 (19, 0x100000)"
    using span_mono [of "2 ^ 19" "2 ^ 20" "0x100000"]
    by (auto simp: valid_block_def grid_def intro!: exI [of _ 0])
  have "span (0x100000 + of_nat 0x80000) (2 ^ 18) \<subseteq> span 0x100000 (2 ^ 20)" by (rule span_offset_subset) simp
  then have v2: "valid_block 0x100000 (18, 0x180000)"
    by (auto simp: valid_block_def grid_def intro!: exI [of _ "2 ^ 15"])
  have e: "free_bytes (\<lambda>_. []) = {}" by (simp add: free_bytes_def blks_def)
  have r1: "heap_rep 0x1000 0x100000 (push_block 0x1000 19 0x100000 (\<lambda>_. 0)) ((\<lambda>_. [])(19 := [0x100000]))"
    using heap_rep_push [OF empty_heap_rep v] by (simp add: push_block_def e)
  have "blks ((\<lambda>_. [])(19 := [0x100000])) = {(19, 0x100000)}" by (auto simp: blks_def split: if_splits)
  then have "free_bytes ((\<lambda>_. [])(19 := [0x100000])) = span 0x100000 (2 ^ 19)" by (simp add: free_bytes_def)
  moreover have "span (0x100000 + of_nat 0) (2 ^ 19) \<inter> span (0x100000 + of_nat 0x80000) (2 ^ 18) = {}"
    by (rule span_offset_disjoint) simp_all
  ultimately have "span 0x180000 (2 ^ 18) \<inter> free_bytes ((\<lambda>_. [])(19 := [0x100000])) = {}" by auto
  from heap_rep_push [OF r1 v2 this] show ?thesis by (simp add: pair_heap_def pair_lists_def push_block_def)
qed

lemma pair_lists_no_buddies: "no_buddies pair_lists"
  by (auto simp: no_buddies_def pair_lists_def)

lemma pair_heap_wf: "heap_wf pair_heap (free_bytes pair_lists)"
  unfolding heap_wf_def
  by (rule exI [of _ pair_lists]) (simp add: pair_heap_rep [unfolded pair_heap_def, simplified] pair_lists_no_buddies pair_heap_def)

text \<open>Two blocks taken from it, one after the other.\<close>

lemma pair_heap_run:
  obtains p q h where "heap_step\<^sup>*\<^sup>* (pair_heap, {}) (h, {p, q})" "p \<noteq> q" "heap_lock h = 0"
proof -
  have at: "bucketList pair_heap = 0x1000" "heap_lock pair_heap = 0" by (simp_all add: pair_heap_def)
  let ?n = "0x3FFE8 :: u64"
  have n: "unat ?n + 24 = 2 ^ 18" by simp
  have b18: "k = 18" if "unat ?n + 24 \<le> 2 ^ k" "\<And>j. 4 \<le> j \<Longrightarrow> j < k \<Longrightarrow> 2 ^ j < unat ?n + 24" for k
  proof (rule ccontr)
    assume "k \<noteq> 18"
    moreover have "\<not> 18 < k" using that(2) [of 18] n by auto
    ultimately have "(2 :: nat) ^ k < 2 ^ 18" by (intro power_strict_increasing) auto
    then show False using that(1) n by simp
  qed
  have ne18: "pair_lists 18 \<noteq> []" by (simp add: pair_lists_def)
  obtain k b m1 F1 where one: "kmalloc ?n pair_heap = Some (b + 24, pair_heap\<lparr>mem := m1, heap_lock := 0\<rparr>)"
      "heap_rep 0x1000 0x100000 m1 F1" "no_buddies F1" "valid_block 0x100000 (k, b)" "unat ?n + 24 \<le> 2 ^ k"
      "\<And>j. 4 \<le> j \<Longrightarrow> j < k \<Longrightarrow> 2 ^ j < unat ?n + 24" "free_bytes F1 = free_bytes pair_lists - span b (2 ^ k)"
      "pair_lists k \<noteq> [] \<Longrightarrow> F1 = pair_lists(k := tl (pair_lists k))"
    by (rule kmalloc_rep [of pair_heap, unfolded at, OF pair_heap_rep pair_lists_no_buddies refl ne18 eq_refl [OF n]])
      (rule that)
  have ne19: "F1 19 \<noteq> []" using one(8) b18 [OF one(5,6)] by (simp add: pair_lists_def)
  let ?h1 = "pair_heap\<lparr>mem := m1, heap_lock := 0\<rparr>"
  have rep1: "heap_rep (bucketList ?h1) 0x100000 (mem ?h1) F1" and lk: "heap_lock ?h1 = 0" and fit: "unat ?n + 24 \<le> 2 ^ 19"
    using one(2) at by simp_all
  obtain k2 b2 m2 where two: "kmalloc ?n ?h1 = Some (b2 + 24, ?h1\<lparr>mem := m2, heap_lock := 0\<rparr>)"
      "valid_block 0x100000 (k2, b2)" "span b2 (2 ^ k2) \<subseteq> free_bytes F1"
    by (rule kmalloc_rep [OF rep1 one(3) lk ne19 fit]) (rule that)
  have nz: "b + 24 \<noteq> 0" "b2 + 24 \<noteq> 0"
    using block_in_range(1) [OF sample_static one(4)] block_in_range(1) [OF sample_static two(2)] by auto
  have "b2 \<in> span b2 (2 ^ k2)" by (simp add: span_start)
  then have "b2 \<notin> span b (2 ^ k)" using two(3) unfolding one(7) by blast
  then have ne: "b + 24 \<noteq> b2 + 24" by auto
  have ok: "supported_size ?n" by (simp add: supported_size_def)
  let ?h2 = "?h1\<lparr>mem := m2, heap_lock := 0\<rparr>"
  have "heap_step\<^sup>*\<^sup>* (pair_heap, {}) (?h1, {b + 24})"
    using heap_step.malloc [OF ok one(1), of "{}"] nz by auto
  also have "heap_step (?h1, {b + 24}) (?h2, {b2 + 24, b + 24})"
    using heap_step.malloc [OF ok two(1), of "{b + 24}"] nz by auto
  finally show ?thesis using ne by (intro that [of ?h2 "b2 + 24" "b + 24"]) auto
qed

section \<open>Properties\<close>

text \<open>C1: \<open>kmalloc\<close> on a well-formed, unlocked heap that has a free block of sufficient order returns:
  the \<open>bytes\<close> bytes from the pointer lie in a block of formerly free bytes, exactly those bytes
  stop being free, the heap stays well-formed and unlocked, and no byte outside the free ones and the
  bucket table changes.\<close>

theorem kmalloc_serves:
  assumes "heap_wf h A" "heap_lock h = 0" "can_serve bytes h"
  shows "\<exists>p h'. kmalloc bytes h = Some (p, h') \<and> p \<noteq> 0 \<and> heap_wf h' (A - block_bytes h' p) \<and> handed_out h' p \<and>
    block_bytes h' p \<subseteq> A \<and> span p (unat bytes) \<subseteq> block_bytes h' p \<and> heap_lock h' = 0 \<and>
    (\<forall>x. x \<notin> table (bucketList h) \<and> x \<notin> A \<longrightarrow> mem h' x = mem h x)"
proof -
  obtain p h' where h': "kmalloc bytes h = Some (p, h')" "p \<noteq> 0" "heap_wf h' (A - block_bytes h' p)" "handed_out h' p"
    "block_bytes h' p \<subseteq> A" "span p (unat bytes) \<subseteq> block_bytes h' p"
    "\<And>x. x \<notin> table (bucketList h) \<Longrightarrow> x \<notin> A \<Longrightarrow> mem h' x = mem h x" "h' = h\<lparr>mem := mem h'\<rparr>"
    by (rule kmalloc_wf [OF assms]) (rule that)
  moreover have "heap_lock h' = 0" using arg_cong [OF h'(8), of heap_lock] assms(2) by simp
  ultimately show ?thesis by blast
qed

theorem kmalloc_serves_witness:
  "\<exists>p h'. kmalloc 100 heap_sample = Some (p, h') \<and> p \<noteq> 0 \<and> span p 100 \<subseteq> block_bytes h' p \<and> heap_lock h' = 0"
  using kmalloc_serves [OF heap_sample_wf heap_sample_lock heap_sample_serves, of 100] by auto

text \<open>C6: \<open>kfree\<close> of a pointer the heap handed out, on an unlocked heap, returns: exactly the bytes of
  its block become free again, the heap stays well-formed (no block and its buddy are left both free)
  and unlocked, and no byte outside the free ones and the bucket table changes.\<close>

theorem kfree_gives_back:
  assumes "heap_wf h A" "heap_lock h = 0" "handed_out h p" "block_bytes h p \<inter> A = {}"
  shows "\<exists>h'. kfree p h = Some h' \<and> heap_wf h' (A \<union> block_bytes h p) \<and> heap_lock h' = 0 \<and>
    (\<forall>x. x \<notin> table (bucketList h) \<and> x \<notin> A \<union> block_bytes h p \<longrightarrow> mem h' x = mem h x)"
proof -
  obtain h' where h': "kfree p h = Some h'" "heap_wf h' (A \<union> block_bytes h p)"
    "\<And>x. x \<notin> table (bucketList h) \<Longrightarrow> x \<notin> A \<union> block_bytes h p \<Longrightarrow> mem h' x = mem h x" "h' = h\<lparr>mem := mem h'\<rparr>"
    by (rule kfree_wf [OF assms]) (rule that)
  moreover have "heap_lock h' = 0" using arg_cong [OF h'(4), of heap_lock] assms(2) by simp
  ultimately show ?thesis by blast
qed

theorem kfree_gives_back_witness:
  "\<exists>p h1 h2. kmalloc 100 heap_sample = Some (p, h1) \<and> kfree p h1 = Some h2 \<and> heap_wf h2 (arena 0x100000)"
proof -
  have can: "can_serve 100 heap_sample" by (rule heap_sample_serves) simp
  obtain p h1 where h1: "kmalloc 100 heap_sample = Some (p, h1)" "heap_wf h1 (arena 0x100000 - block_bytes h1 p)"
      "handed_out h1 p" "block_bytes h1 p \<subseteq> arena 0x100000" "h1 = heap_sample\<lparr>mem := mem h1\<rparr>"
    by (rule kmalloc_wf [OF heap_sample_wf heap_sample_lock can]) (rule that)
  have lk: "heap_lock h1 = 0" using arg_cong [OF h1(5), of heap_lock] by simp
  obtain h2 where "kfree p h1 = Some h2" "heap_wf h2 (arena 0x100000 - block_bytes h1 p \<union> block_bytes h1 p)"
    using kfree_gives_back [OF h1(2) lk h1(3)] by auto
  moreover have "arena 0x100000 - block_bytes h1 p \<union> block_bytes h1 p = arena 0x100000" using h1(4) by blast
  ultimately show ?thesis using h1(1) by metis
qed

text \<open>C5: whatever sequence of \<open>kmalloc\<close>, \<open>kfree\<close> and writes into held blocks the kernel performs, the
  blocks it holds at the same time never overlap.\<close>

theorem heap_blocks_disjoint:
  assumes "heap_wf h U" "heap_step\<^sup>*\<^sup>* (h, {}) (h', L)" "p \<in> L" "q \<in> L" "p \<noteq> q"
  shows "block_bytes h' p \<inter> block_bytes h' q = {}"
  using kh.live_disjoint [OF heap_run_live [OF assms(1,2)] assms(3-5)] .

theorem heap_blocks_disjoint_witness:
  "\<exists>h p q. heap_step\<^sup>*\<^sup>* (pair_heap, {}) (h, {p, q}) \<and> p \<noteq> q \<and> block_bytes h p \<inter> block_bytes h q = {}"
proof -
  obtain h p q where run: "heap_step\<^sup>*\<^sup>* (pair_heap, {}) (h, {p, q})" "p \<noteq> q"
    by (rule pair_heap_run) (rule that)
  show ?thesis using heap_blocks_disjoint [OF pair_heap_wf run(1) _ _ run(2)] run by auto
qed

text \<open>C15: after any such sequence that has freed everything it was given, all bytes the heap started with
  are free again: nothing leaks, and nothing is lost by splitting and merging.\<close>

theorem heap_no_leak:
  assumes "heap_wf h U" "heap_step\<^sup>*\<^sup>* (h, {}) (h', {})"
  shows "heap_wf h' U"
  using kh.live_none [OF heap_run_live [OF assms]] .

theorem heap_no_leak_witness:
  "\<exists>h p h'. heap_step (heap_sample, {}) (h, {p}) \<and> heap_step (h, {p}) (h', {}) \<and> heap_wf h' (arena 0x100000)"
proof -
  have can: "can_serve 100 heap_sample" by (rule heap_sample_serves) simp
  obtain p h1 where h1: "kmalloc 100 heap_sample = Some (p, h1)" "p \<noteq> 0" "heap_wf h1 (arena 0x100000 - block_bytes h1 p)"
      "handed_out h1 p" "h1 = heap_sample\<lparr>mem := mem h1\<rparr>"
    by (rule kmalloc_wf [OF heap_sample_wf heap_sample_lock can]) (rule that)
  have lk: "heap_lock h1 = 0" using arg_cong [OF h1(5), of heap_lock] by simp
  obtain h2 where h2: "kfree p h1 = Some h2" by (rule kfree_wf [OF h1(3) lk h1(4)]) auto
  have "heap_step (heap_sample, {}) (h1, {p})"
    using heap_step.malloc [OF _ h1(1), of "{}"] h1(2) by (simp add: supported_size_def)
  moreover have "heap_step (h1, {p}) (h2, {})" using heap_step.free [of p "{p}", OF _ h2] by simp
  moreover from calculation have "heap_step\<^sup>*\<^sup>* (heap_sample, {}) (h2, {})" by (blast intro: rtranclp.intros)
  ultimately show ?thesis using heap_no_leak [OF heap_sample_wf, of h2] by blast
qed

text \<open>C24: in every state such a sequence reaches with the lock free, \<open>kfree\<close> of any held pointer returns.\<close>

theorem heap_free_returns:
  assumes "heap_wf h U" "heap_step\<^sup>*\<^sup>* (h, {}) (h', L)" "p \<in> L" "heap_lock h' = 0"
  shows "\<exists>h''. kfree p h' = Some h'' \<and> heap_lock h'' = 0"
proof -
  obtain A where A: "heap_wf h' A" "handed_out h' p" "block_bytes h' p \<inter> A = {}"
    using heap_run_live [OF assms(1,2)] assms(3) by (auto simp: kh.live_def)
  obtain h'' where f: "kfree p h' = Some h''" and eq: "h'' = h'\<lparr>mem := mem h''\<rparr>"
    by (rule kfree_wf [OF A(1) assms(4) A(2,3)]) (rule that)
  show ?thesis using f arg_cong [OF eq, of heap_lock] assms(4) by simp
qed

theorem heap_free_returns_witness:
  "\<exists>h p q h''. heap_step\<^sup>*\<^sup>* (pair_heap, {}) (h, {p, q}) \<and> p \<noteq> q \<and> kfree p h = Some h''"
proof -
  obtain h p q where run: "heap_step\<^sup>*\<^sup>* (pair_heap, {}) (h, {p, q})" "p \<noteq> q" "heap_lock h = 0"
    by (rule pair_heap_run) (rule that)
  show ?thesis using heap_free_returns [OF pair_heap_wf run(1) _ run(3), of p] run by auto
qed

text \<open>C23: when no free block is large enough, \<open>kmalloc\<close> returns the null pointer but leaves
  \<open>heap_lock\<close> held (\<open>heap.cpp\<close>, the early return in the splitting loop): from then on no call of
  \<open>kmalloc\<close>, and no call of \<open>kfree\<close> on a pointer into the heap, ever returns.\<close>

theorem kmalloc_failure_keeps_lock:
  assumes "heap_wf h A" "heap_lock h = 0" "\<not> can_serve bytes h" "supported_size bytes"
  shows "\<exists>h'. kmalloc bytes h = Some (0, h') \<and> mem h' = mem h \<and> (\<forall>n. kmalloc n h' = None) \<and>
    (\<forall>p. baseAddr h \<le> p \<and> p \<le> baseAddr h + push_bit MAX_POWER 1 \<longrightarrow> kfree p h' = None)"
proof -
  let ?h = "h\<lparr>heap_lock := 1\<rparr>"
  have "kmalloc bytes h = Some (0, ?h)"
    using kmalloc_fails [OF assms(1-3)] assms(4) by (simp add: supported_size_def)
  moreover have "kmalloc n ?h = None" for n by (rule kmalloc_held) simp
  moreover have "kfree p ?h = None" if "baseAddr h \<le> p" "p \<le> baseAddr h + push_bit MAX_POWER 1" for p
    using that by (intro kfree_held) simp_all
  ultimately show ?thesis by (intro exI [of _ ?h]) simp
qed

theorem kmalloc_failure_keeps_lock_witness:
  "\<exists>h'. kmalloc 8 (heap_at (\<lambda>_. 0)) = Some (0, h') \<and> kmalloc 8 h' = None"
proof -
  have "\<not> can_serve 8 (heap_at (\<lambda>_. 0))" by (simp add: can_serve_def bucket_def read64_def)
  then show ?thesis
    using kmalloc_failure_keeps_lock [OF empty_heap_wf, of 8] by (auto simp: supported_size_def)
qed

text \<open>Given a run of 258 free pages below the 64 TiB mark, \<open>Heap::init\<close> returns and the heap it sets up
  is well-formed with one megabyte free, none of it in use by the bucket list.\<close>

theorem heap_init_wf:
  assumes "pages_ok h" "free_run h p 258"
  shows "\<exists>h'. heap_init h = Some h' \<and> heap_wf h' (arena (baseAddr h')) \<and> heap_lock h' = heap_lock h \<and>
    table (bucketList h') \<inter> arena (baseAddr h') = {}"
proof -
  obtain h' where h': "heap_init h = Some h'" "heap_wf h' (arena (baseAddr h'))" "heap_lock h' = heap_lock h"
    by (rule heap_init_run [OF assms]) (rule that)
  then show ?thesis by (auto simp: heap_wf_def heap_rep_def heap_static_def)
qed

text \<open>A machine with 320 free pages whose bitmap lies at two megabytes.\<close>

definition boot_sample :: kheap where
  "boot_sample = \<lparr>mem = (\<lambda>_. 0), bitmap = PHYSICAL_BASE_ADDRESS + 0x200000, bitmapSize = 40,
     lastUsablePage = 0x140000, pmm_lock = 0, bucketList = 0, baseAddr = 0, heap_lock = 0\<rparr>"

lemma boot_sample_free: "free_page boot_sample i \<longleftrightarrow> i < 320"
  by (auto simp: free_page_def boot_sample_def is_bit_set_def)

lemma boot_sample_ok: "pages_ok boot_sample"
proof -
  have "frame i \<inter> bitmap_bytes boot_sample = {}" if "i < 320" for i
  proof -
    have "span (PHYSICAL_BASE_ADDRESS + of_nat (i * 4096)) 4096 \<inter>
        span (PHYSICAL_BASE_ADDRESS + of_nat 0x200000) 40 = {}"
      by (rule span_offset_disjoint) (use that in auto)
    then show ?thesis by (simp add: frame_def page_addr_def PAGE_SIZE_def bitmap_bytes_def boot_sample_def)
  qed
  then show ?thesis
    by (simp add: pages_ok_def pmm_wf_def boot_sample_free) (simp add: boot_sample_def)
qed

theorem heap_init_wf_witness: "\<exists>h'. heap_init boot_sample = Some h' \<and> heap_wf h' (arena (baseAddr h'))"
  using heap_init_wf [OF boot_sample_ok, of 0] by (auto simp: free_run_def boot_sample_free)

end
