(* ===== verification/Vector.thy ===== *)
theory Vector
  imports Prelude
begin

text \<open>
  \<^verbatim>\<open>klibc/vector.hpp\<close>, \<^verbatim>\<open>klibc/queue.hpp\<close> and \<^verbatim>\<open>klibc/optional.hpp\<close>. A vector keeps an array
  exactly as long as its contents and moves it on every change of length. What \<open>new T[n]\<close> finds in
  the memory it gets is the parameter \<open>fresh\<close>.
\<close>

section \<open>The vector\<close>

record 'a vector =
  m_data :: "'a list"
  m_capacity :: nat
  m_isEmpty :: bool

text \<open>The constructor with a size leaves \<open>m_isEmpty\<close> as it finds it.\<close>

definition vector_sized :: "(nat \<Rightarrow> 'a) \<Rightarrow> bool \<Rightarrow> nat \<Rightarrow> 'a vector" where
  "vector_sized fresh found n = \<lparr>m_data = map fresh [0 ..< n], m_capacity = n, m_isEmpty = found\<rparr>"

definition vector_new :: "'a vector" where
  "vector_new = \<lparr>m_data = [], m_capacity = 0, m_isEmpty = True\<rparr>"

text \<open>\<open>operator[]\<close>, read and written through; out of bounds it panics.\<close>

definition vec_at :: "'a vector \<Rightarrow> nat \<Rightarrow> 'a option" where
  "vec_at v i = (if i \<ge> m_capacity v then None else Some (m_data v ! i))"

definition vec_put :: "'a vector \<Rightarrow> nat \<Rightarrow> 'a \<Rightarrow> 'a vector option" where
  "vec_put v i x = (if i \<ge> m_capacity v then None else Some (v\<lparr>m_data := (m_data v)[i := x]\<rparr>))"

definition vec_resize :: "(nat \<Rightarrow> 'a) \<Rightarrow> nat \<Rightarrow> 'a vector \<Rightarrow> 'a vector" where
  "vec_resize fresh n v =
     (if n = m_capacity v then v
      else if n = 0 then v\<lparr>m_data := [], m_isEmpty := True, m_capacity := 0\<rparr>
      else if m_isEmpty v then v\<lparr>m_data := map fresh [0 ..< n], m_isEmpty := False, m_capacity := n\<rparr>
      else let t = (if n > m_capacity v then m_capacity v else n)
           in v\<lparr>m_data := foldl (\<lambda>d i. d[i := m_data v ! i]) (map fresh [0 ..< n]) [0 ..< t],
                m_capacity := n\<rparr>)"

definition vec_push_back :: "(nat \<Rightarrow> 'a) \<Rightarrow> 'a \<Rightarrow> 'a vector \<Rightarrow> 'a vector" where
  "vec_push_back fresh x v =
     (let v' = vec_resize fresh (m_capacity v + 1) v
      in v'\<lparr>m_data := (m_data v')[m_capacity v' - 1 := x]\<rparr>)"

definition vec_pop_back :: "(nat \<Rightarrow> 'a) \<Rightarrow> 'a vector \<Rightarrow> 'a vector" where
  "vec_pop_back fresh v = (if m_capacity v = 0 then v else vec_resize fresh (m_capacity v - 1) v)"

text \<open>
  The loop of \<open>erase\<close> moves every later element down; its last round reads the cell after the
  array, \<open>beyond\<close>. On success the function ends without a \<open>return\<close>: no result value (\<open>None\<close>).
\<close>

definition shift_down :: "'a \<Rightarrow> nat \<Rightarrow> 'a list \<Rightarrow> 'a list" where
  "shift_down beyond index data =
     foldl (\<lambda>d i. d[i := (if Suc i < length data then d ! Suc i else beyond)]) data [index ..< length data]"

definition vec_erase :: "(nat \<Rightarrow> 'a) \<Rightarrow> 'a \<Rightarrow> nat \<Rightarrow> 'a vector \<Rightarrow> bool option \<times> 'a vector" where
  "vec_erase fresh beyond index v =
     (if index \<ge> m_capacity v then (Some False, v)
      else (None, vec_resize fresh (m_capacity v - 1) (v\<lparr>m_data := shift_down beyond index (m_data v)\<rparr>)))"

definition vec_size :: "'a vector \<Rightarrow> nat" where
  "vec_size v = m_capacity v"

definition vec_empty :: "'a vector \<Rightarrow> bool" where
  "vec_empty v = m_isEmpty v"

section \<open>Vectors stand for lists\<close>

definition vec_ok :: "'a vector \<Rightarrow> bool" where
  "vec_ok v \<longleftrightarrow> length (m_data v) = m_capacity v \<and> (m_isEmpty v \<longleftrightarrow> m_capacity v = 0)"

lemma vector_new_ok [simp]: "vec_ok vector_new" "m_data vector_new = []"
  by (simp_all add: vec_ok_def vector_new_def)

lemma copy_prefix:
  "t \<le> length d \<Longrightarrow> t \<le> length xs \<Longrightarrow> foldl (\<lambda>d i. d[i := xs ! i]) d [0 ..< t] = take t xs @ drop t d"
proof (induction t)
  case (Suc t)
  then have "foldl (\<lambda>d i. d[i := xs ! i]) d [0 ..< Suc t] = (take t xs @ drop t d)[t := xs ! t]" by simp
  also have "\<dots> = take t xs @ (drop t d)[0 := xs ! t]" using Suc.prems by (simp add: list_update_append)
  also have "(drop t d)[0 := xs ! t] = xs ! t # drop (Suc t) d"
    using Suc.prems Cons_nth_drop_Suc [of t d] by (metis Suc_le_lessD list_update_code(2))
  finally show ?case using Suc.prems by (simp add: take_Suc_conv_app_nth)
qed simp

lemma vec_resize_grow:
  assumes "vec_ok v" "m_capacity v < n"
  shows "vec_ok (vec_resize fresh n v)" "m_data (vec_resize fresh n v) = m_data v @ map fresh [m_capacity v ..< n]"
    "m_capacity (vec_resize fresh n v) = n"
proof -
  have "drop (m_capacity v) (map fresh [0 ..< n]) = map fresh [m_capacity v ..< n]"
    using assms(2) by (simp add: drop_map)
  then show "vec_ok (vec_resize fresh n v)" "m_data (vec_resize fresh n v) = m_data v @ map fresh [m_capacity v ..< n]"
    "m_capacity (vec_resize fresh n v) = n"
    using assms by (auto simp: vec_resize_def vec_ok_def Let_def copy_prefix)
qed

lemma vec_resize_shrink:
  assumes "vec_ok v" "n \<le> m_capacity v"
  shows "vec_ok (vec_resize fresh n v)" "m_data (vec_resize fresh n v) = take n (m_data v)"
  using assms by (auto simp: vec_resize_def vec_ok_def Let_def copy_prefix)

lemma vec_push_back_list:
  assumes "vec_ok v"
  shows "vec_ok (vec_push_back fresh x v)" "m_data (vec_push_back fresh x v) = m_data v @ [x]"
  using vec_resize_grow [OF assms, of "m_capacity v + 1" fresh] assms
  by (auto simp: vec_push_back_def Let_def vec_ok_def list_update_append)

lemma vec_pop_back_list:
  assumes "vec_ok v"
  shows "vec_ok (vec_pop_back fresh v)" "m_data (vec_pop_back fresh v) = butlast (m_data v)"
  using vec_resize_shrink [OF assms, of "m_capacity v - 1" fresh] assms
  by (auto simp: vec_pop_back_def butlast_conv_take vec_ok_def)

lemma shift_down_nth:
  fixes beyond :: 'a
  assumes "n \<le> length data" "index \<le> n"
  defines "step \<equiv> \<lambda>d i. d[i := (if Suc i < length data then d ! Suc i else beyond)]"
  shows "length (foldl step data [index ..< n]) = length data \<and>
    (\<forall>j < length data. foldl step data [index ..< n] ! j =
      (if index \<le> j \<and> j < n then (if Suc j < length data then data ! Suc j else beyond) else data ! j))"
  using assms(1,2)
proof (induction n)
  case (Suc n)
  show ?case
  proof (cases "index = Suc n")
    case False
    then have n: "index \<le> n" "n < length data" using Suc.prems by auto
    note IH = Suc.IH [OF less_imp_le [OF n(2)] n(1)]
    have "foldl step data [index ..< Suc n] = step (foldl step data [index ..< n]) n" using n by simp
    then show ?thesis using IH n by (auto simp: step_def nth_list_update less_Suc_eq)
  qed auto
qed auto

lemma shift_down_list:
  assumes "index < length data"
  shows "shift_down beyond index data = take index data @ drop (Suc index) data @ [beyond]"
proof (rule nth_equalityI)
  note sd = shift_down_nth [of "length data" data index beyond, folded shift_down_def, OF _ less_imp_le [OF assms]]
  show len: "length (shift_down beyond index data) = length (take index data @ drop (Suc index) data @ [beyond])"
    using sd assms by simp
  fix j
  assume "j < length (shift_down beyond index data)"
  then show "shift_down beyond index data ! j = (take index data @ drop (Suc index) data @ [beyond]) ! j"
    using sd assms by (auto simp: nth_append min_def not_less)
qed

lemma vec_erase_list:
  assumes "vec_ok v" "index < m_capacity v"
  shows "vec_ok (snd (vec_erase fresh beyond index v))"
    "m_data (snd (vec_erase fresh beyond index v)) = take index (m_data v) @ drop (Suc index) (m_data v)"
proof -
  let ?v = "v\<lparr>m_data := shift_down beyond index (m_data v)\<rparr>"
  have len: "length (m_data v) = m_capacity v" using assms(1) by (simp add: vec_ok_def)
  note sd = shift_down_list [of index "m_data v" beyond]
  have ok: "vec_ok ?v" using assms sd len by (simp add: vec_ok_def)
  note r = vec_resize_shrink [OF ok, of "m_capacity v - 1" fresh]
  show "vec_ok (snd (vec_erase fresh beyond index v))"
    "m_data (snd (vec_erase fresh beyond index v)) = take index (m_data v) @ drop (Suc index) (m_data v)"
    using r assms(2) sd len by (simp_all add: vec_erase_def)
qed

section \<open>The sequence interface\<close>

text \<open>What the clients of a vector rely on: it stands for a list.\<close>

locale sequence =
  fixes ok :: "'s \<Rightarrow> bool"
    and elems :: "'s \<Rightarrow> 'a list"
    and start :: 's
    and push_back :: "'a \<Rightarrow> 's \<Rightarrow> 's"
    and erase :: "nat \<Rightarrow> 's \<Rightarrow> 's"
    and at :: "'s \<Rightarrow> nat \<Rightarrow> 'a option"
  assumes start: "ok start" "elems start = []"
    and push_back: "ok s \<Longrightarrow> ok (push_back x s) \<and> elems (push_back x s) = elems s @ [x]"
    and erase: "ok s \<Longrightarrow> i < length (elems s) \<Longrightarrow> ok (erase i s) \<and> elems (erase i s) = take i (elems s) @ drop (Suc i) (elems s)"
    and at: "ok s \<Longrightarrow> at s i = (if i < length (elems s) then Some (elems s ! i) else None)"
begin

lemma push_all: "ok s \<Longrightarrow> ok (fold push_back xs s) \<and> elems (fold push_back xs s) = elems s @ xs"
  by (induction xs arbitrary: s) (auto simp: push_back)

lemma at_pushed:
  assumes "ok s"
  shows "at (push_back x s) (length (elems s)) = Some x"
  using push_back [OF assms] at [of "push_back x s"] by simp

text \<open>Taking the first element again and again gives the elements in order.\<close>

lemma erase_first:
  assumes "ok s" "elems s = x # xs"
  shows "at s 0 = Some x" "ok (erase 0 s)" "elems (erase 0 s) = xs"
  using assms at [OF assms(1), of 0] erase [OF assms(1), of 0] by simp_all

end

interpretation vec: sequence vec_ok m_data vector_new "vec_push_back fresh"
  "\<lambda>i v. snd (vec_erase fresh beyond i v)" vec_at for fresh beyond
proof unfold_locales
  fix s :: "'a vector" and x i
  assume ok: "vec_ok s"
  show "vec_ok (vec_push_back fresh x s) \<and> m_data (vec_push_back fresh x s) = m_data s @ [x]"
    using vec_push_back_list [OF ok] by blast
  show "vec_ok (snd (vec_erase fresh beyond i s)) \<and>
      m_data (snd (vec_erase fresh beyond i s)) = take i (m_data s) @ drop (Suc i) (m_data s)"
    if "i < length (m_data s)"
    using vec_erase_list [OF ok, of i fresh beyond] that ok by (simp add: vec_ok_def)
  show "vec_at s i = (if i < length (m_data s) then Some (m_data s ! i) else None)"
    using ok by (simp add: vec_at_def vec_ok_def)
qed simp_all

section \<open>optional\<close>

text \<open>\<open>m_value\<close> is a pointer; \<open>None\<close> is the null pointer.\<close>

record 'a optional =
  m_empty :: bool
  m_value :: "'a option"

definition optional_of :: "'a \<Rightarrow> 'a optional" where
  "optional_of x = \<lparr>m_empty = False, m_value = Some x\<rparr>"

definition nullopt :: "'a optional" where
  "nullopt = \<lparr>m_empty = True, m_value = None\<rparr>"

definition value_or :: "'a optional \<Rightarrow> 'a \<Rightarrow> 'a option" where
  "value_or p x = (if m_empty p then Some x else m_value p)"

definition opt_value :: "'a optional \<Rightarrow> 'a option" where
  "opt_value p = m_value p"

lemma opt_value_simps [simp]: "opt_value (optional_of x) = Some x" "opt_value nullopt = None"
  by (simp_all add: opt_value_def optional_of_def nullopt_def)

section \<open>The queue\<close>

type_synonym 'a queue = "'a vector"

definition queue_new :: "'a queue" where
  "queue_new = vector_new"

definition queue_front :: "'a queue \<Rightarrow> 'a optional option" where
  "queue_front q = (if vec_size q = 0 then Some nullopt else map_option optional_of (vec_at q 0))"

definition queue_back :: "'a queue \<Rightarrow> 'a optional option" where
  "queue_back q = (if vec_size q = 0 then Some nullopt else map_option optional_of (vec_at q (vec_size q - 1)))"

definition queue_at :: "'a queue \<Rightarrow> nat \<Rightarrow> 'a option" where
  "queue_at q i = vec_at q i"

definition queue_push :: "(nat \<Rightarrow> 'a) \<Rightarrow> 'a \<Rightarrow> 'a queue \<Rightarrow> 'a queue" where
  "queue_push fresh x q = vec_push_back fresh x q"

definition queue_pop :: "(nat \<Rightarrow> 'a) \<Rightarrow> 'a \<Rightarrow> 'a queue \<Rightarrow> ('a optional \<times> 'a queue) option" where
  "queue_pop fresh beyond q =
     (if vec_size q = 0 then Some (nullopt, q)
      else do {
        x \<leftarrow> vec_at q 0;
        Some (optional_of x, snd (vec_erase fresh beyond 0 q))
      })"

definition queue_erase :: "(nat \<Rightarrow> 'a) \<Rightarrow> 'a \<Rightarrow> nat \<Rightarrow> 'a queue \<Rightarrow> bool option \<times> 'a queue" where
  "queue_erase fresh beyond i q = vec_erase fresh beyond i q"

definition queue_size :: "'a queue \<Rightarrow> nat" where
  "queue_size q = vec_size q"

lemma queue_pop_list:
  assumes "vec_ok q"
  shows "\<exists>q'. queue_pop fresh beyond q = Some (case m_data q of [] \<Rightarrow> nullopt | x # _ \<Rightarrow> optional_of x, q') \<and>
    vec_ok q' \<and> m_data q' = tl (m_data q)"
proof (cases "m_data q")
  case Nil
  then show ?thesis using assms by (auto simp: queue_pop_def vec_size_def vec_ok_def)
next
  case (Cons x xs)
  then show ?thesis
    using vec.erase_first(1) [OF assms Cons] vec.erase_first(2,3) [OF assms Cons, of fresh beyond] assms
    by (auto simp: queue_pop_def vec_size_def vec_ok_def)
qed

text \<open>Popping \<open>n\<close> times.\<close>

primrec queue_drain :: "(nat \<Rightarrow> 'a) \<Rightarrow> 'a \<Rightarrow> nat \<Rightarrow> 'a queue \<Rightarrow> ('a option list \<times> 'a queue) option" where
  "queue_drain fresh beyond 0 q = Some ([], q)"
| "queue_drain fresh beyond (Suc n) q = do {
     (x, q1) \<leftarrow> queue_pop fresh beyond q;
     (xs, q2) \<leftarrow> queue_drain fresh beyond n q1;
     Some (opt_value x # xs, q2)
   }"

lemma queue_drain_list:
  assumes "vec_ok q" "n \<le> length (m_data q)"
  shows "\<exists>q'. queue_drain fresh beyond n q = Some (map Some (take n (m_data q)), q') \<and> vec_ok q' \<and> m_data q' = drop n (m_data q)"
  using assms
proof (induction n arbitrary: q)
  case (Suc n)
  obtain x xs where xs: "m_data q = x # xs" using Suc.prems(2) by (cases "m_data q") auto
  obtain q1 where q1: "queue_pop fresh beyond q = Some (optional_of x, q1)" "vec_ok q1" "m_data q1 = xs"
    using queue_pop_list [OF Suc.prems(1), of fresh beyond] xs by auto
  show ?case using Suc.IH [OF q1(2)] Suc.prems(2) q1 xs by auto
qed auto

section \<open>Properties\<close>

text \<open>The vector operations do to the list a vector stands for what their names say, whatever the
  fresh memory and the cell after the array contain: \<open>push_back\<close> appends, \<open>pop_back\<close> drops the last
  element, \<open>erase\<close> removes one element, \<open>operator[]\<close> panics exactly out of bounds, and each of them
  keeps the capacity equal to the length and the empty flag right.\<close>

theorem vector_refines_list:
  assumes "vec_ok v"
  shows "vec_ok (vec_push_back fresh x v) \<and> m_data (vec_push_back fresh x v) = m_data v @ [x] \<and>
    vec_ok (vec_pop_back fresh v) \<and> m_data (vec_pop_back fresh v) = butlast (m_data v) \<and>
    vec_ok (snd (vec_erase fresh beyond i v)) \<and>
    m_data (snd (vec_erase fresh beyond i v)) = take i (m_data v) @ drop (Suc i) (m_data v) \<and>
    vec_at v i = (if i < length (m_data v) then Some (m_data v ! i) else None)"
proof -
  have "vec_ok (snd (vec_erase fresh beyond i v)) \<and>
      m_data (snd (vec_erase fresh beyond i v)) = take i (m_data v) @ drop (Suc i) (m_data v)"
    using vec_erase_list [OF assms, of i fresh beyond] assms by (cases "i < m_capacity v") (auto simp: vec_erase_def vec_ok_def)
  then show ?thesis
    using vec.push_back [OF assms] vec_pop_back_list [OF assms] vec.at [OF assms] by blast
qed

theorem vector_refines_list_witness:
  "m_data (snd (vec_erase (\<lambda>_. 0) (9 :: nat) 0 (vec_push_back (\<lambda>_. 0) 7 (vec_push_back (\<lambda>_. 0) 5 vector_new)))) = [7]"
  using vector_refines_list [of "vec_push_back (\<lambda>_. 0) (7 :: nat) (vec_push_back (\<lambda>_. 0) 5 vector_new)" "\<lambda>_. 0" 0 9 0]
  by (simp add: vec_push_back_list)

text \<open>A queue gives back what was pushed in the order it was pushed: after pushing \<open>xs\<close> on a queue that
  holds \<open>ys\<close>, popping \<open>n\<close> times returns the first \<open>n\<close> of \<open>ys @ xs\<close> and leaves the rest.\<close>

theorem queue_fifo:
  assumes "vec_ok q" "n \<le> length (m_data q @ xs)"
  shows "\<exists>q'. queue_drain fresh beyond n (fold (queue_push fresh) xs q) = Some (map Some (take n (m_data q @ xs)), q') \<and>
    vec_ok q' \<and> m_data q' = drop n (m_data q @ xs)"
proof -
  have "queue_push fresh = vec_push_back fresh" by (simp add: fun_eq_iff queue_push_def)
  then have "vec_ok (fold (queue_push fresh) xs q)" "m_data (fold (queue_push fresh) xs q) = m_data q @ xs"
    using vec.push_all [OF assms(1), of fresh xs] by simp_all
  with queue_drain_list [of "fold (queue_push fresh) xs q" n] assms(2) show ?thesis by metis
qed

theorem queue_fifo_witness:
  "\<exists>q'. queue_drain (\<lambda>_. 0) (0 :: nat) 2 (fold (queue_push (\<lambda>_. 0)) [3, 1, 2] queue_new) = Some ([Some 3, Some 1], q') \<and> m_data q' = [2]"
  using queue_fifo [of queue_new 2 "[3, 1, 2 :: nat]" "\<lambda>_. 0" 0] by (auto simp: queue_new_def)

end
