(* ===== verification/Strings.thy ===== *)
theory Strings
  imports Prelude
begin

text \<open>
  \<^verbatim>\<open>klibc/strings.cpp\<close>. A character buffer is the list of its bytes, terminator and whatever follows
  it included; an access outside the buffer has no result (\<open>None\<close>). \<open>char\<close> is signed.
\<close>

type_synonym cbuf = "u8 list"

definition rd :: "cbuf \<Rightarrow> nat \<Rightarrow> u8 option" where
  "rd b i = (if i < length b then Some (b ! i) else None)"

definition wr :: "cbuf \<Rightarrow> nat \<Rightarrow> u8 \<Rightarrow> cbuf option" where
  "wr b i c = (if i < length b then Some (b[i := c]) else None)"

text \<open>String literals, without and with their terminator.\<close>

definition ascii :: "string \<Rightarrow> cbuf" where
  "ascii = map of_char"

definition cstr :: "string \<Rightarrow> cbuf" where
  "cstr s = ascii s @ [0]"

section \<open>Length and comparison\<close>

function strlen_from :: "cbuf \<Rightarrow> nat \<Rightarrow> nat option" where
  "strlen_from str i = (case rd str i of None \<Rightarrow> None
     | Some c \<Rightarrow> if c \<noteq> 0 then strlen_from str (i + 1) else Some (i + 1 - 1))"
  by pat_completeness auto
termination
  by (relation "measure (\<lambda>(str, i). length str - i)") (auto simp: rd_def split: if_splits)

declare strlen_from.simps [simp del]

definition strlen :: "cbuf \<Rightarrow> nat option" where
  "strlen str = strlen_from str 0"

function strncmp_from :: "cbuf \<Rightarrow> cbuf \<Rightarrow> nat \<Rightarrow> nat \<Rightarrow> bool option" where
  "strncmp_from msg1 msg2 len i =
     (if i < len then do {
        a \<leftarrow> rd msg1 i;
        b \<leftarrow> rd msg2 i;
        if a \<noteq> b then Some False else strncmp_from msg1 msg2 len (i + 1)
      } else Some True)"
  by pat_completeness auto
termination
  by (relation "measure (\<lambda>(a, b, len, i). len - i)") auto

declare strncmp_from.simps [simp del]

definition strncmp :: "cbuf \<Rightarrow> cbuf \<Rightarrow> nat \<Rightarrow> bool option" where
  "strncmp msg1 msg2 len = strncmp_from msg1 msg2 len 0"

definition strcmp :: "cbuf \<Rightarrow> cbuf \<Rightarrow> bool option" where
  "strcmp msg1 msg2 = do {
     l1 \<leftarrow> strlen msg1;
     l2 \<leftarrow> strlen msg2;
     if l1 \<noteq> l2 then Some False else strncmp_from msg1 msg2 l1 0
   }"

primrec substr :: "cbuf \<Rightarrow> cbuf \<Rightarrow> nat \<Rightarrow> nat \<Rightarrow> cbuf option" where
  "substr buffer src pos 0 = Some buffer"
| "substr buffer src pos (Suc i) = do {
     b \<leftarrow> substr buffer src pos i;
     c \<leftarrow> rd src (pos + i);
     wr b i c
   }"

section \<open>Numbers\<close>

text \<open>\<open>str[i] - '0'\<close> is computed in \<open>int\<close> and added to a \<open>size_t\<close>.\<close>

definition digit_value :: "u8 \<Rightarrow> u64" where
  "digit_value c = signed_take_bit 7 (ucast c) - 48"

function parse_from :: "u64 \<Rightarrow> cbuf \<Rightarrow> nat \<Rightarrow> u64 \<Rightarrow> u64 option" where
  "parse_from base str i num = (case rd str i of None \<Rightarrow> None
     | Some c \<Rightarrow> if c \<noteq> 0 then parse_from base str (i + 1) (num * base + digit_value c) else Some num)"
  by pat_completeness auto
termination
  by (relation "measure (\<lambda>(base, str, i, num). length str - i)") (auto simp: rd_def split: if_splits)

declare parse_from.simps [simp del]

definition atoi :: "cbuf \<Rightarrow> u64 option" where
  "atoi str = do {
     c \<leftarrow> rd str 0;
     if c = 45 then map_option (\<lambda>num. num * -1) (parse_from 10 str 1 0)
     else parse_from 10 str 0 0
   }"

definition octal_to_int :: "cbuf \<Rightarrow> u64 option" where
  "octal_to_int str = parse_from 8 str 0 0"

text \<open>\<open>char charBuffer[20]\<close>, the one buffer \<open>itoa\<close> writes to.\<close>

definition digit_char :: "nat \<Rightarrow> u8" where
  "digit_char digit = (if digit \<le> 9 then of_nat digit + 48 else of_nat (digit - 10) + 65)"

function itoa_digits :: "nat \<Rightarrow> nat \<Rightarrow> nat \<Rightarrow> cbuf \<Rightarrow> (nat \<times> cbuf) option" where
  "itoa_digits base number i buf =
     (if number \<noteq> 0 \<and> 1 < base then
        (case wr buf i (digit_char (number mod base)) of None \<Rightarrow> None
         | Some buf' \<Rightarrow> itoa_digits base (number div base) (i + 1) buf')
      else Some (i, buf))"
  by pat_completeness auto
termination
  by (relation "measure (\<lambda>(base, number, i, buf). number)") auto

declare itoa_digits.simps [simp del]

function reverse_loop :: "nat \<Rightarrow> nat \<Rightarrow> cbuf \<Rightarrow> cbuf" where
  "reverse_loop c ed buf =
     (if c < ed then reverse_loop (c + 1) (ed - 1) (buf[c := buf ! ed, ed := buf ! c]) else buf)"
  by pat_completeness auto
termination
  by (relation "measure (\<lambda>(c, ed, buf). ed - c)") auto

declare reverse_loop.simps [simp del]

text \<open>The result is the string and the buffer after the call; \<open>number == 0\<close> and other bases give the
  literal. The branch for a minus sign tests \<open>number\<close> again and is never taken.\<close>

definition itoa :: "u64 \<Rightarrow> u64 \<Rightarrow> cbuf \<Rightarrow> (cbuf \<times> cbuf) option" where
  "itoa number base charBuffer =
     (if number = 0 \<or> (base \<noteq> 16 \<and> base \<noteq> 10) then Some ([48, 0], charBuffer)
      else do {
        (i, b) \<leftarrow> (if base = 16 then do { b \<leftarrow> wr charBuffer 0 48; b \<leftarrow> wr b 1 120; Some (2, b) }
                   else Some (0, charBuffer));
        (j, b) \<leftarrow> itoa_digits (unat base) (unat number) i b;
        b \<leftarrow> wr (reverse_loop i (j - 1) b) j 0;
        Some (b, b)
      })"

section \<open>What the loops compute\<close>

lemma rd_at [simp]: "rd (xs @ c # ys) (length xs) = Some c"
  by (simp add: rd_def)

lemma strlen_from_string:
  assumes "0 \<notin> set s"
  shows "strlen_from (pre @ s @ 0 # rest) (length pre) = Some (length pre + length s)"
  using assms
proof (induction s arbitrary: pre)
  case Nil
  show ?case by (subst strlen_from.simps) simp
next
  case (Cons c s)
  have "strlen_from ((pre @ [c]) @ s @ 0 # rest) (length (pre @ [c])) = Some (length (pre @ [c]) + length s)"
    using Cons by (intro Cons.IH) simp
  with Cons.prems show ?case by (subst strlen_from.simps) simp
qed

lemma strlen_string: "0 \<notin> set s \<Longrightarrow> strlen (s @ 0 # rest) = Some (length s)"
  using strlen_from_string [of s "[]" rest] by (simp add: strlen_def)

lemma strncmp_from_prefix:
  assumes "i \<le> len" "len \<le> length a" "len \<le> length b"
  shows "strncmp_from a b len i = Some (\<forall>j. i \<le> j \<and> j < len \<longrightarrow> a ! j = b ! j)"
  using assms
proof (induction "len - i" arbitrary: i)
  case 0
  then show ?case by (subst strncmp_from.simps) auto
next
  case (Suc n)
  then have IH: "strncmp_from a b len (Suc i) = Some (\<forall>j. Suc i \<le> j \<and> j < len \<longrightarrow> a ! j = b ! j)"
    by (intro Suc.hyps) auto
  have lt: "i < len" using Suc.hyps(2) by simp
  have split: "(\<forall>j. i \<le> j \<and> j < len \<longrightarrow> a ! j = b ! j) \<longleftrightarrow>
      a ! i = b ! i \<and> (\<forall>j. Suc i \<le> j \<and> j < len \<longrightarrow> a ! j = b ! j)"
    using lt by (metis Suc_le_eq le_neq_implies_less less_imp_le order_refl)
  show ?case using lt Suc.prems IH unfolding split by (subst strncmp_from.simps) (simp add: rd_def)
qed

lemma strncmp_take:
  assumes "len \<le> length a" "len \<le> length b"
  shows "strncmp a b len = Some (take len a = take len b)"
  using strncmp_from_prefix [of 0 len a b] assms by (auto simp: strncmp_def list_eq_iff_nth_eq)

lemma parse_from_digits:
  assumes "0 \<notin> set s"
  shows "parse_from base (pre @ s @ 0 # rest) (length pre) num
    = Some (foldl (\<lambda>n c. n * base + digit_value c) num s)"
  using assms
proof (induction s arbitrary: pre num)
  case Nil
  show ?case by (subst parse_from.simps) simp
next
  case (Cons c s)
  have "parse_from base ((pre @ [c]) @ s @ 0 # rest) (length (pre @ [c])) (num * base + digit_value c)
      = Some (foldl (\<lambda>n c. n * base + digit_value c) (num * base + digit_value c) s)"
    using Cons by (intro Cons.IH) simp
  with Cons.prems show ?case by (subst parse_from.simps) simp
qed

lemma reverse_loop_rev:
  "reverse_loop (length pre) (length pre + length xs - 1) (pre @ xs @ post) = pre @ rev xs @ post"
proof (induction xs arbitrary: pre post rule: length_induct)
  case (1 xs)
  show ?case
  proof (cases "length xs \<le> 1")
    case True
    then have "rev xs = xs" by (cases xs) auto
    then show ?thesis using True by (subst reverse_loop.simps) auto
  next
    case False
    then obtain x ys y where xs: "xs = x # ys @ [y]"
      by (cases xs; cases "tl xs" rule: rev_cases) auto
    let ?b = "pre @ x # ys @ y # post"
    have up: "?b[length pre := ?b ! (length pre + length ys + 1), length pre + length ys + 1 := ?b ! length pre]
        = (pre @ [y]) @ ys @ x # post"
      by (simp add: nth_append list_update_append)
    have "reverse_loop (length pre) (length pre + length ys + 1) ?b
        = reverse_loop (length (pre @ [y])) (length (pre @ [y]) + length ys - 1) ((pre @ [y]) @ ys @ x # post)"
      by (subst reverse_loop.simps) (simp add: up [simplified])
    also have "\<dots> = (pre @ [y]) @ rev ys @ x # post"
    proof -
      have "length ys < length xs" using xs by simp
      then show ?thesis using 1 by blast
    qed
    finally show ?thesis by (simp add: xs)
  qed
qed

text \<open>The digits of a number, least significant first.\<close>

function digits :: "nat \<Rightarrow> nat \<Rightarrow> nat list" where
  "digits base n = (if n \<noteq> 0 \<and> 1 < base then n mod base # digits base (n div base) else [])"
  by pat_completeness auto
termination
  by (relation "measure snd") auto

declare digits.simps [simp del]

lemma digits_0 [simp]: "digits base 0 = []"
  by (simp add: digits.simps)

lemma digits_less: "d \<in> set (digits base n) \<Longrightarrow> d < base"
  by (induction base n rule: digits.induct) (subst (asm) (2) digits.simps, auto split: if_splits)

lemma digits_value: "1 < base \<Longrightarrow> foldl (\<lambda>n d. n * base + d) 0 (rev (digits base n)) = n"
  by (induction base n rule: digits.induct) (subst digits.simps, auto)

lemma digits_length: "1 < base \<Longrightarrow> n < base ^ k \<longleftrightarrow> length (digits base n) \<le> k"
proof (induction k arbitrary: n)
  case 0
  then show ?case by (cases n) (auto simp: digits.simps)
next
  case (Suc k)
  show ?case
  proof (cases "n = 0")
    case False
    have "n < base ^ Suc k \<longleftrightarrow> n div base < base ^ k"
      using Suc.prems by (simp add: div_less_iff_less_mult mult.commute)
    then show ?thesis using Suc False by (subst digits.simps) simp
  qed (use Suc.prems in simp)
qed

lemma itoa_digits_run:
  assumes "1 < base" "length (digits base n) \<le> length rest"
  shows "itoa_digits base n (length pre) (pre @ rest) = Some (length pre + length (digits base n),
    pre @ map digit_char (digits base n) @ drop (length (digits base n)) rest)"
  using assms
proof (induction base n arbitrary: pre rest rule: digits.induct)
  case (1 base n)
  show ?case
  proof (cases "n = 0")
    case False
    have d: "digits base n = n mod base # digits base (n div base)"
      using False "1.prems"(1) by (subst digits.simps) simp
    obtain r rs where r: "rest = r # rs" using "1.prems"(2) d by (cases rest) auto
    let ?c = "digit_char (n mod base)"
    have "itoa_digits base (n div base) (length (pre @ [?c])) ((pre @ [?c]) @ rs)
        = Some (length (pre @ [?c]) + length (digits base (n div base)),
          (pre @ [?c]) @ map digit_char (digits base (n div base)) @ drop (length (digits base (n div base))) rs)"
      using "1.prems" False d r by (intro "1.IH") auto
    then show ?thesis using False "1.prems"(1) d r
      by (subst itoa_digits.simps) (simp add: wr_def list_update_append)
  qed (simp add: itoa_digits.simps)
qed

lemma itoa_digits_overflow:
  assumes "1 < base" "length rest < length (digits base n)"
  shows "itoa_digits base n (length pre) (pre @ rest) = None"
  using assms
proof (induction base n arbitrary: pre rest rule: digits.induct)
  case (1 base n)
  have n: "n \<noteq> 0" using "1.prems" by (cases n) auto
  have d: "digits base n = n mod base # digits base (n div base)"
    using n "1.prems"(1) by (subst digits.simps) simp
  show ?case
  proof (cases rest)
    case Nil
    then show ?thesis using n "1.prems"(1) by (subst itoa_digits.simps) (simp add: wr_def)
  next
    case (Cons r rs)
    let ?c = "digit_char (n mod base)"
    have "itoa_digits base (n div base) (length (pre @ [?c])) ((pre @ [?c]) @ rs) = None"
      using "1.prems" n d Cons by (intro "1.IH") auto
    then show ?thesis using n "1.prems"(1) Cons
      by (subst itoa_digits.simps) (simp add: wr_def list_update_append)
  qed
qed

lemma digit_char_decimal:
  assumes "d < 10"
  shows "digit_char d \<noteq> 0" "digit_char d \<noteq> 45" "digit_value (digit_char d) = of_nat d"
proof -
  have "d \<in> {0, 1, 2, 3, 4, 5, 6, 7, 8, 9}" using assms by auto
  then show "digit_char d \<noteq> 0" "digit_char d \<noteq> 45" "digit_value (digit_char d) = of_nat d"
    by (auto simp: digit_char_def digit_value_def signed_take_bit_def)
qed

lemma itoa_decimal:
  assumes "number \<noteq> 0" "unat number < 10 ^ 19" "length buf = 20"
  obtains rest where "itoa number 10 buf = Some (map digit_char (rev (digits 10 (unat number))) @ 0 # rest,
    map digit_char (rev (digits 10 (unat number))) @ 0 # rest)"
    "length (map digit_char (rev (digits 10 (unat number))) @ 0 # rest) = 20"
proof -
  let ?ds = "digits 10 (unat number)"
  have len: "length ?ds \<le> 19" using digits_length [of 10 "unat number" 19] assms(2) by simp
  obtain r rest where r: "drop (length ?ds) buf = r # rest"
    using len assms(3) by (cases "drop (length ?ds) buf") auto
  have run: "itoa_digits 10 (unat number) 0 buf = Some (length ?ds, map digit_char ?ds @ r # rest)"
    using itoa_digits_run [of 10 "unat number" buf "[]"] len assms(3) r by simp
  have rev: "reverse_loop 0 (length ?ds - 1) (map digit_char ?ds @ r # rest) = map digit_char (rev ?ds) @ r # rest"
    using reverse_loop_rev [of "[]" "map digit_char ?ds" "r # rest"] by (simp add: rev_map)
  have "itoa number 10 buf = Some (map digit_char (rev ?ds) @ 0 # rest, map digit_char (rev ?ds) @ 0 # rest)"
    using assms(1) run rev by (simp add: itoa_def wr_def list_update_append)
  moreover have "length (map digit_char (rev ?ds) @ 0 # rest) = 20"
    using arg_cong [OF r, of length] len assms(3) by simp
  ultimately show ?thesis by (rule that)
qed

lemma parse_value:
  assumes "\<And>d. d \<in> set ds \<Longrightarrow> d < 10"
  shows "foldl (\<lambda>n c. n * 10 + digit_value c) (of_nat k) (map digit_char ds) = of_nat (foldl (\<lambda>n d. n * 10 + d) k ds)"
  using assms
proof (induction ds arbitrary: k)
  case (Cons d ds)
  have "foldl (\<lambda>n c. n * 10 + digit_value c) (of_nat (k * 10 + d)) (map digit_char ds)
      = of_nat (foldl (\<lambda>n d. n * 10 + d) (k * 10 + d) ds)"
    using Cons by (intro Cons.IH) simp
  then show ?case using digit_char_decimal(3) [of d] Cons.prems by (simp add: algebra_simps)
qed simp

lemma strcmp_eq:
  assumes "0 \<notin> set a" "0 \<notin> set b"
  shows "strcmp (a @ 0 # r) (b @ 0 # r') = Some (a = b)"
proof (cases "length a = length b")
  case True
  then show ?thesis
    using strlen_string [OF assms(1), of r] strlen_string [OF assms(2), of r']
      strncmp_take [of "length a" "a @ 0 # r" "b @ 0 # r'"] by (simp add: strcmp_def strncmp_def)
next
  case False
  then have "a \<noteq> b" by auto
  with False show ?thesis
    using strlen_string [OF assms(1), of r] strlen_string [OF assms(2), of r'] by (simp add: strcmp_def)
qed

lemma strncmp_mismatch:
  assumes "j < len" "j < length a" "j < length b" "a ! j \<noteq> b ! j"
  shows "strncmp a b len = Some False"
proof -
  have "strncmp_from a b len i = Some False" if "i \<le> j" for i
    using that
  proof (induction "j - i" arbitrary: i)
    case 0
    then show ?case using assms by (subst strncmp_from.simps) (simp add: rd_def)
  next
    case (Suc n)
    then have "strncmp_from a b len (i + 1) = Some False" by (intro Suc.hyps) auto
    then show ?case using Suc assms by (subst strncmp_from.simps) (simp add: rd_def)
  qed
  then show ?thesis by (simp add: strncmp_def)
qed

section \<open>Properties\<close>

text \<open>\<open>atoi\<close> reads back what \<open>itoa\<close> prints in base ten, for every number of at most nineteen digits,
  whatever the shared buffer held before.\<close>

theorem atoi_itoa:
  assumes "unat number < 10 ^ 19" "length buf = 20"
  shows "\<exists>str buf'. itoa number 10 buf = Some (str, buf') \<and> atoi str = Some number \<and> length buf' = 20"
proof (cases "number = 0")
  case True
  have "parse_from 10 [48, 0] 0 0 = Some 0"
    using parse_from_digits [of "[48]" 10 "[]" "[]" 0] by (simp add: digit_value_def signed_take_bit_def)
  then show ?thesis using True assms(2) by (simp add: itoa_def atoi_def rd_def)
next
  case False
  let ?ds = "rev (digits 10 (unat number))"
  obtain rest where it: "itoa number 10 buf = Some (map digit_char ?ds @ 0 # rest, map digit_char ?ds @ 0 # rest)"
      "length (map digit_char ?ds @ 0 # rest) = 20"
    by (rule itoa_decimal [OF False assms]) (rule that)
  have small: "d < 10" if "d \<in> set ?ds" for d using that digits_less [of d 10] by simp
  have zero: "0 \<notin> set (map digit_char ?ds)" using small digit_char_decimal(1) by fastforce
  have ne: "digits 10 (unat number) \<noteq> []" using False by (subst digits.simps) (simp add: unat_eq_zero)
  then have "rd (map digit_char ?ds @ 0 # rest) 0 = Some (digit_char (hd ?ds))" and "hd ?ds \<in> set ?ds"
    by (cases ?ds; simp add: rd_def)+
  moreover have "parse_from 10 (map digit_char ?ds @ 0 # rest) 0 0 = Some number"
    using parse_from_digits [OF zero, of 10 "[]" rest 0] parse_value [of ?ds 0] small digits_value [of 10 "unat number"]
    by simp
  ultimately show ?thesis using it digit_char_decimal(2) small by (auto simp: atoi_def)
qed

theorem atoi_itoa_witness:
  "\<exists>str buf'. itoa 1234567890123456789 10 (replicate 20 0xCC) = Some (str, buf') \<and> atoi str = Some 1234567890123456789"
  using atoi_itoa [of "1234567890123456789" "replicate 20 0xCC"] by auto

text \<open>A decimal number of twenty digits does not fit: with its terminator it needs 21 characters, and
  \<open>itoa\<close> writes past the end of \<open>charBuffer[20]\<close>.\<close>

theorem itoa_overflows:
  assumes "10 ^ 19 \<le> unat number" "length buf = 20"
  shows "itoa number 10 buf = None"
proof -
  let ?ds = "digits 10 (unat number)"
  have "unat number < 10 ^ 20" using unat_u64_less [of number] by simp
  then have le: "length ?ds \<le> 20" using digits_length [of 10 "unat number" 20] by simp
  have "\<not> length ?ds \<le> 19" using digits_length [of 10 "unat number" 19] assms(1) by simp
  then have len: "length ?ds = 20" using le by simp
  have run: "itoa_digits 10 (unat number) 0 buf = Some (20, map digit_char ?ds)"
    using itoa_digits_run [of 10 "unat number" buf "[]"] len assms(2) by simp
  have rev: "length (reverse_loop 0 19 (map digit_char ?ds)) = 20"
    using reverse_loop_rev [of "[]" "map digit_char ?ds" "[]"] len by simp
  have "number \<noteq> 0" using assms(1) by auto
  then show ?thesis using run rev by (simp add: itoa_def wr_def)
qed

theorem itoa_overflows_witness: "itoa 0xFFFFFFFFFFFFFFFF 10 (replicate 20 0) = None"
  using itoa_overflows [of "0xFFFFFFFFFFFFFFFF" "replicate 20 0"] by simp

text \<open>On terminated strings \<open>strcmp\<close> decides equality of the characters before the terminators, and
  \<open>strncmp\<close> equality of the first \<open>len\<close> bytes (both answer \<open>true\<close> for equal, unlike the C library).\<close>

theorem strcmp_decides:
  assumes "0 \<notin> set a" "0 \<notin> set b"
  shows "strcmp (a @ 0 # r) (b @ 0 # r') = Some (a = b) \<and>
    (len \<le> length a \<and> len \<le> length b \<longrightarrow> strncmp (a @ 0 # r) (b @ 0 # r') len = Some (take len a = take len b))"
  using strcmp_eq [OF assms, of r r'] strncmp_take [of len "a @ 0 # r" "b @ 0 # r'"] by simp

theorem strcmp_decides_witness: "strcmp [100, 101, 118, 0, 7] [100, 101, 118, 0] = Some True"
  using strcmp_decides [of "[100, 101, 118]" "[100, 101, 118]" "[7]" "[]"] by simp

end
