(* ===== verification/Hash_Map.thy ===== *)
theory Hash_Map
  imports Vector Strings
begin

text \<open>
  \<^verbatim>\<open>klibc/map.hpp\<close>: the chained hash table. A bucket is the list its chain of entries stands for. The
  overload of \<open>hash\<close> that applies to the key type is the argument \<open>hash\<close> of the operations; an
  index outside the bucket array has no result (\<open>None\<close>).
\<close>

section \<open>Hashing\<close>

primrec djb2_size :: "u64 \<Rightarrow> nat \<Rightarrow> u64" where
  "djb2_size key 0 = 5381"
| "djb2_size key (Suc i) = (let h = djb2_size key i in (push_bit 5 h + h) + (drop_bit (i * 8) key AND 0xFF))"

definition hash_size :: "nat \<Rightarrow> u64 \<Rightarrow> nat" where
  "hash_size capacity key = unat (djb2_size key 8 AND of_nat capacity)"

function djb2_str :: "cbuf \<Rightarrow> nat \<Rightarrow> u64 \<Rightarrow> u64 option" where
  "djb2_str key i h = (case rd key i of None \<Rightarrow> None
     | Some c \<Rightarrow> if c \<noteq> 0 then djb2_str key (i + 1) ((push_bit 5 h + h) + signed_take_bit 7 (ucast c)) else Some h)"
  by pat_completeness auto
termination
  by (relation "measure (\<lambda>(key, i, h). length key - i)") (auto simp: rd_def split: if_splits)

declare djb2_str.simps [simp del]

definition hash_str :: "nat \<Rightarrow> cbuf \<Rightarrow> nat option" where
  "hash_str capacity key = map_option (\<lambda>h. unat h mod capacity) (djb2_str key 0 5381)"

section \<open>The table\<close>

record ('k, 'v) hmap =
  mp_capacity :: nat
  mp_size :: nat
  mp_data :: "('k \<times> 'v) list list"

definition hmap_new :: "('k, 'v) hmap" where
  "hmap_new = \<lparr>mp_capacity = 10, mp_size = 0, mp_data = replicate 10 []\<rparr>"

text \<open>The copy into the larger array takes the new length from the old array: the buckets from the old
  capacity on are whatever follows it in memory, \<open>beyond\<close>. Entries are not hashed again.\<close>

definition hmap_grow :: "(nat \<Rightarrow> ('k \<times> 'v) list) \<Rightarrow> ('k, 'v) hmap \<Rightarrow> ('k, 'v) hmap" where
  "hmap_grow beyond m =
     (if mp_size m * (mp_size m div 2) > mp_capacity m
      then let cap = mp_capacity m + mp_capacity m div 2
           in m\<lparr>mp_capacity := cap, mp_data := map (\<lambda>i. if i < length (mp_data m) then mp_data m ! i else beyond i) [0 ..< cap]\<rparr>
      else m)"

definition hmap_insert ::
  "(nat \<Rightarrow> 'k \<Rightarrow> nat) \<Rightarrow> (nat \<Rightarrow> ('k \<times> 'v) list) \<Rightarrow> 'k \<Rightarrow> 'v \<Rightarrow> ('k, 'v) hmap \<Rightarrow> ('k, 'v) hmap option" where
  "hmap_insert hash beyond key v m =
     (let index = hash (mp_capacity m) key in
      if index \<ge> length (mp_data m) then None
      else Some (hmap_grow beyond (m\<lparr>mp_data := (mp_data m)[index := (key, v) # mp_data m ! index],
                                     mp_size := mp_size m + 1\<rparr>)))"

text \<open>Unlinking the first entry with the key.\<close>

fun unlink_key :: "'k \<Rightarrow> ('k \<times> 'v) list \<Rightarrow> bool \<times> ('k \<times> 'v) list" where
  "unlink_key key [] = (False, [])"
| "unlink_key key (e # es) =
     (if fst e = key then (True, es) else let (b, es') = unlink_key key es in (b, e # es'))"

definition hmap_erase :: "(nat \<Rightarrow> 'k \<Rightarrow> nat) \<Rightarrow> 'k \<Rightarrow> ('k, 'v) hmap \<Rightarrow> (bool \<times> ('k, 'v) hmap) option" where
  "hmap_erase hash key m =
     (let index = hash (mp_capacity m) key in
      if index \<ge> length (mp_data m) then None
      else if mp_data m ! index = [] then Some (False, m)
      else let (found, es) = unlink_key key (mp_data m ! index) in
        if found then Some (True, m\<lparr>mp_data := (mp_data m)[index := es], mp_size := mp_size m - 1\<rparr>)
        else Some (False, m))"

fun chain_find :: "'k \<Rightarrow> ('k \<times> 'v) list \<Rightarrow> 'v optional" where
  "chain_find key [] = nullopt"
| "chain_find key (e # es) = (if fst e = key then optional_of (snd e) else chain_find key es)"

definition hmap_find :: "(nat \<Rightarrow> 'k \<Rightarrow> nat) \<Rightarrow> 'k \<Rightarrow> ('k, 'v) hmap \<Rightarrow> 'v optional option" where
  "hmap_find hash key m =
     (let index = hash (mp_capacity m) key in
      if index \<ge> length (mp_data m) then None
      else if mp_data m ! index = [] then Some nullopt
      else Some (chain_find key (mp_data m ! index)))"

definition hmap_index :: "(nat \<Rightarrow> 'k \<Rightarrow> nat) \<Rightarrow> 'k \<Rightarrow> ('k, 'v) hmap \<Rightarrow> 'v optional option" where
  "hmap_index hash key m = hmap_find hash key m"

definition hmap_size :: "('k, 'v) hmap \<Rightarrow> nat" where
  "hmap_size m = mp_size m"

text \<open>The destructor, with the entries it has deleted so far as an argument.\<close>

fun delete_chain :: "('k \<times> 'v) list \<Rightarrow> ('k \<times> 'v) list \<Rightarrow> ('k \<times> 'v) list" where
  "delete_chain [] freed = freed"
| "delete_chain (head # rest) freed = delete_chain rest (freed @ [head])"

function delete_from :: "('k, 'v) hmap \<Rightarrow> nat \<Rightarrow> ('k \<times> 'v) list \<Rightarrow> ('k \<times> 'v) list option" where
  "delete_from m i freed =
     (if i < mp_capacity m then
        if i \<ge> length (mp_data m) then None
        else if mp_data m ! i = [] then delete_from m (i + 1) freed
        else delete_from m (i + 1) (delete_chain (mp_data m ! i) freed)
      else Some freed)"
  by pat_completeness auto
termination
  by (relation "measure (\<lambda>(m, i, freed). mp_capacity m - i)") auto

declare delete_from.simps [simp del]

definition hmap_delete :: "('k, 'v) hmap \<Rightarrow> ('k \<times> 'v) list option" where
  "hmap_delete m = delete_from m 0 []"

section \<open>What the destructor deletes\<close>

lemma delete_chain_all: "delete_chain es freed = freed @ es"
  by (induction es freed rule: delete_chain.induct) simp_all

lemma delete_from_all:
  assumes "length (mp_data m) = mp_capacity m"
  shows "delete_from m i freed = Some (freed @ concat (drop i (mp_data m)))"
  using assms
proof (induction m i freed rule: delete_from.induct)
  case (1 m i freed)
  show ?case
  proof (cases "i < mp_capacity m")
    case True
    then have "drop i (mp_data m) = mp_data m ! i # drop (Suc i) (mp_data m)" using "1.prems" by (simp add: Cons_nth_drop_Suc)
    then show ?thesis using 1 True by (subst delete_from.simps) (auto simp: delete_chain_all)
  qed (use "1.prems" in \<open>simp add: delete_from.simps\<close>)
qed

text \<open>The number of entries is what \<open>size\<close> says.\<close>

definition hmap_counted :: "('k, 'v) hmap \<Rightarrow> bool" where
  "hmap_counted m \<longleftrightarrow> length (mp_data m) = mp_capacity m \<and> mp_size m = length (concat (mp_data m))"

lemma concat_update_length:
  "i < length xss \<Longrightarrow> length (concat (xss[i := ys])) + length (xss ! i) = length (concat xss) + length ys"
  by (induction xss arbitrary: i) (auto split: nat.splits)

lemma unlink_key_length: "unlink_key key es = (b, es') \<Longrightarrow> length es' + (if b then 1 else 0) = length es"
  by (induction es arbitrary: b es') (auto split: if_splits prod.splits)

text \<open>As long as the table does not grow, the count is kept, and the destructor deletes as many entries as \<open>size\<close> says, each of them once.\<close>

theorem hmap_delete_frees:
  shows "hmap_counted (hmap_new :: ('k, 'v) hmap)"
    and "hmap_counted m \<Longrightarrow> Suc (mp_size m) * (Suc (mp_size m) div 2) \<le> mp_capacity m \<Longrightarrow> hmap_insert hash beyond key v m = Some m' \<Longrightarrow> hmap_counted m'"
    and "hmap_counted m \<Longrightarrow> hmap_erase hash key m = Some (b, m') \<Longrightarrow> hmap_counted m'"
    and "hmap_counted m \<Longrightarrow> hmap_delete m = Some (concat (mp_data m)) \<and> length (concat (mp_data m)) = hmap_size m"
proof -
  show "hmap_counted (hmap_new :: ('k, 'v) hmap)" by (simp add: hmap_counted_def hmap_new_def)
  show "hmap_counted m \<Longrightarrow> hmap_delete m = Some (concat (mp_data m)) \<and> length (concat (mp_data m)) = hmap_size m"
    using delete_from_all [of m 0 "[]"] by (simp add: hmap_counted_def hmap_delete_def hmap_size_def)
  show "hmap_counted m'" if "hmap_counted m" "Suc (mp_size m) * (Suc (mp_size m) div 2) \<le> mp_capacity m" "hmap_insert hash beyond key v m = Some m'"
    using that concat_update_length [of "hash (mp_capacity m) key" "mp_data m" "(key, v) # mp_data m ! hash (mp_capacity m) key"]
    by (auto simp: hmap_counted_def hmap_insert_def hmap_grow_def Let_def split: if_splits)
  show "hmap_counted m'" if "hmap_counted m" "hmap_erase hash key m = Some (b, m')"
  proof -
    let ?i = "hash (mp_capacity m) key"
    obtain f es where u: "unlink_key key (mp_data m ! ?i) = (f, es)" by fastforce
    show ?thesis using that u unlink_key_length [OF u] concat_update_length [of ?i "mp_data m" es]
      by (auto simp: hmap_counted_def hmap_erase_def Let_def split: if_splits)
  qed
qed

section \<open>The table as a map, as long as it does not grow\<close>

definition in_range :: "(nat \<Rightarrow> 'k \<Rightarrow> nat) \<Rightarrow> nat \<Rightarrow> bool" where
  "in_range hash cap \<longleftrightarrow> (\<forall>k. hash cap k < cap)"

definition hmap_lookup :: "(nat \<Rightarrow> 'k \<Rightarrow> nat) \<Rightarrow> ('k, 'v) hmap \<Rightarrow> 'k \<Rightarrow> 'v option" where
  "hmap_lookup hash m k = map_of (mp_data m ! hash (mp_capacity m) k) k"

definition hmap_ok :: "(nat \<Rightarrow> 'k \<Rightarrow> nat) \<Rightarrow> ('k, 'v) hmap \<Rightarrow> bool" where
  "hmap_ok hash m \<longleftrightarrow> length (mp_data m) = mp_capacity m \<and> in_range hash (mp_capacity m)"

lemma chain_find_map_of: "opt_value (chain_find k es) = map_of es k"
  by (induction es) auto

lemma hmap_find_lookup:
  assumes "hmap_ok hash m"
  shows "\<exists>r. hmap_find hash k m = Some r \<and> opt_value r = hmap_lookup hash m k"
proof -
  have "hash (mp_capacity m) k < length (mp_data m)" using assms by (simp add: hmap_ok_def in_range_def)
  then show ?thesis
    using chain_find_map_of [of k "mp_data m ! hash (mp_capacity m) k"]
    by (auto simp: hmap_find_def hmap_lookup_def Let_def)
qed

text \<open>The interface of a finite map.\<close>

locale lookup_table =
  fixes ok :: "'s \<Rightarrow> bool"
    and lookup :: "'s \<Rightarrow> 'k \<Rightarrow> 'v option"
    and insert_op :: "'k \<Rightarrow> 'v \<Rightarrow> 's \<Rightarrow> 's option"
    and room :: "'s \<Rightarrow> nat"
  assumes insert_ok: "ok s \<Longrightarrow> 0 < room s \<Longrightarrow>
    \<exists>s'. insert_op k v s = Some s' \<and> ok s' \<and> lookup s' = (lookup s)(k \<mapsto> v) \<and> room s = Suc (room s')"
begin

text \<open>Inserting a list of pairs gives the map of the pairs, later ones first.\<close>

lemma insert_all_lookup:
  assumes "ok s" "length es \<le> room s"
  shows "\<exists>s'. foldl (\<lambda>s e. Option.bind s (insert_op (fst e) (snd e))) (Some s) es = Some s' \<and> ok s' \<and>
    lookup s' = lookup s ++ map_of (rev es)"
  using assms
proof (induction es arbitrary: s)
  case (Cons e es)
  have r: "0 < room s" using Cons.prems(2) by simp
  obtain s1 where s1: "insert_op (fst e) (snd e) s = Some s1" "ok s1" "lookup s1 = (lookup s)(fst e \<mapsto> snd e)"
      "room s = Suc (room s1)"
    using insert_ok [OF Cons.prems(1) r, of "fst e" "snd e"] by blast
  obtain s2 where "foldl (\<lambda>s e. Option.bind s (insert_op (fst e) (snd e))) (Some s1) es = Some s2" "ok s2"
      "lookup s2 = lookup s1 ++ map_of (rev es)"
    using Cons.IH [OF s1(2)] Cons.prems(2) s1(4) by auto
  then show ?case using s1 by (simp add: map_add_upd_left)
qed simp

end

lemma hmap_insert_lookup:
  assumes ok: "hmap_ok hash m" and small: "Suc (mp_size m) * (Suc (mp_size m) div 2) \<le> mp_capacity m"
  shows "\<exists>m'. hmap_insert hash beyond k v m = Some m' \<and> hmap_ok hash m' \<and> mp_capacity m' = mp_capacity m \<and>
    mp_size m' = Suc (mp_size m) \<and> hmap_lookup hash m' = (hmap_lookup hash m)(k \<mapsto> v)"
proof -
  let ?i = "hash (mp_capacity m) k"
  let ?m = "m\<lparr>mp_data := (mp_data m)[?i := (k, v) # mp_data m ! ?i], mp_size := Suc (mp_size m)\<rparr>"
  have i: "?i < length (mp_data m)" using ok by (simp add: hmap_ok_def in_range_def)
  have "hmap_insert hash beyond k v m = Some ?m"
    using i small by (simp add: hmap_insert_def hmap_grow_def Let_def)
  moreover have "hmap_lookup hash ?m = (hmap_lookup hash m)(k \<mapsto> v)"
    using i by (auto simp: fun_eq_iff hmap_lookup_def nth_list_update)
  ultimately show ?thesis using ok by (intro exI [of _ ?m]) (simp add: hmap_ok_def)
qed

interpretation hm: lookup_table "\<lambda>m. hmap_ok hash m \<and> mp_capacity m = 10" "hmap_lookup hash"
  "hmap_insert hash beyond" "\<lambda>m. 5 - mp_size m" for hash beyond
proof
  fix s :: "('a, 'b) hmap" and k v
  assume ok: "hmap_ok hash s \<and> mp_capacity s = 10" and room: "0 < 5 - mp_size s"
  then have "Suc (mp_size s) \<in> {1, 2, 3, 4, 5}" by auto
  then have "Suc (mp_size s) * (Suc (mp_size s) div 2) \<le> mp_capacity s" using ok by auto
  from hmap_insert_lookup [OF conjunct1 [OF ok] this, of beyond k v]
  show "\<exists>s'. hmap_insert hash beyond k v s = Some s' \<and> (hmap_ok hash s' \<and> mp_capacity s' = 10) \<and>
      hmap_lookup hash s' = (hmap_lookup hash s)(k \<mapsto> v) \<and> 5 - mp_size s = Suc (5 - mp_size s')"
    using ok room by auto
qed

section \<open>Properties\<close>

text \<open>With a hash that stays inside the ten initial buckets, up to five insertions into a new map make
  \<open>find\<close> return, for every key, the value inserted last under it, and nothing for other keys.\<close>

theorem hmap_find_after_inserts:
  fixes es :: "('k \<times> 'v) list"
  assumes "in_range hash 10" "length es \<le> 5"
  shows "\<exists>m. foldl (\<lambda>m e. Option.bind m (hmap_insert hash beyond (fst e) (snd e))) (Some hmap_new) es = Some m \<and>
    (\<forall>k. map_option opt_value (hmap_find hash k m) = Some (map_of (rev es) k))"
proof -
  let ?new = "hmap_new :: ('k, 'v) hmap"
  have new: "hmap_ok hash ?new" "mp_capacity ?new = 10" "mp_size ?new = 0"
    using assms(1) by (simp_all add: hmap_ok_def hmap_new_def)
  have empty: "hmap_lookup hash ?new = Map.empty"
    using assms(1) by (simp add: fun_eq_iff hmap_lookup_def hmap_new_def in_range_def)
  obtain m where m: "foldl (\<lambda>m e. Option.bind m (hmap_insert hash beyond (fst e) (snd e))) (Some hmap_new) es = Some m"
      "hmap_ok hash m" "hmap_lookup hash m = map_of (rev es)"
    using hm.insert_all_lookup [of hash hmap_new es beyond] new empty assms(2) by auto
  have "map_option opt_value (hmap_find hash k m) = Some (map_of (rev es) k)" for k
    using hmap_find_lookup [OF m(2), of k] m(3) by auto
  then show ?thesis using m(1) by blast
qed

theorem hmap_find_after_inserts_witness:
  "\<exists>m. foldl (\<lambda>m e. Option.bind m (hmap_insert (\<lambda>c k. k mod c) (\<lambda>_. []) (fst e) (snd e))) (Some hmap_new) [(3, True), (13, False)]
      = Some m \<and> map_option opt_value (hmap_find (\<lambda>c k. k mod c) 3 m) = Some (Some True)"
  using hmap_find_after_inserts [of "\<lambda>c k. k mod c" "[(3 :: nat, True), (13, False)]" "\<lambda>_. []"]
  by (force simp: in_range_def simp del: map_option_eq_Some dest: spec [of _ 3])

lemma hash_letter:
  assumes "k \<in> {97, 98, 99, 100, 101, 102}"
  shows "the (hash_str c [k, 0]) = (177573 + unat k) mod c"
proof -
  have "djb2_str [k, 0] 0 5381 = Some (177573 + signed_take_bit 7 (ucast k))"
    using assms by (auto simp: djb2_str.simps [of "[_, _]"] rd_def)
  then show ?thesis using assms by (auto simp: hash_str_def signed_take_bit_def)
qed

text \<open>The sixth insertion makes the table grow without hashing its entries again, and entries inserted
  before can no longer be found: of the strings \<open>a\<close> to \<open>f\<close>, \<open>a\<close> is lost.\<close>

theorem hmap_growth_loses_entry:
  "map_option (\<lambda>m. map_option opt_value (hmap_find (\<lambda>c k. the (hash_str c k)) [97, 0] m))
     (foldl (\<lambda>m k. Option.bind m (hmap_insert (\<lambda>c k. the (hash_str c k)) (\<lambda>_. []) [k, 0] True)) (Some hmap_new)
       [97, 98, 99, 100, 101, 102])
   = Some (Some None)"
  by (simp add: hmap_insert_def hmap_grow_def hmap_find_def hmap_new_def hash_letter Let_def upt_rec_numeral)

text \<open>Integer keys are hashed with \<open>hash & m_capacity\<close>, which can be the capacity itself: inserting the key
  5 into a new map writes past the bucket array.\<close>

theorem hmap_size_key_out_of_bounds:
  "hash_size 10 5 = 10 \<and> hmap_insert hash_size beyond 5 v hmap_new = None"
proof -
  have "hash_size 10 5 = 10" by code_simp
  then show ?thesis by (simp add: hmap_insert_def hmap_new_def)
qed

end
