(* ===== verification/Video.thy ===== *)
theory Video
  imports Pmm Strings
begin

text \<open>
  \<^verbatim>\<open>kernel/video.cpp\<close>: text on a linear frame buffer. The static variables extend the state; a pixel
  is a 32-bit store into memory. The glyphs of \<^verbatim>\<open>font.hpp\<close> are data and come in as a parameter, the byte
  of the table at an index.
\<close>

section \<open>State\<close>

record kscreen = kmem +
  frameBuffer :: u64
  pitch :: u16
  bpp :: u16
  screen_width :: u16
  screen_height :: u16
  cursor_x :: u16
  cursor_y :: u16

definition write32 :: "mem \<Rightarrow> u64 \<Rightarrow> u32 \<Rightarrow> mem" where
  "write32 m a v = m(a := ucast v, a + 1 := ucast (drop_bit 8 v),
     a + 2 := ucast (drop_bit 16 v), a + 3 := ucast (drop_bit 24 v))"

text \<open>\<open>frameBuffer[y * (pitch / 4) + x] = color\<close>.\<close>

definition fb_index :: "nat \<Rightarrow> nat \<Rightarrow> 'a kscreen_scheme \<Rightarrow> nat" where
  "fb_index x y s = y * (unat (pitch s) div 4) + x"

definition store_pixel :: "nat \<Rightarrow> nat \<Rightarrow> u32 \<Rightarrow> 'a kscreen_scheme \<Rightarrow> 'a kscreen_scheme" where
  "store_pixel x y color s = s\<lparr>mem := write32 (mem s) (frameBuffer s + of_nat (4 * fb_index x y s)) color\<rparr>"

section \<open>Operations\<close>

definition put_pixel :: "u16 \<Rightarrow> u16 \<Rightarrow> u32 \<Rightarrow> 'a kscreen_scheme \<Rightarrow> 'a kscreen_scheme" where
  "put_pixel x y color s =
     (if x \<ge> screen_width s \<or> y \<ge> screen_height s then s else store_pixel (unat x) (unat y) color s)"

text \<open>The loops of \<open>rect\<close> move the 16-bit cursor itself.\<close>

primrec rect_row :: "u32 \<Rightarrow> nat \<Rightarrow> 'a kscreen_scheme \<Rightarrow> 'a kscreen_scheme" where
  "rect_row color 0 s = s"
| "rect_row color (Suc w) s =
     (let s = rect_row color w s; s = store_pixel (unat (cursor_x s)) (unat (cursor_y s)) color s
      in s\<lparr>cursor_x := cursor_x s + 1\<rparr>)"

primrec rect_rows :: "u16 \<Rightarrow> u16 \<Rightarrow> u32 \<Rightarrow> nat \<Rightarrow> 'a kscreen_scheme \<Rightarrow> 'a kscreen_scheme" where
  "rect_rows x sizeX color 0 s = s"
| "rect_rows x sizeX color (Suc h) s =
     (let s = rect_row color (unat sizeX) (rect_rows x sizeX color h s)
      in s\<lparr>cursor_x := x, cursor_y := cursor_y s + 1\<rparr>)"

definition rect :: "u16 \<Rightarrow> u16 \<Rightarrow> u16 \<Rightarrow> u16 \<Rightarrow> u32 \<Rightarrow> 'a kscreen_scheme \<Rightarrow> 'a kscreen_scheme" where
  "rect x y sizeX sizeY color s =
     (rect_rows x sizeX color (unat sizeY) (s\<lparr>cursor_x := x, cursor_y := y\<rparr>))\<lparr>cursor_x := 0, cursor_y := 0\<rparr>"

definition clear_screen :: "u32 \<Rightarrow> 'a kscreen_scheme \<Rightarrow> 'a kscreen_scheme" where
  "clear_screen color s = rect 0 0 (screen_width s) (screen_height s) color s"

definition increment_cursor_x :: "u16 \<Rightarrow> 'a kscreen_scheme \<Rightarrow> 'a kscreen_scheme" where
  "increment_cursor_x amount s = (
     let s = s\<lparr>cursor_x := cursor_x s + amount\<rparr>;
         s = (if cursor_x s \<ge> screen_width s then s\<lparr>cursor_x := 0, cursor_y := cursor_y s + 18\<rparr> else s)
     in if cursor_y s \<ge> screen_height s then clear_screen 0x8075FF s else s)"

definition video_init :: "u64 \<Rightarrow> u16 \<Rightarrow> u16 \<Rightarrow> u16 \<Rightarrow> u16 \<Rightarrow> 'a kscreen_scheme \<Rightarrow> 'a kscreen_scheme" where
  "video_init addr ptch bp width height s = clear_screen 0x8075FF
     (s\<lparr>frameBuffer := addr, pitch := ptch, bpp := bp, screen_width := width, screen_height := height\<rparr>)"

definition char_width :: nat where "char_width = 8"
definition char_height :: nat where "char_height = 16"

text \<open>\<open>(size_t)c * 16\<close>: a \<open>char\<close> is signed, and the product wraps.\<close>

definition glyph_offset :: "u8 \<Rightarrow> u64" where
  "glyph_offset c = scast c * 16"

primrec glyph_row :: "(u64 \<Rightarrow> u8) \<Rightarrow> u64 \<Rightarrow> u32 \<Rightarrow> nat \<Rightarrow> nat \<Rightarrow> 'a kscreen_scheme \<Rightarrow> 'a kscreen_scheme" where
  "glyph_row font offset color b 0 s = s"
| "glyph_row font offset color b (Suc j) s =
     (let s = glyph_row font offset color b j s
      in if drop_bit (7 - j) (font (offset + of_nat b)) AND 1 \<noteq> 0
         then store_pixel (j + unat (cursor_x s)) (b + unat (cursor_y s)) color s else s)"

primrec glyph_rows :: "(u64 \<Rightarrow> u8) \<Rightarrow> u64 \<Rightarrow> u32 \<Rightarrow> nat \<Rightarrow> 'a kscreen_scheme \<Rightarrow> 'a kscreen_scheme" where
  "glyph_rows font offset color 0 s = s"
| "glyph_rows font offset color (Suc b) s =
     glyph_row font offset color b char_width (glyph_rows font offset color b s)"

definition print_char :: "(u64 \<Rightarrow> u8) \<Rightarrow> u8 \<Rightarrow> u32 \<Rightarrow> 'a kscreen_scheme \<Rightarrow> 'a kscreen_scheme" where
  "print_char font c color s =
     (if c = 10 then s\<lparr>cursor_y := cursor_y s + 18, cursor_x := 0\<rparr>
      else increment_cursor_x 10 (glyph_rows font (glyph_offset c) color char_height s))"

function print_from :: "(u64 \<Rightarrow> u8) \<Rightarrow> cbuf \<Rightarrow> nat \<Rightarrow> 'a kscreen_scheme \<Rightarrow> 'a kscreen_scheme option" where
  "print_from font msg i s = (case rd msg i of None \<Rightarrow> None
     | Some c \<Rightarrow> if c = 0 then Some s else print_from font msg (i + 1) (print_char font c 0xffffff s))"
  by pat_completeness auto
termination
  by (relation "measure (\<lambda>(font, msg, i, s). length msg - i)") (auto simp: rd_def split: if_splits)

declare print_from.simps [simp del]

definition print_str :: "(u64 \<Rightarrow> u8) \<Rightarrow> cbuf \<Rightarrow> 'a kscreen_scheme \<Rightarrow> 'a kscreen_scheme option" where
  "print_str font msg s = print_from font msg 0 s"

text \<open>\<open>panic\<close> of \<^verbatim>\<open>kernel/utils.cpp\<close>: what is on the screen when it halts the core for good.\<close>

definition panic :: "(u64 \<Rightarrow> u8) \<Rightarrow> cbuf \<Rightarrow> 'a kscreen_scheme \<Rightarrow> 'a kscreen_scheme option" where
  "panic font msg s = do {
     s \<leftarrow> print_str font (cstr ''Kernel panic: '') s;
     s \<leftarrow> print_str font msg s;
     print_str font [10, 0] s
   }"

text \<open>The overloads for numbers print what \<open>itoa\<close> leaves in its buffer.\<close>

definition print_num :: "(u64 \<Rightarrow> u8) \<Rightarrow> u64 \<Rightarrow> u64 \<Rightarrow> cbuf \<times> 'a kscreen_scheme \<Rightarrow> (cbuf \<times> 'a kscreen_scheme) option" where
  "print_num font num base bs = do {
     (msg, charBuffer) \<leftarrow> itoa num base (fst bs);
     s \<leftarrow> print_str font msg (snd bs);
     Some (charBuffer, s)
   }"

section \<open>Which bytes are painted\<close>

text \<open>The pixels with indices in \<open>I\<close> have the colour, every other byte is as before.\<close>

definition pixel_byte :: "u64 \<Rightarrow> nat \<Rightarrow> nat \<Rightarrow> u64" where
  "pixel_byte fb i k = fb + of_nat (4 * i + k)"

definition painted :: "u64 \<Rightarrow> nat set \<Rightarrow> u32 \<Rightarrow> mem \<Rightarrow> mem \<Rightarrow> bool" where
  "painted fb I color m m' \<longleftrightarrow>
     (\<forall>i \<in> I. \<forall>k < 4. m' (pixel_byte fb i k) = ucast (drop_bit (8 * k) color)) \<and>
     (\<forall>a. (\<forall>i \<in> I. \<forall>k < 4. a \<noteq> pixel_byte fb i k) \<longrightarrow> m' a = m a)"

lemma painted_empty [simp]: "painted fb {} color m m' \<longleftrightarrow> m' = m"
  by (auto simp: painted_def)

lemma less_4: "k < (4 :: nat) \<longleftrightarrow> k = 0 \<or> k = 1 \<or> k = 2 \<or> k = 3"
  by auto

lemma pixel_byte_inj:
  assumes "pixel_byte fb i k = pixel_byte fb j l" "i < 2 ^ 40" "j < 2 ^ 40" "k < 4" "l < 4"
  shows "i = j \<and> k = l"
proof -
  have "(of_nat (4 * i + k) :: u64) = of_nat (4 * j + l)" using assms(1) by (simp only: pixel_byte_def add_left_cancel)
  then have "unat (of_nat (4 * i + k) :: u64) = unat (of_nat (4 * j + l) :: u64)" by (simp only:)
  moreover have "4 * i + k < 2 ^ 64" "4 * j + l < 2 ^ 64" using assms(2-5) by simp_all
  ultimately have "4 * i + k = 4 * j + l" by (simp only: unat_of_nat64)
  then show ?thesis using assms(4,5) by presburger
qed

lemma write32_bytes:
  "write32 m (fb + of_nat (4 * j)) color =
     m(pixel_byte fb j 0 := ucast (drop_bit 0 color), pixel_byte fb j 1 := ucast (drop_bit 8 color),
       pixel_byte fb j 2 := ucast (drop_bit 16 color), pixel_byte fb j 3 := ucast (drop_bit 24 color))"
  by (simp add: write32_def pixel_byte_def ac_simps)

lemma write32_pixel:
  assumes "j < 2 ^ 40"
  shows "k < 4 \<Longrightarrow> write32 m (fb + of_nat (4 * j)) color (pixel_byte fb j k) = ucast (drop_bit (8 * k) color)"
    and "(\<And>k. k < 4 \<Longrightarrow> a \<noteq> pixel_byte fb j k) \<Longrightarrow> write32 m (fb + of_nat (4 * j)) color a = m a"
proof -
  have ne: "pixel_byte fb j k \<noteq> pixel_byte fb j l" if "k < 4" "l < 4" "k \<noteq> l" for k l
    using pixel_byte_inj [of fb j k j l] assms that by blast
  show "write32 m (fb + of_nat (4 * j)) color (pixel_byte fb j k) = ucast (drop_bit (8 * k) color)" if "k < 4"
    using that unfolding write32_bytes less_4 by (elim disjE) (simp_all add: ne)
  show "write32 m (fb + of_nat (4 * j)) color a = m a" if "\<And>k. k < 4 \<Longrightarrow> a \<noteq> pixel_byte fb j k"
    using that [of 0] that [of 1] that [of 2] that [of 3] unfolding write32_bytes by simp
qed

lemma painted_store:
  assumes "painted fb I color m m'" "\<forall>i \<in> insert j I. i < 2 ^ 40"
  shows "painted fb (insert j I) color m (write32 m' (fb + of_nat (4 * j)) color)"
proof -
  let ?w = "write32 m' (fb + of_nat (4 * j)) color"
  have j: "j < 2 ^ 40" using assms(2) by simp
  have "?w (pixel_byte fb i k) = ucast (drop_bit (8 * k) color)" if "i \<in> insert j I" "k < 4" for i k
  proof (cases "i = j")
    case True then show ?thesis using write32_pixel(1) [OF j that(2)] by simp
  next
    case False
    then have "pixel_byte fb i k \<noteq> pixel_byte fb j l" if "l < 4" for l
      using pixel_byte_inj [of fb i k j l] assms(2) \<open>i \<in> insert j I\<close> \<open>k < 4\<close> that by blast
    then have "?w (pixel_byte fb i k) = m' (pixel_byte fb i k)" by (rule write32_pixel(2) [OF j])
    then show ?thesis using assms(1) that False by (simp add: painted_def)
  qed
  moreover have "?w a = m a" if "\<forall>i \<in> insert j I. \<forall>k < 4. a \<noteq> pixel_byte fb i k" for a
    using that write32_pixel(2) [OF j, of a fb m' color] assms(1) by (simp add: painted_def)
  ultimately show ?thesis by (simp add: painted_def)
qed

lemma painted_trans:
  assumes "painted fb I color m m'" "painted fb J color m' m''" "\<forall>i \<in> I \<union> J. i < 2 ^ 40"
  shows "painted fb (I \<union> J) color m m''"
proof -
  have "m'' (pixel_byte fb i k) = ucast (drop_bit (8 * k) color)" if "i \<in> I \<union> J" "k < 4" for i k
  proof (cases "i \<in> J")
    case True then show ?thesis using assms(2) that(2) by (simp add: painted_def)
  next
    case False
    then have "pixel_byte fb i k \<noteq> pixel_byte fb j l" if "j \<in> J" "l < 4" for j l
      using pixel_byte_inj [of fb i k j l] assms(3) \<open>i \<in> I \<union> J\<close> \<open>k < 4\<close> that by blast
    then have "m'' (pixel_byte fb i k) = m' (pixel_byte fb i k)" using assms(2) by (simp add: painted_def)
    then show ?thesis using assms(1) that False by (simp add: painted_def)
  qed
  moreover have "m'' a = m a" if "\<forall>i \<in> I \<union> J. \<forall>k < 4. a \<noteq> pixel_byte fb i k" for a
    using assms(1,2) that by (simp add: painted_def)
  ultimately show ?thesis by (simp add: painted_def)
qed

section \<open>Clearing the screen\<close>

lemma fb_index_small: "x < 2 ^ 17 \<Longrightarrow> y < 2 ^ 17 \<Longrightarrow> fb_index x y s < 2 ^ 40"
proof -
  assume xy: "x < 2 ^ 17" "y < 2 ^ 17"
  have "unat (pitch s) < 2 ^ 16" using unsigned_less [of "pitch s"] by simp
  then have "y * (unat (pitch s) div 4) \<le> 2 ^ 17 * 2 ^ 14" using xy by (intro mult_mono) auto
  then show ?thesis using xy by (simp add: fb_index_def)
qed

lemma unat_u16: "unat (a :: u16) < 2 ^ 16"
  using unsigned_less [of a] by simp

lemma u16_Suc: "unat (a :: u16) + n < 2 ^ 16 \<Longrightarrow> unat (a + of_nat n) = unat a + n"
  by (simp add: unat_word_ariths unsigned_of_nat take_bit_nat_def)

lemma rect_row_paints:
  assumes "unat (cursor_x s) + n < 2 ^ 16"
  shows "\<exists>m. rect_row color n s = s\<lparr>mem := m, cursor_x := cursor_x s + of_nat n\<rparr> \<and>
    painted (frameBuffer s) {fb_index (unat (cursor_x s) + w) (unat (cursor_y s)) s | w. w < n} color (mem s) m"
  using assms
proof (induction n)
  case 0
  then show ?case by (intro exI [of _ "mem s"]) simp
next
  case (Suc n)
  let ?I = "\<lambda>n. {fb_index (unat (cursor_x s) + w) (unat (cursor_y s)) s | w. w < n}"
  obtain m where m: "rect_row color n s = s\<lparr>mem := m, cursor_x := cursor_x s + of_nat n\<rparr>"
    "painted (frameBuffer s) (?I n) color (mem s) m" using Suc by auto
  let ?j = "fb_index (unat (cursor_x s) + n) (unat (cursor_y s)) s"
  have y: "unat (cursor_y s) < 2 ^ 17" using unat_u16 [of "cursor_y s"] by simp
  have I: "?I (Suc n) = insert ?j (?I n)" by (auto simp: less_Suc_eq)
  have small: "\<forall>i \<in> insert ?j (?I n). i < 2 ^ 40" using y Suc.prems by (auto intro!: fb_index_small [simplified])
  have idx: "fb_index a b (s\<lparr>mem := m, cursor_x := c\<rparr>) = fb_index a b s" for a b c by (simp add: fb_index_def)
  have "unat (cursor_x s + of_nat n) = unat (cursor_x s) + n" using Suc.prems by (intro u16_Suc) simp
  then have "rect_row color (Suc n) s = s\<lparr>mem := write32 m (frameBuffer s + of_nat (4 * ?j)) color,
      cursor_x := cursor_x s + of_nat (Suc n)\<rparr>"
    using m(1) by (simp add: Let_def store_pixel_def idx add.assoc)
  then show ?case using painted_store [OF m(2) small] I by auto
qed

lemma rect_rows_paints:
  assumes "cursor_x s = x" "unat x + unat sizeX < 2 ^ 16" "unat (cursor_y s) + n < 2 ^ 16"
  shows "\<exists>m. rect_rows x sizeX color n s = s\<lparr>mem := m, cursor_y := cursor_y s + of_nat n\<rparr> \<and>
    painted (frameBuffer s) {fb_index (unat x + w) (unat (cursor_y s) + h) s | w h. w < unat sizeX \<and> h < n} color (mem s) m"
  using assms(3)
proof (induction n)
  case 0
  then show ?case by (intro exI [of _ "mem s"]) simp
next
  case (Suc n)
  let ?I = "\<lambda>n. {fb_index (unat x + w) (unat (cursor_y s) + h) s | w h. w < unat sizeX \<and> h < n}"
  obtain m where m: "rect_rows x sizeX color n s = s\<lparr>mem := m, cursor_y := cursor_y s + of_nat n\<rparr>"
    "painted (frameBuffer s) (?I n) color (mem s) m" using Suc by auto
  let ?s = "s\<lparr>mem := m, cursor_y := cursor_y s + of_nat n\<rparr>"
  have y: "unat (cursor_y s + of_nat n) = unat (cursor_y s) + n" using Suc.prems by (intro u16_Suc) simp
  let ?J = "{fb_index (unat x + w) (unat (cursor_y s) + n) s | w. w < unat sizeX}"
  have idx: "fb_index a b ?s = fb_index a b s" for a b by (simp add: fb_index_def)
  obtain m' where m': "rect_row color (unat sizeX) ?s = ?s\<lparr>mem := m', cursor_x := x + sizeX\<rparr>"
    "painted (frameBuffer s) ?J color m m'"
    using rect_row_paints [of ?s "unat sizeX" color] assms(1,2) y by (auto simp: idx)
  have I: "?I (Suc n) = ?I n \<union> ?J" by (auto simp: less_Suc_eq)
  have small: "\<forall>i \<in> ?I n \<union> ?J. i < 2 ^ 40" using assms(2) Suc.prems by (auto intro!: fb_index_small [simplified])
  have "rect_rows x sizeX color (Suc n) s = s\<lparr>mem := m', cursor_y := cursor_y s + of_nat (Suc n)\<rparr>"
    using m(1) m'(1) assms(1) by (cases s) (simp add: Let_def add.assoc)
  then show ?case using painted_trans [OF m(2) m'(2) small] I by auto
qed

lemma clear_paints:
  obtains m where "clear_screen color s = s\<lparr>mem := m, cursor_x := 0, cursor_y := 0\<rparr>"
    "painted (frameBuffer s) {fb_index w h s | w h. w < unat (screen_width s) \<and> h < unat (screen_height s)} color (mem s) m"
proof -
  let ?s = "s\<lparr>cursor_x := 0, cursor_y := 0\<rparr>"
  have b: "unat (screen_width s) < 2 ^ 16" "unat (screen_height s) < 2 ^ 16"
    by (rule unat_u16)+
  have idx: "fb_index a b ?s = fb_index a b s" for a b by (simp add: fb_index_def)
  obtain m where "rect_rows 0 (screen_width s) color (unat (screen_height s)) ?s = ?s\<lparr>mem := m, cursor_y := screen_height s\<rparr>"
    "painted (frameBuffer s) {fb_index w h s | w h. w < unat (screen_width s) \<and> h < unat (screen_height s)} color (mem s) m"
    using rect_rows_paints [of ?s 0 "screen_width s" "unat (screen_height s)" color] b by (auto simp: idx)
  then show ?thesis by (intro that [of m]) (simp_all add: clear_screen_def rect_def)
qed

text \<open>\<open>clear_screen\<close> paints every pixel of the screen in the given colour, changes no other byte of memory,
  and moves the cursor home.\<close>

theorem clear_screen_paints:
  "\<exists>m. clear_screen color s = s\<lparr>mem := m, cursor_x := 0, cursor_y := 0\<rparr> \<and>
    painted (frameBuffer s) {fb_index w h s | w h. w < unat (screen_width s) \<and> h < unat (screen_height s)} color (mem s) m"
  using clear_paints [of color s] by blast

section \<open>Printing characters\<close>

definition glyph_bit :: "(u64 \<Rightarrow> u8) \<Rightarrow> u8 \<Rightarrow> nat \<Rightarrow> nat \<Rightarrow> bool" where
  "glyph_bit font c b j \<longleftrightarrow> bit (font (glyph_offset c + of_nat b)) (7 - j)"

lemma glyph_test: "drop_bit n (x :: u8) AND 1 \<noteq> 0 \<longleftrightarrow> bit x n"
  by (simp add: and_one_eq bit_iff_odd_drop_bit odd_iff_mod_2_eq_one)

text \<open>The pixels of a glyph at the cursor.\<close>

definition glyph_pixels :: "(u64 \<Rightarrow> u8) \<Rightarrow> u8 \<Rightarrow> nat \<Rightarrow> 'a kscreen_scheme \<Rightarrow> nat set" where
  "glyph_pixels font c rows s =
     {fb_index (j + unat (cursor_x s)) (b + unat (cursor_y s)) s | b j. b < rows \<and> j < 8 \<and> glyph_bit font c b j}"

lemma glyph_row_paints:
  assumes "b < 16" "n \<le> 8"
  shows "\<exists>m. glyph_row font (glyph_offset c) color b n s = s\<lparr>mem := m\<rparr> \<and>
    painted (frameBuffer s) {fb_index (j + unat (cursor_x s)) (b + unat (cursor_y s)) s | j. j < n \<and> glyph_bit font c b j}
      color (mem s) m"
  using assms(2)
proof (induction n)
  case 0
  then show ?case by (intro exI [of _ "mem s"]) simp
next
  case (Suc n)
  let ?I = "\<lambda>n. {fb_index (j + unat (cursor_x s)) (b + unat (cursor_y s)) s | j. j < n \<and> glyph_bit font c b j}"
  obtain m where m: "glyph_row font (glyph_offset c) color b n s = s\<lparr>mem := m\<rparr>"
    "painted (frameBuffer s) (?I n) color (mem s) m" using Suc by auto
  let ?j = "fb_index (n + unat (cursor_x s)) (b + unat (cursor_y s)) s"
  have idx: "fb_index a b (s\<lparr>mem := m\<rparr>) = fb_index a b s" for a b by (simp add: fb_index_def)
  show ?case
  proof (cases "glyph_bit font c b n")
    case True
    have I: "?I (Suc n) = insert ?j (?I n)" using True by (auto simp: less_Suc_eq)
    have small: "\<forall>i \<in> insert ?j (?I n). i < 2 ^ 40"
      using assms(1) Suc.prems unat_u16 [of "cursor_x s"] unat_u16 [of "cursor_y s"] by (auto intro!: fb_index_small [simplified])
    show ?thesis using True m painted_store [OF m(2) small] I
      by (auto simp: Let_def glyph_test glyph_bit_def store_pixel_def idx)
  next
    case False
    have "?I (Suc n) = ?I n" using False by (auto simp: less_Suc_eq)
    then show ?thesis using False m by (auto simp: Let_def glyph_test glyph_bit_def)
  qed
qed

lemma glyph_rows_paints:
  assumes "n \<le> 16"
  shows "\<exists>m. glyph_rows font (glyph_offset c) color n s = s\<lparr>mem := m\<rparr> \<and>
    painted (frameBuffer s) (glyph_pixels font c n s) color (mem s) m"
  using assms
proof (induction n)
  case 0
  then show ?case by (intro exI [of _ "mem s"]) (simp add: glyph_pixels_def)
next
  case (Suc n)
  obtain m where m: "glyph_rows font (glyph_offset c) color n s = s\<lparr>mem := m\<rparr>"
    "painted (frameBuffer s) (glyph_pixels font c n s) color (mem s) m" using Suc by auto
  let ?J = "{fb_index (j + unat (cursor_x s)) (n + unat (cursor_y s)) s | j. j < 8 \<and> glyph_bit font c n j}"
  have idx: "fb_index a b (s\<lparr>mem := m\<rparr>) = fb_index a b s" for a b by (simp add: fb_index_def)
  obtain m' where m': "glyph_row font (glyph_offset c) color n 8 (s\<lparr>mem := m\<rparr>) = s\<lparr>mem := m'\<rparr>"
    "painted (frameBuffer s) ?J color m m'"
    using glyph_row_paints [of n 8 font c color "s\<lparr>mem := m\<rparr>"] Suc.prems by (auto simp: idx)
  have I: "glyph_pixels font c (Suc n) s = glyph_pixels font c n s \<union> ?J" by (auto simp: glyph_pixels_def less_Suc_eq)
  have small: "\<forall>i \<in> glyph_pixels font c n s \<union> ?J. i < 2 ^ 40"
    using Suc.prems unat_u16 [of "cursor_x s"] unat_u16 [of "cursor_y s"]
    by (auto simp: glyph_pixels_def intro!: fb_index_small [simplified])
  show ?case using m m' painted_trans [OF m(2) m'(2) small] I by (auto simp: char_width_def)
qed

text \<open>A character that is not a newline and not the last one of its line paints exactly the pixels its glyph has
  bits for, at the cursor, and moves the cursor ten pixels to the right.\<close>

theorem print_char_paints:
  assumes "c \<noteq> 10" "unat (cursor_x s) + 10 < unat (screen_width s)" "cursor_y s < screen_height s"
  shows "\<exists>m. print_char font c color s = s\<lparr>mem := m, cursor_x := cursor_x s + 10\<rparr> \<and>
    painted (frameBuffer s) (glyph_pixels font c 16 s) color (mem s) m"
proof -
  obtain m where m: "glyph_rows font (glyph_offset c) color 16 s = s\<lparr>mem := m\<rparr>"
    "painted (frameBuffer s) (glyph_pixels font c 16 s) color (mem s) m"
    using glyph_rows_paints [of 16 font c color s] by auto
  have "unat (cursor_x s + of_nat 10) = unat (cursor_x s) + 10"
    using assms(2) unat_u16 [of "screen_width s"] by (intro u16_Suc) simp
  then have "cursor_x s + 10 < screen_width s" using assms(2) by (simp add: word_less_nat_alt)
  then show ?thesis using m assms by (auto simp: print_char_def char_height_def increment_cursor_x_def Let_def)
qed

definition screen_sample :: kscreen where
  "screen_sample = \<lparr>mem = (\<lambda>_. 0), bitmap = 0, bitmapSize = 0, lastUsablePage = 0, pmm_lock = 0, frameBuffer = 0x100000,
     pitch = 320, bpp = 32, screen_width = 80, screen_height = 36, cursor_x = 0, cursor_y = 0\<rparr>"

theorem print_char_paints_witness:
  "cursor_x (print_char (\<lambda>_. 0xFF) 65 0xffffff screen_sample) = 10"
  using print_char_paints [where c = 65 and s = screen_sample and font = "\<lambda>_. 0xFF" and color = "0xffffff"] by (auto simp: screen_sample_def)

text \<open>A newline at the bottom of the screen does not start over: the next character is painted below the last line.\<close>

lemma newline_leaves_screen:
  assumes "c \<noteq> 10" "unat (cursor_y s) + 18 = unat (screen_height s)" "unat (screen_width s) \<le> unat (pitch s) div 4" "glyph_bit font c 0 0"
  shows "\<exists>m. painted (frameBuffer s) (glyph_pixels font c 16 (print_char font 10 color s)) color (mem s) m \<and>
    unat (screen_height s) * (unat (pitch s) div 4) \<in> glyph_pixels font c 16 (print_char font 10 color s) \<and>
    glyph_rows font (glyph_offset c) color 16 (print_char font 10 color s) = (print_char font 10 color s)\<lparr>mem := m\<rparr>"
proof -
  let ?s = "print_char font 10 color s"
  have s: "?s = s\<lparr>cursor_y := cursor_y s + 18, cursor_x := 0\<rparr>" by (simp add: print_char_def)
  have "unat (cursor_y s + of_nat 18) = unat (cursor_y s) + 18"
    using assms(2) unat_u16 [of "screen_height s"] by (intro u16_Suc) simp
  then have "unat (screen_height s) * (unat (pitch s) div 4) \<in> glyph_pixels font c 16 ?s"
    using assms(2,4) unfolding s glyph_pixels_def by (intro CollectI exI [of _ 0]) (simp add: fb_index_def)
  moreover obtain m where "glyph_rows font (glyph_offset c) color 16 ?s = ?s\<lparr>mem := m\<rparr>"
    "painted (frameBuffer ?s) (glyph_pixels font c 16 ?s) color (mem ?s) m"
    using glyph_rows_paints [of 16 font c color ?s] by auto
  ultimately show ?thesis using s by (intro exI [of _ m]) simp
qed

end
