(* ===== verification/Tmpfs.thy ===== *)
theory Tmpfs
  imports Video
begin

text \<open>
  \<^verbatim>\<open>kernel/fs/tmpfs.cpp\<close> and the node types of \<^verbatim>\<open>kernel/fs/vfs.hpp\<close>. A \<open>tmpfs_node\<close> and the \<open>fs_node\<close> it
  owns are one record, found under the number that stands for its address; the chain of \<open>next\<close> pointers
  is the list of children. File names are kept as the strings they were when the node was made. File
  contents lie in pages of physical memory. The outer \<open>None\<close> is a call that never returns, \<open>Some None\<close>
  a null pointer.
\<close>

section \<open>Types\<close>

datatype FileType = File | Directory | Symlink | Device

definition CREATE :: u16 where "CREATE = 0x1"
definition WRITE :: u16 where "WRITE = 0x2"
definition READ :: u16 where "READ = 0x4"

text \<open>The two subclasses of \<open>filesystem\<close>, and a pointer to an \<open>fs_node\<close> that one of them made.\<close>

datatype filesystem = tmpfs | devfs

datatype fs_ref = Tmp_node nat | Dev_node nat

record tmpfs_node =
  t_name :: cbuf
  t_size :: u64
  t_permissions :: u8
  t_type :: FileType
  t_fs :: "filesystem option"
  t_data :: u64
  t_parent :: "nat option"
  t_children :: "nat list"

record ktmpfs = kscreen +
  tmp_filesystem :: "filesystem option"
  t_nodes :: "nat \<Rightarrow> tmpfs_node option"
  root_tmpfs_node :: nat
  t_fresh :: nat

record file_description =
  fd_file :: fs_ref
  fd_mode :: u16
  fd_offset :: u64

definition new_fs_node :: "cbuf \<Rightarrow> u64 \<Rightarrow> u8 \<Rightarrow> FileType \<Rightarrow> nat option \<Rightarrow> filesystem option \<Rightarrow> tmpfs_node" where
  "new_fs_node name sz permi ft parent fs =
     \<lparr>t_name = name, t_size = sz, t_permissions = permi, t_type = ft, t_fs = fs, t_data = 0, t_parent = parent, t_children = []\<rparr>"

definition SLASH :: u8 where "SLASH = 47"
definition DOT :: u8 where "DOT = 46"

section \<open>Paths\<close>

function last_slash :: "cbuf \<Rightarrow> nat \<Rightarrow> int \<Rightarrow> int option" where
  "last_slash path i lastSlash = (case rd path i of None \<Rightarrow> None
     | Some c \<Rightarrow> if c = 0 then Some lastSlash
        else if c = SLASH then (case rd path (i + 1) of None \<Rightarrow> None
          | Some c' \<Rightarrow> last_slash path (i + 1) (if c' \<noteq> 0 then int i else lastSlash))
        else last_slash path (i + 1) lastSlash)"
  by pat_completeness auto
termination
  by (relation "measure (\<lambda>(path, i, l). length path - i)") (auto simp: rd_def split: if_splits)

declare last_slash.simps [simp del]

definition get_name_from_path :: "cbuf \<Rightarrow> cbuf option" where
  "get_name_from_path path = map_option (\<lambda>l. drop (nat (l + 1)) path) (last_slash path 0 (-1))"

text \<open>The loops of \<open>path_to_node\<close>: leading dots, then names, then the check of what is left.\<close>

function relative_dots :: "(nat \<Rightarrow> tmpfs_node option) \<Rightarrow> nat option \<Rightarrow> cbuf \<Rightarrow> (nat \<times> cbuf) option option" where
  "relative_dots nodes node path =
     (case rd path 0 of None \<Rightarrow> None
      | Some c \<Rightarrow>
        if c = DOT \<and> node \<noteq> None then
          (case rd path 1 of None \<Rightarrow> None
           | Some c1 \<Rightarrow>
             if c1 = DOT then
               (case rd path 2 of None \<Rightarrow> None
                | Some c2 \<Rightarrow> if c2 \<noteq> SLASH then Some None
                    else (case nodes (the node) of None \<Rightarrow> None
                          | Some n \<Rightarrow> relative_dots nodes (t_parent n) (drop 3 path)))
             else if c1 \<noteq> SLASH then Some None
             else relative_dots nodes node (drop 2 path))
        else Some (map_option (\<lambda>n. (n, path)) node))"
  by pat_completeness auto
termination
  by (relation "measure (\<lambda>(nodes, node, path). length path)") (auto simp: rd_def split: if_splits)

declare relative_dots.simps [simp del]

function count_slashes :: "cbuf \<Rightarrow> nat \<Rightarrow> nat \<Rightarrow> bool option" where
  "count_slashes path i count = (case rd path i of None \<Rightarrow> None
     | Some c \<Rightarrow> if c = 0 then Some True
        else if c = SLASH then (case rd path (i + 1) of None \<Rightarrow> None
          | Some c' \<Rightarrow> if c' \<noteq> 0 then (if count + 1 > 1 then Some False else count_slashes path (i + 1) (count + 1))
              else count_slashes path (i + 1) count)
        else count_slashes path (i + 1) count)"
  by pat_completeness auto
termination
  by (relation "measure (\<lambda>(path, i, l). length path - i)") (auto simp: rd_def split: if_splits)

declare count_slashes.simps [simp del]

definition not_found :: "nat \<Rightarrow> cbuf \<Rightarrow> nat option option" where
  "not_found node path = map_option (\<lambda>ok. if ok then Some node else None) (count_slashes path 0 0)"

function walk_names :: "(nat \<Rightarrow> tmpfs_node option) \<Rightarrow> nat \<Rightarrow> nat list \<Rightarrow> cbuf \<Rightarrow> nat option option" where
  "walk_names nodes node [] path = not_found node path"
| "walk_names nodes node (head # hs) path =
     (case (rd path 0, nodes head) of
        (Some c0, Some h) \<Rightarrow>
          if c0 = 0 then not_found node path
          else (case strlen (t_name h) of None \<Rightarrow> None
            | Some l \<Rightarrow>
              (case strncmp (t_name h) path l of None \<Rightarrow> None
               | Some True \<Rightarrow>
                   (case rd path l of None \<Rightarrow> None
                    | Some c \<Rightarrow> if c \<noteq> SLASH \<and> c \<noteq> 0 then walk_names nodes node hs path
                        else if c = 0 then Some (Some head)
                        else walk_names nodes head (t_children h) (drop (l + 1) path))
               | Some False \<Rightarrow> walk_names nodes node hs path))
      | _ \<Rightarrow> None)"
  by pat_completeness auto
termination
proof (relation "measures [\<lambda>(nodes, node, heads, path). length path, \<lambda>(nodes, node, heads, path). length heads]")
qed (auto simp: rd_def split: if_splits)

text \<open>\<open>path == "/"\<close> compares addresses: it is true when the caller passes that very literal, \<open>same\<close>.\<close>

definition path_to_node :: "bool \<Rightarrow> cbuf \<Rightarrow> nat option \<Rightarrow> 'a ktmpfs_scheme \<Rightarrow> nat option option" where
  "path_to_node same path curr_dir s = do {
     c \<leftarrow> rd path 0;
     root \<leftarrow> t_nodes s (root_tmpfs_node s);
     if same then Some (Some (root_tmpfs_node s))
     else if c \<noteq> SLASH then
       (if curr_dir = None then Some None
        else do {
          r \<leftarrow> relative_dots (t_nodes s) curr_dir path;
          case r of None \<Rightarrow> Some None
          | Some (n, path) \<Rightarrow> do {
              node \<leftarrow> t_nodes s n;
              walk_names (t_nodes s) n (t_children node) path
            }
        })
     else walk_names (t_nodes s) (root_tmpfs_node s) (t_children root) (drop 1 path)
   }"

section \<open>Operations\<close>

text \<open>The constructor runs before \<open>tmp_filesystem\<close> is assigned: the root node keeps its old value.\<close>

definition tmpfs_new :: "'a ktmpfs_scheme \<Rightarrow> 'a ktmpfs_scheme" where
  "tmpfs_new s = s\<lparr>t_nodes := (t_nodes s)(t_fresh s \<mapsto> new_fs_node [SLASH, 0] 0 0 Directory None (tmp_filesystem s)),
     root_tmpfs_node := t_fresh s, t_fresh := Suc (t_fresh s)\<rparr>"

text \<open>Making a node and putting it first among the children of its parent.\<close>

definition add_child :: "nat \<Rightarrow> tmpfs_node \<Rightarrow> tmpfs_node \<Rightarrow> 'a ktmpfs_scheme \<Rightarrow> 'a ktmpfs_scheme" where
  "add_child p parent new s =
     s\<lparr>t_nodes := (t_nodes s)(t_fresh s \<mapsto> new,
         p \<mapsto> parent\<lparr>t_children := t_fresh s # t_children parent\<rparr>),
       t_fresh := Suc (t_fresh s)\<rparr>"

definition tmpfs_open ::
  "nat option \<Rightarrow> bool \<Rightarrow> cbuf \<Rightarrow> u16 \<Rightarrow> 'a ktmpfs_scheme \<Rightarrow> (file_description option \<times> 'a ktmpfs_scheme) option" where
  "tmpfs_open working_dir same path mode s = do {
     r \<leftarrow> path_to_node same path working_dir s;
     case r of None \<Rightarrow> Some (None, s)
     | Some n \<Rightarrow> do {
         node \<leftarrow> t_nodes s n;
         name \<leftarrow> get_name_from_path path;
         eq \<leftarrow> strcmp name (t_name node);
         if mode AND CREATE \<noteq> 0 then
           (if eq \<or> t_type node \<noteq> Directory then Some (None, s)
            else do {
              (page, s) \<leftarrow> pmm_alloc 1 s;
              let new = (new_fs_node name 4096 0 File (Some n) (tmp_filesystem s))\<lparr>t_data := page + PHYSICAL_BASE_ADDRESS\<rparr>;
              let fd = \<lparr>fd_file = Tmp_node (t_fresh s), fd_mode = mode, fd_offset = 0\<rparr>;
              Some (Some fd, add_child n node new s)
            })
         else if \<not> eq \<or> t_type node \<noteq> File then Some (None, s)
         else Some (Some \<lparr>fd_file = Tmp_node n, fd_mode = mode, fd_offset = 0\<rparr>, s)
       }
   }"

definition pages_for :: "u64 \<Rightarrow> u64" where
  "pages_for n = (n + 4096 - 1) div 4096"

definition tmpfs_resize :: "nat \<Rightarrow> u64 \<Rightarrow> bool \<Rightarrow> 'a ktmpfs_scheme \<Rightarrow> (bool \<times> 'a ktmpfs_scheme) option" where
  "tmpfs_resize n new_size grow s = do {
     node \<leftarrow> t_nodes s n;
     let pages = pages_for new_size;
     (a, s) \<leftarrow> pmm_alloc (unat pages) s;
     let new_data = a + PHYSICAL_BASE_ADDRESS;
     if new_data = 0 then Some (False, s)
     else do {
       let sz = (if grow then t_size node else pages * 4096);
       let s = s\<lparr>mem := memcpy (mem s) new_data (t_data node) (unat sz)\<rparr>;
       s \<leftarrow> pmm_free (t_data node - PHYSICAL_BASE_ADDRESS) (unat (pages_for (t_size node))) s;
       Some (True, s\<lparr>t_nodes := (t_nodes s)(n \<mapsto> node\<lparr>t_data := new_data\<rparr>)\<rparr>)
     }
   }"

definition tmpfs_read :: "nat \<Rightarrow> u64 \<Rightarrow> u64 \<Rightarrow> u64 \<Rightarrow> 'a ktmpfs_scheme \<Rightarrow> (int \<times> 'a ktmpfs_scheme) option" where
  "tmpfs_read n offset len buffer s = do {
     node \<leftarrow> t_nodes s n;
     if offset + len > t_size node then Some (-1, s)
     else Some (0, s\<lparr>mem := memcpy (mem s) buffer (t_data node + offset) (unat len)\<rparr>)
   }"

definition tmpfs_write :: "nat \<Rightarrow> u64 \<Rightarrow> u64 \<Rightarrow> u64 \<Rightarrow> 'a ktmpfs_scheme \<Rightarrow> (int \<times> 'a ktmpfs_scheme) option" where
  "tmpfs_write n offset len buffer s = do {
     node \<leftarrow> t_nodes s n;
     (ok, s) \<leftarrow> (if offset + len > t_size node then tmpfs_resize n (offset + len) True s else Some (True, s));
     if \<not> ok then Some (-1, s)
     else do {
       node \<leftarrow> t_nodes s n;
       Some (0, s\<lparr>mem := memcpy (mem s) (t_data node + offset) buffer (unat len)\<rparr>)
     }
   }"

definition tmpfs_mkdir :: "nat option \<Rightarrow> bool \<Rightarrow> cbuf \<Rightarrow> 'a ktmpfs_scheme \<Rightarrow> (int \<times> 'a ktmpfs_scheme) option" where
  "tmpfs_mkdir working_dir same path s = do {
     r \<leftarrow> path_to_node same path working_dir s;
     case r of None \<Rightarrow> Some (-1, s)
     | Some p \<Rightarrow> do {
         parent \<leftarrow> t_nodes s p;
         name \<leftarrow> get_name_from_path path;
         eq \<leftarrow> strcmp name (t_name parent);
         if eq then Some (-1, s)
         else Some (0, add_child p parent (new_fs_node name 0 0 Directory (Some p) (tmp_filesystem s)) s)
       }
   }"

end
