(* ===== verification/Vfs.thy ===== *)
theory Vfs
  imports Tmpfs
begin

text \<open>
  \<^verbatim>\<open>kernel/fs/vfs.cpp\<close>, \<^verbatim>\<open>kernel/fs/devfs.cpp\<close> and \<^verbatim>\<open>kernel/drivers/tty.cpp\<close>: the mount tree, the file system of
  devices and the one device there is. A virtual call is a case distinction over the two subclasses of \<open>filesystem\<close>.
  A null dereference has no result, as a call that does not return.
\<close>

section \<open>State\<close>

record tty =
  m_cursor_x :: u16
  m_cursor_y :: u16

datatype device = Tty_device

record devfs_node =
  d_name :: cbuf
  d_type :: FileType
  d_fs :: "filesystem option"
  d_dev :: device

record node =
  v_name :: cbuf
  v_fs :: filesystem
  v_parent :: "nat option"
  v_children :: "nat list"

text \<open>\<open>devfs_root_node\<close> is its list of children; the other fields of that node are never read.\<close>

record kvfs = ktmpfs +
  tty1 :: "tty option"
  devfs_filesystem :: "filesystem option"
  devfs_root_node :: "nat list option"
  d_nodes :: "nat \<Rightarrow> devfs_node option"
  d_fresh :: nat
  fses :: "filesystem list"
  vfs_lock :: lock_t
  vfs_root_node :: "nat option"
  v_nodes :: "nat \<Rightarrow> node option"
  v_fresh :: nat

section \<open>The terminal device\<close>

definition LINE_START_X :: u16 where "LINE_START_X = 10"

definition tty_new :: tty where
  "tty_new = \<lparr>m_cursor_x = LINE_START_X, m_cursor_y = 0\<rparr>"

definition tty_init :: "'a kvfs_scheme \<Rightarrow> 'a kvfs_scheme" where
  "tty_init s = s\<lparr>tty1 := Some tty_new\<rparr>"

definition tty_read :: "u64 \<Rightarrow> u64 \<Rightarrow> u64 \<Rightarrow> 'a kvfs_scheme \<Rightarrow> int \<times> 'a kvfs_scheme" where
  "tty_read offset len buffer s = (-1, s)"

primrec tty_print :: "(u64 \<Rightarrow> u8) \<Rightarrow> u64 \<Rightarrow> nat \<Rightarrow> 'a kvfs_scheme \<Rightarrow> 'a kvfs_scheme" where
  "tty_print font buffer 0 s = s"
| "tty_print font buffer (Suc i) s =
     (let s = tty_print font buffer i s in print_char font (mem s (buffer + of_nat i)) 0xffffff s)"

definition tty_write :: "(u64 \<Rightarrow> u8) \<Rightarrow> u64 \<Rightarrow> u64 \<Rightarrow> u64 \<Rightarrow> 'a kvfs_scheme \<Rightarrow> int \<times> 'a kvfs_scheme" where
  "tty_write font offset len buffer s = (0, tty_print font buffer (unat len) s)"

section \<open>devfs\<close>

text \<open>\<open>"tmpfs"\<close>, \<open>"devfs"\<close> and their terminators.\<close>

fun get_name :: "filesystem \<Rightarrow> cbuf" where
  "get_name tmpfs = [116, 109, 112, 102, 115, 0]"
| "get_name devfs = [100, 101, 118, 102, 115, 0]"

definition add_fs :: "filesystem \<Rightarrow> 'a kvfs_scheme \<Rightarrow> 'a kvfs_scheme option" where
  "add_fs fs s = do {
     l \<leftarrow> acquire (vfs_lock s);
     Some (s\<lparr>fses := fses s @ [fs], vfs_lock := release l\<rparr>)
   }"

definition tmpfs_init :: "'a kvfs_scheme \<Rightarrow> 'a kvfs_scheme option" where
  "tmpfs_init s = add_fs tmpfs ((tmpfs_new s)\<lparr>tmp_filesystem := Some tmpfs\<rparr>)"

definition devfs_new :: "'a kvfs_scheme \<Rightarrow> 'a kvfs_scheme" where
  "devfs_new s = s\<lparr>devfs_root_node := Some []\<rparr>"

definition devfs_init :: "'a kvfs_scheme \<Rightarrow> 'a kvfs_scheme option" where
  "devfs_init s = add_fs devfs ((devfs_new s)\<lparr>devfs_filesystem := Some devfs\<rparr>)"

definition add_device :: "cbuf \<Rightarrow> device \<Rightarrow> 'a kvfs_scheme \<Rightarrow> 'a kvfs_scheme option" where
  "add_device name new_device s = do {
     kids \<leftarrow> devfs_root_node s;
     Some (s\<lparr>d_nodes := (d_nodes s)(d_fresh s \<mapsto>
                 \<lparr>d_name = name, d_type = Device, d_fs = devfs_filesystem s, d_dev = new_device\<rparr>),
             devfs_root_node := Some (d_fresh s # kids), d_fresh := Suc (d_fresh s)\<rparr>)
   }"

fun devfs_find :: "(nat \<Rightarrow> devfs_node option) \<Rightarrow> nat list \<Rightarrow> cbuf \<Rightarrow> nat option option" where
  "devfs_find nodes [] path = Some None"
| "devfs_find nodes (head # hs) path = do {
     h \<leftarrow> nodes head;
     eq \<leftarrow> strcmp path (d_name h);
     if eq then Some (Some head) else devfs_find nodes hs path
   }"

definition devfs_open :: "cbuf \<Rightarrow> u16 \<Rightarrow> 'a kvfs_scheme \<Rightarrow> (file_description option \<times> 'a kvfs_scheme) option" where
  "devfs_open path mode s = do {
     kids \<leftarrow> devfs_root_node s;
     r \<leftarrow> devfs_find (d_nodes s) kids (drop 1 path);
     Some (map_option (\<lambda>h. \<lparr>fd_file = Dev_node h, fd_mode = mode, fd_offset = 0\<rparr>) r, s)
   }"

text \<open>\<open>devfs::read\<close> calls the device and then ends without a \<open>return\<close>: the caller gets an indeterminate value, \<open>ret\<close>.\<close>

definition devfs_read :: "int \<Rightarrow> nat \<Rightarrow> u64 \<Rightarrow> u64 \<Rightarrow> u64 \<Rightarrow> 'a kvfs_scheme \<Rightarrow> (int \<times> 'a kvfs_scheme) option" where
  "devfs_read ret n offset len buffer s = do {
     d \<leftarrow> d_nodes s n;
     let (_, s) = (case d_dev d of Tty_device \<Rightarrow> tty_read offset len buffer s);
     Some (ret, s)
   }"

definition devfs_write :: "(u64 \<Rightarrow> u8) \<Rightarrow> nat \<Rightarrow> u64 \<Rightarrow> u64 \<Rightarrow> u64 \<Rightarrow> 'a kvfs_scheme \<Rightarrow> (int \<times> 'a kvfs_scheme) option" where
  "devfs_write font n offset len buffer s = do {
     d \<leftarrow> d_nodes s n;
     case d_dev d of Tty_device \<Rightarrow> Some (tty_write font offset len buffer s)
   }"

section \<open>Mounting\<close>

fun find_fs :: "filesystem list \<Rightarrow> cbuf \<Rightarrow> filesystem option option" where
  "find_fs [] source = Some None"
| "find_fs (f # fs) source = do {
     eq \<leftarrow> strcmp (get_name f) source;
     if eq then Some (Some f) else find_fs fs source
   }"

partial_function (option) mount_walk ::
  "(nat \<Rightarrow> node option) \<Rightarrow> nat \<Rightarrow> nat list \<Rightarrow> cbuf \<Rightarrow> (nat \<times> cbuf) option" where
  "mount_walk nodes parent heads target_str = (case heads of
     [] \<Rightarrow> Some (parent, target_str)
   | head # hs \<Rightarrow> do {
       c0 \<leftarrow> rd target_str 0;
       if c0 = 0 then Some (parent, target_str)
       else do {
         h \<leftarrow> nodes head;
         l \<leftarrow> strlen (v_name h);
         eq \<leftarrow> strncmp (v_name h) target_str l;
         if eq then do {
           c \<leftarrow> rd target_str l;
           if c \<noteq> SLASH \<and> c \<noteq> 0 then mount_walk nodes parent hs target_str
           else mount_walk nodes head (v_children h) (drop l target_str)
         }
         else mount_walk nodes parent hs target_str
       }
     })"

definition mount :: "cbuf \<Rightarrow> cbuf \<Rightarrow> 'a kvfs_scheme \<Rightarrow> (bool \<times> 'a kvfs_scheme) option" where
  "mount source target s = do {
     l \<leftarrow> acquire (vfs_lock s);
     r \<leftarrow> find_fs (fses s) source;
     case r of None \<Rightarrow> Some (False, s\<lparr>vfs_lock := release l\<rparr>)
     | Some fs \<Rightarrow>
       (case vfs_root_node s of
          None \<Rightarrow> Some (True, s\<lparr>v_nodes := (v_nodes s)(v_fresh s \<mapsto> \<lparr>v_name = target, v_fs = fs, v_parent = None, v_children = []\<rparr>),
                     vfs_root_node := Some (v_fresh s), v_fresh := Suc (v_fresh s), vfs_lock := release l\<rparr>)
        | Some root \<Rightarrow> do {
            rn \<leftarrow> v_nodes s root;
            (parent, target_str) \<leftarrow> mount_walk (v_nodes s) root (v_children rn) target;
            p \<leftarrow> v_nodes s parent;
            Some (True, s\<lparr>v_nodes := (v_nodes s)(
                     v_fresh s \<mapsto> \<lparr>v_name = target_str, v_fs = fs, v_parent = Some parent, v_children = []\<rparr>,
                     parent \<mapsto> p\<lparr>v_children := v_fresh s # v_children p\<rparr>),
                   v_fresh := Suc (v_fresh s), vfs_lock := release l\<rparr>)
          })
   }"

section \<open>Routing a path to its file system\<close>

partial_function (option) path_walk ::
  "(nat \<Rightarrow> node option) \<Rightarrow> nat \<Rightarrow> nat list \<Rightarrow> cbuf \<Rightarrow> (nat \<times> cbuf) option" where
  "path_walk nodes parent heads fs_path = (case heads of
     [] \<Rightarrow> Some (parent, fs_path)
   | head # hs \<Rightarrow> do {
       h \<leftarrow> nodes head;
       l \<leftarrow> strlen (v_name h);
       eq \<leftarrow> strncmp (v_name h) fs_path l;
       if eq then do {
         c \<leftarrow> rd fs_path l;
         if c \<noteq> SLASH then path_walk nodes parent hs fs_path
         else path_walk nodes head (v_children h) (drop l fs_path)
       }
       else path_walk nodes parent hs fs_path
     })"

definition get_absolute_path :: "cbuf \<Rightarrow> 'a kvfs_scheme \<Rightarrow> (cbuf \<times> filesystem) option" where
  "get_absolute_path vfs_path s = do {
     root \<leftarrow> vfs_root_node s;
     rn \<leftarrow> v_nodes s root;
     (parent, fs_path) \<leftarrow> path_walk (v_nodes s) root (v_children rn) vfs_path;
     p \<leftarrow> v_nodes s parent;
     Some (fs_path, v_fs p)
   }"

section \<open>File operations\<close>

text \<open>The \<open>fs\<close> field of an \<open>fs_node\<close>, and the \<open>tmpfs_node\<close> behind one.\<close>

fun fs_of :: "fs_ref \<Rightarrow> 'a kvfs_scheme \<Rightarrow> filesystem option" where
  "fs_of (Tmp_node n) s = Option.bind (t_nodes s n) t_fs"
| "fs_of (Dev_node n) s = Option.bind (d_nodes s n) d_fs"

fun tmp_index :: "fs_ref \<Rightarrow> nat option" where
  "tmp_index (Tmp_node n) = Some n"
| "tmp_index (Dev_node n) = None"

fun dev_index :: "fs_ref \<Rightarrow> nat option" where
  "dev_index (Dev_node n) = Some n"
| "dev_index (Tmp_node n) = None"

fun fs_open :: "filesystem \<Rightarrow> fs_ref option \<Rightarrow> bool \<Rightarrow> cbuf \<Rightarrow> u16 \<Rightarrow> 'a kvfs_scheme \<Rightarrow> (file_description option \<times> 'a kvfs_scheme) option" where
  "fs_open tmpfs None same path mode s = tmpfs_open None same path mode s"
| "fs_open tmpfs (Some wd) same path mode s = do { n \<leftarrow> tmp_index wd; tmpfs_open (Some n) same path mode s }"
| "fs_open devfs wd same path mode s = devfs_open path mode s"

definition vfs_open :: "fs_ref option \<Rightarrow> bool \<Rightarrow> cbuf \<Rightarrow> u16 \<Rightarrow> 'a kvfs_scheme \<Rightarrow> (file_description option \<times> 'a kvfs_scheme) option" where
  "vfs_open working_dir same path mode s = do {
     c \<leftarrow> rd path 0;
     if c \<noteq> SLASH then do {
       wd \<leftarrow> working_dir;
       fs \<leftarrow> fs_of wd s;
       fs_open fs (Some wd) same path mode s
     }
     else do {
       (fs_path, fs) \<leftarrow> get_absolute_path path s;
       fs_open fs None same fs_path mode s
     }
   }"

definition vfs_read :: "int \<Rightarrow> fs_ref \<Rightarrow> u64 \<Rightarrow> u64 \<Rightarrow> u64 \<Rightarrow> 'a kvfs_scheme \<Rightarrow> (int \<times> 'a kvfs_scheme) option" where
  "vfs_read ret path offset len buffer s = do {
     fs \<leftarrow> fs_of path s;
     case fs of
       tmpfs \<Rightarrow> do { n \<leftarrow> tmp_index path; tmpfs_read n offset len buffer s }
     | devfs \<Rightarrow> do { n \<leftarrow> dev_index path; devfs_read ret n offset len buffer s }
   }"

definition vfs_write :: "(u64 \<Rightarrow> u8) \<Rightarrow> fs_ref \<Rightarrow> u64 \<Rightarrow> u64 \<Rightarrow> u64 \<Rightarrow> 'a kvfs_scheme \<Rightarrow> (int \<times> 'a kvfs_scheme) option" where
  "vfs_write font path offset len buffer s = do {
     fs \<leftarrow> fs_of path s;
     case fs of
       tmpfs \<Rightarrow> do { n \<leftarrow> tmp_index path; tmpfs_write n offset len buffer s }
     | devfs \<Rightarrow> do { n \<leftarrow> dev_index path; devfs_write font n offset len buffer s }
   }"

text \<open>\<open>devfs\<close> does not override \<open>mkdir\<close>, whose default is an error.\<close>

fun fs_mkdir :: "filesystem \<Rightarrow> fs_ref option \<Rightarrow> bool \<Rightarrow> cbuf \<Rightarrow> 'a kvfs_scheme \<Rightarrow> (int \<times> 'a kvfs_scheme) option" where
  "fs_mkdir tmpfs None same path s = tmpfs_mkdir None same path s"
| "fs_mkdir tmpfs (Some wd) same path s = do { n \<leftarrow> tmp_index wd; tmpfs_mkdir (Some n) same path s }"
| "fs_mkdir devfs wd same path s = Some (-1, s)"

definition vfs_mkdir :: "fs_ref option \<Rightarrow> bool \<Rightarrow> cbuf \<Rightarrow> 'a kvfs_scheme \<Rightarrow> (int \<times> 'a kvfs_scheme) option" where
  "vfs_mkdir working_dir same path s = do {
     c \<leftarrow> rd path 0;
     if c \<noteq> SLASH then do {
       wd \<leftarrow> working_dir;
       fs \<leftarrow> fs_of wd s;
       fs_mkdir fs (Some wd) same path s
     }
     else do {
       (fs_path, fs) \<leftarrow> get_absolute_path path s;
       fs_mkdir fs None same fs_path s
     }
   }"

text \<open>The part of \<open>_start\<close> (\<^verbatim>\<open>kernel/kernel.cpp\<close>) that sets the file systems up: \<open>"/"\<close>, \<open>"/dev"\<close> and \<open>"tty0"\<close>.\<close>

definition DEV_PATH :: cbuf where "DEV_PATH = [SLASH, 100, 101, 118, 0]"
definition TTY_NAME :: cbuf where "TTY_NAME = [116, 116, 121, 48, 0]"

definition start_fs :: "'a kvfs_scheme \<Rightarrow> 'a kvfs_scheme option" where
  "start_fs s = do {
     s \<leftarrow> tmpfs_init s;
     s \<leftarrow> devfs_init s;
     (_, s) \<leftarrow> mount (get_name tmpfs) [SLASH, 0] s;
     (_, s) \<leftarrow> mount (get_name devfs) DEV_PATH s;
     add_device TTY_NAME Tty_device s
   }"

end
