(* ===== verification/Vmm.thy ===== *)
theory Vmm
  imports Pmm Vector
begin

text \<open>
  \<^verbatim>\<open>kernel/memory/vmm.cpp\<close>: the four-level page tables. The tables live in frames of physical memory
  that the kernel reads and writes through the direct map; \<open>MemArea\<close> objects and the vectors that
  hold them are values of the model.
\<close>

section \<open>State\<close>

record MemArea =
  ma_base :: u64
  ma_limit :: u64
  ma_prot :: u64
  ma_flags :: u64

record vmm =
  m_pml4 :: u64
  m_ranges :: "MemArea vector"
  page_tables_addr :: "u64 vector"

definition get_pml4e :: "u64 \<Rightarrow> nat" where
  "get_pml4e virt = unat (drop_bit 39 virt AND 0x1FF)"

definition get_pdpe :: "u64 \<Rightarrow> nat" where
  "get_pdpe virt = unat (drop_bit 30 virt AND 0x1FF)"

definition get_pde :: "u64 \<Rightarrow> nat" where
  "get_pde virt = unat (drop_bit 21 virt AND 0x1FF)"

definition get_pte :: "u64 \<Rightarrow> nat" where
  "get_pte virt = unat (drop_bit 12 virt AND 0x1FF)"

definition PAGE_MASK :: u64 where
  "PAGE_MASK = 0xfffffffffffff000"

section \<open>Walking and mapping\<close>

definition tbl_cell :: "u64 \<Rightarrow> nat \<Rightarrow> u64" where
  "tbl_cell tbl entry = tbl + 8 * of_nat entry"

text \<open>\<open>!currLevelPtr[entry] & 1\<close> is \<open>(!currLevelPtr[entry]) & 1\<close>: the entry is zero. The cells a vector
  gets from \<open>new\<close> are overwritten at once, so what they held does not matter here.\<close>

definition get_next_level :: "u64 \<Rightarrow> nat \<Rightarrow> vmm \<Rightarrow> 'a kmem_scheme \<Rightarrow> (u64 \<times> vmm \<times> 'a kmem_scheme) option" where
  "get_next_level currLevelPtr entry v s = do {
     let curr = (if currLevelPtr AND PHYSICAL_BASE_ADDRESS = 0 then currLevelPtr + PHYSICAL_BASE_ADDRESS else currLevelPtr);
     let cell = tbl_cell curr entry;
     if read64 (mem s) cell = 0 then do {
       (allocated, s) \<leftarrow> pmm_alloc 1 s;
       let s = s\<lparr>mem := write64 (mem s) cell (allocated OR 7)\<rparr>;
       let v = v\<lparr>page_tables_addr := vec_push_back (\<lambda>_. 0) allocated (page_tables_addr v)\<rparr>;
       Some (allocated + PHYSICAL_BASE_ADDRESS, v, s)
     } else Some ((read64 (mem s) cell AND PAGE_MASK) + PHYSICAL_BASE_ADDRESS, v, s)
   }"

definition walk_levels :: "u64 \<Rightarrow> vmm \<Rightarrow> 'a kmem_scheme \<Rightarrow> (u64 \<times> vmm \<times> 'a kmem_scheme) option" where
  "walk_levels virt v s = do {
     (pdp, v, s) \<leftarrow> get_next_level (m_pml4 v) (get_pml4e virt) v s;
     (pd, v, s) \<leftarrow> get_next_level pdp (get_pdpe virt) v s;
     get_next_level pd (get_pde virt) v s
   }"

definition map_page :: "u64 \<Rightarrow> u64 \<Rightarrow> u16 \<Rightarrow> vmm \<Rightarrow> 'a kmem_scheme \<Rightarrow> (vmm \<times> 'a kmem_scheme) option" where
  "map_page virt phys flags v s = do {
     (pt, v, s) \<leftarrow> walk_levels virt v s;
     Some (v, s\<lparr>mem := write64 (mem s) (tbl_cell pt (get_pte virt)) (phys OR ucast flags)\<rparr>)
   }"

text \<open>\<open>invlpg\<close> concerns the processor's cache only.\<close>

definition unmap_page :: "u64 \<Rightarrow> vmm \<Rightarrow> 'a kmem_scheme \<Rightarrow> (vmm \<times> 'a kmem_scheme) option" where
  "unmap_page virt v s = map_page virt 0 0 v s"

text \<open>The loops \<open>for (i = 0; i <= length; i += PAGE_SIZE)\<close>, with \<open>length\<close> too small for \<open>i\<close> to wrap around.
  \<open>prot\<close> is cut down to the sixteen bits \<open>map_page\<close> takes.\<close>

function map_loop :: "u64 \<Rightarrow> u64 \<Rightarrow> nat \<Rightarrow> u64 \<Rightarrow> nat \<Rightarrow> vmm \<Rightarrow> 'a kmem_scheme \<Rightarrow> (vmm \<times> 'a kmem_scheme) option" where
  "map_loop virt phys len prot i v s =
     (if i \<le> len then do {
        (v, s) \<leftarrow> map_page (virt + of_nat i) (phys + of_nat i) (ucast prot) v s;
        map_loop virt phys len prot (i + PAGE_SIZE) v s
      } else Some (v, s))"
  by pat_completeness auto
termination
  by (relation "measure (\<lambda>(virt, phys, len, prot, i, v, s). Suc len - i)") (auto simp: PAGE_SIZE_def)

declare map_loop.simps [simp del]

definition map_range_raw :: "u64 \<Rightarrow> u64 \<Rightarrow> u64 \<Rightarrow> u64 \<Rightarrow> vmm \<Rightarrow> 'a kmem_scheme \<Rightarrow> (vmm \<times> 'a kmem_scheme) option" where
  "map_range_raw virt phys len prot v s = map_loop virt phys (unat len) prot 0 v s"

function unmap_loop :: "u64 \<Rightarrow> nat \<Rightarrow> nat \<Rightarrow> vmm \<Rightarrow> 'a kmem_scheme \<Rightarrow> (vmm \<times> 'a kmem_scheme) option" where
  "unmap_loop virt len i v s =
     (if i \<le> len then do {
        (v, s) \<leftarrow> unmap_page (virt + of_nat i) v s;
        unmap_loop virt len (i + PAGE_SIZE) v s
      } else Some (v, s))"
  by pat_completeness auto
termination
  by (relation "measure (\<lambda>(virt, len, i, v, s). Suc len - i)") (auto simp: PAGE_SIZE_def)

declare unmap_loop.simps [simp del]

definition unmap_range_raw :: "u64 \<Rightarrow> u64 \<Rightarrow> vmm \<Rightarrow> 'a kmem_scheme \<Rightarrow> (vmm \<times> 'a kmem_scheme) option" where
  "unmap_range_raw virt len v s = unmap_loop virt (unat len) 0 v s"

text \<open>The lookup creates missing tables on its way, as the code does.\<close>

definition virtual_to_physical :: "u64 \<Rightarrow> vmm \<Rightarrow> 'a kmem_scheme \<Rightarrow> (u64 \<times> vmm \<times> 'a kmem_scheme) option" where
  "virtual_to_physical virt v s = do {
     (pt, v, s) \<leftarrow> walk_levels virt v s;
     Some (read64 (mem s) (tbl_cell pt (get_pte virt)) AND PAGE_MASK, v, s)
   }"

definition map_range :: "u64 \<Rightarrow> u64 \<Rightarrow> u64 \<Rightarrow> u64 \<Rightarrow> u64 \<Rightarrow> vmm \<Rightarrow> 'a kmem_scheme \<Rightarrow> (vmm \<times> 'a kmem_scheme) option" where
  "map_range virt phys len prot flags v s =
     (let area = \<lparr>ma_base = virt, ma_limit = len, ma_prot = prot, ma_flags = flags\<rparr>;
          v = v\<lparr>m_ranges := vec_push_back (\<lambda>_. area) area (m_ranges v)\<rparr>
      in map_range_raw virt phys len prot v s)"

section \<open>Whole page maps\<close>

text \<open>\<open>vmm(bool)\<close>: a new top-level table that shares the two kernel slots.\<close>

definition vmm_new :: "vmm \<Rightarrow> 'a kmem_scheme \<Rightarrow> (vmm \<times> 'a kmem_scheme) option" where
  "vmm_new kernel_vmm s = do {
     (p, s) \<leftarrow> pmm_alloc 1 s;
     let pml4 = p + PHYSICAL_BASE_ADDRESS;
     let m = write64 (mem s) (tbl_cell pml4 256) (read64 (mem s) (tbl_cell (m_pml4 kernel_vmm) 256));
     let m = write64 m (tbl_cell pml4 511) (read64 m (tbl_cell (m_pml4 kernel_vmm) 511));
     Some (\<lparr>m_pml4 = pml4, m_ranges = vector_new, page_tables_addr = vector_new\<rparr>, s\<lparr>mem := m\<rparr>)
   }"

text \<open>
  \<open>duplicate\<close> copies every page of every area and maps it in the new page map. It reads the pages at
  their own virtual addresses, through the tables the processor uses: \<open>cpu m a\<close> is where the byte at \<open>a\<close>
  lies in memory. \<open>get_ranges\<close> returns a copy of the vector, so the areas pushed on it are lost.
\<close>

primrec copy_pages :: "(mem \<Rightarrow> u64 \<Rightarrow> u64) \<Rightarrow> u64 \<Rightarrow> u64 \<Rightarrow> nat \<Rightarrow> vmm \<Rightarrow> 'a kmem_scheme \<Rightarrow> (vmm \<times> 'a kmem_scheme) option" where
  "copy_pages cpu base prot 0 v s = Some (v, s)"
| "copy_pages cpu base prot (Suc t) v s = do {
     (v, s) \<leftarrow> copy_pages cpu base prot t v s;
     (addr, s) \<leftarrow> pmm_alloc 1 s;
     let src = base + of_nat (t * PAGE_SIZE);
     let s = s\<lparr>mem := memcpy8 (mem s) (addr + PHYSICAL_BASE_ADDRESS) (cpu (mem s) src) PAGE_SIZE\<rparr>;
     map_page src addr (ucast prot) v s
   }"

primrec copy_ranges :: "(mem \<Rightarrow> u64 \<Rightarrow> u64) \<Rightarrow> MemArea list \<Rightarrow> vmm \<Rightarrow> 'a kmem_scheme \<Rightarrow> (vmm \<times> 'a kmem_scheme) option" where
  "copy_ranges cpu [] v s = Some (v, s)"
| "copy_ranges cpu (area # rs) v s = do {
     (v, s) \<leftarrow> copy_pages cpu (ma_base area AND PAGE_MASK) (ma_prot area) (DIV_CEIL (unat (ma_limit area)) PAGE_SIZE) v s;
     copy_ranges cpu rs v s
   }"

definition duplicate :: "(mem \<Rightarrow> u64 \<Rightarrow> u64) \<Rightarrow> vmm \<Rightarrow> vmm \<Rightarrow> 'a kmem_scheme \<Rightarrow> (vmm \<times> 'a kmem_scheme) option" where
  "duplicate cpu kernel_vmm v s = do {
     (new_pagemap, s) \<leftarrow> vmm_new kernel_vmm s;
     copy_ranges cpu (m_data (m_ranges v)) new_pagemap s
   }"

primrec free_ranges :: "MemArea list \<Rightarrow> vmm \<Rightarrow> 'a kmem_scheme \<Rightarrow> (vmm \<times> 'a kmem_scheme) option" where
  "free_ranges [] v s = Some (v, s)"
| "free_ranges (area # rs) v s = do {
     (physical_addr, v, s) \<leftarrow> virtual_to_physical (ma_base area) v s;
     s \<leftarrow> pmm_free physical_addr (DIV_CEIL (unat (ma_limit area)) PAGE_SIZE) s;
     free_ranges rs v s
   }"

primrec free_tables :: "u64 list \<Rightarrow> 'a kmem_scheme \<Rightarrow> 'a kmem_scheme option" where
  "free_tables [] s = Some s"
| "free_tables (a # as) s = do { s \<leftarrow> pmm_free a 1 s; free_tables as s }"

text \<open>The top-level table itself goes to \<open>delete\<close>, which ignores addresses outside the heap.\<close>

definition destroy :: "vmm \<Rightarrow> 'a kmem_scheme \<Rightarrow> 'a kmem_scheme option" where
  "destroy v s = do {
     (v, s) \<leftarrow> free_ranges (m_data (m_ranges v)) v s;
     free_tables (m_data (page_tables_addr v)) s
   }"

definition set_pml4 :: "u64 \<Rightarrow> vmm \<Rightarrow> vmm" where
  "set_pml4 pml4 v = v\<lparr>m_pml4 := pml4\<rparr>"

text \<open>The value \<open>switch_pagemap\<close> loads into \<open>cr3\<close>.\<close>

definition switch_pagemap :: "vmm \<Rightarrow> u64" where
  "switch_pagemap v = m_pml4 v - PHYSICAL_BASE_ADDRESS"

section \<open>Only memory changes\<close>

text \<open>Whatever else the state holds, the operations on page maps change the memory and nothing more.\<close>

lemma get_next_level_frame: "get_next_level cur e v s = Some (a, v', s') \<Longrightarrow> \<exists>m. s' = s\<lparr>mem := m\<rparr>"
  by (auto simp: get_next_level_def Let_def bind_eq_Some_conv split: if_splits dest!: pmm_alloc_frame)

lemma walk_levels_frame: "walk_levels virt v s = Some (a, v', s') \<Longrightarrow> \<exists>m. s' = s\<lparr>mem := m\<rparr>"
  by (auto simp: walk_levels_def bind_eq_Some_conv dest!: get_next_level_frame)

lemma map_page_frame: "map_page virt phys flags v s = Some (v', s') \<Longrightarrow> \<exists>m. s' = s\<lparr>mem := m\<rparr>"
  by (auto simp: map_page_def bind_eq_Some_conv dest!: walk_levels_frame)

lemma copy_pages_frame: "copy_pages at base prot n v s = Some (v', s') \<Longrightarrow> \<exists>m. s' = s\<lparr>mem := m\<rparr>"
proof (induction n arbitrary: v' s')
  case (Suc n)
  obtain v1 s1 addr s2 where "copy_pages at base prot n v s = Some (v1, s1)" "pmm_alloc 1 s1 = Some (addr, s2)"
    and mp: "\<exists>a b f m. map_page a b f v1 (s2\<lparr>mem := m\<rparr>) = Some (v', s')"
    using Suc.prems by (fastforce simp: Let_def bind_eq_Some_conv)
  then obtain m1 m2 where "s1 = s\<lparr>mem := m1\<rparr>" "s2 = s1\<lparr>mem := m2\<rparr>" using Suc.IH pmm_alloc_frame by blast
  then show ?case using mp by (auto dest!: map_page_frame)
qed simp

lemma copy_ranges_frame: "copy_ranges at rs v s = Some (v', s') \<Longrightarrow> \<exists>m. s' = s\<lparr>mem := m\<rparr>"
proof (induction rs arbitrary: v s)
  case (Cons r rs)
  obtain v1 s1 where "\<exists>b p n. copy_pages at b p n v s = Some (v1, s1)" "copy_ranges at rs v1 s1 = Some (v', s')"
    using Cons.prems by (fastforce simp: bind_eq_Some_conv)
  then show ?case using Cons.IH [of v1 s1] by (auto dest!: copy_pages_frame)
qed simp

lemma duplicate_frame: "duplicate at kv v s = Some (v', s') \<Longrightarrow> \<exists>m. s' = s\<lparr>mem := m\<rparr>"
  by (auto simp: duplicate_def vmm_new_def Let_def bind_eq_Some_conv dest!: pmm_alloc_frame copy_ranges_frame)

end
