(* ===== verification/Process.thy ===== *)
theory Process
  imports Vfs Vmm
begin

text \<open>
  The structures of \<^verbatim>\<open>kernel/scheduler/scheduler.hpp\<close> and \<^verbatim>\<open>kernel/x86_64/cpu.hpp\<close>, and the state the scheduler and
  the system calls share. Threads, processes and page maps are objects found under the number that stands for
  their address; vectors and queues of pointers are the lists they stand for.
\<close>

record context_t =
  rax :: u64
  rbx :: u64
  rcx :: u64
  rdx :: u64
  rsi :: u64
  rdi :: u64
  rbp :: u64
  r8 :: u64
  r9 :: u64
  r10 :: u64
  r11 :: u64
  r12 :: u64
  r13 :: u64
  r14 :: u64
  r15 :: u64
  rip :: u64
  seg_cs :: u64
  rflags :: u64
  rsp :: u64
  seg_ss :: u64

text \<open>After \<open>memset(regs, 0, sizeof(context))\<close>.\<close>

definition zero_context :: context_t where
  "zero_context = \<lparr>rax = 0, rbx = 0, rcx = 0, rdx = 0, rsi = 0, rdi = 0, rbp = 0, r8 = 0, r9 = 0, r10 = 0, r11 = 0, r12 = 0,
     r13 = 0, r14 = 0, r15 = 0, rip = 0, seg_cs = 0, rflags = 0, rsp = 0, seg_ss = 0\<rparr>"

datatype Status = Waiting | Running | Dying | Dead

record thread =
  tid :: u64
  th_status :: Status
  parent_process :: nat
  regs :: context_t

record process =
  pid :: u64
  p_status :: Status
  process_directory :: "fs_ref option"
  threads :: "nat list"
  fd_list :: "file_description option list"
  pagemap :: nat

record cpu =
  lapic_id :: u8
  running_process :: "nat option"
  running_thread :: "nat option"
  working_dir :: "fs_ref option"
  cpu_pagemap :: "nat option"

record ksched = kvfs +
  thread_at :: "nat \<Rightarrow> thread option"
  process_at :: "nat \<Rightarrow> process option"
  obj_fresh :: nat
  cores :: "nat \<Rightarrow> cpu"
  vmm_at :: "nat \<Rightarrow> vmm option"
  vmm_fresh :: nat
  kernel_vmm :: nat
  process_list :: "nat list"
  waiting_queue :: "nat list"
  pid_bitmap :: u64
  tid_bitmap :: u64
  sched_lock :: lock_t
  pid_lock :: lock_t
  tid_lock :: lock_t

end
