(* ===== verification/Files.thy ===== *)
theory Files
  imports Process
begin

text \<open>
  \<^verbatim>\<open>kernel/fs/files.cpp\<close>: the system calls on open files. Each works on the process that runs on the calling core and
  returns the registers of the caller. The path argument of \<open>open\<close> is a string in the address space of the caller and
  comes in as such. A core that runs no process has no result.
\<close>

definition current_process :: "nat \<Rightarrow> 'a ksched_scheme \<Rightarrow> (nat \<times> process) option" where
  "current_process core s = do {
     p \<leftarrow> running_process (cores s core);
     proc \<leftarrow> process_at s p;
     Some (p, proc)
   }"

definition set_fds :: "nat \<Rightarrow> file_description option list \<Rightarrow> 'a ksched_scheme \<Rightarrow> 'a ksched_scheme" where
  "set_fds p fds s = s\<lparr>process_at := (process_at s)(p := map_option (\<lambda>proc. proc\<lparr>fd_list := fds\<rparr>) (process_at s p))\<rparr>"

text \<open>The loop of \<open>open\<close>: the first empty slot from \<open>i\<close> on.\<close>

fun find_slot :: "file_description option list \<Rightarrow> nat \<Rightarrow> nat option" where
  "find_slot [] i = None"
| "find_slot (x # xs) i = (if x = None then Some i else find_slot xs (i + 1))"

definition syscall_open :: "bool \<Rightarrow> cbuf \<Rightarrow> nat \<Rightarrow> context_t \<Rightarrow> 'a ksched_scheme \<Rightarrow> (context_t \<times> 'a ksched_scheme) option" where
  "syscall_open same path core rg s = do {
     (fd, s) \<leftarrow> vfs_open (working_dir (cores s core)) same path (ucast (rsi rg)) s;
     case fd of None \<Rightarrow> Some (rg\<lparr>rax := -1\<rparr>, s)
     | Some fd \<Rightarrow> do {
         (p, proc) \<leftarrow> current_process core s;
         case find_slot (fd_list proc) 0 of
           Some i \<Rightarrow> Some (rg\<lparr>rax := of_nat i\<rparr>, set_fds p ((fd_list proc)[i := Some fd]) s)
         | None \<Rightarrow> let fds = fd_list proc @ [Some fd]
             in Some (rg\<lparr>rax := of_nat (length fds - 1)\<rparr>, set_fds p fds s)
       }
   }"

definition syscall_read :: "int \<Rightarrow> nat \<Rightarrow> context_t \<Rightarrow> 'a ksched_scheme \<Rightarrow> (context_t \<times> 'a ksched_scheme) option" where
  "syscall_read ret core rg s = do {
     (p, proc) \<leftarrow> current_process core s;
     if unat (rdi rg) \<ge> length (fd_list proc) then Some (rg\<lparr>rax := -1\<rparr>, s)
     else (case fd_list proc ! unat (rdi rg) of
         None \<Rightarrow> Some (rg\<lparr>rax := -1\<rparr>, s)
       | Some fd \<Rightarrow>
           if fd_mode fd AND READ = 0 then Some (rg\<lparr>rax := -1\<rparr>, s)
           else do {
             (r, s) \<leftarrow> vfs_read ret (fd_file fd) (fd_offset fd) (rdx rg) (rsi rg) s;
             Some (rg\<lparr>rax := of_int r\<rparr>,
                   set_fds p ((fd_list proc)[unat (rdi rg) := Some (fd\<lparr>fd_offset := fd_offset fd + rdx rg\<rparr>)]) s)
           })
   }"

definition syscall_write :: "(u64 \<Rightarrow> u8) \<Rightarrow> nat \<Rightarrow> context_t \<Rightarrow> 'a ksched_scheme \<Rightarrow> (context_t \<times> 'a ksched_scheme) option" where
  "syscall_write font core rg s = do {
     (p, proc) \<leftarrow> current_process core s;
     if unat (rdi rg) \<ge> length (fd_list proc) then Some (rg\<lparr>rax := -1\<rparr>, s)
     else (case fd_list proc ! unat (rdi rg) of
         None \<Rightarrow> Some (rg\<lparr>rax := -1\<rparr>, s)
       | Some fd \<Rightarrow>
           if fd_mode fd AND WRITE = 0 then Some (rg\<lparr>rax := -1\<rparr>, s)
           else do {
             (r, s) \<leftarrow> vfs_write font (fd_file fd) (fd_offset fd) (rdx rg) (rsi rg) s;
             Some (rg\<lparr>rax := of_int r\<rparr>,
                   set_fds p ((fd_list proc)[unat (rdi rg) := Some (fd\<lparr>fd_offset := fd_offset fd + rdx rg\<rparr>)]) s)
           })
   }"

definition syscall_close :: "nat \<Rightarrow> context_t \<Rightarrow> 'a ksched_scheme \<Rightarrow> (context_t \<times> 'a ksched_scheme) option" where
  "syscall_close core rg s = do {
     (p, proc) \<leftarrow> current_process core s;
     if unat (rdi rg) \<ge> length (fd_list proc) then Some (rg\<lparr>rax := -1\<rparr>, s)
     else if fd_list proc ! unat (rdi rg) \<noteq> None
     then Some (rg\<lparr>rax := 0\<rparr>, set_fds p ((fd_list proc)[unat (rdi rg) := None]) s)
     else Some (rg\<lparr>rax := 0\<rparr>, s)
   }"

end
