(* ===== verification/Sched.thy ===== *)
theory Sched
  imports Files
begin

text \<open>
  \<^verbatim>\<open>kernel/scheduler/scheduler.cpp\<close>: processes, threads, the run queue and the system calls on them. Logging is left
  out. \<open>reschedule\<close> ends by loading a register context and a page map or by returning to the interrupted code.
\<close>

definition USER_STACK :: u64 where "USER_STACK = 0x000000800000000"
definition USER_STACK_SIZE :: nat where "USER_STACK_SIZE = PAGE_SIZE * 8"

section \<open>Process and thread numbers\<close>

definition get_new_pid :: "'a ksched_scheme \<Rightarrow> (int \<times> 'a ksched_scheme) option" where
  "get_new_pid s = do {
     l \<leftarrow> acquire (pid_lock s);
     let (n, m) = bitmap_allocate (mem s) (pid_bitmap s);
     Some (n, s\<lparr>mem := m, pid_lock := release l\<rparr>)
   }"

definition get_new_tid :: "'a ksched_scheme \<Rightarrow> (int \<times> 'a ksched_scheme) option" where
  "get_new_tid s = do {
     l \<leftarrow> acquire (tid_lock s);
     let (n, m) = bitmap_allocate (mem s) (tid_bitmap s);
     Some (n, s\<lparr>mem := m, tid_lock := release l\<rparr>)
   }"

section \<open>Creating processes\<close>

definition push_process :: "nat \<Rightarrow> 'a ksched_scheme \<Rightarrow> 'a ksched_scheme option" where
  "push_process p s = do {
     l \<leftarrow> acquire (sched_lock s);
     Some (s\<lparr>process_list := process_list s @ [p], sched_lock := release l\<rparr>)
   }"

definition queue_thread :: "nat \<Rightarrow> 'a ksched_scheme \<Rightarrow> 'a ksched_scheme option" where
  "queue_thread t s = do {
     l \<leftarrow> acquire (sched_lock s);
     Some (s\<lparr>waiting_queue := waiting_queue s @ [t], sched_lock := release l\<rparr>)
   }"

text \<open>The stack and the first registers of a new thread: a user thread gets its stack mapped at \<open>USER_STACK\<close>.\<close>

definition initial_regs :: "u64 \<Rightarrow> u64 \<Rightarrow> nat \<Rightarrow> u64 \<Rightarrow> 'a ksched_scheme \<Rightarrow> (context_t \<times> 'a ksched_scheme) option" where
  "initial_regs ip code_seg pm stack s =
     (if code_seg AND 0x3 \<noteq> 0 then do {
        v \<leftarrow> vmm_at s pm;
        (v, s) \<leftarrow> map_range USER_STACK stack (of_nat USER_STACK_SIZE) 7 0 v s;
        Some (zero_context\<lparr>rsp := USER_STACK + of_nat USER_STACK_SIZE, seg_ss := 0x20 OR 0x3, rip := ip, rflags := 0x202, seg_cs := code_seg\<rparr>,
              s\<lparr>vmm_at := (vmm_at s)(pm \<mapsto> v)\<rparr>)
      }
      else Some (zero_context\<lparr>rsp := stack + PHYSICAL_BASE_ADDRESS, seg_ss := 0x10, rip := ip, rflags := 0x202, seg_cs := code_seg\<rparr>, s))"

definition create_process ::
  "u64 \<Rightarrow> u64 \<Rightarrow> nat \<Rightarrow> fs_ref option \<Rightarrow> cbuf \<Rightarrow> nat \<Rightarrow> 'a ksched_scheme \<Rightarrow> (nat option \<times> 'a ksched_scheme) option" where
  "create_process ip code_seg pm dir dev_tty core s = do {
     let p = obj_fresh s;
     let t = Suc p;
     let s = s\<lparr>obj_fresh := Suc t\<rparr>;
     (stack, s) \<leftarrow> pmm_alloc (USER_STACK_SIZE div PAGE_SIZE) s;
     (rg, s) \<leftarrow> initial_regs ip code_seg pm stack s;
     (new_pid, s) \<leftarrow> get_new_pid s;
     (new_tid, s) \<leftarrow> get_new_tid s;
     if new_pid = -1 \<or> new_tid = -1 then Some (None, s)
     else do {
       (stdin, s) \<leftarrow> vfs_open (working_dir (cores s core)) False dev_tty WRITE s;
       (stdout, s) \<leftarrow> vfs_open (working_dir (cores s core)) False dev_tty READ s;
       (stderr, s) \<leftarrow> vfs_open (working_dir (cores s core)) False dev_tty WRITE s;
       let s = s\<lparr>thread_at := (thread_at s)(t \<mapsto> \<lparr>tid = of_int new_tid, th_status = Waiting, parent_process = p, regs = rg\<rparr>),
                 process_at := (process_at s)(p \<mapsto> \<lparr>pid = of_int new_pid, p_status = Waiting, process_directory = dir,
                    threads = [t], fd_list = [stdin, stdout, stderr], pagemap = pm\<rparr>)\<rparr>;
       s \<leftarrow> push_process p s;
       Some (Some p, s)
     }
   }"

text \<open>\<open>init_proc\<close> is the address of that function; the timer is started afterwards. The first thread of the new
  process is queued without a check that there is one.\<close>

definition sched_init :: "u64 \<Rightarrow> cbuf \<Rightarrow> nat \<Rightarrow> 'a ksched_scheme \<Rightarrow> 'a ksched_scheme option" where
  "sched_init init_proc dev_tty core s = do {
     (a, s) \<leftarrow> pmm_alloc 1 s;
     let s = s\<lparr>pid_bitmap := a + PHYSICAL_BASE_ADDRESS\<rparr>;
     (b, s) \<leftarrow> pmm_alloc 1 s;
     let s = s\<lparr>tid_bitmap := b + PHYSICAL_BASE_ADDRESS\<rparr>;
     (r, s) \<leftarrow> create_process init_proc 0x8 (kernel_vmm s) None dev_tty core s;
     p \<leftarrow> r;
     proc \<leftarrow> process_at s p;
     if threads proc = [] then None else queue_thread (hd (threads proc)) s
   }"

section \<open>The scheduler\<close>

datatype resume = Return | Switch context_t u64

definition set_status :: "nat \<Rightarrow> Status \<Rightarrow> 'a ksched_scheme \<Rightarrow> 'a ksched_scheme" where
  "set_status t st s = s\<lparr>thread_at := (thread_at s)(t := map_option (\<lambda>x. x\<lparr>th_status := st\<rparr>) (thread_at s t))\<rparr>"

definition save_regs :: "nat \<Rightarrow> context_t \<Rightarrow> 'a ksched_scheme \<Rightarrow> 'a ksched_scheme" where
  "save_regs t rg s = s\<lparr>thread_at := (thread_at s)(t := map_option (\<lambda>x. x\<lparr>regs := rg\<rparr>) (thread_at s t))\<rparr>"

definition set_process_status :: "nat \<Rightarrow> Status \<Rightarrow> 'a ksched_scheme \<Rightarrow> 'a ksched_scheme" where
  "set_process_status p st s = s\<lparr>process_at := (process_at s)(p := map_option (\<lambda>x. x\<lparr>p_status := st\<rparr>) (process_at s p))\<rparr>"

definition has_status :: "Status \<Rightarrow> 'a ksched_scheme \<Rightarrow> nat \<Rightarrow> bool" where
  "has_status st s t = (case thread_at s t of None \<Rightarrow> False | Some x \<Rightarrow> th_status x = st)"

text \<open>Taking the previous thread off the core: back to the end of the queue, or dead when it was dying.\<close>

definition preempt :: "nat \<Rightarrow> nat \<Rightarrow> context_t \<Rightarrow> 'a ksched_scheme \<Rightarrow> 'a ksched_scheme option" where
  "preempt core previous_thread rg s = do {
     pt \<leftarrow> thread_at s previous_thread;
     if th_status pt \<noteq> Dying then do {
       let s = save_regs previous_thread rg (set_status previous_thread Waiting s);
       pp \<leftarrow> running_process (cores s core);
       previous_process \<leftarrow> process_at s pp;
       let st = (if list_ex (has_status Running s) (threads previous_process) then Running else Waiting);
       let s = set_process_status pp st s;
       Some (s\<lparr>waiting_queue := waiting_queue s @ [previous_thread]\<rparr>)
     }
     else Some (set_status previous_thread Dead s)
   }"

definition dispatch :: "nat \<Rightarrow> nat \<Rightarrow> 'a ksched_scheme \<Rightarrow> (resume \<times> 'a ksched_scheme) option" where
  "dispatch core scheduled_thread s = do {
     t \<leftarrow> thread_at s scheduled_thread;
     let pp = parent_process t;
     proc \<leftarrow> process_at s pp;
     let s = set_status scheduled_thread Running (set_process_status pp Running s);
     v \<leftarrow> vmm_at s (pagemap proc);
     let s = s\<lparr>sched_lock := release (sched_lock s),
       cores := (cores s)(core := (cores s core)\<lparr>running_thread := Some scheduled_thread, running_process := Some pp,
                  cpu_pagemap := Some (pagemap proc), working_dir := process_directory proc\<rparr>)\<rparr>;
     Some (Switch (regs t) (switch_pagemap v), s)
   }"

text \<open>\<open>waiting_queue.pop().value()\<close> points into a temporary that is gone when it is read; the model takes the value it had.\<close>

definition reschedule :: "nat \<Rightarrow> context_t \<Rightarrow> 'a ksched_scheme \<Rightarrow> (resume \<times> 'a ksched_scheme) option" where
  "reschedule core rg s = do {
     l \<leftarrow> acquire (sched_lock s);
     let s = s\<lparr>sched_lock := l\<rparr>;
     case waiting_queue s of
       [] \<Rightarrow> do {
         r \<leftarrow> running_thread (cores s core);
         rt \<leftarrow> thread_at s r;
         if th_status rt \<noteq> Dying then dispatch core r (save_regs r rg s)
         else Some (Return, (set_status r Dead s)\<lparr>sched_lock := release l\<rparr>)
       }
     | scheduled_thread # rest \<Rightarrow> do {
         let s = s\<lparr>waiting_queue := rest\<rparr>;
         s \<leftarrow> (case running_thread (cores s core) of
                None \<Rightarrow> Some s
              | Some r \<Rightarrow> if r = scheduled_thread then Some s else preempt core r rg s);
         dispatch core scheduled_thread s
       }
   }"

section \<open>Ending a process\<close>

definition erase_at :: "nat \<Rightarrow> nat list \<Rightarrow> nat list" where
  "erase_at i xs = take i xs @ drop (Suc i) xs"

text \<open>Both loops erase at \<open>i\<close> and go on with \<open>i + 1\<close>.\<close>

function erase_loop :: "(nat \<Rightarrow> bool) \<Rightarrow> nat list \<Rightarrow> nat \<Rightarrow> nat list" where
  "erase_loop P xs i = (if i < length xs then erase_loop P (if P (xs ! i) then erase_at i xs else xs) (i + 1) else xs)"
  by pat_completeness auto
termination
  by (relation "measure (\<lambda>(P, xs, i). length xs - i)") (auto simp: erase_at_def)

declare erase_loop.simps [simp del]

text \<open>A thread that runs on another core is marked and waited for; \<open>wait\<close> is what the other cores do until it is
  dead, with the lock released.\<close>

fun exit_threads ::
  "(nat \<Rightarrow> 'a ksched_scheme \<Rightarrow> 'a ksched_scheme option) \<Rightarrow> nat \<Rightarrow> nat list \<Rightarrow> 'a ksched_scheme \<Rightarrow> 'a ksched_scheme option" where
  "exit_threads wait core [] s = Some s"
| "exit_threads wait core (t # ts) s = do {
     x \<leftarrow> thread_at s t;
     r \<leftarrow> running_thread (cores s core);
     rt \<leftarrow> thread_at s r;
     s \<leftarrow> (if tid x \<noteq> tid rt then
            (if th_status x = Running then do {
               s \<leftarrow> wait t ((set_status t Dying s)\<lparr>sched_lock := release (sched_lock s)\<rparr>);
               l \<leftarrow> acquire (sched_lock s);
               Some (s\<lparr>sched_lock := l\<rparr>)
             }
             else Some (s\<lparr>waiting_queue :=
                 erase_loop (\<lambda>q. map_option tid (thread_at s q) = Some (tid x)) (waiting_queue s) 0\<rparr>))
          else Some s);
     exit_threads wait core ts
       (s\<lparr>mem := bm_clear_bit (mem s) (tid_bitmap s) (unat (tid x)), thread_at := (thread_at s)(t := None)\<rparr>)
   }"

definition exit_process :: "(nat \<Rightarrow> 'a ksched_scheme \<Rightarrow> 'a ksched_scheme option) \<Rightarrow> nat \<Rightarrow> 'a ksched_scheme \<Rightarrow> 'a ksched_scheme option" where
  "exit_process wait core s = do {
     p \<leftarrow> running_process (cores s core);
     proc \<leftarrow> process_at s p;
     l \<leftarrow> acquire (sched_lock s);
     let s = s\<lparr>sched_lock := l,
       process_list := erase_loop (\<lambda>q. map_option pid (process_at s q) = Some (pid proc)) (process_list s) 0\<rparr>;
     s \<leftarrow> exit_threads wait core (threads proc) s;
     let s = s\<lparr>sched_lock := release (sched_lock s), mem := bm_clear_bit (mem s) (pid_bitmap s) (unat (pid proc))\<rparr>;
     v \<leftarrow> vmm_at s (pagemap proc);
     s \<leftarrow> destroy v s;
     Some (s\<lparr>process_at := (process_at s)(p := None),
             cores := (cores s)(core := (cores s core)\<lparr>running_thread := None, running_process := None\<rparr>)\<rparr>)
   }"

section \<open>System calls\<close>

definition syscall_getpid :: "nat \<Rightarrow> context_t \<Rightarrow> 'a ksched_scheme \<Rightarrow> (context_t \<times> 'a ksched_scheme) option" where
  "syscall_getpid core rg s = do {
     p \<leftarrow> running_process (cores s core);
     proc \<leftarrow> process_at s p;
     Some (rg\<lparr>rax := pid proc\<rparr>, s)
   }"

definition syscall_gettid :: "nat \<Rightarrow> context_t \<Rightarrow> 'a ksched_scheme \<Rightarrow> (context_t \<times> 'a ksched_scheme) option" where
  "syscall_gettid core rg s = do {
     t \<leftarrow> running_thread (cores s core);
     x \<leftarrow> thread_at s t;
     Some (rg\<lparr>rax := tid x\<rparr>, s)
   }"

text \<open>Copying the descriptors dereferences every entry, a closed one too. \<open>at\<close> is the address translation of the
  processor, see \<open>duplicate\<close>.\<close>

definition syscall_fork :: "(mem \<Rightarrow> u64 \<Rightarrow> u64) \<Rightarrow> nat \<Rightarrow> context_t \<Rightarrow> 'a ksched_scheme \<Rightarrow> (context_t \<times> 'a ksched_scheme) option" where
  "syscall_fork at core rg s = do {
     p \<leftarrow> running_process (cores s core);
     parent \<leftarrow> process_at s p;
     let child = obj_fresh s;
     let main_thread = Suc child;
     s \<leftarrow> push_process child (s\<lparr>obj_fresh := Suc main_thread\<rparr>);
     (new_pid, s) \<leftarrow> get_new_pid s;
     kv \<leftarrow> vmm_at s (kernel_vmm s);
     pv \<leftarrow> vmm_at s (pagemap parent);
     (v, s) \<leftarrow> duplicate at kv pv s;
     let pm = vmm_fresh s;
     let s = s\<lparr>vmm_at := (vmm_at s)(pm \<mapsto> v), vmm_fresh := Suc pm\<rparr>;
     if None \<in> set (fd_list parent) then None
     else do {
       let proc = \<lparr>pid = of_int new_pid, p_status = Waiting, process_directory = process_directory parent, threads = [],
                   fd_list = fd_list parent, pagemap = pm\<rparr>;
       (new_tid, s) \<leftarrow> get_new_tid s;
       if new_tid = -1 then Some (rg\<lparr>rax := -1\<rparr>, s\<lparr>process_at := (process_at s)(child \<mapsto> proc)\<rparr>)
       else do {
         let s = s\<lparr>thread_at := (thread_at s)(main_thread \<mapsto>
                     \<lparr>tid = of_int new_tid, th_status = Waiting, parent_process = child, regs = rg\<lparr>rax := 0\<rparr>\<rparr>),
                   process_at := (process_at s)(child \<mapsto> proc\<lparr>threads := [main_thread]\<rparr>)\<rparr>;
         s \<leftarrow> queue_thread main_thread s;
         Some (rg\<lparr>rax := pid proc\<rparr>, s)
       }
     }
   }"

end
