(* ===== verification/Tmpfs_Props.thy ===== *)
theory Tmpfs_Props
  imports Tmpfs
begin

text \<open>
  The directory tree of tmpfs: a path is a list of names, \<open>find_node\<close> is what \<open>path_to_node\<close> computes,
  \<open>fs_ok\<close> is the invariant of the tree, and the lemmas say what opening, creating, reading and writing do.
\<close>

section \<open>Names and paths\<close>

definition good :: "cbuf \<Rightarrow> bool" where
  "good c \<longleftrightarrow> c \<noteq> [] \<and> 0 \<notin> set c \<and> SLASH \<notin> set c"

text \<open>The bytes of \<open>/a/b/c\<close> and of what is left of it behind a name.\<close>

fun path_str :: "cbuf list \<Rightarrow> cbuf" where
  "path_str [] = [0]"
| "path_str (c # cs) = SLASH # c @ path_str cs"

definition has_name :: "(nat \<Rightarrow> tmpfs_node option) \<Rightarrow> cbuf \<Rightarrow> nat \<Rightarrow> bool" where
  "has_name nodes c h = (case nodes h of None \<Rightarrow> False | Some nd \<Rightarrow> t_name nd = c @ [0])"

definition child_named :: "(nat \<Rightarrow> tmpfs_node option) \<Rightarrow> nat \<Rightarrow> cbuf \<Rightarrow> nat option" where
  "child_named nodes n c = (case nodes n of None \<Rightarrow> None | Some nd \<Rightarrow> find (has_name nodes c) (t_children nd))"

fun resolve :: "(nat \<Rightarrow> tmpfs_node option) \<Rightarrow> nat \<Rightarrow> cbuf list \<Rightarrow> nat option" where
  "resolve nodes n [] = Some n"
| "resolve nodes n (c # cs) = (case child_named nodes n c of None \<Rightarrow> None | Some h \<Rightarrow> resolve nodes h cs)"

text \<open>The node of a path, or the last directory on it when at most two names are left over.\<close>

fun find_node :: "(nat \<Rightarrow> tmpfs_node option) \<Rightarrow> nat \<Rightarrow> cbuf list \<Rightarrow> nat option" where
  "find_node nodes n [] = Some n"
| "find_node nodes n (c # cs) = (case child_named nodes n c of
     None \<Rightarrow> if length cs \<le> 1 then Some n else None | Some h \<Rightarrow> find_node nodes h cs)"

definition kids_ok :: "(nat \<Rightarrow> tmpfs_node option) \<Rightarrow> bool" where
  "kids_ok nodes \<longleftrightarrow> (\<forall>n nd h. nodes n = Some nd \<longrightarrow> h \<in> set (t_children nd) \<longrightarrow> (\<exists>c. good c \<and> has_name nodes c h))"

lemma SLASH_neq_0 [simp]: "SLASH \<noteq> 0" "0 \<noteq> SLASH" by (simp_all add: SLASH_def)

lemma path_str_0 [simp]: "path_str cs ! 0 = (if cs = [] then 0 else SLASH)" "path_str cs \<noteq> []"
  by (cases cs; simp)+

lemma good_no_zero: "good c \<Longrightarrow> 0 \<notin> set c" and good_no_slash: "good c \<Longrightarrow> SLASH \<notin> set c" and good_ne: "good c \<Longrightarrow> c \<noteq> []"
  by (simp_all add: good_def)

lemma rd_append [simp]: "rd (xs @ ys) i = (if i < length xs then Some (xs ! i) else rd ys (i - length xs))"
  by (auto simp: rd_def nth_append)

lemma rd_Cons [simp]: "rd (x # xs) 0 = Some x" "rd (x # xs) (Suc i) = rd xs i"
  by (auto simp: rd_def)

lemma rd_path_str_0 [simp]: "rd (path_str cs) 0 = Some (if cs = [] then 0 else SLASH)"
  by (simp add: rd_def)

lemma rd_nil [simp]: "rd [] i = None" by (simp add: rd_def)

text \<open>Comparing a name with the front of a path.\<close>

lemma name_match:
  assumes "good c" "good d"
  shows "strncmp (c @ [0]) (d @ path_str ds) (length c) = Some False \<or>
    strncmp (c @ [0]) (d @ path_str ds) (length c) = Some True \<and>
      (\<exists>x. rd (d @ path_str ds) (length c) = Some x \<and> (if c = d then x = (if ds = [] then 0 else SLASH) else x \<noteq> 0 \<and> x \<noteq> SLASH))"
    (is "?F \<or> ?T")
proof (cases "length c \<le> length d")
  case True
  have cmp: "strncmp (c @ [0]) (d @ path_str ds) (length c) = Some (c = take (length c) d)"
    using True strncmp_take [of "length c" "c @ [0]" "d @ path_str ds"] by simp
  show ?thesis
  proof (cases "c = take (length c) d")
    case pre: True
    consider "c = d" | "length c < length d" using True pre by (cases "length c = length d") auto
    then show ?thesis
    proof cases
      case 1 then show ?thesis using cmp by simp
    next
      case 2
      then have "d ! length c \<in> set d" by simp
      then have "d ! length c \<noteq> 0" "d ! length c \<noteq> SLASH" using assms by (auto simp: good_def)
      then show ?thesis using cmp pre 2 by auto
    qed
  qed (use cmp in simp)
next
  case False
  have "c ! length d \<in> set c" using False by simp
  then have "c ! length d \<noteq> 0" "c ! length d \<noteq> SLASH" using assms by (auto simp: good_def)
  then have "(c @ [0]) ! length d \<noteq> (d @ path_str ds) ! length d"
    using False by (auto simp: nth_append)
  then have ?F using False by (intro strncmp_mismatch [of "length d"]) auto
  then show ?thesis ..
qed

lemma name_match_same: "good c \<Longrightarrow> strncmp (c @ [0]) (c @ path_str ds) (length c) = Some True"
  using strncmp_take [of "length c" "c @ [0]" "c @ path_str ds"] by simp

lemma strlen_name: "good c \<Longrightarrow> strlen (c @ [0]) = Some (length c)"
  by (simp add: strlen_string good_def)

lemma rd_good: "good d \<Longrightarrow> \<exists>x. rd (d @ ys) 0 = Some x \<and> x \<noteq> 0"
  by (cases d) (auto simp: good_def)

lemma walk_heads:
  assumes "good d" "\<forall>h\<in>set hs. \<exists>c. good c \<and> has_name nodes c h"
  shows "walk_names nodes n hs (d @ path_str ds) =
    (case find (has_name nodes d) hs of
       None \<Rightarrow> not_found n (d @ path_str ds)
     | Some h \<Rightarrow> if ds = [] then Some (Some h)
         else walk_names nodes h (t_children (the (nodes h))) (tl (path_str ds)))"
  using assms(2)
proof (induction hs)
  case (Cons h hs)
  obtain c where c: "good c" "has_name nodes c h" using Cons.prems by auto
  then obtain nd where nd: "nodes h = Some nd" "t_name nd = c @ [0]" by (auto simp: has_name_def split: option.splits)
  obtain x where x: "rd (d @ path_str ds) 0 = Some x" "x \<noteq> 0" using rd_good assms(1) by blast
  show ?case
  proof (cases "c = d")
    case True
    have "drop (Suc (length d)) (d @ path_str ds) = tl (path_str ds)" by (simp add: drop_Suc)
    then show ?thesis using True nd x c name_match_same [OF assms(1), of ds]
      by (simp add: strlen_name has_name_def del: rd_append) simp
  next
    case False
    have ne: "\<not> has_name nodes d h" using False nd by (simp add: has_name_def)
    have "walk_names nodes n (h # hs) (d @ path_str ds) = walk_names nodes n hs (d @ path_str ds)"
      using name_match [OF c(1) assms(1), of ds] False nd x by (auto simp: strlen_name c simp del: rd_append)
    then show ?thesis using Cons.IH Cons.prems ne by simp
  qed
qed simp

text \<open>The loops over what is left of a path.\<close>

lemma count_slashes_name:
  assumes "0 \<notin> set d" "SLASH \<notin> set d"
  shows "count_slashes (pre @ d @ rest) (length pre) k = count_slashes (pre @ d @ rest) (length pre + length d) k"
  using assms
proof (induction d arbitrary: pre)
  case (Cons x d)
  have "count_slashes (pre @ (x # d) @ rest) (length pre) k = count_slashes ((pre @ [x]) @ d @ rest) (length (pre @ [x])) k"
    using Cons.prems by (subst count_slashes.simps) auto
  then show ?case using Cons.IH [of "pre @ [x]"] Cons.prems by simp
qed simp

lemma count_slashes_path:
  assumes "\<forall>c\<in>set cs. good c" "k \<le> 1"
  shows "count_slashes (pre @ path_str cs) (length pre) k = Some (k + length cs \<le> 1)"
  using assms
proof (induction cs arbitrary: pre k)
  case Nil
  then show ?case by (subst count_slashes.simps) simp
next
  case (Cons c cs)
  obtain x where x: "rd (c @ path_str cs) 0 = Some x" "x \<noteq> 0" using rd_good Cons.prems by (metis list.set_intros(1))
  have step: "count_slashes (pre @ path_str (c # cs)) (length pre) k =
      (if k + 1 > 1 then Some False else count_slashes (pre @ path_str (c # cs)) (length pre + 1) (k + 1))"
    using x by (subst count_slashes.simps) (simp del: rd_append add: rd_append [of pre])
  have "count_slashes (pre @ path_str (c # cs)) (length pre + 1) (k + 1) =
      count_slashes ((pre @ SLASH # c) @ path_str cs) (length (pre @ SLASH # c)) (k + 1)"
    using count_slashes_name [of c "pre @ [SLASH]" "path_str cs" "k + 1"] Cons.prems by (simp add: good_def)
  then show ?case using step Cons.IH [of "k + 1" "pre @ SLASH # c"] Cons.prems by (cases k) simp_all
qed

lemma not_found_path:
  assumes "good d" "\<forall>c\<in>set ds. good c"
  shows "not_found n (d @ path_str ds) = Some (if length ds \<le> 1 then Some n else None)"
  using count_slashes_name [of d "[]" "path_str ds" 0] count_slashes_path [of ds 0 d] assms
  by (simp add: not_found_def good_def)

lemma walk_finds:
  assumes "kids_ok nodes" "\<forall>c\<in>set (d # ds). good c" "nodes n = Some nd"
  shows "walk_names nodes n (t_children nd) (d @ path_str ds) = Some (find_node nodes n (d # ds))"
  using assms(2,3)
proof (induction ds arbitrary: n nd d)
  case Nil
  have kids: "\<forall>h\<in>set (t_children nd). \<exists>c. good c \<and> has_name nodes c h" using assms(1) Nil by (auto simp: kids_ok_def)
  show ?case using Nil walk_heads [OF _ kids, of d n "[]"] not_found_path [of d "[]" n]
    by (simp add: child_named_def split: option.splits)
next
  case (Cons e es)
  have kids: "\<forall>h\<in>set (t_children nd). \<exists>c. good c \<and> has_name nodes c h" using assms(1) Cons.prems by (auto simp: kids_ok_def)
  show ?case
  proof (cases "find (has_name nodes d) (t_children nd)")
    case None
    then show ?thesis using Cons.prems walk_heads [OF _ kids, of d n "e # es"] not_found_path [of d "e # es" n]
      by (simp add: child_named_def)
  next
    case (Some h)
    then have "has_name nodes d h" by (auto simp: find_Some_iff)
    then obtain hd where "nodes h = Some hd" by (auto simp: has_name_def split: option.splits)
    then show ?thesis using Some Cons.prems Cons.IH [of e h hd] walk_heads [OF _ kids, of d n "e # es"]
      by (simp add: child_named_def)
  qed
qed

lemma path_to_node_finds:
  assumes "kids_ok (t_nodes s)" "t_nodes s (root_tmpfs_node s) \<noteq> None" "cs \<noteq> []" "\<forall>c\<in>set cs. good c"
  shows "path_to_node False (path_str cs) wd s = Some (find_node (t_nodes s) (root_tmpfs_node s) cs)"
  using assms by (cases cs) (auto simp: path_to_node_def walk_finds)

lemma last_slash_name:
  assumes "0 \<notin> set d" "SLASH \<notin> set d"
  shows "last_slash (pre @ d @ rest) (length pre) l = last_slash (pre @ d @ rest) (length pre + length d) l"
  using assms
proof (induction d arbitrary: pre)
  case (Cons x d)
  have "last_slash (pre @ (x # d) @ rest) (length pre) l = last_slash ((pre @ [x]) @ d @ rest) (length (pre @ [x])) l"
    using Cons.prems by (subst last_slash.simps) auto
  then show ?case using Cons.IH [of "pre @ [x]"] Cons.prems by simp
qed simp

lemma last_slash_path:
  assumes "\<forall>c\<in>set (c # cs). good c"
  shows "\<exists>k. last_slash (pre @ path_str (c # cs)) (length pre) l = Some (int k) \<and>
    drop (Suc k) (pre @ path_str (c # cs)) = last (c # cs) @ [0]"
  using assms
proof (induction cs arbitrary: c pre l)
  case Nil
  obtain x where x: "rd (c @ [0]) 0 = Some x" "x \<noteq> 0" using rd_good Nil by (metis list.set_intros(1))
  have step: "last_slash (pre @ path_str [c]) (length pre) l = last_slash (pre @ path_str [c]) (length pre + 1) (int (length pre))"
    using x by (subst last_slash.simps) (simp del: rd_append add: rd_append [of pre])
  have "last_slash (pre @ path_str [c]) (length pre + 1) (int (length pre)) =
      last_slash (pre @ path_str [c]) (length (pre @ SLASH # c)) (int (length pre))"
    using last_slash_name [of c "pre @ [SLASH]" "[0]" "int (length pre)"] Nil by (simp add: good_def)
  also have "\<dots> = Some (int (length pre))" by (subst last_slash.simps) simp
  finally show ?case using step by (intro exI [of _ "length pre"]) (simp del: last_slash.simps)
next
  case (Cons e es)
  obtain x where x: "rd (c @ path_str (e # es)) 0 = Some x" "x \<noteq> 0" using rd_good Cons.prems by (metis list.set_intros(1))
  have step: "last_slash (pre @ path_str (c # e # es)) (length pre) l =
      last_slash (pre @ path_str (c # e # es)) (length pre + 1) (int (length pre))"
    using x by (subst last_slash.simps) (simp del: rd_append path_str.simps(2) [of e] add: rd_append [of pre])
  have eq: "last_slash (pre @ path_str (c # e # es)) (length pre + 1) (int (length pre)) =
      last_slash ((pre @ SLASH # c) @ path_str (e # es)) (length (pre @ SLASH # c)) (int (length pre))"
    using last_slash_name [of c "pre @ [SLASH]" "path_str (e # es)" "int (length pre)"] Cons.prems by (simp add: good_def)
  have "\<forall>c\<in>set (e # es). good c" using Cons.prems by simp
  from Cons.IH [OF this, of "pre @ SLASH # c" "int (length pre)"] obtain k where
    "last_slash ((pre @ SLASH # c) @ path_str (e # es)) (length (pre @ SLASH # c)) (int (length pre)) = Some (int k)"
    "drop (Suc k) ((pre @ SLASH # c) @ path_str (e # es)) = last (e # es) @ [0]" by blast
  then show ?case using step eq by (intro exI [of _ k]) simp
qed

lemma get_name_path:
  assumes "cs \<noteq> []" "\<forall>c\<in>set cs. good c"
  shows "get_name_from_path (path_str cs) = Some (last cs @ [0])"
proof -
  obtain c cs' where cs: "cs = c # cs'" using assms(1) by (cases cs) auto
  from last_slash_path [of c cs' "[]" "-1"] obtain k where
    "last_slash (path_str cs) 0 (-1) = Some (int k)" "drop (Suc k) (path_str cs) = last cs @ [0]"
    using assms cs by auto
  then show ?thesis by (simp add: get_name_from_path_def nat_add_distrib)
qed

section \<open>The invariant of the tree\<close>

definition fs_ok :: "'a ktmpfs_scheme \<Rightarrow> bool" where
  "fs_ok s \<longleftrightarrow>
     (\<exists>r. t_nodes s (root_tmpfs_node s) = Some r \<and> t_type r = Directory \<and> t_name r = [SLASH, 0] \<and> t_parent r = None) \<and>
     kids_ok (t_nodes s) \<and>
     (\<forall>n nd. t_nodes s n = Some nd \<longrightarrow> n < t_fresh s \<and> distinct (t_children nd) \<and>
        (\<forall>h \<in> set (t_children nd). \<exists>hd. t_nodes s h = Some hd \<and> t_parent hd = Some n) \<and>
        (\<forall>p. t_parent nd = Some p \<longrightarrow> (\<exists>pd. t_nodes s p = Some pd \<and> n \<in> set (t_children pd))))"

lemma fs_okD:
  assumes "fs_ok s"
  shows "kids_ok (t_nodes s)" "t_nodes s (root_tmpfs_node s) \<noteq> None" "t_nodes s (t_fresh s) = None"
    "t_nodes s n = Some nd \<Longrightarrow> h \<in> set (t_children nd) \<Longrightarrow> t_nodes s h \<noteq> None"
    "t_nodes s n = Some nd \<Longrightarrow> n \<noteq> t_fresh s"
    "t_nodes s n = Some nd \<Longrightarrow> t_fresh s \<notin> set (t_children nd)"
proof -
  show fresh: "t_nodes s (t_fresh s) = None"
    using assms unfolding fs_ok_def by (metis less_irrefl option.exhaust)
  show "t_nodes s n = Some nd \<Longrightarrow> h \<in> set (t_children nd) \<Longrightarrow> t_nodes s h \<noteq> None"
    using assms unfolding fs_ok_def by blast
  show "t_nodes s n = Some nd \<Longrightarrow> t_fresh s \<notin> set (t_children nd)"
    using assms fresh unfolding fs_ok_def by force
qed (use assms in \<open>auto simp: fs_ok_def\<close>)

lemma has_name_add:
  assumes "t_nodes s p = Some parent" "t_nodes s (t_fresh s) = None"
  shows "has_name (t_nodes (add_child p parent new s)) c h =
    (if h = t_fresh s then t_name new = c @ [0] else has_name (t_nodes s) c h)"
  using assms by (auto simp: has_name_def add_child_def)

lemma find_same: "(\<And>h. h \<in> set hs \<Longrightarrow> P h = Q h) \<Longrightarrow> find P hs = find Q hs"
  by (induction hs) auto

lemma child_named_add:
  assumes "fs_ok s" "t_nodes s p = Some parent" "t_children new = []" "t_name new = c @ [0]" "t_nodes s n = Some nd"
  shows "child_named (t_nodes (add_child p parent new s)) n d =
    (if n = p \<and> d = c then Some (t_fresh s) else child_named (t_nodes s) n d)"
proof -
  let ?N = "t_nodes (add_child p parent new s)"
  have hn: "has_name ?N d h = has_name (t_nodes s) d h" if "h \<noteq> t_fresh s" for h
    using has_name_add [OF assms(2) fs_okD(3) [OF assms(1)]] that by simp
  have fr: "has_name ?N d (t_fresh s) \<longleftrightarrow> d = c"
    using has_name_add [OF assms(2) fs_okD(3) [OF assms(1)]] assms(4) by auto
  have old: "find (has_name ?N d) (t_children nd) = find (has_name (t_nodes s) d) (t_children nd)"
    using fs_okD(6) [OF assms(1,5)] hn by (intro find_same) metis
  show ?thesis
  proof (cases "n = p")
    case True
    then have "?N n = Some (parent\<lparr>t_children := t_fresh s # t_children parent\<rparr>)" "parent = nd"
      using assms fs_okD(5) [OF assms(1,2)] by (auto simp: add_child_def)
    then show ?thesis using True old fr assms(5) by (simp add: child_named_def)
  next
    case False
    then have "?N n = Some nd" using assms fs_okD(5) [OF assms(1,5)] by (simp add: add_child_def)
    then show ?thesis using False old assms(5) by (simp add: child_named_def)
  qed
qed

lemma child_named_in:
  "child_named nodes n c = Some h \<Longrightarrow> \<exists>nd. nodes n = Some nd \<and> h \<in> set (t_children nd) \<and> has_name nodes c h"
  by (auto simp: child_named_def find_Some_iff split: option.splits)

lemma child_named_exists: "fs_ok s \<Longrightarrow> child_named (t_nodes s) n c = Some h \<Longrightarrow> \<exists>hd. t_nodes s h = Some hd"
  using child_named_in [of "t_nodes s" n c h] by (auto simp: has_name_def split: option.splits)

lemma resolve_exists:
  assumes "fs_ok s" "t_nodes s n = Some nd" "resolve (t_nodes s) n cs = Some m"
  shows "\<exists>md. t_nodes s m = Some md"
  using assms(2,3)
proof (induction cs arbitrary: n nd)
  case (Cons c cs)
  then obtain h where "child_named (t_nodes s) n c = Some h" "resolve (t_nodes s) h cs = Some m"
    by (auto split: option.splits)
  then show ?case using Cons.IH child_named_exists [OF assms(1)] by blast
qed simp

lemma find_node_exists:
  assumes "fs_ok s" "t_nodes s n = Some nd" "find_node (t_nodes s) n cs = Some m"
  shows "\<exists>md. t_nodes s m = Some md"
  using assms(2,3)
proof (induction cs arbitrary: n nd)
  case (Cons c cs)
  show ?case
  proof (cases "child_named (t_nodes s) n c")
    case None then show ?thesis using Cons.prems by (auto split: if_splits)
  next
    case (Some h)
    then show ?thesis using Cons.prems Cons.IH child_named_exists [OF assms(1) Some] by auto
  qed
qed simp

lemma resolve_find: "resolve nodes n cs = Some m \<Longrightarrow> find_node nodes n cs = Some m"
  by (induction cs arbitrary: n) (auto split: option.splits)

lemma find_node_missing:
  "resolve nodes n cs = Some m \<Longrightarrow> child_named nodes m c = None \<Longrightarrow> find_node nodes n (cs @ [c]) = Some m"
  by (induction cs arbitrary: n) (auto split: option.splits)

lemma resolve_add:
  assumes "fs_ok s" "t_nodes s p = Some parent" "t_children new = []" "t_name new = c @ [0]"
    "child_named (t_nodes s) p c = None" "t_nodes s n = Some nd"
  shows "resolve (t_nodes s) n q = Some m \<Longrightarrow> resolve (t_nodes (add_child p parent new s)) n q = Some m"
    and "resolve (t_nodes s) n q = Some p \<Longrightarrow>
      resolve (t_nodes (add_child p parent new s)) n (q @ [c]) = Some (t_fresh s)"
  using assms(6)
proof (induction q arbitrary: n nd)
  case Nil
  { case 1 then show ?case by simp }
  { case 2 then show ?case using child_named_add [OF assms(1-4), of p] assms(2) by simp }
next
  case (Cons d q)
  have cn: "child_named (t_nodes (add_child p parent new s)) n d = Some h"
    if "child_named (t_nodes s) n d = Some h" "t_nodes s n = Some nd" for n h nd
    using that assms(5) child_named_add [OF assms(1-4), of n] by auto
  { case 1
    then obtain h where h: "child_named (t_nodes s) n d = Some h" "resolve (t_nodes s) h q = Some m" by (auto split: option.splits)
    show ?case using cn [OF h(1)] Cons.IH(1) [OF h(2)] 1 child_named_exists [OF assms(1) h(1)] by auto }
  { case 2
    then obtain h where h: "child_named (t_nodes s) n d = Some h" "resolve (t_nodes s) h q = Some p" by (auto split: option.splits)
    show ?case using cn [OF h(1)] Cons.IH(2) [OF h(2)] 2 child_named_exists [OF assms(1) h(1)] by auto }
qed

lemma add_child_ok:
  assumes ok: "fs_ok s" and p: "t_nodes s p = Some parent" and new: "t_children new = []" "t_name new = c @ [0]" "good c" "t_parent new = Some p"
  shows "fs_ok (add_child p parent new s)"
proof -
  let ?s = "add_child p parent new s"
  have fresh: "t_nodes s (t_fresh s) = None" "p \<noteq> t_fresh s" using fs_okD [OF ok] p by auto
  have nodes: "t_nodes ?s n = (if n = p then Some (parent\<lparr>t_children := t_fresh s # t_children parent\<rparr>)
      else if n = t_fresh s then Some new else t_nodes s n)" for n
    by (simp add: add_child_def)
  have [simp]: "root_tmpfs_node ?s = root_tmpfs_node s" "t_fresh ?s = Suc (t_fresh s)" by (simp_all add: add_child_def)
  have kids: "kids_ok (t_nodes ?s)"
    unfolding kids_ok_def
  proof (intro allI impI)
    fix n nd h assume "t_nodes ?s n = Some nd" "h \<in> set (t_children nd)"
    then have "h = t_fresh s \<or> (\<exists>od. t_nodes s n = Some od \<and> h \<in> set (t_children od))"
      using new(1) p by (auto simp: nodes split: if_splits)
    then show "\<exists>c. good c \<and> has_name (t_nodes ?s) c h"
    proof
      assume "h = t_fresh s" then show ?thesis using has_name_add [OF p fresh(1)] new by auto
    next
      assume "\<exists>od. t_nodes s n = Some od \<and> h \<in> set (t_children od)"
      then obtain c' where "good c'" "has_name (t_nodes s) c' h" "h \<noteq> t_fresh s"
        using fs_okD(1,6) [OF ok] unfolding kids_ok_def by metis
      then show ?thesis using has_name_add [OF p fresh(1)] by auto
    qed
  qed
  have tree: "n < t_fresh ?s \<and> distinct (t_children nd) \<and>
        (\<forall>h \<in> set (t_children nd). \<exists>hd. t_nodes ?s h = Some hd \<and> t_parent hd = Some n) \<and>
        (\<forall>q. t_parent nd = Some q \<longrightarrow> (\<exists>pd. t_nodes ?s q = Some pd \<and> n \<in> set (t_children pd)))"
    if "t_nodes ?s n = Some nd" for n nd
  proof -
    have old: "m < t_fresh s" "distinct (t_children md)" "\<forall>h \<in> set (t_children md). \<exists>hd. t_nodes s h = Some hd \<and> t_parent hd = Some m"
      "\<forall>q. t_parent md = Some q \<longrightarrow> (\<exists>pd. t_nodes s q = Some pd \<and> m \<in> set (t_children pd))"
      if "t_nodes s m = Some md" for m md using ok that by (auto simp: fs_ok_def)
    consider "n = p" | "n = t_fresh s" "n \<noteq> p" | "n \<noteq> p" "n \<noteq> t_fresh s" by blast
    then show ?thesis
    proof cases
      case 1
      then have nd: "nd = parent\<lparr>t_children := t_fresh s # t_children parent\<rparr>" using that by (simp add: nodes)
      show ?thesis using 1 old [OF p] p new fresh fs_okD(6) [OF ok p] unfolding nd by (force simp: nodes)
    next
      case 2
      then have nd: "nd = new" using that by (simp add: nodes)
      show ?thesis using 2 new fresh unfolding nd by (simp add: nodes)
    next
      case 3
      then have "t_nodes s n = Some nd" using that by (simp add: nodes)
      from old [OF this] show ?thesis using p fresh by (force simp: nodes)
    qed
  qed
  have root: "\<exists>r. t_nodes ?s (root_tmpfs_node ?s) = Some r \<and> t_type r = Directory \<and> t_name r = [SLASH, 0] \<and> t_parent r = None"
    using ok p fresh by (auto simp: fs_ok_def nodes)
  show ?thesis unfolding fs_ok_def using kids tree root by blast
qed

section \<open>Opening and creating\<close>

definition node_name :: "tmpfs_node \<Rightarrow> cbuf" where
  "node_name nd = butlast (t_name nd)"

lemma found_named:
  assumes "fs_ok s" "find_node (t_nodes s) (root_tmpfs_node s) cs = Some m" "t_nodes s m = Some md"
  shows "t_name md = node_name md @ [0]" "0 \<notin> set (node_name md)"
proof -
  have "m = n \<or> (\<exists>c. good c \<and> has_name (t_nodes s) c m)" if "find_node (t_nodes s) n cs = Some m" for n
    using that
  proof (induction cs arbitrary: n)
    case (Cons c cs)
    show ?case
    proof (cases "child_named (t_nodes s) n c")
      case (Some h)
      then have "\<exists>c. good c \<and> has_name (t_nodes s) c h"
        using child_named_in fs_okD(1) [OF assms(1)] unfolding kids_ok_def by blast
      then show ?thesis using Some Cons by auto
    qed (use Cons.prems in \<open>auto split: if_splits\<close>)
  qed simp
  from this [OF assms(2)] have "t_name md = [SLASH] @ [0] \<or> (\<exists>c. good c \<and> t_name md = c @ [0])"
    using assms(1,3) by (auto simp: fs_ok_def has_name_def)
  then show "t_name md = node_name md @ [0]" "0 \<notin> set (node_name md)"
    by (auto simp: node_name_def good_def)
qed

lemma found_strcmp:
  assumes "fs_ok s" "find_node (t_nodes s) (root_tmpfs_node s) cs = Some m" "t_nodes s m = Some md"
    and "cs \<noteq> []" "\<forall>c\<in>set cs. good c"
  shows "strcmp (last cs @ [0]) (t_name md) = Some (t_name md = last cs @ [0])"
  using found_named [OF assms(1-3)] strcmp_eq [of "last cs" "node_name md" "[]" "[]"] assms(4,5)
  by (auto simp: good_def)

definition new_file :: "cbuf \<Rightarrow> nat \<Rightarrow> u64 \<Rightarrow> 'a ktmpfs_scheme \<Rightarrow> tmpfs_node" where
  "new_file c d page s =
     (new_fs_node (c @ [0]) 4096 0 File (Some d) (tmp_filesystem s))\<lparr>t_data := page + PHYSICAL_BASE_ADDRESS\<rparr>"

lemma new_file_simps [simp]:
  "t_children (new_file c d page s) = []" "t_name (new_file c d page s) = c @ [0]" "t_parent (new_file c d page s) = Some d"
  "t_type (new_file c d page s) = File" "t_size (new_file c d page s) = 4096"
  "t_data (new_file c d page s) = page + PHYSICAL_BASE_ADDRESS"
  by (simp_all add: new_file_def new_fs_node_def)

lemma open_spec:
  assumes "fs_ok s" "cs \<noteq> []" "\<forall>c\<in>set cs. good c"
  shows "tmpfs_open wd False (path_str cs) mode s =
    (case find_node (t_nodes s) (root_tmpfs_node s) cs of
       None \<Rightarrow> Some (None, s)
     | Some m \<Rightarrow> (let md = the (t_nodes s m) in
         if mode AND CREATE \<noteq> 0 then
           (if t_name md = last cs @ [0] \<or> t_type md \<noteq> Directory then Some (None, s)
            else map_option (\<lambda>(page, s'). (Some \<lparr>fd_file = Tmp_node (t_fresh s'), fd_mode = mode, fd_offset = 0\<rparr>,
                add_child m md (new_file (last cs) m page s') s')) (pmm_alloc 1 s))
         else if t_name md = last cs @ [0] \<and> t_type md = File
         then Some (Some \<lparr>fd_file = Tmp_node m, fd_mode = mode, fd_offset = 0\<rparr>, s)
         else Some (None, s)))"
proof (cases "find_node (t_nodes s) (root_tmpfs_node s) cs")
  case None
  then show ?thesis
    using path_to_node_finds [OF fs_okD(1,2) [OF assms(1)] assms(2,3)] by (simp add: tmpfs_open_def)
next
  case (Some m)
  then obtain md where md: "t_nodes s m = Some md"
    using find_node_exists [OF assms(1) _ Some] fs_okD(2) [OF assms(1)] by blast
  show ?thesis
    using Some md path_to_node_finds [OF fs_okD(1,2) [OF assms(1)] assms(2,3), of wd]
      get_name_path [OF assms(2,3)] found_strcmp [OF assms(1) Some md assms(2,3)]
    by (cases "pmm_alloc (Suc 0) s") (auto simp: tmpfs_open_def Let_def new_file_def)
qed

lemma mkdir_spec:
  assumes "fs_ok s" "cs \<noteq> []" "\<forall>c\<in>set cs. good c"
  shows "tmpfs_mkdir wd False (path_str cs) s =
    Some (case find_node (t_nodes s) (root_tmpfs_node s) cs of
       None \<Rightarrow> (-1, s)
     | Some m \<Rightarrow> (let md = the (t_nodes s m) in
         if t_name md = last cs @ [0] then (-1, s)
         else (0, add_child m md (new_fs_node (last cs @ [0]) 0 0 Directory (Some m) (tmp_filesystem s)) s)))"
proof (cases "find_node (t_nodes s) (root_tmpfs_node s) cs")
  case None
  then show ?thesis
    using path_to_node_finds [OF fs_okD(1,2) [OF assms(1)] assms(2,3)] by (simp add: tmpfs_mkdir_def)
next
  case (Some m)
  then obtain md where md: "t_nodes s m = Some md"
    using find_node_exists [OF assms(1) _ Some] fs_okD(2) [OF assms(1)] by blast
  show ?thesis
    using Some md path_to_node_finds [OF fs_okD(1,2) [OF assms(1)] assms(2,3), of wd]
      get_name_path [OF assms(2,3)] found_strcmp [OF assms(1) Some md assms(2,3)]
    by (simp add: tmpfs_mkdir_def Let_def)
qed

lemma fs_ok_mem [simp]: "fs_ok (s\<lparr>mem := m\<rparr>) = fs_ok s"
  by (simp add: fs_ok_def)

text \<open>What creating a file in a directory \<open>d\<close> the walk found does, with a page left.\<close>

lemma create_in:
  fixes s :: "'a ktmpfs_scheme"
  assumes "fs_ok s" "pages_ok s" "free_page s q" "cs \<noteq> []" "\<forall>c\<in>set cs. good c" "mode AND CREATE \<noteq> 0"
    and "find_node (t_nodes s) (root_tmpfs_node s) cs = Some d" "t_nodes s d = Some dd" "t_type dd = Directory" "t_name dd \<noteq> last cs @ [0]"
  obtains page and s1 :: "'a ktmpfs_scheme" where
    "tmpfs_open wd False (path_str cs) mode s =
       Some (Some \<lparr>fd_file = Tmp_node (t_fresh s), fd_mode = mode, fd_offset = 0\<rparr>, add_child d dd (new_file (last cs) d page s1) s1)"
    "fs_ok s1" "t_nodes s1 = t_nodes s" "root_tmpfs_node s1 = root_tmpfs_node s" "t_fresh s1 = t_fresh s" "pages_ok s1"
    "\<forall>x \<in> span (page + PHYSICAL_BASE_ADDRESS) 4096. mem s1 x = 0"
proof -
  obtain p m where pm: "pmm_alloc 1 s = Some (page_addr p, s\<lparr>mem := m\<rparr>)"
    using pmm_alloc_returns [of s 1] assms(2) by (auto simp: pages_ok_def)
  obtain p' s' where ps: "pmm_alloc 1 s = Some (page_addr p', s')" "pages_ok s'" "\<forall>x \<in> frame p'. mem s' x = 0"
    using pa.alloc_frame [OF assms(2,3)] by blast
  then have s': "page_addr p' = page_addr p" "s' = s\<lparr>mem := m\<rparr>" using pm by auto
  have "tmpfs_open wd False (path_str cs) mode s =
      Some (Some \<lparr>fd_file = Tmp_node (t_fresh s), fd_mode = mode, fd_offset = 0\<rparr>, add_child d dd (new_file (last cs) d (page_addr p) s') s')"
    using open_spec [OF assms(1,4,5), of wd mode] assms(6-) pm s' by (simp add: Let_def)
  moreover have "span (page_addr p + PHYSICAL_BASE_ADDRESS) 4096 = frame p'"
    using s'(1) by (simp add: frame_def PAGE_SIZE_def add.commute)
  ultimately show ?thesis using ps s' assms(1) by (intro that [of "page_addr p" s']) auto
qed

text \<open>A tree with one directory \<open>/d\<close> over eight free pages.\<close>

definition tmpfs_sample :: ktmpfs where
  "tmpfs_sample =
     \<lparr>mem = mem pmm_sample, bitmap = bitmap pmm_sample, bitmapSize = bitmapSize pmm_sample,
      lastUsablePage = lastUsablePage pmm_sample, pmm_lock = 0, frameBuffer = 0x200000, pitch = 320, bpp = 32,
      screen_width = 80, screen_height = 36, cursor_x = 0, cursor_y = 0, tmp_filesystem = Some tmpfs,
      t_nodes = [0 \<mapsto> (new_fs_node [SLASH, 0] 0 0 Directory None None)\<lparr>t_children := [1]\<rparr>,
                 1 \<mapsto> new_fs_node [100, 0] 0 0 Directory (Some 0) (Some tmpfs)],
      root_tmpfs_node = 0, t_fresh = 2\<rparr>"

lemma tmpfs_sample_free: "free_page tmpfs_sample i \<longleftrightarrow> i < 8"
  using pmm_sample_free [of i] by (simp add: free_page_def tmpfs_sample_def)

lemma tmpfs_sample_pages: "pages_ok tmpfs_sample"
proof -
  have "free_page tmpfs_sample = free_page pmm_sample" "bitmap_bytes tmpfs_sample = bitmap_bytes pmm_sample"
    "bitmapSize tmpfs_sample = bitmapSize pmm_sample" "pmm_lock tmpfs_sample = 0"
    by (auto simp: free_page_def bitmap_bytes_def tmpfs_sample_def fun_eq_iff)
  moreover have "bitmapSize pmm_sample \<le> 2 ^ 31" by (simp add: pmm_sample_def)
  ultimately show ?thesis using pmm_sample_wf by (simp add: pages_ok_def pmm_wf_def)
qed

lemma tmpfs_sample_nodes:
  "t_nodes tmpfs_sample = [0 \<mapsto> (new_fs_node [SLASH, 0] 0 0 Directory None None)\<lparr>t_children := [1]\<rparr>,
     1 \<mapsto> new_fs_node [100, 0] 0 0 Directory (Some 0) (Some tmpfs)]"
  "root_tmpfs_node tmpfs_sample = 0" "t_fresh tmpfs_sample = 2"
  by (simp_all add: tmpfs_sample_def)

lemma tmpfs_sample_ok: "fs_ok tmpfs_sample"
proof -
  have "good [100]" by (simp add: good_def SLASH_def)
  then have "\<exists>c. good c \<and> has_name (t_nodes tmpfs_sample) c 1"
    by (intro exI [of _ "[100]"]) (simp add: has_name_def tmpfs_sample_nodes new_fs_node_def)
  then have "kids_ok (t_nodes tmpfs_sample)"
    by (auto simp: kids_ok_def tmpfs_sample_nodes new_fs_node_def split: if_splits)
  then show ?thesis
    by (auto simp: fs_ok_def tmpfs_sample_nodes new_fs_node_def split: if_splits)
qed



text \<open>C4: creating a file in an existing directory that has no child of that name and is not itself called so gives a
  descriptor of a new, zeroed file of one page; the tree stays well-formed, every path that led somewhere leads to
  the same node, and opening the path afterwards gives the same file.\<close>

theorem tmpfs_create_then_open:
  assumes "fs_ok s" "pages_ok s" "free_page s q" "\<forall>c\<in>set (cs @ [c]). good c"
    and "resolve (t_nodes s) (root_tmpfs_node s) cs = Some d" "t_nodes s d = Some dd" "t_type dd = Directory"
    and "t_name dd \<noteq> c @ [0]" "child_named (t_nodes s) d c = None"
    and "mode AND CREATE \<noteq> 0" "mode' AND CREATE = 0"
  shows "\<exists>f s' nd. tmpfs_open wd False (path_str (cs @ [c])) mode s =
      Some (Some \<lparr>fd_file = Tmp_node f, fd_mode = mode, fd_offset = 0\<rparr>, s') \<and> t_nodes s f = None \<and>
    tmpfs_open wd' False (path_str (cs @ [c])) mode' s' =
      Some (Some \<lparr>fd_file = Tmp_node f, fd_mode = mode', fd_offset = 0\<rparr>, s') \<and>
    fs_ok s' \<and> t_nodes s' f = Some nd \<and> t_size nd = 4096 \<and> (\<forall>x \<in> span (t_data nd) 4096. mem s' x = 0) \<and>
    (\<forall>p m. resolve (t_nodes s) (root_tmpfs_node s) p = Some m \<longrightarrow> resolve (t_nodes s') (root_tmpfs_node s') p = Some m)"
proof -
  have fn: "find_node (t_nodes s) (root_tmpfs_node s) (cs @ [c]) = Some d"
    by (rule find_node_missing [OF assms(5,9)])
  have ne: "cs @ [c] \<noteq> []" and nm: "t_name dd \<noteq> last (cs @ [c]) @ [0]" using assms(8) by simp_all
  obtain page s1 where c1: "tmpfs_open wd False (path_str (cs @ [c])) mode s =
       Some (Some \<lparr>fd_file = Tmp_node (t_fresh s), fd_mode = mode, fd_offset = 0\<rparr>, add_child d dd (new_file (last (cs @ [c])) d page s1) s1)"
    "fs_ok s1" "t_nodes s1 = t_nodes s" "root_tmpfs_node s1 = root_tmpfs_node s" "t_fresh s1 = t_fresh s"
    "\<forall>x \<in> span (page + PHYSICAL_BASE_ADDRESS) 4096. mem s1 x = 0"
    by (rule create_in [OF assms(1-3) ne assms(4,10) fn assms(6,7) nm]) (rule that)
  let ?new = "new_file c d page s1" and ?s' = "add_child d dd (new_file c d page s1) s1"
  have dd: "t_nodes s1 d = Some dd" "child_named (t_nodes s1) d c = None" using assms(6,9) c1(3) by simp_all
  have ok: "fs_ok ?s'" by (rule add_child_ok [OF c1(2) dd(1), where c = c]) (use assms(4) in auto)
  obtain r where r: "t_nodes s1 (root_tmpfs_node s1) = Some r" using fs_okD(2) [OF c1(2)] by blast
  have root: "root_tmpfs_node ?s' = root_tmpfs_node s" using c1(4) by (simp add: add_child_def)
  have res: "resolve (t_nodes ?s') (root_tmpfs_node ?s') (cs @ [c]) = Some (t_fresh s)"
    using resolve_add(2) [OF c1(2) dd(1) new_file_simps(1,2) dd(2) r] assms(5) c1 root by simp
  have new: "t_nodes ?s' (t_fresh s) = Some ?new"
    using fs_okD(5) [OF c1(2) dd(1)] c1(5) by (simp add: add_child_def)
  have "tmpfs_open wd' False (path_str (cs @ [c])) mode' ?s' =
      Some (Some \<lparr>fd_file = Tmp_node (t_fresh s), fd_mode = mode', fd_offset = 0\<rparr>, ?s')"
    using open_spec [OF ok ne assms(4), of wd' mode'] resolve_find [OF res] new assms(11) by (simp add: Let_def)
  moreover have "mem ?s' = mem s1" by (simp add: add_child_def)
  moreover have "resolve (t_nodes ?s') (root_tmpfs_node ?s') p = Some m" if "resolve (t_nodes s) (root_tmpfs_node s) p = Some m" for p m
    using resolve_add(1) [OF c1(2) dd(1) new_file_simps(1,2) dd(2) r] that c1 root by simp
  ultimately show ?thesis using c1 ok new fs_okD(3) [OF assms(1)]
    by (intro exI [of _ "t_fresh s"] exI [of _ ?s'] exI [of _ ?new]) simp
qed

lemma create_bit [simp]: "CREATE AND CREATE \<noteq> 0" "READ AND CREATE = 0"
  by (simp_all add: CREATE_def READ_def)

theorem tmpfs_create_then_open_witness:
  "\<exists>f s'. tmpfs_open None False (path_str [[100], [101]]) CREATE tmpfs_sample =
      Some (Some \<lparr>fd_file = Tmp_node f, fd_mode = CREATE, fd_offset = 0\<rparr>, s') \<and>
    tmpfs_open None False (path_str [[100], [101]]) READ s' =
      Some (Some \<lparr>fd_file = Tmp_node f, fd_mode = READ, fd_offset = 0\<rparr>, s')"
proof -
  have res: "resolve (t_nodes tmpfs_sample) (root_tmpfs_node tmpfs_sample) [[100]] = Some 1"
    by (simp add: child_named_def has_name_def tmpfs_sample_nodes new_fs_node_def)
  have nd: "t_nodes tmpfs_sample 1 = Some (new_fs_node [100, 0] 0 0 Directory (Some 0) (Some tmpfs))"
    by (simp add: tmpfs_sample_nodes)
  have none: "child_named (t_nodes tmpfs_sample) 1 [101] = None"
    by (simp add: child_named_def tmpfs_sample_nodes new_fs_node_def)
  have g: "\<forall>c\<in>set ([[100]] @ [[101]]). good c" by (simp add: good_def SLASH_def)
  have free: "free_page tmpfs_sample 0" by (simp add: tmpfs_sample_free)
  show ?thesis
    using tmpfs_create_then_open [OF tmpfs_sample_ok tmpfs_sample_pages free g res nd _ _ none create_bit, of None None]
    by (fastforce simp: new_fs_node_def)
qed



text \<open>When the directory \<open>c1\<close> does not exist, creating \<open>/c1/c2\<close> does not fail: the file is made in the root
  directory under the name \<open>c2\<close>, and \<open>/c1/c2\<close> still leads nowhere.\<close>

theorem tmpfs_create_in_wrong_directory:
  assumes "fs_ok s" "pages_ok s" "free_page s q" "good c1" "good c2" "c1 \<noteq> c2"
    and "child_named (t_nodes s) (root_tmpfs_node s) c1 = None" "mode AND CREATE \<noteq> 0"
  shows "\<exists>fd s'. tmpfs_open wd False (path_str [c1, c2]) mode s = Some (Some fd, s') \<and>
    (\<exists>f. fd_file fd = Tmp_node f \<and> resolve (t_nodes s') (root_tmpfs_node s') [c2] = Some f) \<and>
    resolve (t_nodes s') (root_tmpfs_node s') [c1, c2] = None"
proof -
  obtain r where r: "t_nodes s (root_tmpfs_node s) = Some r" "t_type r = Directory" "t_name r = [SLASH, 0]"
    using assms(1) by (auto simp: fs_ok_def)
  have fn: "find_node (t_nodes s) (root_tmpfs_node s) [c1, c2] = Some (root_tmpfs_node s)" using assms(7) by simp
  have g: "\<forall>c\<in>set [c1, c2]. good c" using assms(4,5) by simp
  have nm: "t_name r \<noteq> last [c1, c2] @ [0]" using r(3) assms(5) by (auto simp: good_def)
  obtain page s1 where c1: "tmpfs_open wd False (path_str [c1, c2]) mode s =
       Some (Some \<lparr>fd_file = Tmp_node (t_fresh s), fd_mode = mode, fd_offset = 0\<rparr>,
         add_child (root_tmpfs_node s) r (new_file (last [c1, c2]) (root_tmpfs_node s) page s1) s1)"
    "fs_ok s1" "t_nodes s1 = t_nodes s" "root_tmpfs_node s1 = root_tmpfs_node s" "t_fresh s1 = t_fresh s"
    by (rule create_in [OF assms(1-3) _ g assms(8) fn r(1,2) nm]) (simp, rule that)
  let ?s' = "add_child (root_tmpfs_node s) r (new_file c2 (root_tmpfs_node s) page s1) s1"
  have r1: "t_nodes s1 (root_tmpfs_node s) = Some r" using c1(3) r(1) by simp
  have root: "root_tmpfs_node ?s' = root_tmpfs_node s" using c1(4) by (simp add: add_child_def)
  note cn = child_named_add [OF c1(2) r1 new_file_simps(1,2) r1]
  have "child_named (t_nodes ?s') (root_tmpfs_node s) c2 = Some (t_fresh s)"
    "child_named (t_nodes ?s') (root_tmpfs_node s) c1 = None"
    using assms(6,7) c1(3,5) by (simp_all add: cn)
  then show ?thesis using c1(1) root by (intro exI [of _ "\<lparr>fd_file = Tmp_node (t_fresh s), fd_mode = mode, fd_offset = 0\<rparr>"] exI [of _ ?s']) simp
qed

theorem tmpfs_create_in_wrong_directory_witness:
  "\<exists>fd s'. tmpfs_open None False (path_str [[120], [101]]) CREATE tmpfs_sample = Some (Some fd, s') \<and>
    (\<exists>f. fd_file fd = Tmp_node f \<and> resolve (t_nodes s') (root_tmpfs_node s') [[101]] = Some f) \<and>
    resolve (t_nodes s') (root_tmpfs_node s') [[120], [101]] = None"
proof -
  have none: "child_named (t_nodes tmpfs_sample) (root_tmpfs_node tmpfs_sample) [120] = None"
    by (simp add: child_named_def has_name_def tmpfs_sample_nodes new_fs_node_def)
  have free: "free_page tmpfs_sample 0" by (simp add: tmpfs_sample_free)
  have "good [120]" "good [101]" by (simp_all add: good_def SLASH_def)
  from tmpfs_create_in_wrong_directory [OF tmpfs_sample_ok tmpfs_sample_pages free this _ none create_bit(1)]
  show ?thesis by simp
qed

section \<open>Contents\<close>

lemma plus_no_wrap: "unat a + unat b < 2 ^ 64 \<Longrightarrow> unat (a + b :: u64) = unat a + unat b"
  by (simp add: unat_add_lem [THEN iffD1])

lemma write_within:
  assumes "t_nodes s n = Some nd" "unat offset + unat len \<le> unat (t_size nd)"
  shows "tmpfs_write n offset len src s = Some (0, s\<lparr>mem := memcpy (mem s) (t_data nd + offset) src (unat len)\<rparr>)"
    and "tmpfs_read n offset len dst s = Some (0, s\<lparr>mem := memcpy (mem s) dst (t_data nd + offset) (unat len)\<rparr>)"
proof -
  have "\<not> offset + len > t_size nd"
    using assms(2) unat_u64_less [of "t_size nd"] plus_no_wrap [of offset len] by (simp add: word_less_nat_alt)
  then show "tmpfs_write n offset len src s = Some (0, s\<lparr>mem := memcpy (mem s) (t_data nd + offset) src (unat len)\<rparr>)"
    "tmpfs_read n offset len dst s = Some (0, s\<lparr>mem := memcpy (mem s) dst (t_data nd + offset) (unat len)\<rparr>)"
    using assms(1) by (simp_all add: tmpfs_write_def tmpfs_read_def)
qed

lemma copied_through:
  assumes "span f n \<inter> span src n = {}" "span dst n \<inter> span f n = {}" "n \<le> 2 ^ 64"
  shows "i < n \<Longrightarrow> memcpy (memcpy m f src n) dst f n (dst + of_nat i) = m (src + of_nat i)"
    and "x \<notin> span f n \<Longrightarrow> x \<notin> span dst n \<Longrightarrow> memcpy (memcpy m f src n) dst f n x = m x"
proof -
  show "memcpy (memcpy m f src n) dst f n (dst + of_nat i) = m (src + of_nat i)" if "i < n"
  proof -
    have "dst + of_nat i \<in> span dst n" "f + of_nat i \<in> span f n" using that add_of_nat_in_span by auto
    then show ?thesis using assms by (simp add: memcpy_spec)
  qed
qed (simp add: memcpy_other)

text \<open>What is written into a file within its size is read back: both calls return 0, the bytes arrive in the
  reader's buffer, the size stays, and no byte outside the written range and that buffer changes.\<close>

theorem tmpfs_write_read:
  assumes "t_nodes s n = Some nd" "unat offset + unat len \<le> unat (t_size nd)"
    and "span (t_data nd + offset) (unat len) \<inter> span src (unat len) = {}"
    and "span dst (unat len) \<inter> span (t_data nd + offset) (unat len) = {}"
  shows "\<exists>s1 s2. tmpfs_write n offset len src s = Some (0, s1) \<and> tmpfs_read n offset len dst s1 = Some (0, s2) \<and>
    t_nodes s2 = t_nodes s \<and> (\<forall>i < unat len. mem s2 (dst + of_nat i) = mem s (src + of_nat i)) \<and>
    (\<forall>x. x \<notin> span (t_data nd + offset) (unat len) \<and> x \<notin> span dst (unat len) \<longrightarrow> mem s2 x = mem s x)"
proof -
  let ?s1 = "s\<lparr>mem := memcpy (mem s) (t_data nd + offset) src (unat len)\<rparr>"
  let ?s2 = "?s1\<lparr>mem := memcpy (mem ?s1) dst (t_data nd + offset) (unat len)\<rparr>"
  have sz: "unat len \<le> 2 ^ 64" using unat_u64_less [of len] by simp
  have "tmpfs_write n offset len src s = Some (0, ?s1)" by (rule write_within [OF assms(1,2)])
  moreover have "tmpfs_read n offset len dst ?s1 = Some (0, ?s2)" by (rule write_within) (use assms(1,2) in simp_all)
  ultimately show ?thesis using copied_through [OF assms(3,4) sz] by (intro exI [of _ ?s1] exI [of _ ?s2]) simp
qed

definition file_sample :: ktmpfs where
  "file_sample = tmpfs_sample\<lparr>t_nodes := [2 \<mapsto> (new_fs_node [102, 0] 4096 0 File None None)\<lparr>t_data := 0x1000\<rparr>]\<rparr>"

lemma file_sample_node: "t_nodes file_sample 2 = Some ((new_fs_node [102, 0] 4096 0 File None None)\<lparr>t_data := 0x1000\<rparr>)"
  by (simp add: file_sample_def)

theorem tmpfs_write_read_witness:
  "\<exists>s1 s2. tmpfs_write 2 16 8 (0x1000 + of_nat 8192) file_sample = Some (0, s1) \<and>
    tmpfs_read 2 16 8 (0x1000 + of_nat 12288) s1 = Some (0, s2) \<and>
    (\<forall>i < 8. mem s2 (0x1000 + of_nat 12288 + of_nat i) = mem file_sample (0x1000 + of_nat 8192 + of_nat i))"
proof -
  have d: "span (0x1000 + of_nat 16) 8 \<inter> span (0x1000 + of_nat 8192) 8 = {}"
    "span (0x1000 + of_nat 16) 8 \<inter> span (0x1000 + of_nat 12288) 8 = {}"
    by (rule span_offset_disjoint; simp)+
  show ?thesis
    using tmpfs_write_read [OF file_sample_node, of 16 8 "0x1000 + of_nat 8192" "0x1000 + of_nat 12288"] d
    by (fastforce simp: new_fs_node_def Int_commute)
qed

text \<open>A write beyond the end of the file reports success but the size is not updated, so that reading the very
  range back fails; this holds whether or not any page is free.\<close>

theorem tmpfs_write_past_end_unreadable:
  assumes "pages_ok s" "t_nodes s n = Some nd" "offset + len > t_size nd"
  shows "\<exists>s'. tmpfs_write n offset len src s = Some (0, s') \<and> tmpfs_read n offset len dst s' = Some (-1, s')"
proof -
  let ?pages = "pages_for (offset + len)"
  have lock: "pmm_lock s = 0" and small: "bitmapSize s \<le> 2 ^ 31" using assms(1) by (simp_all add: pages_ok_def)
  obtain p m where pm: "pmm_alloc (unat ?pages) s = Some (page_addr p, s\<lparr>mem := m\<rparr>)" "p \<le> bitmapSize s * 8"
    using pmm_alloc_returns [OF lock] by blast
  have unat_base: "unat (PHYSICAL_BASE_ADDRESS) = 0xffff800000000000" by (simp add: PHYSICAL_BASE_ADDRESS_def)
  have "p * 4096 < 2 ^ 64 - 0xffff800000000000" using pm(2) small by simp
  then have "unat (PHYSICAL_BASE_ADDRESS + page_addr p) = unat PHYSICAL_BASE_ADDRESS + p * 4096"
    unfolding page_addr_def PAGE_SIZE_def by (intro unat_add_of_nat) (simp add: unat_base)
  then have nz: "page_addr p + PHYSICAL_BASE_ADDRESS \<noteq> 0"
    using unat_base by (metis add.commute add_is_0 unat_0 zero_neq_numeral)
  have "\<exists>s'. tmpfs_resize n (offset + len) True s = Some (True, s') \<and>
      (\<exists>nd'. t_nodes s' n = Some nd' \<and> t_size nd' = t_size nd)"
    using assms(2) pm(1) nz lock by (simp add: tmpfs_resize_def Let_def pmm_free_def)
  then show ?thesis using assms(2,3) by (auto simp: tmpfs_write_def tmpfs_read_def)
qed

theorem tmpfs_write_past_end_unreadable_witness:
  "\<exists>s'. tmpfs_write 2 4000 200 0x9000 file_sample = Some (0, s') \<and> tmpfs_read 2 4000 200 0xA000 s' = Some (-1, s')"
proof -
  have "pages_ok file_sample"
    using tmpfs_sample_pages by (simp add: pages_ok_def pmm_wf_def file_sample_def free_page_def bitmap_bytes_def)
  from tmpfs_write_past_end_unreadable [OF this file_sample_node, of 4000 200] show ?thesis by (simp add: new_fs_node_def)
qed

end
