(* ===== verification/Vfs_Props.thy ===== *)
theory Vfs_Props
  imports Vfs Tmpfs_Props "HOL-Library.Sublist"
begin

text \<open>
  Where the mount tree sends a path, and the file systems as \<open>_start\<close> sets them up: the terminal is found under
  \<open>/dev/tty0\<close>, everything outside \<open>/dev/\<close> goes to tmpfs.
\<close>

section \<open>Routing\<close>

text \<open>Mounts directly below the root, with their names.\<close>

definition flat_mounts :: "(nat \<Rightarrow> node option) \<Rightarrow> nat list \<Rightarrow> bool" where
  "flat_mounts nodes hs \<longleftrightarrow> (\<forall>h \<in> set hs. \<exists>nd nm. nodes h = Some nd \<and> v_name nd = nm @ [0] \<and> 0 \<notin> set nm \<and> v_children nd = [])"

definition mount_name :: "node \<Rightarrow> cbuf" where
  "mount_name nd = butlast (v_name nd)"

text \<open>The mount a path belongs to: its name, and a slash behind it, start the path.\<close>

definition covers :: "(nat \<Rightarrow> node option) \<Rightarrow> cbuf \<Rightarrow> nat \<Rightarrow> bool" where
  "covers nodes p h = (case nodes h of None \<Rightarrow> False | Some nd \<Rightarrow> prefix (mount_name nd @ [SLASH]) p)"

lemma strncmp_prefix:
  assumes "0 \<notin> set nm" "0 \<in> set p"
  shows "strncmp (nm @ [0]) p (length nm) = Some (prefix nm p)"
proof (cases "length nm \<le> length p")
  case True
  then have "strncmp (nm @ [0]) p (length nm) = Some (nm = take (length nm) p)"
    using strncmp_take [of "length nm" "nm @ [0]" p] by simp
  also have "nm = take (length nm) p \<longleftrightarrow> prefix nm p"
    by (metis append_eq_conv_conj append_take_drop_id prefix_def)
  finally show ?thesis .
next
  case False
  have "\<not> prefix nm p" using False prefix_length_le by blast
  obtain j where j: "j < length p" "p ! j = 0" using assms(2) by (auto simp: in_set_conv_nth)
  have "nm ! j \<noteq> 0" using assms(1) False j(1) by (metis nth_mem not_le order_less_trans)
  then have "strncmp (nm @ [0]) p (length nm) = Some False"
    using False j by (intro strncmp_mismatch [of j]) (auto simp: nth_append)
  then show ?thesis using \<open>\<not> prefix nm p\<close> by simp
qed

lemma prefix_snoc_rd:
  assumes "prefix nm p" "0 \<in> set p" "0 \<notin> set nm"
  shows "\<exists>c. rd p (length nm) = Some c \<and> (c = SLASH \<longleftrightarrow> prefix (nm @ [SLASH]) p)"
proof -
  obtain r where r: "p = nm @ r" using assms(1) by (auto simp: prefix_def)
  then obtain c r' where "r = c # r'" using assms(2,3) by (cases r) auto
  then show ?thesis using r by auto
qed

lemma path_walk_flat:
  assumes "flat_mounts nodes hs" "0 \<in> set p"
  shows "path_walk nodes parent hs p = Some (case find (covers nodes p) hs of
     None \<Rightarrow> (parent, p) | Some h \<Rightarrow> (h, drop (length (mount_name (the (nodes h)))) p))"
  using assms(1)
proof (induction hs)
  case Nil
  show ?case by (subst path_walk.simps) simp
next
  case (Cons h hs)
  obtain nd nm where nd: "nodes h = Some nd" "v_name nd = nm @ [0]" "0 \<notin> set nm" "v_children nd = []"
    using Cons.prems by (auto simp: flat_mounts_def)
  have nm: "mount_name nd = nm" using nd(2) by (simp add: mount_name_def)
  have IH: "path_walk nodes parent hs p = Some (case find (covers nodes p) hs of
     None \<Rightarrow> (parent, p) | Some h \<Rightarrow> (h, drop (length (mount_name (the (nodes h)))) p))"
    using Cons by (simp add: flat_mounts_def)
  have len: "strlen (nm @ [0]) = Some (length nm)" using nd(3) by (simp add: strlen_string)
  show ?case
  proof (cases "prefix nm p")
    case True
    obtain c where c: "rd p (length nm) = Some c" "c = SLASH \<longleftrightarrow> prefix (nm @ [SLASH]) p"
      using prefix_snoc_rd [OF True assms(2) nd(3)] by blast
    show ?thesis
    proof (cases "c = SLASH")
      case slash: True
      have "path_walk nodes h [] (drop (length nm) p) = Some (h, drop (length nm) p)" by (subst path_walk.simps) simp
      then show ?thesis using nd len c slash True nm strncmp_prefix [OF nd(3) assms(2)]
        by (subst path_walk.simps) (simp add: covers_def)
    next
      case False
      then show ?thesis using nd len c True nm strncmp_prefix [OF nd(3) assms(2)] IH
        by (subst path_walk.simps) (simp add: covers_def)
    qed
  next
    case False
    moreover have "\<not> prefix (nm @ [SLASH]) p" using False append_prefixD by blast
    ultimately show ?thesis using nd len nm strncmp_prefix [OF nd(3) assms(2)] IH
      by (subst path_walk.simps) (simp add: covers_def)
  qed
qed

text \<open>With the mounts directly below the root, an absolute path is routed to the first mount whose name followed by
  a slash starts it, with that name removed, and to the root file system unchanged when there is none.\<close>

theorem get_absolute_path_routes:
  assumes "vfs_root_node s = Some root" "v_nodes s root = Some rn" "flat_mounts (v_nodes s) (v_children rn)" "0 \<in> set p"
  shows "get_absolute_path p s = Some (case find (covers (v_nodes s) p) (v_children rn) of
     None \<Rightarrow> (p, v_fs rn)
   | Some h \<Rightarrow> (drop (length (mount_name (the (v_nodes s h)))) p, v_fs (the (v_nodes s h))))"
proof (cases "find (covers (v_nodes s) p) (v_children rn)")
  case None
  then show ?thesis using assms path_walk_flat [OF assms(3,4), of root] by (simp add: get_absolute_path_def)
next
  case (Some h)
  then obtain nd where "v_nodes s h = Some nd" by (auto simp: find_Some_iff covers_def split: option.splits)
  then show ?thesis using assms Some path_walk_flat [OF assms(3,4), of root] by (simp add: get_absolute_path_def)
qed

section \<open>After the start of the kernel\<close>

lemma strcmp_names:
  "strcmp (get_name tmpfs) (get_name tmpfs) = Some True" "strcmp (get_name devfs) (get_name devfs) = Some True"
  "strcmp (get_name tmpfs) (get_name devfs) = Some False" "strcmp TTY_NAME TTY_NAME = Some True"
  by code_simp+

lemma start_fs_state:
  assumes "vfs_lock s = 0" "fses s = []" "vfs_root_node s = None"
  obtains s' where "start_fs s = Some s'" "vfs_root_node s' = Some (v_fresh s)" "devfs_root_node s' = Some [d_fresh s]"
    "v_nodes s' (v_fresh s) = Some \<lparr>v_name = [SLASH, 0], v_fs = tmpfs, v_parent = None, v_children = [Suc (v_fresh s)]\<rparr>"
    "v_nodes s' (Suc (v_fresh s)) = Some \<lparr>v_name = DEV_PATH, v_fs = devfs, v_parent = Some (v_fresh s), v_children = []\<rparr>"
    "d_nodes s' (d_fresh s) = Some \<lparr>d_name = TTY_NAME, d_type = Device, d_fs = Some devfs, d_dev = Tty_device\<rparr>"
    "root_tmpfs_node s' = t_fresh s" "t_nodes s' = (t_nodes s)(t_fresh s \<mapsto> new_fs_node [SLASH, 0] 0 0 Directory None (tmp_filesystem s))"
    "tmp_filesystem s' = Some tmpfs" "vfs_lock s' = 0" "t_fresh s' = Suc (t_fresh s)"
    "mem s' = mem s" "bitmap s' = bitmap s" "bitmapSize s' = bitmapSize s" "pmm_lock s' = pmm_lock s"
proof -
  have walk: "mount_walk N p [] t = Some (p, t)" for N p t by (subst mount_walk.simps) simp
  show ?thesis
    by (rule that)
      (simp add: start_fs_def tmpfs_init_def devfs_init_def tmpfs_new_def devfs_new_def add_fs_def mount_def
        add_device_def strcmp_names walk assms del: get_name.simps, simp_all)
qed

text \<open>Where the two mounts send a path.\<close>

lemma start_route:
  assumes "vfs_root_node s = Some r" "v_nodes s r = Some \<lparr>v_name = [SLASH, 0], v_fs = tmpfs, v_parent = None, v_children = [h]\<rparr>"
    and h: "v_nodes s h = Some \<lparr>v_name = DEV_PATH, v_fs = devfs, v_parent = Some r, v_children = []\<rparr>" and p: "0 \<in> set p"
  shows "get_absolute_path p s = Some (if prefix (butlast DEV_PATH @ [SLASH]) p then (drop 4 p, devfs) else (p, tmpfs))"
proof -
  have "DEV_PATH = [SLASH, 100, 101, 118] @ [0]" "0 \<notin> set [SLASH, 100, 101, 118]" by (simp_all add: DEV_PATH_def SLASH_def)
  then have "flat_mounts (v_nodes s) [h]"
    unfolding flat_mounts_def using h
    by (auto intro!: exI [of _ "\<lparr>v_name = DEV_PATH, v_fs = devfs, v_parent = Some r, v_children = []\<rparr>"] exI [of _ "[SLASH, 100, 101, 118]"])
  moreover have "covers (v_nodes s) p h \<longleftrightarrow> prefix (butlast DEV_PATH @ [SLASH]) p"
    using h by (simp add: covers_def mount_name_def)
  ultimately have "path_walk (v_nodes s) r [h] p = Some (if prefix (butlast DEV_PATH @ [SLASH]) p then (h, drop 4 p) else (r, p))"
    using path_walk_flat [OF _ p, of "v_nodes s" "[h]" r] h by (simp add: mount_name_def DEV_PATH_def eval_nat_numeral)
  then show ?thesis using assms by (simp add: get_absolute_path_def)
qed

definition DEV_TTY :: cbuf where "DEV_TTY = [SLASH, 100, 101, 118] @ [SLASH] @ TTY_NAME"

text \<open>Once \<open>_start\<close> has set the file systems up, \<open>/dev/tty0\<close> opens the terminal device, a write through that
  descriptor prints the bytes and returns 0, and every path outside \<open>/dev/\<close> is handed to tmpfs unchanged.\<close>

theorem start_opens_terminal:
  assumes "vfs_lock s = 0" "fses s = []" "vfs_root_node s = None"
  shows "\<exists>s' n. start_fs s = Some s' \<and>
    vfs_open wd same DEV_TTY mode s' = Some (Some \<lparr>fd_file = Dev_node n, fd_mode = mode, fd_offset = 0\<rparr>, s') \<and>
    vfs_write font (Dev_node n) offset len buffer s' = Some (0, tty_print font buffer (unat len) s') \<and>
    (0 \<in> set p \<and> \<not> prefix (butlast DEV_PATH @ [SLASH]) p \<longrightarrow> get_absolute_path p s' = Some (p, tmpfs))"
proof -
  obtain s' where s': "start_fs s = Some s'" "vfs_root_node s' = Some (v_fresh s)" "devfs_root_node s' = Some [d_fresh s]"
    "v_nodes s' (v_fresh s) = Some \<lparr>v_name = [SLASH, 0], v_fs = tmpfs, v_parent = None, v_children = [Suc (v_fresh s)]\<rparr>"
    "v_nodes s' (Suc (v_fresh s)) = Some \<lparr>v_name = DEV_PATH, v_fs = devfs, v_parent = Some (v_fresh s), v_children = []\<rparr>"
    "d_nodes s' (d_fresh s) = Some \<lparr>d_name = TTY_NAME, d_type = Device, d_fs = Some devfs, d_dev = Tty_device\<rparr>"
    by (rule start_fs_state [OF assms]) (rule that)
  note route = start_route [OF s'(2,4,5)]
  have "prefix (butlast DEV_PATH @ [SLASH]) DEV_TTY" "drop 4 DEV_TTY = SLASH # TTY_NAME" "0 \<in> set DEV_TTY"
    by (simp_all add: DEV_PATH_def DEV_TTY_def TTY_NAME_def)
  then have "get_absolute_path DEV_TTY s' = Some (SLASH # TTY_NAME, devfs)" using route [of DEV_TTY] by simp
  then have "vfs_open wd same DEV_TTY mode s' = Some (Some \<lparr>fd_file = Dev_node (d_fresh s), fd_mode = mode, fd_offset = 0\<rparr>, s')"
    using s'(3,6) by (simp add: vfs_open_def devfs_open_def strcmp_names(4) DEV_TTY_def)
  moreover have "vfs_write font (Dev_node (d_fresh s)) offset len buffer s' = Some (0, tty_print font buffer (unat len) s')"
    using s'(6) by (simp add: vfs_write_def devfs_write_def tty_write_def)
  ultimately show ?thesis using s'(1) route [of p] by auto
qed

definition vfs_sample :: kvfs where
  "vfs_sample = ktmpfs.extend tmpfs_sample
     \<lparr>tty1 = None, devfs_filesystem = None, devfs_root_node = None, d_nodes = Map.empty, d_fresh = 0, fses = [], vfs_lock = 0,
      vfs_root_node = None, v_nodes = Map.empty, v_fresh = 0\<rparr>"

lemma vfs_sample_cold: "vfs_lock vfs_sample = 0" "fses vfs_sample = []" "vfs_root_node vfs_sample = None"
  by (simp_all add: vfs_sample_def ktmpfs.defs)

theorem start_opens_terminal_witness:
  "\<exists>s' n. start_fs vfs_sample = Some s' \<and>
    vfs_open None False DEV_TTY WRITE s' = Some (Some \<lparr>fd_file = Dev_node n, fd_mode = WRITE, fd_offset = 0\<rparr>, s') \<and>
    get_absolute_path [SLASH, 120, 0] s' = Some ([SLASH, 120, 0], tmpfs)"
proof -
  have "\<not> prefix (butlast DEV_PATH @ [SLASH]) [SLASH, 120, 0]" by (simp add: DEV_PATH_def)
  then show ?thesis
    using start_opens_terminal [OF vfs_sample_cold, of None False WRITE "\<lambda>_. 0" 0 0 0 "[SLASH, 120, 0]"] by auto
qed

theorem get_absolute_path_routes_witness:
  "\<exists>s' :: kvfs. get_absolute_path [SLASH, 97, 0] s' = Some ([SLASH, 97, 0], tmpfs)"
proof -
  let ?rn = "\<lparr>v_name = [SLASH, 0], v_fs = tmpfs, v_parent = None, v_children = []\<rparr>"
  have "get_absolute_path [SLASH, 97, 0] (vfs_sample\<lparr>vfs_root_node := Some 0, v_nodes := [0 \<mapsto> ?rn]\<rparr>) = Some ([SLASH, 97, 0], tmpfs)"
    by (subst get_absolute_path_routes [where root = 0 and rn = ?rn]) (simp_all add: flat_mounts_def)
  then show ?thesis by blast
qed

text \<open>The root directory is made before \<open>tmp_filesystem\<close> is set, so its \<open>fs\<close> is null: a relative path from there ends
  in a null dereference.\<close>

theorem relative_open_from_root:
  assumes "vfs_lock s = 0" "fses s = []" "vfs_root_node s = None" "tmp_filesystem s = None" "path \<noteq> []" "hd path \<noteq> SLASH"
  shows "\<exists>s'. start_fs s = Some s' \<and> vfs_open (Some (Tmp_node (root_tmpfs_node s'))) same path mode s' = None"
proof -
  obtain s' where s': "start_fs s = Some s'" "root_tmpfs_node s' = t_fresh s"
    "t_nodes s' = (t_nodes s)(t_fresh s \<mapsto> new_fs_node [SLASH, 0] 0 0 Directory None (tmp_filesystem s))"
    by (rule start_fs_state [OF assms(1-3)]) (rule that)
  have "rd path 0 = Some (hd path)" using assms(5) by (cases path) simp_all
  then show ?thesis using s' assms(4,6) by (simp add: vfs_open_def new_fs_node_def)
qed

end
