(* ===== verification/Files_Props.thy ===== *)
theory Files_Props
  imports Files Vfs_Props
begin

text \<open>
  The contract every file system keeps when it opens a file, proved for both, and what the system calls on files do
  with the descriptor table of the calling process.
\<close>

section \<open>The interface of a file system\<close>

locale file_system =
  fixes opn :: "cbuf \<Rightarrow> u16 \<Rightarrow> 's \<Rightarrow> (file_description option \<times> 's) option"
    and has_file :: "'s \<Rightarrow> fs_ref \<Rightarrow> bool"
    and rest :: "'s \<Rightarrow> 'r"
  assumes open_file: "opn path mode s = Some (Some fd, s') \<Longrightarrow> fd_mode fd = mode \<and> fd_offset fd = 0 \<and> has_file s' (fd_file fd)"
    and open_null: "opn path mode s = Some (None, s') \<Longrightarrow> s' = s"
    and open_rest: "opn path mode s = Some (Some fd, s') \<Longrightarrow> rest s' = rest s"
begin

lemma open_keeps_rest: "opn path mode s = Some (r, s') \<Longrightarrow> rest s' = rest s"
  using open_null open_rest by (cases r) auto

lemma reopen_same_mode:
  assumes "opn path mode s = Some (Some fd, s')" "opn path mode s' = Some (Some fd', s'')" "fd_file fd = fd_file fd'"
  shows "fd = fd'"
  using open_file [OF assms(1)] open_file [OF assms(2)] assms(3) by simp

end

definition known_file :: "'a kvfs_scheme \<Rightarrow> fs_ref \<Rightarrow> bool" where
  "known_file s f = (case f of Tmp_node n \<Rightarrow> t_nodes s n \<noteq> None | Dev_node n \<Rightarrow> d_nodes s n \<noteq> None)"

interpretation tfs: file_system "tmpfs_open wd same" known_file "kvfs.more :: 'a kvfs_scheme \<Rightarrow> 'a"
proof
  fix path mode and s s' :: "'a kvfs_scheme" and fd
  assume "tmpfs_open wd same path mode s = Some (Some fd, s')"
  then show "fd_mode fd = mode \<and> fd_offset fd = 0 \<and> known_file s' (fd_file fd)" "kvfs.more s' = kvfs.more s"
    by (auto simp: tmpfs_open_def add_child_def known_file_def Let_def split: Option.bind_splits option.splits if_splits dest!: pmm_alloc_frame)
next
  fix path mode and s s' :: "'a kvfs_scheme"
  assume "tmpfs_open wd same path mode s = Some (None, s')"
  then show "s' = s" by (auto simp: tmpfs_open_def Let_def split: Option.bind_splits option.splits if_splits)
qed

lemma devfs_find_known: "devfs_find nodes hs path = Some (Some h) \<Longrightarrow> nodes h \<noteq> None"
  by (induction hs) (auto split: Option.bind_splits if_splits)

interpretation dfs: file_system devfs_open known_file "kvfs.more :: 'a kvfs_scheme \<Rightarrow> 'a"
  by unfold_locales (auto simp: devfs_open_def known_file_def split: Option.bind_splits dest: devfs_find_known)

lemma vfs_open_contract:
  fixes s s' :: "'a kvfs_scheme"
  assumes "vfs_open wd same path mode s = Some (r, s')"
  shows "kvfs.more s' = kvfs.more s" "r = Some fd \<Longrightarrow> fd_mode fd = mode \<and> fd_offset fd = 0 \<and> known_file s' (fd_file fd)"
proof -
  obtain fs w p where "fs_open fs w same p mode s = Some (r, s')"
    using assms unfolding vfs_open_def by (auto simp: bind_eq_Some_conv split: if_splits prod.splits)
  then have "\<exists>w p. tmpfs_open w same p mode s = Some (r, s') \<or> devfs_open p mode s = Some (r, s')"
    by (cases fs; cases w) (auto split: Option.bind_splits)
  then obtain w p where op: "tmpfs_open w same p mode s = Some (r, s') \<or> devfs_open p mode s = Some (r, s')" by blast
  then show "kvfs.more s' = kvfs.more s"
    by (elim disjE) (rule tfs.open_keeps_rest, assumption, rule dfs.open_keeps_rest, assumption)
  show "fd_mode fd = mode \<and> fd_offset fd = 0 \<and> known_file s' (fd_file fd)" if "r = Some fd"
    using op unfolding that by (elim disjE) (rule tfs.open_file, assumption, rule dfs.open_file, assumption)
qed

section \<open>The descriptor table\<close>

lemma sched_fields:
  fixes s s' :: "'a ksched_scheme"
  assumes "kvfs.more s' = kvfs.more s"
  shows "process_at s' = process_at s" "cores s' = cores s" "thread_at s' = thread_at s" "waiting_queue s' = waiting_queue s"
    "process_list s' = process_list s"
  using assms by (cases s; cases s'; simp)+

lemma find_slot_spec:
  "case find_slot fds k of
     None \<Rightarrow> None \<notin> set fds
   | Some i \<Rightarrow> k \<le> i \<and> i < k + length fds \<and> fds ! (i - k) = None \<and> (\<forall>j < i - k. fds ! j \<noteq> None)"
proof (induction fds arbitrary: k)
  case (Cons x fds)
  show ?case
  proof (cases "x = None")
    case False
    have "fds ! (i - Suc k) = (x # fds) ! (i - k)" if "Suc k \<le> i" for i
      using that by (metis Suc_diff_Suc Suc_le_lessD nth_Cons_Suc)
    moreover have "(x # fds) ! j \<noteq> None" if "\<forall>j < i - Suc k. fds ! j \<noteq> None" "j < i - k" for i j
      using that False by (cases j) auto
    ultimately show ?thesis using Cons.IH [of "Suc k"] False by (auto split: option.splits)
  qed simp
qed simp

lemma set_fds_current:
  assumes "current_process core s = Some (p, proc)"
  shows "current_process core (set_fds p fds s) = Some (p, proc\<lparr>fd_list := fds\<rparr>)"
  using assms by (auto simp: current_process_def set_fds_def bind_eq_Some_conv)

text \<open>A successful \<open>open\<close> returns the lowest number with no open file behind it, or one more than the highest when
  all are taken, puts the new descriptor there (with the requested mode, at offset 0, on a file that exists) and changes
  no other descriptor.\<close>

theorem syscall_open_lowest:
  assumes "vfs_open (working_dir (cores s core)) same path (ucast (rsi rg)) s = Some (Some fd, s1)"
    and "current_process core s = Some (p, proc)"
  shows "\<exists>i s' fds. syscall_open same path core rg s = Some (rg\<lparr>rax := of_nat i\<rparr>, s') \<and>
    current_process core s' = Some (p, proc\<lparr>fd_list := fds\<rparr>) \<and>
    i \<le> length (fd_list proc) \<and> (i < length (fd_list proc) \<longrightarrow> fd_list proc ! i = None) \<and> (\<forall>j < i. fd_list proc ! j \<noteq> None) \<and>
    length fds = max (length (fd_list proc)) (Suc i) \<and> fds ! i = Some fd \<and>
    (\<forall>j < length (fd_list proc). j \<noteq> i \<longrightarrow> fds ! j = fd_list proc ! j) \<and>
    fd_mode fd = ucast (rsi rg) \<and> fd_offset fd = 0 \<and> known_file s1 (fd_file fd)"
proof -
  have cur: "current_process core s1 = Some (p, proc)"
    using assms(2) sched_fields [OF vfs_open_contract(1) [OF assms(1)]] by (simp add: current_process_def)
  have fd: "fd_mode fd = ucast (rsi rg) \<and> fd_offset fd = 0 \<and> known_file s1 (fd_file fd)"
    by (rule vfs_open_contract(2) [OF assms(1)]) simp
  show ?thesis
  proof (cases "find_slot (fd_list proc) 0")
    case None
    have "\<forall>j < length (fd_list proc). fd_list proc ! j \<noteq> None"
      using find_slot_spec [of "fd_list proc" 0] None by (auto simp: in_set_conv_nth)
    moreover have "syscall_open same path core rg s =
        Some (rg\<lparr>rax := of_nat (length (fd_list proc))\<rparr>, set_fds p (fd_list proc @ [Some fd]) s1)"
      using assms(1) cur None by (simp add: syscall_open_def Let_def)
    ultimately show ?thesis using fd set_fds_current [OF cur]
      by (intro exI [of _ "length (fd_list proc)"] exI [of _ "set_fds p (fd_list proc @ [Some fd]) s1"]
          exI [of _ "fd_list proc @ [Some fd]"]) (simp add: nth_append)
  next
    case (Some i)
    have i: "i < length (fd_list proc)" "fd_list proc ! i = None" "\<forall>j < i. fd_list proc ! j \<noteq> None"
      using find_slot_spec [of "fd_list proc" 0] Some by auto
    have "syscall_open same path core rg s = Some (rg\<lparr>rax := of_nat i\<rparr>, set_fds p ((fd_list proc)[i := Some fd]) s1)"
      using assms(1) cur Some by (simp add: syscall_open_def)
    then show ?thesis using fd i set_fds_current [OF cur]
      by (intro exI [of _ i] exI [of _ "set_fds p ((fd_list proc)[i := Some fd]) s1"]
          exI [of _ "(fd_list proc)[i := Some fd]"]) (simp add: max_def)
  qed
qed

text \<open>A core that runs one process with descriptors 0 and 2 open, on a kernel whose root file system is devfs with a terminal.\<close>

definition files_sample :: ksched where
  "files_sample = kvfs.extend
     (vfs_sample\<lparr>devfs_filesystem := Some devfs, devfs_root_node := Some [0],
        d_nodes := [0 \<mapsto> \<lparr>d_name = TTY_NAME, d_type = Device, d_fs = Some devfs, d_dev = Tty_device\<rparr>],
        vfs_root_node := Some 0, v_nodes := [0 \<mapsto> \<lparr>v_name = [SLASH, 0], v_fs = devfs, v_parent = None, v_children = []\<rparr>],
        t_nodes := [2 \<mapsto> (new_fs_node [102, 0] 4096 0 File None (Some tmpfs))\<lparr>t_data := 0x1000\<rparr>]\<rparr>)
     \<lparr>thread_at = Map.empty,
      process_at = [0 \<mapsto> \<lparr>pid = 0, p_status = Running, process_directory = None, threads = [],
         fd_list = [Some \<lparr>fd_file = Tmp_node 2, fd_mode = WRITE, fd_offset = 16\<rparr>, None,
                    Some \<lparr>fd_file = Tmp_node 2, fd_mode = READ, fd_offset = 16\<rparr>], pagemap = 0\<rparr>],
      obj_fresh = 1, cores = (\<lambda>_. \<lparr>lapic_id = 0, running_process = Some 0, running_thread = None, working_dir = None, cpu_pagemap = None\<rparr>),
      vmm_at = Map.empty, vmm_fresh = 0, kernel_vmm = 0, process_list = [0], waiting_queue = [], pid_bitmap = 0, tid_bitmap = 0,
      sched_lock = 0, pid_lock = 0, tid_lock = 0\<rparr>"

lemma files_sample_current: "\<exists>proc. current_process 0 files_sample = Some (0, proc) \<and>
    fd_list proc = [Some \<lparr>fd_file = Tmp_node 2, fd_mode = WRITE, fd_offset = 16\<rparr>, None,
                    Some \<lparr>fd_file = Tmp_node 2, fd_mode = READ, fd_offset = 16\<rparr>]"
  by (simp add: current_process_def files_sample_def kvfs.defs ksched.defs)

lemma files_sample_open:
  "vfs_open (working_dir (cores files_sample 0)) False (SLASH # TTY_NAME) mode files_sample =
     Some (Some \<lparr>fd_file = Dev_node 0, fd_mode = mode, fd_offset = 0\<rparr>, files_sample)"
proof -
  have "path_walk N p [] t = Some (p, t)" for N p t by (subst path_walk.simps) simp
  then show ?thesis
    by (simp add: vfs_open_def get_absolute_path_def devfs_open_def strcmp_names files_sample_def kvfs.defs)
qed

theorem syscall_open_lowest_witness:
  "\<exists>s'. syscall_open False (SLASH # TTY_NAME) 0 zero_context files_sample = Some (zero_context\<lparr>rax := 1\<rparr>, s')"
proof -
  obtain proc where proc: "current_process 0 files_sample = Some (0, proc)"
    "fd_list proc = [Some \<lparr>fd_file = Tmp_node 2, fd_mode = WRITE, fd_offset = 16\<rparr>, None,
                    Some \<lparr>fd_file = Tmp_node 2, fd_mode = READ, fd_offset = 16\<rparr>]" using files_sample_current by blast
  obtain i s' where i: "syscall_open False (SLASH # TTY_NAME) 0 zero_context files_sample = Some (zero_context\<lparr>rax := of_nat i\<rparr>, s')"
    "i \<le> length (fd_list proc)" "i < length (fd_list proc) \<longrightarrow> fd_list proc ! i = None" "\<forall>j < i. fd_list proc ! j \<noteq> None"
    using syscall_open_lowest [OF files_sample_open proc(1), where rg = zero_context] by blast
  have "i = 1"
  proof (rule ccontr)
    assume "i \<noteq> 1"
    then consider "i = 0" | "1 < i" by linarith
    then show False
    proof cases
      case 2
      from i(4) have "1 < i \<longrightarrow> fd_list proc ! 1 \<noteq> None" by blast
      then show False using 2 proc(2) by simp
    qed (use i(3) proc(2) in simp)
  qed
  then show ?thesis using i(1) by auto
qed

text \<open>C25: a descriptor that is out of range, closed or not opened for reading (writing) makes \<open>read\<close> (\<open>write\<close>) return
  -1 and change nothing; \<open>close\<close> of a number out of range does so too.\<close>

theorem syscall_bad_descriptor:
  assumes "current_process core s = Some (p, proc)"
  shows "(unat (rdi rg) \<ge> length (fd_list proc) \<or> fd_list proc ! unat (rdi rg) = None \<or>
       (\<exists>fd. fd_list proc ! unat (rdi rg) = Some fd \<and> fd_mode fd AND READ = 0) \<longrightarrow>
       syscall_read ret core rg s = Some (rg\<lparr>rax := -1\<rparr>, s)) \<and>
    (unat (rdi rg) \<ge> length (fd_list proc) \<or> fd_list proc ! unat (rdi rg) = None \<or>
       (\<exists>fd. fd_list proc ! unat (rdi rg) = Some fd \<and> fd_mode fd AND WRITE = 0) \<longrightarrow>
       syscall_write font core rg s = Some (rg\<lparr>rax := -1\<rparr>, s)) \<and>
    (unat (rdi rg) \<ge> length (fd_list proc) \<longrightarrow> syscall_close core rg s = Some (rg\<lparr>rax := -1\<rparr>, s))"
  using assms by (auto simp: syscall_read_def syscall_write_def syscall_close_def split: option.splits)

theorem syscall_bad_descriptor_witness:
  "syscall_read 7 0 (zero_context\<lparr>rdi := 9\<rparr>) files_sample = Some (zero_context\<lparr>rdi := 9, rax := -1\<rparr>, files_sample) \<and>
   syscall_write (\<lambda>_. 0) 0 (zero_context\<lparr>rdi := 2\<rparr>) files_sample = Some (zero_context\<lparr>rdi := 2, rax := -1\<rparr>, files_sample)"
proof -
  obtain proc where proc: "current_process 0 files_sample = Some (0, proc)"
    "fd_list proc = [Some \<lparr>fd_file = Tmp_node 2, fd_mode = WRITE, fd_offset = 16\<rparr>, None,
                    Some \<lparr>fd_file = Tmp_node 2, fd_mode = READ, fd_offset = 16\<rparr>]" using files_sample_current by blast
  have mode: "READ AND WRITE = 0" by (simp add: READ_def WRITE_def)
  note bad = syscall_bad_descriptor [OF proc(1)]
  have "syscall_read 7 0 (zero_context\<lparr>rdi := 9\<rparr>) files_sample = Some (zero_context\<lparr>rdi := 9, rax := -1\<rparr>, files_sample)"
    using bad [of "zero_context\<lparr>rdi := 9\<rparr>" 7 "\<lambda>_. 0"] proc(2) by simp
  moreover have "syscall_write (\<lambda>_. 0) 0 (zero_context\<lparr>rdi := 2\<rparr>) files_sample = Some (zero_context\<lparr>rdi := 2, rax := -1\<rparr>, files_sample)"
    using bad [of "zero_context\<lparr>rdi := 2\<rparr>" 7 "\<lambda>_. 0"] proc(2) mode by simp
  ultimately show ?thesis ..
qed

section \<open>Writing and reading back\<close>



text \<open>The offset advances even when the read fails.\<close>

theorem failed_read_advances:
  assumes "current_process core s = Some (p, proc)" "unat (rdi rg) < length (fd_list proc)"
    and "fd_list proc ! unat (rdi rg) = Some fd" "fd_mode fd AND READ \<noteq> 0"
    and "vfs_read ret (fd_file fd) (fd_offset fd) (rdx rg) (rsi rg) s = Some (-1, s)"
  shows "\<exists>s'. syscall_read ret core rg s = Some (rg\<lparr>rax := -1\<rparr>, s') \<and>
    current_process core s' = Some (p, proc\<lparr>fd_list := (fd_list proc)[unat (rdi rg) := Some (fd\<lparr>fd_offset := fd_offset fd + rdx rg\<rparr>)]\<rparr>)"
  using assms set_fds_current [OF assms(1)] by (simp add: syscall_read_def)

end
