(* ===== verification/Sched_Props.thy ===== *)
theory Sched_Props
  imports Sched Files_Props
begin

text \<open>
  The run queue: which threads wait, which run, and that these are never mixed up; the order in which waiting threads
  get a core; and what \<open>fork\<close> and the number allocators give.
\<close>

section \<open>The invariant of the run queue\<close>

definition status_of :: "'a ksched_scheme \<Rightarrow> nat \<Rightarrow> Status option" where
  "status_of s t = map_option th_status (thread_at s t)"

definition runq_ok :: "'a ksched_scheme \<Rightarrow> bool" where
  "runq_ok s \<longleftrightarrow> distinct (waiting_queue s) \<and>
     (\<forall>t \<in> set (waiting_queue s). status_of s t = Some Waiting) \<and>
     (\<forall>c t. running_thread (cores s c) = Some t \<longrightarrow> status_of s t = Some Running) \<and>
     (\<forall>c c' t. running_thread (cores s c) = Some t \<and> running_thread (cores s c') = Some t \<longrightarrow> c = c')"

text \<open>Every thread belongs to a process with a page map, a core with a thread has a process, and the addresses \<open>new\<close> will
  give are not in use.\<close>

definition page_map_of :: "'a ksched_scheme \<Rightarrow> nat \<Rightarrow> nat option" where
  "page_map_of s p = map_option pagemap (process_at s p)"

definition objects_ok :: "'a ksched_scheme \<Rightarrow> bool" where
  "objects_ok s \<longleftrightarrow>
     (\<forall>t x. thread_at s t = Some x \<longrightarrow> (\<exists>g v. page_map_of s (parent_process x) = Some g \<and> vmm_at s g = Some v)) \<and>
     (\<forall>c t. running_thread (cores s c) = Some t \<longrightarrow> (\<exists>p g. running_process (cores s c) = Some p \<and> page_map_of s p = Some g)) \<and>
     (\<forall>n. obj_fresh s \<le> n \<longrightarrow> thread_at s n = None \<and> page_map_of s n = None)"

lemma running_not_queued: "runq_ok s \<Longrightarrow> running_thread (cores s c) = Some r \<Longrightarrow> r \<notin> set (waiting_queue s)"
  by (auto simp: runq_ok_def)

text \<open>Switching from the running thread to the head of the queue, spelled out.\<close>

lemma store_simps [simp]:
  "thread_at (set_process_status pp st s) = thread_at s" "cores (set_process_status pp st s) = cores s"
  "waiting_queue (set_process_status pp st s) = waiting_queue s" "sched_lock (set_process_status pp st s) = sched_lock s"
  "vmm_at (set_process_status pp st s) = vmm_at s" "obj_fresh (set_process_status pp st s) = obj_fresh s"
  "obj_fresh (set_status t st s) = obj_fresh s" "obj_fresh (save_regs t rg s) = obj_fresh s"
  "process_at (set_status t st s) = process_at s" "cores (set_status t st s) = cores s"
  "waiting_queue (set_status t st s) = waiting_queue s" "sched_lock (set_status t st s) = sched_lock s"
  "vmm_at (set_status t st s) = vmm_at s"
  "process_at (save_regs t rg s) = process_at s" "cores (save_regs t rg s) = cores s"
  "waiting_queue (save_regs t rg s) = waiting_queue s" "sched_lock (save_regs t rg s) = sched_lock s"
  "vmm_at (save_regs t rg s) = vmm_at s"
  by (simp_all add: set_process_status_def set_status_def save_regs_def)

lemma thread_at_updates:
  "thread_at (set_status t st s) u = (if u = t then map_option (\<lambda>x. x\<lparr>th_status := st\<rparr>) (thread_at s t) else thread_at s u)"
  "thread_at (save_regs t rg s) u = (if u = t then map_option (\<lambda>x. x\<lparr>regs := rg\<rparr>) (thread_at s t) else thread_at s u)"
  by (simp_all add: set_status_def save_regs_def)

lemma dispatch_result:
  assumes "thread_at s t = Some x" "page_map_of s (parent_process x) = Some g" "vmm_at s g = Some v"
  obtains s' where "dispatch core t s = Some (Switch (regs x) (switch_pagemap v), s')"
    "\<And>u. thread_at s' u = (if u = t then Some (x\<lparr>th_status := Running\<rparr>) else thread_at s u)"
    "waiting_queue s' = waiting_queue s" "sched_lock s' = 0" "vmm_at s' = vmm_at s"
    "\<And>c. running_thread (cores s' c) = (if c = core then Some t else running_thread (cores s c))"
    "\<And>c. running_process (cores s' c) = (if c = core then Some (parent_process x) else running_process (cores s c))"
    "page_map_of s' = page_map_of s" "obj_fresh s' = obj_fresh s"
proof -
  obtain proc where proc: "process_at s (parent_process x) = Some proc" "pagemap proc = g"
    using assms(2) by (auto simp: page_map_of_def)
  define s1 where "s1 = set_status t Running (set_process_status (parent_process x) Running s)"
  define s' where "s' = s1\<lparr>sched_lock := 0, cores := (cores s)(core := (cores s core)\<lparr>running_thread := Some t,
      running_process := Some (parent_process x), cpu_pagemap := Some g, working_dir := process_directory proc\<rparr>)\<rparr>"
  have "dispatch core t s = Some (Switch (regs x) (switch_pagemap v), s')"
    using assms proc by (simp add: dispatch_def Let_def s'_def s1_def)
  moreover have "thread_at s' u = (if u = t then Some (x\<lparr>th_status := Running\<rparr>) else thread_at s u)" for u
    using assms(1) by (simp add: s'_def s1_def thread_at_updates)
  moreover have "page_map_of s' = page_map_of s"
    by (auto simp: fun_eq_iff page_map_of_def s'_def s1_def set_process_status_def option.map_comp comp_def)
  ultimately show ?thesis by (intro that [of s']) (simp_all add: s'_def s1_def)
qed

lemma preempt_result:
  assumes "thread_at s r = Some x" "th_status x \<noteq> Dying" "running_process (cores s core) = Some pp" "page_map_of s pp = Some g"
  obtains s' where "preempt core r rg s = Some s'"
    "\<And>u. thread_at s' u = (if u = r then Some (x\<lparr>th_status := Waiting, regs := rg\<rparr>) else thread_at s u)"
    "waiting_queue s' = waiting_queue s @ [r]" "sched_lock s' = sched_lock s" "vmm_at s' = vmm_at s"
    "cores s' = cores s" "page_map_of s' = page_map_of s" "obj_fresh s' = obj_fresh s"
proof -
  obtain proc where proc: "process_at s pp = Some proc" using assms(4) by (auto simp: page_map_of_def)
  define s1 where "s1 = save_regs r rg (set_status r Waiting s)"
  define st where "st = (if list_ex (has_status Running s1) (threads proc) then Running else Waiting)"
  define s' where "s' = (set_process_status pp st s1)\<lparr>waiting_queue := waiting_queue s @ [r]\<rparr>"
  have "preempt core r rg s = Some s'"
    using assms proc by (simp add: preempt_def Let_def s'_def s1_def st_def)
  moreover have "thread_at s' u = (if u = r then Some (x\<lparr>th_status := Waiting, regs := rg\<rparr>) else thread_at s u)" for u
    using assms(1) by (simp add: s'_def s1_def thread_at_updates)
  moreover have "page_map_of s' = page_map_of s"
    by (auto simp: fun_eq_iff page_map_of_def s'_def s1_def set_process_status_def option.map_comp comp_def)
  ultimately show ?thesis by (intro that [of s']) (simp_all add: s'_def s1_def)
qed

text \<open>What the invariants need of a new state in which \<open>t\<close> has taken over a core.\<close>

lemma runq_takeover:
  assumes ok: "runq_ok s" "objects_ok s"
    and q: "distinct q" "t \<notin> set q" "\<forall>u \<in> set q. status_of s' u = Some Waiting" "status_of s' t = Some Running"
    and others: "\<And>c u. c \<noteq> core \<Longrightarrow> running_thread (cores s c) = Some u \<Longrightarrow> u \<noteq> t \<and> status_of s' u = Some Running"
    and s': "waiting_queue s' = q"
      "\<And>c. running_thread (cores s' c) = (if c = core then Some t else running_thread (cores s c))"
      "\<And>c. c \<noteq> core \<Longrightarrow> running_process (cores s' c) = running_process (cores s c)"
      "page_map_of s' = page_map_of s" "vmm_at s' = vmm_at s" "obj_fresh s' = obj_fresh s"
      "\<And>u x. thread_at s' u = Some x \<Longrightarrow> \<exists>y. thread_at s u = Some y \<and> parent_process y = parent_process x"
      "\<exists>p g. running_process (cores s' core) = Some p \<and> page_map_of s p = Some g"
  shows "runq_ok s'" "objects_ok s'"
proof -
  have run: "status_of s' u = Some Running" if "running_thread (cores s' c) = Some u" for c u
    using that s'(2) [of c] q(4) others by (cases "c = core") auto
  have one: "c = c'" if run2: "running_thread (cores s' c) = Some u" "running_thread (cores s' c') = Some u" for c c' u
  proof (rule ccontr)
    assume ne: "c \<noteq> c'"
    have r: "running_thread (cores s d) = Some u" if "d \<noteq> core" "running_thread (cores s' d) = Some u" for d
      using that s'(2) [of d] by simp
    show False
    proof (cases "c = core \<or> c' = core")
      case True
      then have "u = t" using run2 s'(2) by auto
      moreover obtain d where "d \<noteq> core" "running_thread (cores s' d) = Some u" using True ne run2 by metis
      ultimately show False using others [of d u] r [of d] by blast
    next
      case False
      then show False using r run2 ok(1) ne unfolding runq_ok_def by blast
    qed
  qed
  show "runq_ok s'" using q s'(1) run one by (simp add: runq_ok_def)
  have "\<exists>g v. page_map_of s' (parent_process x) = Some g \<and> vmm_at s' g = Some v" if x: "thread_at s' u = Some x" for u x
    using s'(7) [OF x] ok(2) unfolding objects_ok_def s'(4,5) by metis
  moreover have "\<exists>p g. running_process (cores s' c) = Some p \<and> page_map_of s' p = Some g" if "running_thread (cores s' c) = Some u" for c u
    using that s'(2) [of c] s'(3) [of c] s'(4,8) ok(2) by (cases "c = core") (auto simp: objects_ok_def)
  moreover have "thread_at s' n = None \<and> page_map_of s' n = None" if "obj_fresh s' \<le> n" for n
    using that s'(4,6,7) ok(2) unfolding objects_ok_def by (metis option.exhaust option.simps(3))
  ultimately show "objects_ok s'" by (simp add: objects_ok_def)
qed

lemma runq_okD:
  assumes "runq_ok s" "objects_ok s"
  shows "t \<in> set (waiting_queue s) \<Longrightarrow>
      \<exists>x g v. thread_at s t = Some x \<and> th_status x = Waiting \<and> page_map_of s (parent_process x) = Some g \<and> vmm_at s g = Some v"
    and "running_thread (cores s c) = Some r \<Longrightarrow>
      \<exists>y p g g' v. thread_at s r = Some y \<and> th_status y = Running \<and> running_process (cores s c) = Some p \<and> page_map_of s p = Some g \<and>
        page_map_of s (parent_process y) = Some g' \<and> vmm_at s g' = Some v"
proof -
  show "\<exists>x g v. thread_at s t = Some x \<and> th_status x = Waiting \<and> page_map_of s (parent_process x) = Some g \<and> vmm_at s g = Some v"
    if "t \<in> set (waiting_queue s)"
    using assms that by (fastforce simp: runq_ok_def objects_ok_def status_of_def)
  assume run: "running_thread (cores s c) = Some r"
  then have "status_of s r = Some Running" using assms(1) unfolding runq_ok_def by blast
  then obtain y where "thread_at s r = Some y" "th_status y = Running" by (auto simp: status_of_def)
  then show "\<exists>y p g g' v. thread_at s r = Some y \<and> th_status y = Running \<and> running_process (cores s c) = Some p \<and> page_map_of s p = Some g \<and>
        page_map_of s (parent_process y) = Some g' \<and> vmm_at s g' = Some v"
    using assms(2) run unfolding objects_ok_def by blast
qed

lemma reschedule_switch:
  fixes s :: "'a ksched_scheme"
  assumes ok: "runq_ok s" "objects_ok s" and lock: "sched_lock s = 0"
    and run: "running_thread (cores s core) = Some r" and q: "waiting_queue s = t # ts"
  obtains x y v and s' :: "'a ksched_scheme" where "thread_at s t = Some x" "thread_at s r = Some y"
    "reschedule core rg s = Some (Switch (regs x) (switch_pagemap v), s')" "runq_ok s'" "objects_ok s'" "sched_lock s' = 0"
    "waiting_queue s' = ts @ [r]" "thread_at s' t = Some (x\<lparr>th_status := Running\<rparr>)"
    "thread_at s' r = Some (y\<lparr>th_status := Waiting, regs := rg\<rparr>)" "\<And>u. u \<noteq> t \<Longrightarrow> u \<noteq> r \<Longrightarrow> thread_at s' u = thread_at s u"
    "\<And>c. running_thread (cores s' c) = (if c = core then Some t else running_thread (cores s c))"
proof -
  obtain x g v where x: "thread_at s t = Some x" "th_status x = Waiting" "page_map_of s (parent_process x) = Some g" "vmm_at s g = Some v"
    using runq_okD(1) [OF ok, of t] q by auto
  obtain y p gp where y: "thread_at s r = Some y" "th_status y = Running" "running_process (cores s core) = Some p" "page_map_of s p = Some gp"
    using runq_okD(2) [OF ok run] by blast
  have rt: "r \<noteq> t" using x y by auto
  define s0 where "s0 = s\<lparr>sched_lock := 1, waiting_queue := ts\<rparr>"
  have s0: "thread_at s0 = thread_at s" "cores s0 = cores s" "page_map_of s0 = page_map_of s" "vmm_at s0 = vmm_at s" "waiting_queue s0 = ts"
    "obj_fresh s0 = obj_fresh s"
    by (simp_all add: s0_def page_map_of_def fun_eq_iff)
  obtain s1 where s1: "preempt core r rg s0 = Some s1"
    "\<And>u. thread_at s1 u = (if u = r then Some (y\<lparr>th_status := Waiting, regs := rg\<rparr>) else thread_at s0 u)"
    "waiting_queue s1 = waiting_queue s0 @ [r]" "vmm_at s1 = vmm_at s0" "cores s1 = cores s0" "page_map_of s1 = page_map_of s0" "obj_fresh s1 = obj_fresh s0"
    by (rule preempt_result [of s0 r y core p gp rg]) (use y in \<open>simp_all add: s0\<close>)
  have t1: "thread_at s1 t = Some x" using s1(2) x rt by (simp add: s0)
  obtain s' where s': "dispatch core t s1 = Some (Switch (regs x) (switch_pagemap v), s')"
    "\<And>u. thread_at s' u = (if u = t then Some (x\<lparr>th_status := Running\<rparr>) else thread_at s1 u)"
    "waiting_queue s' = waiting_queue s1" "sched_lock s' = 0" "vmm_at s' = vmm_at s1"
    "\<And>c. running_thread (cores s' c) = (if c = core then Some t else running_thread (cores s1 c))"
    "\<And>c. running_process (cores s' c) = (if c = core then Some (parent_process x) else running_process (cores s1 c))"
    "page_map_of s' = page_map_of s1" "obj_fresh s' = obj_fresh s1"
    by (rule dispatch_result [OF t1, of g v core]) (use x s1 in \<open>simp_all add: s0\<close>)
  have eq: "reschedule core rg s = Some (Switch (regs x) (switch_pagemap v), s')"
    using lock q run rt s1(1) s'(1) by (simp add: reschedule_def Let_def s0_def)
  have th: "thread_at s' u = (if u = t then Some (x\<lparr>th_status := Running\<rparr>)
      else if u = r then Some (y\<lparr>th_status := Waiting, regs := rg\<rparr>) else thread_at s u)" for u
    using s'(2) s1(2) s0 by simp
  have q': "waiting_queue s' = ts @ [r]" using s'(3) s1(3) s0 by simp
  have run': "running_thread (cores s' c) = (if c = core then Some t else running_thread (cores s c))" for c
    using s'(6) s1(5) s0 by simp
  have nq: "r \<notin> set (waiting_queue s)" by (rule running_not_queued [OF ok(1) run])
  have dist: "distinct (ts @ [r])" "t \<notin> set (ts @ [r])" using ok(1) q nq rt by (auto simp: runq_ok_def)
  have wait: "\<forall>u \<in> set (ts @ [r]). status_of s' u = Some Waiting"
    using ok(1) q dist(2) by (auto simp: status_of_def th runq_ok_def)
  have other: "u \<noteq> t \<and> status_of s' u = Some Running" if "c \<noteq> core" "running_thread (cores s c) = Some u" for c u
  proof -
    have "u \<notin> set (waiting_queue s)" "u \<noteq> r" "status_of s u = Some Running"
      using running_not_queued [OF ok(1) that(2)] ok(1) that run by (auto simp: runq_ok_def)
    then show ?thesis using q by (auto simp: status_of_def th)
  qed
  have st: "status_of s' t = Some Running" by (simp add: status_of_def th)
  have par: "\<exists>z. thread_at s u = Some z \<and> parent_process z = parent_process w" if "thread_at s' u = Some w" for u w
    using that x(1) y(1) by (auto simp: th split: if_splits)
  have pm: "page_map_of s' = page_map_of s" "vmm_at s' = vmm_at s" "obj_fresh s' = obj_fresh s"
    using s'(5,8,9) s1(4,6,7) s0 by simp_all
  have rp: "\<exists>p g. running_process (cores s' core) = Some p \<and> page_map_of s p = Some g" using s'(7) x(3) by simp
  have rp': "running_process (cores s' c) = running_process (cores s c)" if "c \<noteq> core" for c using s'(7) s1(5) s0 that by simp
  note inv = runq_takeover [OF ok dist wait st other q' run' rp' pm par rp]
  show ?thesis
    by (rule that [OF x(1) y(1) eq inv s'(4) q' _ _ _ run']) (simp_all add: th rt)
qed

lemma reschedule_first:
  fixes s :: "'a ksched_scheme"
  assumes ok: "runq_ok s" "objects_ok s" and lock: "sched_lock s = 0"
    and run: "running_thread (cores s core) = None" and q: "waiting_queue s = t # ts"
  obtains x v and s' :: "'a ksched_scheme" where "thread_at s t = Some x"
    "reschedule core rg s = Some (Switch (regs x) (switch_pagemap v), s')" "runq_ok s'" "objects_ok s'" "sched_lock s' = 0"
    "waiting_queue s' = ts" "running_thread (cores s' core) = Some t"
proof -
  obtain x g v where x: "thread_at s t = Some x" "page_map_of s (parent_process x) = Some g" "vmm_at s g = Some v"
    using runq_okD(1) [OF ok, of t] q by auto
  define s0 where "s0 = s\<lparr>sched_lock := 1, waiting_queue := ts\<rparr>"
  have s0: "thread_at s0 = thread_at s" "cores s0 = cores s" "page_map_of s0 = page_map_of s" "vmm_at s0 = vmm_at s" "waiting_queue s0 = ts"
    "obj_fresh s0 = obj_fresh s"
    by (simp_all add: s0_def page_map_of_def fun_eq_iff)
  obtain s' where s': "dispatch core t s0 = Some (Switch (regs x) (switch_pagemap v), s')"
    "\<And>u. thread_at s' u = (if u = t then Some (x\<lparr>th_status := Running\<rparr>) else thread_at s0 u)"
    "waiting_queue s' = waiting_queue s0" "sched_lock s' = 0" "vmm_at s' = vmm_at s0"
    "\<And>c. running_thread (cores s' c) = (if c = core then Some t else running_thread (cores s0 c))"
    "\<And>c. running_process (cores s' c) = (if c = core then Some (parent_process x) else running_process (cores s0 c))"
    "page_map_of s' = page_map_of s0" "obj_fresh s' = obj_fresh s0"
    by (rule dispatch_result [of s0 t x g v core]) (use x in \<open>simp_all add: s0\<close>)
  have eq: "reschedule core rg s = Some (Switch (regs x) (switch_pagemap v), s')"
    using lock q run s'(1) by (simp add: reschedule_def Let_def s0_def)
  have dist: "distinct ts" "t \<notin> set ts" using ok(1) q by (auto simp: runq_ok_def)
  have wait: "\<forall>u \<in> set ts. status_of s' u = Some Waiting"
    using ok(1) q dist(2) by (auto simp: status_of_def s'(2) s0 runq_ok_def)
  have other: "u \<noteq> t \<and> status_of s' u = Some Running" if "c \<noteq> core" "running_thread (cores s c) = Some u" for c u
  proof -
    have "u \<notin> set (waiting_queue s)" "status_of s u = Some Running"
      using running_not_queued [OF ok(1) that(2)] ok(1) that by (auto simp: runq_ok_def)
    then show ?thesis using q by (auto simp: status_of_def s'(2) s0)
  qed
  have q': "waiting_queue s' = ts" using s'(3) s0 by simp
  have run': "running_thread (cores s' c) = (if c = core then Some t else running_thread (cores s c))" for c
    using s'(6) s0 by simp
  have inv: "runq_ok s'" "objects_ok s'"
    by (rule runq_takeover [OF ok dist wait _ other q' run']; use s' s0 x in \<open>auto simp: status_of_def split: if_splits\<close>)+
  show ?thesis by (rule that [OF x(1) eq inv s'(4) q']) (simp add: run')
qed

lemma reschedule_alone:
  fixes s :: "'a ksched_scheme"
  assumes ok: "runq_ok s" "objects_ok s" and lock: "sched_lock s = 0"
    and run: "running_thread (cores s core) = Some r" and q: "waiting_queue s = []"
  obtains y v and s' :: "'a ksched_scheme" where "thread_at s r = Some y"
    "reschedule core rg s = Some (Switch rg (switch_pagemap v), s')" "runq_ok s'" "objects_ok s'" "sched_lock s' = 0"
    "waiting_queue s' = []" "running_thread (cores s' core) = Some r"
proof -
  obtain y p gp g v where y: "thread_at s r = Some y" "th_status y = Running" "running_process (cores s core) = Some p" "page_map_of s p = Some gp"
    "page_map_of s (parent_process y) = Some g" "vmm_at s g = Some v"
    using runq_okD(2) [OF ok run] by blast
  define s0 where "s0 = save_regs r rg (s\<lparr>sched_lock := 1\<rparr>)"
  have s0: "\<And>u. thread_at s0 u = (if u = r then Some (y\<lparr>regs := rg\<rparr>) else thread_at s u)" "cores s0 = cores s"
    "page_map_of s0 = page_map_of s" "vmm_at s0 = vmm_at s" "waiting_queue s0 = []" "obj_fresh s0 = obj_fresh s"
    using y(1) q by (simp_all add: s0_def page_map_of_def fun_eq_iff thread_at_updates)
  have t0: "thread_at s0 r = Some (y\<lparr>regs := rg\<rparr>)" by (simp add: s0)
  obtain s' where s': "dispatch core r s0 = Some (Switch (regs (y\<lparr>regs := rg\<rparr>)) (switch_pagemap v), s')"
    "\<And>u. thread_at s' u = (if u = r then Some (y\<lparr>regs := rg\<rparr>\<lparr>th_status := Running\<rparr>) else thread_at s0 u)"
    "waiting_queue s' = waiting_queue s0" "sched_lock s' = 0" "vmm_at s' = vmm_at s0"
    "\<And>c. running_thread (cores s' c) = (if c = core then Some r else running_thread (cores s0 c))"
    "\<And>c. running_process (cores s' c) = (if c = core then Some (parent_process (y\<lparr>regs := rg\<rparr>)) else running_process (cores s0 c))"
    "page_map_of s' = page_map_of s0" "obj_fresh s' = obj_fresh s0"
    by (rule dispatch_result [OF t0, of g v core]) (use y in \<open>simp_all add: s0\<close>)
  have eq: "reschedule core rg s = Some (Switch rg (switch_pagemap v), s')"
    using lock q run y s'(1) by (simp add: reschedule_def Let_def s0_def)
  have q': "waiting_queue s' = []" using s'(3) s0 by simp
  have run': "running_thread (cores s' c) = (if c = core then Some r else running_thread (cores s c))" for c
    using s'(6) s0 by simp
  have other: "u \<noteq> r \<and> status_of s' u = Some Running" if "c \<noteq> core" "running_thread (cores s c) = Some u" for c u
    using ok(1) that run by (auto simp: runq_ok_def status_of_def s'(2) s0(1))
  have inv: "runq_ok s'" "objects_ok s'"
    by (rule runq_takeover [OF ok _ _ _ _ other q' run']; use s' s0 y in \<open>auto simp: status_of_def split: if_splits\<close>)+
  show ?thesis by (rule that [OF y(1) eq inv s'(4) q']) (simp add: run')
qed

section \<open>Turns\<close>

text \<open>Whatever takes turns like this, head of the ready list next and the old one to its end, lets everyone run.\<close>

primrec run_all :: "('i \<Rightarrow> 's \<Rightarrow> 's option) \<Rightarrow> 'i list \<Rightarrow> 's \<Rightarrow> 's option" where
  "run_all step [] s = Some s"
| "run_all step (i # is) s = Option.bind (step i s) (run_all step is)"

locale rotation =
  fixes step :: "'i \<Rightarrow> 's \<Rightarrow> 's option"
    and running :: "'s \<Rightarrow> 't option"
    and ready :: "'s \<Rightarrow> 't list"
    and inv :: "'s \<Rightarrow> bool"
  assumes rotate: "inv s \<Longrightarrow> running s = Some r \<Longrightarrow> ready s = t # ts \<Longrightarrow>
    \<exists>s'. step i s = Some s' \<and> inv s' \<and> running s' = Some t \<and> ready s' = ts @ [r]"
begin

lemma turns:
  assumes "inv s" "running s = Some r" "ready s \<noteq> []"
  shows "\<exists>s' r'. run_all step is s = Some s' \<and> inv s' \<and> running s' = Some r' \<and> r' # ready s' = rotate (length is) (r # ready s)"
  using assms
proof (induction "is" arbitrary: s r)
  case (Cons i js)
  obtain t ts where q: "ready s = t # ts" using Cons.prems(3) by (cases "ready s") auto
  obtain s1 where s1: "step i s = Some s1" "inv s1" "running s1 = Some t" "ready s1 = ts @ [r]"
    using rotate [OF Cons.prems(1,2) q] by blast
  have "rotate (length js) (t # ready s1) = rotate (length (i # js)) (r # ready s)"
    using q s1(4) by (simp add: rotate1_rotate_swap)
  then show ?case using Cons.IH [OF s1(2,3)] s1(1,4) by auto
qed simp

lemma turn_comes:
  assumes "inv s" "running s = Some r" "k < length (ready s)" "length is = Suc k"
  shows "\<exists>s'. run_all step is s = Some s' \<and> inv s' \<and> running s' = Some (ready s ! k)"
proof -
  obtain s' r' where s': "run_all step is s = Some s'" "inv s'" "running s' = Some r'" "r' # ready s' = rotate (Suc k) (r # ready s)"
    using turns [OF assms(1,2), of "is"] assms(3,4) by fastforce
  have "r' = hd (rotate (Suc k) (r # ready s))" using s'(4) by (metis list.sel(1))
  also have "\<dots> = (r # ready s) ! (Suc k mod Suc (length (ready s)))" by (simp add: hd_rotate_conv_nth del: rotate_Suc)
  also have "\<dots> = ready s ! k" using assms(3) by simp
  finally show ?thesis using s' by auto
qed

lemma full_turn:
  assumes "inv s" "running s = Some r" "ready s \<noteq> []" "length is = Suc (length (ready s))"
  shows "\<exists>s'. run_all step is s = Some s' \<and> inv s' \<and> running s' = Some r \<and> ready s' = ready s"
proof -
  have "rotate (length is) (r # ready s) = r # ready s"
    using assms(4) rotate_conv_mod [of "length is" "r # ready s"] by simp
  then show ?thesis using turns [OF assms(1-3), of "is"] by auto
qed

end

definition sched_inv :: "'a ksched_scheme \<Rightarrow> bool" where
  "sched_inv s \<longleftrightarrow> runq_ok s \<and> objects_ok s \<and> sched_lock s = 0"

definition tick :: "nat \<Rightarrow> context_t \<Rightarrow> 'a ksched_scheme \<Rightarrow> 'a ksched_scheme option" where
  "tick core rg s = map_option snd (reschedule core rg s)"

interpretation rr: rotation "tick core" "\<lambda>s. running_thread (cores s core)" waiting_queue sched_inv
proof
  fix s :: "'a ksched_scheme" and r t ts rg
  assume inv: "sched_inv s" and run: "running_thread (cores s core) = Some r" and q: "waiting_queue s = t # ts"
  have ok: "runq_ok s" "objects_ok s" "sched_lock s = 0" using inv by (simp_all add: sched_inv_def)
  obtain rs and s' :: "'a ksched_scheme" where "reschedule core rg s = Some (rs, s')"
    "runq_ok s'" "objects_ok s'" "sched_lock s' = 0" "waiting_queue s' = ts @ [r]"
    "\<And>c. running_thread (cores s' c) = (if c = core then Some t else running_thread (cores s c))"
    by (rule reschedule_switch [OF ok run q, where rg = rg]) (rule that)
  then show "\<exists>s'. tick core rg s = Some s' \<and> sched_inv s' \<and> running_thread (cores s' core) = Some t \<and> waiting_queue s' = ts @ [r]"
    by (simp add: sched_inv_def tick_def)
qed

section \<open>Numbers and fork\<close>

lemma new_pid_frame: "get_new_pid s = Some (n, s') \<Longrightarrow> s' = s\<lparr>mem := snd (bitmap_allocate (mem s) (pid_bitmap s))\<rparr> \<and> n = fst (bitmap_allocate (mem s) (pid_bitmap s))"
  by (cases s) (auto simp: get_new_pid_def acquire_eq_Some bind_eq_Some_conv split: prod.splits)

lemma new_tid_frame: "get_new_tid s = Some (n, s') \<Longrightarrow> s' = s\<lparr>mem := snd (bitmap_allocate (mem s) (tid_bitmap s))\<rparr> \<and> n = fst (bitmap_allocate (mem s) (tid_bitmap s))"
  by (cases s) (auto simp: get_new_tid_def acquire_eq_Some bind_eq_Some_conv split: prod.splits)

lemma push_process_frame: "push_process p s = Some s' \<Longrightarrow> s' = s\<lparr>process_list := process_list s @ [p]\<rparr>"
  by (cases s) (auto simp: push_process_def acquire_eq_Some bind_eq_Some_conv)

lemma queue_thread_frame: "queue_thread t s = Some s' \<Longrightarrow> s' = s\<lparr>waiting_queue := waiting_queue s @ [t]\<rparr>"
  by (cases s) (auto simp: queue_thread_def acquire_eq_Some bind_eq_Some_conv)

lemma unlocked_calls:
  "pid_lock s = 0 \<Longrightarrow> get_new_pid s = Some (let (n, m) = bitmap_allocate (mem s) (pid_bitmap s) in (n, s\<lparr>mem := m\<rparr>))"
  "tid_lock s = 0 \<Longrightarrow> get_new_tid s = Some (let (n, m) = bitmap_allocate (mem s) (tid_bitmap s) in (n, s\<lparr>mem := m\<rparr>))"
  "sched_lock s = 0 \<Longrightarrow> push_process p s = Some (s\<lparr>process_list := process_list s @ [p]\<rparr>)"
  "sched_lock s = 0 \<Longrightarrow> queue_thread t s = Some (s\<lparr>waiting_queue := waiting_queue s @ [t]\<rparr>)"
  by (cases s; simp add: get_new_pid_def get_new_tid_def push_process_def queue_thread_def split: prod.splits)+

lemma bitmap_allocate_cases:
  obtains "bitmap_allocate m p = (-1, m)"
  | k where "k < 64" "\<not> is_bit_set m p k" "bitmap_allocate m p = (int k, bm_set_bit m p k)"
proof (cases "\<exists>k < 64. \<not> is_bit_set m p k")
  case True
  then obtain k where "k < 64" "\<not> is_bit_set m p k" "\<forall>j < k. is_bit_set m p j"
    using exists_least_iff [of "\<lambda>k. k < 64 \<and> \<not> is_bit_set m p k"] by (metis order.strict_trans)
  then show thesis using that(2) allocate_loop_found by blast
next
  case False
  then have "allocate_loop m p 0 = allocate_loop m p 64" by (intro allocate_loop_skip) auto
  then show thesis using that(1) by (simp add: bitmap_allocate_def allocate_loop.simps [of m p 64] sizeof_pointer_def)
qed

lemma pid_pair:
  assumes "get_new_pid s = Some (n, s1)" "n \<noteq> -1" "get_new_pid s1 = Some (k, s2)"
  shows "n \<noteq> k \<and> 0 \<le> n \<and> n < 64 \<and> (k = -1 \<or> 0 \<le> k \<and> k < 64)"
proof -
  let ?p = "pid_bitmap s"
  have s1: "s1 = s\<lparr>mem := snd (bitmap_allocate (mem s) ?p)\<rparr>" "n = fst (bitmap_allocate (mem s) ?p)"
    using new_pid_frame [OF assms(1)] by blast+
  obtain i where i: "i < 64" "bitmap_allocate (mem s) ?p = (int i, bm_set_bit (mem s) ?p i)"
    by (rule bitmap_allocate_cases [of "mem s" ?p]) (use s1(2) assms(2) in auto)
  let ?m = "bm_set_bit (mem s) ?p i"
  have set: "is_bit_set ?m ?p i" using i(1) by (simp add: is_bit_set_bm_set_bit)
  have k: "k = fst (bitmap_allocate ?m ?p)" using new_pid_frame [OF assms(3)] s1(1) i(2) by simp
  show ?thesis using k s1(2) i set by (cases rule: bitmap_allocate_cases [of ?m ?p]) auto
qed

lemma fork_result:
  assumes "syscall_fork at core rg s = Some (rg', s')" "rax rg' \<noteq> -1"
    and "running_process (cores s core) = Some p" "process_at s p = Some parent"
  obtains m v proc tn where
    "s' = s\<lparr>mem := m, obj_fresh := Suc (Suc (obj_fresh s)), process_list := process_list s @ [obj_fresh s],
       vmm_at := (vmm_at s)(vmm_fresh s \<mapsto> v), vmm_fresh := Suc (vmm_fresh s),
       thread_at := (thread_at s)(Suc (obj_fresh s) \<mapsto>
          \<lparr>tid = tn, th_status = Waiting, parent_process = obj_fresh s, regs = rg\<lparr>rax := 0\<rparr>\<rparr>),
       process_at := (process_at s)(obj_fresh s \<mapsto> proc), waiting_queue := waiting_queue s @ [Suc (obj_fresh s)]\<rparr>"
    "rg' = rg\<lparr>rax := pid proc\<rparr>" "p_status proc = Waiting" "process_directory proc = process_directory parent"
    "threads proc = [Suc (obj_fresh s)]" "fd_list proc = fd_list parent" "pagemap proc = vmm_fresh s"
proof -
  define s0 where "s0 = s\<lparr>obj_fresh := Suc (Suc (obj_fresh s))\<rparr>"
  obtain s1 n s2 kv pv v s3 k s4 where st: "push_process (obj_fresh s) s0 = Some s1" "get_new_pid s1 = Some (n, s2)"
    "duplicate at kv pv s2 = Some (v, s3)"
    "get_new_tid (s3\<lparr>vmm_at := (vmm_at s3)(vmm_fresh s3 \<mapsto> v), vmm_fresh := Suc (vmm_fresh s3)\<rparr>) = Some (k, s4)"
    and last: "(if k = - 1 then Some (rg\<lparr>rax := -1\<rparr>, s4\<lparr>process_at := (process_at s4)(obj_fresh s \<mapsto>
           \<lparr>pid = of_int n, p_status = Waiting, process_directory = process_directory parent, threads = [],
             fd_list = fd_list parent, pagemap = vmm_fresh s3\<rparr>)\<rparr>)
        else (queue_thread (Suc (obj_fresh s)) (s4\<lparr>thread_at := (thread_at s4)(Suc (obj_fresh s) \<mapsto>
             \<lparr>tid = of_int k, th_status = Waiting, parent_process = obj_fresh s, regs = rg\<lparr>rax := 0\<rparr>\<rparr>),
           process_at := (process_at s4)(obj_fresh s \<mapsto>
             \<lparr>pid = of_int n, p_status = Waiting, process_directory = process_directory parent, threads = [Suc (obj_fresh s)],
               fd_list = fd_list parent, pagemap = vmm_fresh s3\<rparr>)\<rparr>) \<bind> (\<lambda>s. Some (rg\<lparr>rax := of_int n\<rparr>, s)))) = Some (rg', s')"
    using assms(1,3,4) by (auto simp: syscall_fork_def Let_def bind_eq_Some_conv s0_def split: if_splits)
  have s1: "s1 = s0\<lparr>process_list := process_list s0 @ [obj_fresh s]\<rparr>" by (rule push_process_frame [OF st(1)])
  obtain m2 where s2: "s2 = s1\<lparr>mem := m2\<rparr>" using new_pid_frame [OF st(2)] by blast
  obtain m3 where s3: "s3 = s2\<lparr>mem := m3\<rparr>" using duplicate_frame [OF st(3)] by blast
  obtain m4 where s4: "s4 = s3\<lparr>vmm_at := (vmm_at s3)(vmm_fresh s3 \<mapsto> v), vmm_fresh := Suc (vmm_fresh s3), mem := m4\<rparr>"
    using new_tid_frame [OF st(4)] by auto
  have k: "k \<noteq> -1" using last assms(2) by (auto split: if_splits)
  let ?proc = "\<lparr>pid = of_int n, p_status = Waiting, process_directory = process_directory parent, threads = [Suc (obj_fresh s)],
               fd_list = fd_list parent, pagemap = vmm_fresh s\<rparr>"
  have "s' = s\<lparr>mem := m4, obj_fresh := Suc (Suc (obj_fresh s)), process_list := process_list s @ [obj_fresh s],
       vmm_at := (vmm_at s)(vmm_fresh s \<mapsto> v), vmm_fresh := Suc (vmm_fresh s),
       thread_at := (thread_at s)(Suc (obj_fresh s) \<mapsto>
          \<lparr>tid = of_int k, th_status = Waiting, parent_process = obj_fresh s, regs = rg\<lparr>rax := 0\<rparr>\<rparr>),
       process_at := (process_at s)(obj_fresh s \<mapsto> ?proc), waiting_queue := waiting_queue s @ [Suc (obj_fresh s)]\<rparr>"
    "rg' = rg\<lparr>rax := of_int n\<rparr>"
    using last k by (auto simp: bind_eq_Some_conv s4 s3 s2 s1 s0_def dest!: queue_thread_frame)
  then show ?thesis by (intro that [where m = m4 and v = v and tn = "of_int k" and proc = ?proc]) simp_all
qed

lemma fork_spec:
  assumes "sched_inv s" "syscall_fork at core rg s = Some (rg', s')" "rax rg' \<noteq> -1"
    and "running_process (cores s core) = Some p" "process_at s p = Some parent"
  shows "\<exists>child t proc x. process_at s child = None \<and> thread_at s t = None \<and>
    process_at s' = (process_at s)(child \<mapsto> proc) \<and> thread_at s' = (thread_at s)(t \<mapsto> x) \<and>
    threads proc = [t] \<and> fd_list proc = fd_list parent \<and> process_directory proc = process_directory parent \<and>
    parent_process x = child \<and> th_status x = Waiting \<and> regs x = rg\<lparr>rax := 0\<rparr> \<and> rg' = rg\<lparr>rax := pid proc\<rparr> \<and>
    waiting_queue s' = waiting_queue s @ [t] \<and> process_list s' = process_list s @ [child] \<and> sched_inv s'"
proof -
  let ?c = "obj_fresh s" and ?t = "Suc (obj_fresh s)"
  have ok: "runq_ok s" "objects_ok s" "sched_lock s = 0" using assms(1) by (simp_all add: sched_inv_def)
  obtain m v proc tn where f:
    "s' = s\<lparr>mem := m, obj_fresh := Suc ?t, process_list := process_list s @ [?c],
       vmm_at := (vmm_at s)(vmm_fresh s \<mapsto> v), vmm_fresh := Suc (vmm_fresh s),
       thread_at := (thread_at s)(?t \<mapsto> \<lparr>tid = tn, th_status = Waiting, parent_process = ?c, regs = rg\<lparr>rax := 0\<rparr>\<rparr>),
       process_at := (process_at s)(?c \<mapsto> proc), waiting_queue := waiting_queue s @ [?t]\<rparr>"
    "rg' = rg\<lparr>rax := pid proc\<rparr>" "p_status proc = Waiting" "process_directory proc = process_directory parent"
    "threads proc = [?t]" "fd_list proc = fd_list parent" "pagemap proc = vmm_fresh s"
    by (rule fork_result [OF assms(2-5)]) (rule that)
  have new: "thread_at s ?t = None" "process_at s ?c = None"
    using ok(2) by (auto simp: objects_ok_def page_map_of_def)
  have st: "status_of s' u = (if u = ?t then Some Waiting else status_of s u)" for u by (simp add: status_of_def f(1))
  have nq: "?t \<notin> set (waiting_queue s)" using ok(1) new(1) by (auto simp: runq_ok_def status_of_def)
  have nr: "running_thread (cores s c) \<noteq> Some ?t" for c
  proof
    assume "running_thread (cores s c) = Some ?t"
    then have "status_of s ?t = Some Running" using ok(1) unfolding runq_ok_def by blast
    then show False using new(1) by (simp add: status_of_def)
  qed
  have "runq_ok s'"
    using ok(1) nq nr unfolding runq_ok_def st by (auto simp: f(1))
  moreover have "objects_ok s'"
  proof -
    have pm: "page_map_of s' u = (if u = ?c then Some (vmm_fresh s) else page_map_of s u)" for u
      by (simp add: page_map_of_def f(1,7))
    have fl: "vmm_at s' = (vmm_at s)(vmm_fresh s \<mapsto> v)" "cores s' = cores s" "obj_fresh s' = Suc ?t"
      "thread_at s' = (thread_at s)(?t \<mapsto> \<lparr>tid = tn, th_status = Waiting, parent_process = ?c, regs = rg\<lparr>rax := 0\<rparr>\<rparr>)"
      by (simp_all add: f(1))
    have fresh: "\<forall>n. ?c \<le> n \<longrightarrow> thread_at s n = None \<and> page_map_of s n = None" using ok(2) by (simp add: objects_ok_def)
    have keep: "u \<noteq> ?c" if "page_map_of s u = Some g" for u g using that fresh by auto
    have "\<exists>g v. page_map_of s' (parent_process x) = Some g \<and> vmm_at s' g = Some v" if x: "thread_at s' u = Some x" for u x
    proof (cases "u = ?t")
      case True then show ?thesis using x by (auto simp: pm fl)
    next
      case False
      then have "thread_at s u = Some x" using x by (simp add: fl)
      then obtain g w where "page_map_of s (parent_process x) = Some g" "vmm_at s g = Some w" using ok(2) unfolding objects_ok_def by blast
      then show ?thesis using keep by (auto simp: pm fl)
    qed
    moreover have "\<exists>q g. running_process (cores s' c) = Some q \<and> page_map_of s' q = Some g" if "running_thread (cores s' c) = Some u" for c u
    proof -
      have "running_thread (cores s c) = Some u" using that by (simp add: fl)
      then obtain q g where "running_process (cores s c) = Some q" "page_map_of s q = Some g" using ok(2) unfolding objects_ok_def by blast
      then show ?thesis using keep by (auto simp: pm fl)
    qed
    moreover have "thread_at s' n = None \<and> page_map_of s' n = None" if "obj_fresh s' \<le> n" for n
      using that fresh by (simp add: pm fl)
    ultimately show ?thesis by (simp add: objects_ok_def)
  qed
  ultimately have "sched_inv s'" using ok(3) by (simp add: sched_inv_def f(1))
  then show ?thesis using new f
    by (intro exI [of _ ?c] exI [of _ ?t] exI [of _ proc]
        exI [of _ "\<lparr>tid = tn, th_status = Waiting, parent_process = ?c, regs = rg\<lparr>rax := 0\<rparr>\<rparr>"]) simp
qed

section \<open>A machine of cores\<close>

text \<open>A core takes a timer interrupt with whatever registers, a waiting thread that is not queued yet is queued, a process
  forks, or running code writes memory.\<close>

inductive sched_step :: "'a ksched_scheme \<Rightarrow> 'a ksched_scheme \<Rightarrow> bool" where
  timer: "reschedule core rg s = Some (r, s') \<Longrightarrow> sched_step s s'"
| enqueue: "status_of s t = Some Waiting \<Longrightarrow> t \<notin> set (waiting_queue s) \<Longrightarrow> queue_thread t s = Some s' \<Longrightarrow> sched_step s s'"
| fork: "running_process (cores s core) = Some p \<Longrightarrow> process_at s p = Some parent \<Longrightarrow>
    syscall_fork at core rg s = Some (rg', s') \<Longrightarrow> rax rg' \<noteq> -1 \<Longrightarrow> sched_step s s'"
| compute: "sched_step s (s\<lparr>mem := m\<rparr>)"

lemma sched_inv_step:
  assumes "sched_inv s" "sched_step s s'"
  shows "sched_inv s'"
  using assms(2)
proof cases
  case (timer core rg r)
  have ok: "runq_ok s" "objects_ok s" "sched_lock s = 0" using assms(1) by (simp_all add: sched_inv_def)
  show ?thesis
  proof (cases "waiting_queue s")
    case Nil
    then obtain u where u: "running_thread (cores s core) = Some u"
      using timer ok(3) by (auto simp: reschedule_def Let_def bind_eq_Some_conv)
    obtain rs s'' where "reschedule core rg s = Some (rs, s'')" "runq_ok s''" "objects_ok s''" "sched_lock s'' = 0"
      by (rule reschedule_alone [OF ok u Nil, where rg = rg]) (rule that)
    then show ?thesis using timer by (simp add: sched_inv_def)
  next
    case (Cons t ts)
    show ?thesis
    proof (cases "running_thread (cores s core)")
      case None
      obtain rs s'' where "reschedule core rg s = Some (rs, s'')" "runq_ok s''" "objects_ok s''" "sched_lock s'' = 0"
        by (rule reschedule_first [OF ok None Cons, where rg = rg]) (rule that)
      then show ?thesis using timer by (simp add: sched_inv_def)
    next
      case (Some u)
      obtain rs s'' where "reschedule core rg s = Some (rs, s'')" "runq_ok s''" "objects_ok s''" "sched_lock s'' = 0"
        by (rule reschedule_switch [OF ok Some Cons, where rg = rg]) (rule that)
      then show ?thesis using timer by (simp add: sched_inv_def)
    qed
  qed
next
  case (enqueue t)
  then have s': "s' = s\<lparr>waiting_queue := waiting_queue s @ [t], sched_lock := 0\<rparr>"
    by (auto simp: queue_thread_def bind_eq_Some_conv acquire_eq_Some)
  show ?thesis using assms(1) enqueue
    unfolding s' sched_inv_def runq_ok_def objects_ok_def status_of_def page_map_of_def by simp
next
  case (fork core p parent at rg rg')
  from fork_spec [OF assms(1) fork(3,4,1,2)] show ?thesis by blast
next
  case (compute m)
  then show ?thesis using assms(1)
    by (simp add: sched_inv_def runq_ok_def objects_ok_def status_of_def page_map_of_def)
qed

lemma sched_inv_reachable: "sched_step\<^sup>*\<^sup>* s s' \<Longrightarrow> sched_inv s \<Longrightarrow> sched_inv s'"
  by (induction rule: rtranclp_induct) (auto intro: sched_inv_step)


text \<open>C16: the thread at position \<open>k\<close> of the queue runs on a core after \<open>k + 1\<close> timer interrupts of that core, whatever
  registers the interrupted threads had; none of the interrupts fails.\<close>

theorem reschedule_turn_comes:
  assumes "sched_inv s" "running_thread (cores s core) = Some r" "k < length (waiting_queue s)" "length ctxs = Suc k"
  shows "\<exists>s'. run_all (tick core) ctxs s = Some s' \<and> sched_inv s' \<and> running_thread (cores s' core) = Some (waiting_queue s ! k)"
  by (rule rr.turn_comes [OF assms])


text \<open>C10: a \<open>fork\<close> that does not report -1 has made one new process and one new thread: the child has the parent's
  directory and descriptors, its thread waits at the end of the queue with the parent's registers except that \<open>rax\<close> is 0,
  the parent gets the child's number, all other threads and processes are untouched, and the invariant of the run queue
  is kept.\<close>

theorem fork_child:
  assumes "sched_inv s" "syscall_fork at core rg s = Some (rg', s')" "rax rg' \<noteq> -1"
    and "running_process (cores s core) = Some p" "process_at s p = Some parent"
  shows "\<exists>child t proc x. process_at s child = None \<and> thread_at s t = None \<and>
    process_at s' = (process_at s)(child \<mapsto> proc) \<and> thread_at s' = (thread_at s)(t \<mapsto> x) \<and>
    threads proc = [t] \<and> fd_list proc = fd_list parent \<and> process_directory proc = process_directory parent \<and>
    parent_process x = child \<and> th_status x = Waiting \<and> regs x = rg\<lparr>rax := 0\<rparr> \<and> rg' = rg\<lparr>rax := pid proc\<rparr> \<and>
    waiting_queue s' = waiting_queue s @ [t] \<and> process_list s' = process_list s @ [child] \<and> sched_inv s'"
  by (rule fork_spec [OF assms])

text \<open>Process numbers are not handed out twice: when another number is taken before the first one is given back, the two
  differ, and both are in the range of a number or the answer is -1.\<close>

theorem pids_differ:
  assumes "get_new_pid s = Some (n, s1)" "n \<noteq> -1" "get_new_pid s1 = Some (k, s2)"
  shows "n \<noteq> k \<and> 0 \<le> n \<and> n < 64 \<and> (k = -1 \<or> 0 \<le> k \<and> k < 64)"
  by (rule pid_pair [OF assms])

section \<open>Witnesses\<close>

text \<open>One process with a thread that runs on core 0 and one that waits.\<close>

definition sched_sample :: ksched where
  "sched_sample = files_sample\<lparr>
     thread_at := [1 \<mapsto> \<lparr>tid = 0, th_status = Running, parent_process = 0, regs = zero_context\<rparr>,
                   2 \<mapsto> \<lparr>tid = 1, th_status = Waiting, parent_process = 0, regs = zero_context\<lparr>rip := 0x4000\<rparr>\<rparr>],
     process_at := [0 \<mapsto> \<lparr>pid = 0, p_status = Running, process_directory = None, threads = [1, 2], fd_list = [], pagemap = 0\<rparr>],
     obj_fresh := 3, vmm_at := [0 \<mapsto> \<lparr>m_pml4 = 0xffff800000002000, m_ranges = vector_new, page_tables_addr = vector_new\<rparr>],
     vmm_fresh := 1, waiting_queue := [2], pid_bitmap := 0x5000, tid_bitmap := 0x6000,
     cores := (\<lambda>c. \<lparr>lapic_id = 0, running_process = Some 0, running_thread = (if c = 0 then Some 1 else None), working_dir = None,
                    cpu_pagemap = Some 0\<rparr>)\<rparr>"

lemma sched_sample_inv: "sched_inv sched_sample"
proof -
  have "sched_lock sched_sample = 0" by (simp add: sched_sample_def files_sample_def kvfs.defs)
  then show ?thesis
    by (auto simp: sched_inv_def runq_ok_def objects_ok_def status_of_def page_map_of_def sched_sample_def split: if_splits)
qed

lemma sched_sample_running: "running_thread (cores sched_sample 0) = Some 1" "waiting_queue sched_sample = [2]"
  by (simp_all add: sched_sample_def)


theorem reschedule_turn_comes_witness:
  "\<exists>s'. run_all (tick 0) [zero_context] sched_sample = Some s' \<and> running_thread (cores s' 0) = Some 2"
  using reschedule_turn_comes [OF sched_sample_inv sched_sample_running(1), of 0 "[zero_context]"]
  by (simp add: sched_sample_running(2)) blast


text \<open>The child of the sample process: all numbers are free, and so are the eight pages.\<close>

lemma sched_sample_fork:
  "\<exists>rg' s'. syscall_fork at 0 rg (sched_sample\<lparr>waiting_queue := q\<rparr>) = Some (rg', s') \<and> rax rg' = 0"
proof -
  define s1 where "s1 = sched_sample\<lparr>waiting_queue := q, obj_fresh := 5, process_list := [0, 3]\<rparr>"
  define s2 where "s2 = s1\<lparr>mem := (\<lambda>_. 0)(0x5000 := 0x80)\<rparr>"
  have fields: "mem sched_sample = (\<lambda>_. 0)" "bitmap sched_sample = bitmap pmm_sample" "bitmapSize sched_sample = 1"
    "sched_lock sched_sample = 0" "pid_lock sched_sample = 0" "tid_lock sched_sample = 0" "pmm_lock sched_sample = 0"
    "process_list sched_sample = [0]" "kernel_vmm sched_sample = 0"
    by (simp_all add: sched_sample_def files_sample_def vfs_sample_def tmpfs_sample_def pmm_sample_def ktmpfs.defs kvfs.defs)
  have push: "push_process 3 (sched_sample\<lparr>waiting_queue := q, obj_fresh := 5\<rparr>) = Some s1"
    by (simp add: unlocked_calls s1_def fields)
  have pid: "get_new_pid s1 = Some (0, s2)"
  proof -
    have "\<not> is_bit_set (mem s1) (pid_bitmap s1) 0" by (simp add: is_bit_set_def s1_def fields)
    from allocate_loop_found [OF _ this]
    have "bitmap_allocate (mem s1) (pid_bitmap s1) = (0, (\<lambda>_. 0)(0x5000 := 0x80))"
      by (simp add: s1_def fields bm_set_bit_def bit_mask_def) (simp add: sched_sample_def)
    moreover have "pid_lock s1 = 0" by (simp add: s1_def fields)
    ultimately show ?thesis by (simp add: unlocked_calls s2_def)
  qed
  have pages: "free_page s2 i \<longleftrightarrow> i < 8" "bitmap_bytes s2 = bitmap_bytes pmm_sample" for i
    by (auto simp: free_page_def is_bit_set_def bitmap_bytes_def s2_def s1_def fields pmm_sample_def PHYSICAL_BASE_ADDRESS_def)
  have wf: "pmm_wf s2" using pmm_sample_wf by (simp add: pmm_wf_def pages pmm_sample_free) (simp add: s2_def s1_def fields)
  have "pmm_lock s2 = 0" by (simp add: s2_def s1_def fields)
  moreover have "0 < (1::nat)" "free_run s2 0 1" "\<forall>q < 0. \<not> free_run s2 q 1" by (simp_all add: free_run_def pages)
  ultimately have run: "pmm_lock s2 = 0" "0 < (1::nat)" "free_run s2 0 1" "\<forall>q < 0. \<not> free_run s2 q 1" by blast+
  obtain s3 where alloc: "pmm_alloc 1 s2 = Some (page_addr 0, s3)"
    "\<And>x. x \<notin> span (PHYSICAL_BASE_ADDRESS + page_addr 0) (1 * PAGE_SIZE) \<Longrightarrow> x \<notin> bitmap_bytes s2 \<Longrightarrow> mem s3 x = mem s2 x"
    by (rule pmm_alloc_run [OF wf run]) (rule that)
  obtain m3 where s3: "s3 = s2\<lparr>mem := m3\<rparr>" using pmm_alloc_frame [OF alloc(1)] by blast
  have "mem s3 0x6000 = mem s2 0x6000"
    by (rule alloc(2), unfold pages(2))
      (simp_all add: page_addr_def span_def bitmap_bytes_def pmm_sample_def PHYSICAL_BASE_ADDRESS_def PAGE_SIZE_def)
  then have m3: "m3 0x6000 = 0" by (simp add: s3 s2_def)
  obtain kv where kv: "vmm_at s2 0 = Some kv" "m_data (m_ranges kv) = []" by (simp add: s2_def s1_def sched_sample_def vector_new_def)
  obtain v m4 where dup: "duplicate at kv kv s2 = Some (v, s2\<lparr>mem := m4\<rparr>)" "m4 0x6000 = 0"
  proof -
    define a where "a = page_addr 0 + PHYSICAL_BASE_ADDRESS"
    have out: "0x6000 \<notin> span (tbl_cell a 256) 8" "0x6000 \<notin> span (tbl_cell a 511) 8"
      by (simp_all add: a_def page_addr_def tbl_cell_def span_def PHYSICAL_BASE_ADDRESS_def)
    define m where "m = write64 m3 (tbl_cell a 256) (read64 m3 (tbl_cell (m_pml4 kv) 256))"
    have "duplicate at kv kv s2 = Some (\<lparr>m_pml4 = a, m_ranges = vector_new, page_tables_addr = vector_new\<rparr>,
        s2\<lparr>mem := write64 m (tbl_cell a 511) (read64 m (tbl_cell (m_pml4 kv) 511))\<rparr>)"
      using alloc(1) kv(2) by (simp add: duplicate_def vmm_new_def Let_def s3 a_def m_def)
    then show thesis by (rule that) (use m3 out in \<open>simp add: m_def write64_other\<close>)
  qed
  have bit: "\<not> is_bit_set m4 0x6000 0" using dup(2) by (simp add: is_bit_set_def)
  have tid: "get_new_tid (s2\<lparr>mem := m4, vmm_at := f, vmm_fresh := 2\<rparr>) = Some (0, s2\<lparr>mem := bm_set_bit m4 0x6000 0, vmm_at := f, vmm_fresh := 2\<rparr>)" for f
    using allocate_loop_found [OF _ bit] by (simp add: unlocked_calls s2_def s1_def fields) (simp add: sched_sample_def)
  have "sched_lock s2 = 0" by (simp add: s2_def s1_def fields)
  have at: "running_process (cores sched_sample 0) = Some 0" "obj_fresh sched_sample = 3" "vmm_fresh s2 = 1" "kernel_vmm s2 = 0"
    "process_at sched_sample 0 = Some \<lparr>pid = 0, p_status = Running, process_directory = None, threads = [1, 2], fd_list = [], pagemap = 0\<rparr>"
    by (simp_all add: s2_def s1_def fields) (simp_all add: sched_sample_def)
  then show ?thesis using push pid dup(1) kv(1) tid \<open>sched_lock s2 = 0\<close>
    by (simp add: syscall_fork_def Let_def unlocked_calls numeral_eq_Suc)
qed

lemma sched_sample_same: "sched_sample\<lparr>waiting_queue := [2]\<rparr> = sched_sample"
  by (simp add: sched_sample_def)

theorem fork_child_witness:
  "\<exists>rg' s' t. syscall_fork (\<lambda>_ a. a) 0 zero_context sched_sample = Some (rg', s') \<and> waiting_queue s' = [2, t] \<and> sched_inv s'"
proof -
  obtain rg' s' where f: "syscall_fork (\<lambda>_ a. a) 0 zero_context sched_sample = Some (rg', s')" "rax rg' = 0"
    using sched_sample_fork [of "\<lambda>_ a. a" zero_context "[2]"] sched_sample_same by auto
  have ne: "rax rg' \<noteq> -1" using f(2) by simp
  obtain p where p: "running_process (cores sched_sample 0) = Some 0" "process_at sched_sample 0 = Some p"
    by (simp add: sched_sample_def)
  from fork_child [OF sched_sample_inv f(1) ne p] f(1) sched_sample_running(2) show ?thesis by auto
qed

theorem pids_differ_witness:
  "\<exists>n s1 k s2. get_new_pid sched_sample = Some (n, s1) \<and> get_new_pid s1 = Some (k, s2) \<and> n \<noteq> k"
proof -
  let ?p = "pid_bitmap sched_sample"
  have locks: "pid_lock sched_sample = 0" "mem sched_sample = (\<lambda>_. 0)"
    by (simp_all add: sched_sample_def files_sample_def vfs_sample_def tmpfs_sample_def pmm_sample_def ktmpfs.defs kvfs.defs)
  have "\<not> is_bit_set (mem sched_sample) ?p 0" by (simp add: is_bit_set_def locks)
  then have "bitmap_allocate (mem sched_sample) ?p = (0, bm_set_bit (mem sched_sample) ?p 0)"
    using allocate_loop_found [of 0 "mem sched_sample" ?p] by simp
  then obtain s1 where s1: "get_new_pid sched_sample = Some (0, s1)" "pid_lock s1 = 0"
    using locks by (simp add: unlocked_calls)
  then obtain k s2 where "get_new_pid s1 = Some (k, s2)" by (cases "bitmap_allocate (mem s1) (pid_bitmap s1)") (simp add: unlocked_calls)
  then show ?thesis using pids_differ [OF s1(1) _ \<open>get_new_pid s1 = Some (k, s2)\<close>] s1(1) by auto
qed

end
