(* ===== verification/Syscall.thy ===== *)
theory Syscall
  imports Sched_Props
begin

text \<open>
  \<^verbatim>\<open>kernel/x86_64/syscall.cpp\<close> and the rest of the system calls of \<^verbatim>\<open>scheduler.cpp\<close>: the
  dispatch on the number in \<open>rax\<close>. A call returns to its caller with new registers, leaves the core halted until the
  next interrupt, or stops it for good.
\<close>

datatype sysret = Sysret context_t | Hang | Panic

text \<open>What the calls depend on besides the state: the glyph table, the strings of the caller's address space, the value a
  function without a \<open>return\<close> leaves, the address translation of the processor and what other cores do meanwhile.\<close>

record 'a sysenv =
  glyphs :: "u64 \<Rightarrow> u8"
  user_str :: "u64 \<Rightarrow> cbuf"
  no_return :: int
  translate :: "mem \<Rightarrow> u64 \<Rightarrow> u64"
  others :: "nat \<Rightarrow> 'a ksched_scheme \<Rightarrow> 'a ksched_scheme option"

definition syscall_print :: "(u64 \<Rightarrow> u8) \<Rightarrow> cbuf \<Rightarrow> context_t \<Rightarrow> 'a ksched_scheme \<Rightarrow> (context_t \<times> 'a ksched_scheme) option" where
  "syscall_print font msg rg s = do {
     s \<leftarrow> print_str font msg s;
     s \<leftarrow> print_str font [10, 0] s;
     Some (rg, s)
   }"

definition syscall_exit :: "(nat \<Rightarrow> 'a ksched_scheme \<Rightarrow> 'a ksched_scheme option) \<Rightarrow> nat \<Rightarrow> 'a ksched_scheme \<Rightarrow> (sysret \<times> 'a ksched_scheme) option" where
  "syscall_exit wait core s = do { s \<leftarrow> exit_process wait core s; Some (Hang, s) }"

definition returning :: "(context_t \<times> 's) option \<Rightarrow> (sysret \<times> 's) option" where
  "returning r = map_option (\<lambda>(rg, s). (Sysret rg, s)) r"

definition syscall_list :: "'a sysenv \<Rightarrow> nat \<Rightarrow> (context_t \<Rightarrow> 'a ksched_scheme \<Rightarrow> (sysret \<times> 'a ksched_scheme) option) list" where
  "syscall_list e core =
     [\<lambda>rg s. returning (syscall_read (no_return e) core rg s),
      \<lambda>rg s. returning (syscall_write (glyphs e) core rg s),
      \<lambda>rg s. returning (syscall_open False (user_str e (rdi rg)) core rg s),
      \<lambda>rg s. returning (syscall_close core rg s),
      \<lambda>rg s. returning (syscall_getpid core rg s),
      \<lambda>rg s. returning (syscall_gettid core rg s),
      \<lambda>rg s. syscall_exit (others e) core s,
      \<lambda>rg s. returning (syscall_print (glyphs e) (user_str e (rdi rg)) rg s),
      \<lambda>rg s. returning (syscall_fork (translate e) core rg s)]"

definition syscall_main :: "'a sysenv \<Rightarrow> nat \<Rightarrow> context_t \<Rightarrow> 'a ksched_scheme \<Rightarrow> (sysret \<times> 'a ksched_scheme) option" where
  "syscall_main e core rg s =
     (if unat (rax rg) \<ge> length (syscall_list e core) then map_option (Pair Panic) (panic (glyphs e) (cstr ''invalid syscall'') s)
      else (syscall_list e core ! unat (rax rg)) rg s)"

section \<open>Process numbers across a switch\<close>

definition pid_of :: "'a ksched_scheme \<Rightarrow> nat \<Rightarrow> u64 option" where
  "pid_of s p = map_option pid (process_at s p)"

lemma pid_of_status [simp]: "pid_of (set_process_status q st s) p = pid_of s p" "pid_of (set_status t st s) p = pid_of s p"
  "pid_of (save_regs t rg s) p = pid_of s p"
  by (auto simp: pid_of_def set_process_status_def option.map_comp comp_def)

lemma dispatch_pid: "dispatch core t s = Some (r, s') \<Longrightarrow> pid_of s' p = pid_of s p"
  unfolding dispatch_def
  by (auto simp: bind_eq_Some_conv Let_def) (auto simp: pid_of_def set_process_status_def option.map_comp comp_def)

lemma preempt_pid: "preempt core r rg s = Some s' \<Longrightarrow> pid_of s' p = pid_of s p"
  unfolding preempt_def
  by (auto simp: bind_eq_Some_conv Let_def split: if_splits) (auto simp: pid_of_def set_process_status_def option.map_comp comp_def)

lemma dispatch_process:
  assumes "dispatch core t s = Some (r, s')" "thread_at s' t = Some x"
  shows "running_process (cores s' core) = Some (parent_process x)"
  using assms by (auto simp: dispatch_def bind_eq_Some_conv Let_def thread_at_updates)

lemma reschedule_dispatches:
  assumes "reschedule core rg s = Some (r, s')" "waiting_queue s = t # ts"
  obtains s1 where "dispatch core t s1 = Some (r, s')" "pid_of s1 = pid_of s"
proof (cases "running_thread (cores s core)")
  case None
  then show thesis using assms by (auto simp: reschedule_def bind_eq_Some_conv Let_def pid_of_def fun_eq_iff intro!: that)
next
  case (Some u)
  show thesis
  proof (cases "u = t")
    case True
    then show thesis using Some assms by (auto simp: reschedule_def bind_eq_Some_conv Let_def pid_of_def fun_eq_iff intro!: that)
  next
    case False
    then obtain l s1 where s1: "preempt core u rg (s\<lparr>sched_lock := l, waiting_queue := ts\<rparr>) = Some s1" "dispatch core t s1 = Some (r, s')"
      using Some assms by (auto simp: reschedule_def bind_eq_Some_conv Let_def)
    have "pid_of s1 p = pid_of s p" for p using preempt_pid [OF s1(1), of p] by (simp add: pid_of_def)
    then show thesis using that s1(2) by blast
  qed
qed

lemma fork_then_switch:
  assumes inv: "sched_inv s" and run: "running_thread (cores s core) = Some r" "waiting_queue s = []"
    and call: "syscall_main e core (rg\<lparr>rax := 8\<rparr>) s = Some (Sysret rg1, s1)" "rax rg1 \<noteq> -1"
  shows "\<exists>rg2 cr3 s2. reschedule core rg1 s1 = Some (Switch rg2 cr3, s2) \<and> rg2 = rg\<lparr>rax := 0\<rparr> \<and>
    syscall_main e core (rg2\<lparr>rax := 4\<rparr>) s2 = Some (Sysret (rg2\<lparr>rax := rax rg1\<rparr>), s2)"
proof -
  have f: "syscall_fork (translate e) core (rg\<lparr>rax := 8\<rparr>) s = Some (rg1, s1)"
    using call(1) by (auto simp: syscall_main_def syscall_list_def returning_def)
  have "objects_ok s" "runq_ok s" using inv by (simp_all add: sched_inv_def)
  then obtain p parent where p: "running_process (cores s core) = Some p" "process_at s p = Some parent"
    using run(1) unfolding objects_ok_def page_map_of_def by (metis map_option_eq_Some)
  obtain child t proc x where c: "process_at s1 = (process_at s)(child \<mapsto> proc)" "thread_at s1 = (thread_at s)(t \<mapsto> x)"
    "parent_process x = child" "regs x = rg\<lparr>rax := 0\<rparr>" "rg1 = rg\<lparr>rax := pid proc\<rparr>" "waiting_queue s1 = [t]" "sched_inv s1"
    using fork_spec [OF inv f call(2) p] run(2) by auto
  have "cores s1 = cores s" by (rule fork_result [OF f call(2) p]) simp
  then have run1: "running_thread (cores s1 core) = Some r" using run(1) by simp
  have ok: "runq_ok s1" "objects_ok s1" "sched_lock s1 = 0" using c(7) by (simp_all add: sched_inv_def)
  obtain x' v s2 where s2: "thread_at s1 t = Some x'" "reschedule core rg1 s1 = Some (Switch (regs x') (switch_pagemap v), s2)"
    "thread_at s2 t = Some (x'\<lparr>th_status := Running\<rparr>)"
    by (rule reschedule_switch [OF ok run1 c(6), where rg = rg1]) (rule that)
  have x': "x' = x" using s2(1) c(2) by simp
  obtain s3 where d: "dispatch core t s3 = Some (Switch (regs x') (switch_pagemap v), s2)" "pid_of s3 = pid_of s1"
    by (rule reschedule_dispatches [OF s2(2) c(6)]) (rule that)
  have rp: "running_process (cores s2 core) = Some child" using dispatch_process [OF d(1) s2(3)] c(3) x' by simp
  have "pid_of s2 child = Some (pid proc)" using dispatch_pid [OF d(1), of child] d(2) c(1) by (simp add: pid_of_def)
  then obtain q where q: "process_at s2 child = Some q" "pid q = pid proc" by (auto simp: pid_of_def)
  have "syscall_main e core (rg\<lparr>rax := 4\<rparr>) s2 = Some (Sysret (rg\<lparr>rax := pid proc\<rparr>), s2)"
    using rp q by (simp add: syscall_main_def syscall_list_def returning_def syscall_getpid_def)
  then show ?thesis using s2(2) x' c(4,5) by simp
qed


definition env_sample :: "unit sysenv" where
  "env_sample = \<lparr>glyphs = (\<lambda>_. 0), user_str = (\<lambda>_. [0]), no_return = 0, translate = (\<lambda>_ a. a), others = (\<lambda>_ s. Some s)\<rparr>"


end
