(* ===== verification/Loader.thy ===== *)
theory Loader
  imports Sched
begin

text \<open>
  \<^verbatim>\<open>kernel/loader/elf.cpp\<close> and the functions of \<^verbatim>\<open>scheduler.cpp\<close> that start a program from a file. The file header is read
  into a buffer on the kernel stack and the program headers into one from the heap; where they lie, \<open>hdr\<close> and
  \<open>phdr\<close>, is a parameter. \<open>at\<close> is the address translation of the processor for pointers outside the direct map.
\<close>

section \<open>File and program headers\<close>

text \<open>The fields the loader reads.\<close>

record elf_header =
  ident :: "u8 list"
  entry :: u64
  phoff :: u64
  ph_count :: u16

definition sizeof_elf_header :: nat where "sizeof_elf_header = 64"

definition elf_header_at :: "mem \<Rightarrow> u64 \<Rightarrow> elf_header" where
  "elf_header_at m a = \<lparr>ident = map (\<lambda>i. m (a + of_nat i)) [0 ..< 16], entry = read64 m (a + 24), phoff = read64 m (a + 32),
     ph_count = read16 m (a + 56)\<rparr>"

record program_header =
  ph_type :: u32
  ph_flags :: u32
  ph_offset :: u64
  vaddr :: u64
  filesz :: u64
  memsz :: u64

definition sizeof_program_header :: nat where "sizeof_program_header = 56"

definition program_header_at :: "mem \<Rightarrow> u64 \<Rightarrow> program_header" where
  "program_header_at m a = \<lparr>ph_type = read32 m a, ph_flags = read32 m (a + 4), ph_offset = read64 m (a + 8),
     vaddr = read64 m (a + 16), filesz = read64 m (a + 32), memsz = read64 m (a + 40)\<rparr>"

definition PT_WRITE :: u32 where "PT_WRITE = 0x2"
definition ELF_64_BITS :: u8 where "ELF_64_BITS = 0x2"
definition ELF_LITTLE_INDIAN :: u8 where "ELF_LITTLE_INDIAN = 0x1"
definition ELF_SYSV :: u8 where "ELF_SYSV = 0x0"
definition P_LOAD :: u32 where "P_LOAD = 0x1"

text \<open>The test of the header. The byte \<open>ident[1]\<close> is taken for an address, and \<open>strncmp\<close> is true for equal strings.\<close>

definition header_bad :: "(mem \<Rightarrow> u64 \<Rightarrow> u64) \<Rightarrow> mem \<Rightarrow> elf_header \<Rightarrow> bool option" where
  "header_bad at m h =
     (if ident h ! 0 \<noteq> 0x7F then Some True
      else do {
        eq \<leftarrow> strncmp (cstr ''ELF'') (map (\<lambda>i. m (at m (ucast (ident h ! 1) + of_nat i))) [0 ..< 3]) 3;
        Some (eq \<or> ident h ! 4 \<noteq> ELF_64_BITS \<or> ident h ! 5 \<noteq> ELF_LITTLE_INDIAN \<or> ident h ! 7 \<noteq> ELF_SYSV)
      })"

section \<open>Loading\<close>

definition segment_pages :: "program_header \<Rightarrow> nat" where
  "segment_pages ph = unat ((memsz ph + (vaddr ph AND 4095) + of_nat PAGE_SIZE - 1) div of_nat PAGE_SIZE)"

text \<open>One turn of the loop, for a segment to load; \<open>False\<close> when the function returns -1.\<close>

definition load_segment ::
  "int \<Rightarrow> fs_ref \<Rightarrow> program_header \<Rightarrow> vmm \<Rightarrow> 'a kvfs_scheme \<Rightarrow> (bool \<times> vmm \<times> 'a kvfs_scheme) option" where
  "load_segment ret file ph v s = do {
     let alignment = vaddr ph AND 4095;
     let page_number = segment_pages ph;
     (mem_area, s) \<leftarrow> pmm_alloc page_number s;
     if mem_area = 0 then Some (False, v, s)
     else do {
       (res, s) \<leftarrow> vfs_read ret file (ph_offset ph) (filesz ph) (mem_area + alignment + PHYSICAL_BASE_ADDRESS) s;
       if res = -1 then do {
         s \<leftarrow> pmm_free mem_area page_number s;
         Some (False, v, s)
       }
       else do {
         let prot = (if ph_flags ph AND PT_WRITE \<noteq> 0 then 7 else 5);
         (v, s) \<leftarrow> map_range (vaddr ph) mem_area (of_nat (page_number * PAGE_SIZE)) prot 0 v s;
         Some (True, v, s)
       }
     }
   }"

fun load_segments ::
  "int \<Rightarrow> fs_ref \<Rightarrow> u64 \<Rightarrow> nat list \<Rightarrow> vmm \<Rightarrow> 'a kvfs_scheme \<Rightarrow> (bool \<times> vmm \<times> 'a kvfs_scheme) option" where
  "load_segments ret file phdr [] v s = Some (True, v, s)"
| "load_segments ret file phdr (i # is) v s = do {
     let ph = program_header_at (mem s) (phdr + of_nat (sizeof_program_header * i));
     if ph_type ph \<noteq> P_LOAD then load_segments ret file phdr is v s
     else do {
       (ok, v, s) \<leftarrow> load_segment ret file ph v s;
       if ok then load_segments ret file phdr is v s else Some (False, v, s)
     }
   }"

definition elf_load ::
  "(mem \<Rightarrow> u64 \<Rightarrow> u64) \<Rightarrow> int \<Rightarrow> u64 \<Rightarrow> u64 \<Rightarrow> vmm \<Rightarrow> fs_ref \<Rightarrow> 'a kvfs_scheme \<Rightarrow> (u64 \<times> vmm \<times> 'a kvfs_scheme) option" where
  "elf_load at ret hdr phdr v file s = do {
     (res, s) \<leftarrow> vfs_read ret file 0 (of_nat sizeof_elf_header) hdr s;
     if res = -1 then Some (-1, v, s)
     else do {
       let start = elf_header_at (mem s) hdr;
       bad \<leftarrow> header_bad at (mem s) start;
       if bad then Some (-1, v, s)
       else do {
         (res, s) \<leftarrow> vfs_read ret file (phoff start) (of_nat (sizeof_program_header * unat (ph_count start))) phdr s;
         if res = -1 then Some (-1, v, s)
         else do {
           (ok, v, s) \<leftarrow> load_segments ret file phdr [0 ..< unat (ph_count start)] v s;
           Some (if ok then entry start else -1, v, s)
         }
       }
     }
   }"

section \<open>Starting a program\<close>

text \<open>The arguments: an array of pointers that ends with a null pointer.\<close>

fun count_args :: "u64 list \<Rightarrow> nat option" where
  "count_args [] = None"
| "count_args (a # as) = (if a = 0 then Some 0 else map_option Suc (count_args as))"

text \<open>\<open>for (i = argc; i > 0; --i) *(--rsp) = argv[i]\<close>.\<close>

fun push_args :: "u64 list \<Rightarrow> nat \<Rightarrow> u64 \<Rightarrow> mem \<Rightarrow> u64 \<times> mem" where
  "push_args argv 0 sp m = (sp, m)"
| "push_args argv (Suc i) sp m = push_args argv i (sp - 8) (write64 m (sp - 8) (argv ! Suc i))"

definition file_parent :: "fs_ref \<Rightarrow> 'a kvfs_scheme \<Rightarrow> fs_ref option" where
  "file_parent f s = (case f of Tmp_node n \<Rightarrow> map_option Tmp_node (Option.bind (t_nodes s n) t_parent) | Dev_node n \<Rightarrow> None)"

text \<open>The result of the loader is not tested, nor is the process that \<open>create_process\<close> returns.\<close>

definition create_program ::
  "(mem \<Rightarrow> u64 \<Rightarrow> u64) \<Rightarrow> int \<Rightarrow> u64 \<Rightarrow> u64 \<Rightarrow> cbuf \<Rightarrow> u64 list option \<Rightarrow> cbuf \<Rightarrow> nat \<Rightarrow> 'a ksched_scheme \<Rightarrow>
     (nat option \<times> 'a ksched_scheme) option" where
  "create_program at ret hdr phdr path argv dev_tty core s = do {
     (fd, s) \<leftarrow> vfs_open (working_dir (cores s core)) False path 0 s;
     case fd of None \<Rightarrow> Some (None, s)
     | Some fd \<Rightarrow> do {
         kv \<leftarrow> vmm_at s (kernel_vmm s);
         (v, s) \<leftarrow> vmm_new kv s;
         (ip, v, s) \<leftarrow> elf_load at ret hdr phdr v (fd_file fd) s;
         let pm = vmm_fresh s;
         let s = s\<lparr>vmm_at := (vmm_at s)(pm \<mapsto> v), vmm_fresh := Suc pm\<rparr>;
         (r, s) \<leftarrow> create_process ip 0x1b pm (file_parent (fd_file fd) s) dev_tty core s;
         p \<leftarrow> r;
         proc \<leftarrow> process_at s p;
         t \<leftarrow> (if threads proc = [] then None else Some (hd (threads proc)));
         x \<leftarrow> thread_at s t;
         v \<leftarrow> vmm_at s pm;
         (ph, v, s) \<leftarrow> virtual_to_physical (rsp (regs x)) v s;
         let old_rsp = ph + PHYSICAL_BASE_ADDRESS;
         let s = s\<lparr>vmm_at := (vmm_at s)(pm \<mapsto> v)\<rparr>;
         case argv of None \<Rightarrow> Some (Some p, s)
         | Some argv \<Rightarrow> do {
             argc \<leftarrow> count_args argv;
             let (sp, m) = push_args argv argc old_rsp (mem s);
             let sp = sp - 8;
             let s = s\<lparr>mem := write64 m sp (of_nat argc)\<rparr>;
             Some (Some p, save_regs t ((regs x)\<lparr>rsp := rsp (regs x) - (old_rsp - sp)\<rparr>) s)
           }
       }
   }"

definition set_pid :: "nat \<Rightarrow> u64 \<Rightarrow> 'a ksched_scheme \<Rightarrow> 'a ksched_scheme" where
  "set_pid p n s = s\<lparr>process_at := (process_at s)(p := map_option (\<lambda>x. x\<lparr>pid := n\<rparr>) (process_at s p))\<rparr>"

text \<open>\<open>execve\<close> does not return to its caller unless there is no such file; the core then waits for the timer. The result is
  the registers of a caller that goes on.\<close>

definition syscall_execve ::
  "(mem \<Rightarrow> u64 \<Rightarrow> u64) \<Rightarrow> int \<Rightarrow> u64 \<Rightarrow> u64 \<Rightarrow> (nat \<Rightarrow> 'a ksched_scheme \<Rightarrow> 'a ksched_scheme option) \<Rightarrow> cbuf \<Rightarrow> u64 list option \<Rightarrow> cbuf \<Rightarrow>
     nat \<Rightarrow> context_t \<Rightarrow> 'a ksched_scheme \<Rightarrow> (context_t option \<times> 'a ksched_scheme) option" where
  "syscall_execve at ret hdr phdr wait path argv dev_tty core rg s = do {
     p \<leftarrow> running_process (cores s core);
     (r, s) \<leftarrow> create_program at ret hdr phdr path argv dev_tty core s;
     case r of None \<Rightarrow> Some (Some (rg\<lparr>rax := -1\<rparr>), s)
     | Some start \<Rightarrow> do {
         proc \<leftarrow> process_at s p;
         new_proc \<leftarrow> process_at s start;
         let s = set_pid start (pid proc) s;
         s \<leftarrow> (if threads new_proc = [] then None else queue_thread (hd (threads new_proc)) s);
         s \<leftarrow> exit_process wait core s;
         Some (None, s)
       }
   }"

text \<open>\<open>init_proc\<close>, the first thread of the kernel, until it halts its core: the two programs it starts. \<open>buf1\<close> and \<open>buf2\<close> are the buffers
  of the loader in the two calls, \<open>words\<close> the addresses of the three arguments.\<close>

definition queue_first :: "nat \<Rightarrow> 'a ksched_scheme \<Rightarrow> 'a ksched_scheme option" where
  "queue_first p s = do {
     proc \<leftarrow> process_at s p;
     if threads proc = [] then None else queue_thread (hd (threads proc)) s
   }"

definition set_first_tid :: "nat \<Rightarrow> u64 \<Rightarrow> 'a ksched_scheme \<Rightarrow> 'a ksched_scheme option" where
  "set_first_tid p n s = do {
     proc \<leftarrow> process_at s p;
     t \<leftarrow> (if threads proc = [] then None else Some (hd (threads proc)));
     x \<leftarrow> thread_at s t;
     Some (s\<lparr>thread_at := (thread_at s)(t \<mapsto> x\<lparr>tid := n\<rparr>)\<rparr>)
   }"

definition init_proc ::
  "(mem \<Rightarrow> u64 \<Rightarrow> u64) \<Rightarrow> int \<Rightarrow> u64 \<times> u64 \<Rightarrow> u64 \<times> u64 \<Rightarrow> u64 list \<Rightarrow> cbuf \<Rightarrow> nat \<Rightarrow> 'a ksched_scheme \<Rightarrow> 'a ksched_scheme option" where
  "init_proc at ret buf1 buf2 words dev_tty core s = do {
     (r, s) \<leftarrow> create_program at ret (fst buf1) (snd buf1) (cstr ''/hello.elf'') None dev_tty core s;
     proc \<leftarrow> r;
     s \<leftarrow> queue_first proc s;
     (r, s) \<leftarrow> create_program at ret (fst buf2) (snd buf2) (cstr ''/test.elf'') (Some (words @ [0])) dev_tty core s;
     start \<leftarrow> r;
     s \<leftarrow> set_first_tid start 23 (set_pid start 54 s);
     queue_first start s
   }"

end
