(* ===== verification/Page_Tables.thy ===== *)
theory Page_Tables
  imports Vmm
begin

text \<open>
  What the page tables in memory stand for. \<open>T\<close> gives the frame of the table at every path of
  indices from the top; \<open>pte\<close> is the map from index quadruples to last-level entries that the
  tables implement. The mapping operations are updates of that map.
\<close>

section \<open>Cells of tables\<close>

abbreviation tbl_at :: "nat \<Rightarrow> u64" where
  "tbl_at p \<equiv> PHYSICAL_BASE_ADDRESS + page_addr p"

lemma tbl_cell_frame:
  assumes "i < 512"
  shows "span (tbl_cell (tbl_at p) i) 8 \<subseteq> frame p"
proof -
  have "span (tbl_at p + of_nat (8 * i)) 8 \<subseteq> span (tbl_at p) PAGE_SIZE"
    using assms by (intro span_offset_subset) (simp add: PAGE_SIZE_def)
  then show ?thesis by (simp add: tbl_cell_def frame_def)
qed

lemma tbl_cells_apart:
  assumes "i < 512" "j < 512" "p < 2 ^ 52" "q < 2 ^ 52" "(p, i) \<noteq> (q, j)"
  shows "span (tbl_cell (tbl_at p) i) 8 \<inter> span (tbl_cell (tbl_at q) j) 8 = {}"
proof (cases "p = q")
  case True
  have *: "span (tbl_at q + of_nat (8 * a)) 8 \<inter> span (tbl_at q + of_nat (8 * b)) 8 = {}" if "a < b" "b < 512" for a b
    using that by (intro span_offset_disjoint) auto
  show ?thesis
    using True assms * [of i j] * [of j i] by (cases "i < j") (auto simp: tbl_cell_def)
next
  case False
  then show ?thesis using frame_disjoint [OF False assms(3,4)] tbl_cell_frame assms(1,2) by blast
qed

lemma direct_map_bit:
  assumes "p < 2 ^ 34"
  shows "tbl_at p AND PHYSICAL_BASE_ADDRESS \<noteq> 0"
proof
  assume z: "tbl_at p AND PHYSICAL_BASE_ADDRESS = 0"
  have "bit PHYSICAL_BASE_ADDRESS 63" by (simp add: PHYSICAL_BASE_ADDRESS_def)
  moreover have "\<not> bit (tbl_at p AND PHYSICAL_BASE_ADDRESS) 63" using z by simp
  ultimately have nb: "\<not> bit (tbl_at p) 63" by (simp add: bit_and_iff)
  have "take_bit 63 (tbl_at p) = tbl_at p"
  proof (rule bit_word_eqI)
    fix n
    assume "n < LENGTH(64)"
    then show "bit (take_bit 63 (tbl_at p)) n = bit (tbl_at p) n"
      using nb by (cases "n = 63") (auto simp: bit_take_bit_iff)
  qed
  then have "unat (tbl_at p) < 2 ^ 63" by (metis unsigned_take_bit_eq take_bit_nat_less_exp)
  then show False using direct_map(1) [OF assms] by (simp add: PHYSICAL_BASE_ADDRESS_def)
qed

text \<open>The entry written for a new table: present, writable, user.\<close>

lemma table_entry:
  assumes "q < 2 ^ 52"
  shows "(page_addr q OR 7) AND PAGE_MASK = page_addr q" and "page_addr q OR 7 \<noteq> 0"
proof -
  have pa: "page_addr q = push_bit 12 (of_nat q)"
    by (simp add: page_addr_def PAGE_SIZE_def push_bit_eq_mult mult.commute)
  have pm: "PAGE_MASK = NOT (mask 12)" by (simp add: PAGE_MASK_def mask_eq_exp_minus_1)
  have seven: "(7 :: u64) = mask 3" by (simp add: mask_eq_exp_minus_1)
  show "(page_addr q OR 7) AND PAGE_MASK = page_addr q"
    unfolding pa pm seven by (rule bit_word_eqI) (auto simp: bit_simps)
  have "bit (page_addr q OR 7) 0" unfolding seven by (simp add: bit_or_iff bit_mask_iff)
  then show "page_addr q OR 7 \<noteq> 0" by auto
qed

section \<open>Representation\<close>

definition used_frame :: "'a kmem_scheme \<Rightarrow> nat \<Rightarrow> bool" where
  "used_frame s p \<longleftrightarrow> p < 2 ^ 34 \<and> \<not> free_page s p \<and> frame p \<inter> bitmap_bytes s = {}"

text \<open>\<open>K\<close> are the slots of the top-level table that belong to the kernel and are shared.\<close>

definition own_slot :: "nat set \<Rightarrow> nat list \<Rightarrow> nat \<Rightarrow> bool" where
  "own_slot K path i \<longleftrightarrow> length path < 3 \<and> i < 512 \<and> (path = [] \<longrightarrow> i \<notin> K)"

definition entry_of :: "nat option \<Rightarrow> u64" where
  "entry_of t = (case t of None \<Rightarrow> 0 | Some q \<Rightarrow> page_addr q OR 7)"

definition pt_rep :: "nat set \<Rightarrow> u64 \<Rightarrow> 'a kmem_scheme \<Rightarrow> (nat list \<Rightarrow> nat option) \<Rightarrow> bool" where
  "pt_rep K pml4 s T \<longleftrightarrow> (\<exists>p. T [] = Some p \<and> pml4 = tbl_at p) \<and>
     (\<forall>path p. T path = Some p \<longrightarrow> used_frame s p) \<and>
     (\<forall>a b p. T a = Some p \<and> T b = Some p \<longrightarrow> a = b) \<and>
     (\<forall>path i. T (path @ [i]) \<noteq> None \<longrightarrow> T path \<noteq> None \<and> own_slot K path i) \<and>
     (\<forall>path p i. T path = Some p \<and> own_slot K path i \<longrightarrow>
        read64 (mem s) (tbl_cell (tbl_at p) i) = entry_of (T (path @ [i])))"

lemma pt_repD:
  assumes "pt_rep K pml4 s T"
  shows "\<exists>p. T [] = Some p \<and> pml4 = tbl_at p" "T path = Some p \<Longrightarrow> used_frame s p"
    "T a = Some p \<Longrightarrow> T b = Some p \<Longrightarrow> a = b"
    "T path = Some p \<Longrightarrow> own_slot K path i \<Longrightarrow> read64 (mem s) (tbl_cell (tbl_at p) i) = entry_of (T (path @ [i]))"
    "T (path @ [i]) = Some q \<Longrightarrow> T path \<noteq> None \<and> own_slot K path i"
  using assms by (auto simp: pt_rep_def) (metis option.distinct(1))+

lemma pt_repI:
  assumes "T [] = Some p0" "pml4 = tbl_at p0" "\<And>path p. T path = Some p \<Longrightarrow> used_frame s p"
    "\<And>a b p. T a = Some p \<Longrightarrow> T b = Some p \<Longrightarrow> a = b"
    "\<And>path i. T (path @ [i]) \<noteq> None \<Longrightarrow> T path \<noteq> None \<and> own_slot K path i"
    "\<And>path p i. T path = Some p \<Longrightarrow> own_slot K path i \<Longrightarrow>
      read64 (mem s) (tbl_cell (tbl_at p) i) = entry_of (T (path @ [i]))"
  shows "pt_rep K pml4 s T"
  using assms unfolding pt_rep_def by blast

type_synonym page_index = "nat \<times> nat \<times> nat \<times> nat"

definition index_of :: "u64 \<Rightarrow> page_index" where
  "index_of virt = (get_pml4e virt, get_pdpe virt, get_pde virt, get_pte virt)"

text \<open>The last-level entries the tables hold; where tables are missing there is none (zero).\<close>

definition pte :: "'a kmem_scheme \<Rightarrow> (nat list \<Rightarrow> nat option) \<Rightarrow> page_index \<Rightarrow> u64" where
  "pte s T = (\<lambda>(a, b, c, d). if d < 512 then case T [a, b, c] of None \<Rightarrow> 0
     | Some p \<Rightarrow> read64 (mem s) (tbl_cell (tbl_at p) d) else 0)"

text \<open>Storing to a cell of a table changes that cell only.\<close>

lemma store_cell:
  assumes rep: "pt_rep K pml4 s T" and p: "T path = Some p" and i: "i < 512"
  shows "T a = Some q \<Longrightarrow> j < 512 \<Longrightarrow> (a, j) \<noteq> (path, i) \<Longrightarrow>
      read64 (write64 (mem s) (tbl_cell (tbl_at p) i) v) (tbl_cell (tbl_at q) j) = read64 (mem s) (tbl_cell (tbl_at q) j)"
    and "free_page (s\<lparr>mem := write64 (mem s) (tbl_cell (tbl_at p) i) v\<rparr>) = free_page s"
    and "pages_ok (s\<lparr>mem := write64 (mem s) (tbl_cell (tbl_at p) i) v\<rparr>) = pages_ok s"
proof -
  have up: "used_frame s p" using pt_repD(2) [OF rep p] .
  show "read64 (write64 (mem s) (tbl_cell (tbl_at p) i) v) (tbl_cell (tbl_at q) j) = read64 (mem s) (tbl_cell (tbl_at q) j)"
    if q: "T a = Some q" "j < 512" "(a, j) \<noteq> (path, i)"
  proof (rule read64_write64_other, rule tbl_cells_apart)
    show "(q, j) \<noteq> (p, i)" using q(3) pt_repD(3) [OF rep p, of a] q(1) by auto
    show "q < 2 ^ 52" "p < 2 ^ 52" using up pt_repD(2) [OF rep q(1)] by (auto simp: used_frame_def)
  qed (use i q in simp_all)
  have "write64 (mem s) (tbl_cell (tbl_at p) i) v x = mem s x" if "x \<in> bitmap_bytes s" for x
    using tbl_cell_frame [OF i, of p] up that by (intro write64_other) (auto simp: used_frame_def)
  from pmm_store [OF this]
  show "free_page (s\<lparr>mem := write64 (mem s) (tbl_cell (tbl_at p) i) v\<rparr>) = free_page s"
    and "pages_ok (s\<lparr>mem := write64 (mem s) (tbl_cell (tbl_at p) i) v\<rparr>) = pages_ok s" by auto
qed

section \<open>Growing the tree\<close>

definition n_free :: "'a kmem_scheme \<Rightarrow> nat" where
  "n_free s = card {j. free_page s j}"

lemma finite_free: "finite {j. free_page s j}"
  by (rule finite_subset [of _ "{..< bitmapSize s * 8}"]) (auto simp: free_page_def)

lemma n_free_Suc:
  assumes "\<And>j. free_page s' j \<longleftrightarrow> free_page s j \<and> j \<noteq> q" "free_page s q"
  shows "n_free s = Suc (n_free s')"
proof -
  have "{j. free_page s j} = insert q {j. free_page s' j}" "q \<notin> {j. free_page s' j}" using assms by auto
  then show ?thesis unfolding n_free_def using finite_free [of s'] by simp
qed

lemma n_free_pos: "0 < n_free s \<Longrightarrow> \<exists>q. free_page s q"
  unfolding n_free_def by (metis card.empty empty_Collect_eq less_numeral_extra(3))

text \<open>Memory that agrees on the frames of the tables holds the same tables.\<close>

lemma pt_rep_frames:
  assumes rep: "pt_rep K pml4 s T" and fr: "\<And>path p x. T path = Some p \<Longrightarrow> x \<in> frame p \<Longrightarrow> mem s' x = mem s x"
    and fp: "\<And>j. free_page s' j \<Longrightarrow> free_page s j" and bb: "bitmap_bytes s' = bitmap_bytes s"
  shows "pt_rep K pml4 s' T" "pte s' T = pte s T"
proof -
  have rd: "read64 (mem s') (tbl_cell (tbl_at p) i) = read64 (mem s) (tbl_cell (tbl_at p) i)"
    if "T path = Some p" "i < 512" for path p i
    using tbl_cell_frame [OF that(2), of p] fr [OF that(1)] by (intro read64_cong) auto
  have "used_frame s' p" if "T path = Some p" for path p
    using pt_repD(2) [OF rep that] fp bb by (auto simp: used_frame_def)
  moreover obtain p0 where p0: "T [] = Some p0" "pml4 = tbl_at p0" using pt_repD(1) [OF rep] by blast
  moreover have "read64 (mem s') (tbl_cell (tbl_at p) i) = entry_of (T (path @ [i]))"
    if "T path = Some p" "own_slot K path i" for path p i
    using pt_repD(4) [OF rep that] rd [OF that(1)] that(2) by (simp add: own_slot_def)
  moreover have "T path \<noteq> None \<and> own_slot K path i" if "T (path @ [i]) \<noteq> None" for path i
    using pt_repD(5) [OF rep, of path i] that by blast
  ultimately show "pt_rep K pml4 s' T" using pt_repD(3) [OF rep] by (intro pt_repI)
  show "pte s' T = pte s T" using rd by (auto simp: pte_def fun_eq_iff split: option.splits)
qed

lemma read64_zeros: "(\<And>x. x \<in> span a 8 \<Longrightarrow> m x = 0) \<Longrightarrow> read64 m a = 0"
  using read64_cong [of a m "\<lambda>_. 0"] by (simp add: read64_def)

lemma pt_rep_add:
  assumes rep: "pt_rep K pml4 s T" and p: "T path = Some p" and i: "own_slot K path i" and new: "T (path @ [i]) = None"
    and q: "used_frame s q" "\<And>a. T a \<noteq> Some q" and zero: "\<And>x. x \<in> frame q \<Longrightarrow> mem s x = 0"
  defines "s' \<equiv> s\<lparr>mem := write64 (mem s) (tbl_cell (tbl_at p) i) (page_addr q OR 7)\<rparr>"
  shows "pt_rep K pml4 s' (T(path @ [i] \<mapsto> q))" "pte s' (T(path @ [i] \<mapsto> q)) = pte s T"
proof -
  let ?T = "T(path @ [i] \<mapsto> q)"
  have i512: "i < 512" "length path < 3" using i by (auto simp: own_slot_def)
  note st = store_cell [OF rep p i512(1), where v = "page_addr q OR 7"]
  have pq: "p < 2 ^ 52" "q < 2 ^ 52" "p \<noteq> q" using pt_repD(2) [OF rep p] q p by (auto simp: used_frame_def)
  have fp: "free_page s' = free_page s" unfolding s'_def by (rule st(2))
  have bb: "bitmap_bytes s' = bitmap_bytes s" by (simp add: s'_def bitmap_bytes_def)
  have at_q: "read64 (mem s') (tbl_cell (tbl_at q) j) = 0" if "j < 512" for j
  proof -
    have "read64 (mem s') (tbl_cell (tbl_at q) j) = read64 (mem s) (tbl_cell (tbl_at q) j)"
      using tbl_cells_apart [OF that i512(1) pq(2,1)] pq(3) by (simp add: s'_def read64_write64_other)
    also have "\<dots> = 0" using tbl_cell_frame [OF that, of q] zero by (intro read64_zeros) auto
    finally show ?thesis .
  qed
  have at_p: "read64 (mem s') (tbl_cell (tbl_at p) i) = page_addr q OR 7" by (simp add: s'_def)
  have below: "T ((path @ [i]) @ [j]) = None" for j using pt_repD(5) [OF rep, of "path @ [i]" j] new by (cases "T ((path @ [i]) @ [j])") auto
  have cells: "read64 (mem s') (tbl_cell (tbl_at r) j) = entry_of (?T (a @ [j]))" if "?T a = Some r" "own_slot K a j" for a r j
  proof (cases "a = path @ [i]")
    case True
    then show ?thesis using that below [of j] at_q [of j] by (simp add: entry_of_def own_slot_def)
  next
    case False
    then have r: "T a = Some r" using that(1) by simp
    show ?thesis
    proof (cases "(a, j) = (path, i)")
      case True
      then show ?thesis using r p at_p by (simp add: entry_of_def)
    next
      case False
      then show ?thesis using st(1) [OF r] that(2) pt_repD(4) [OF rep r that(2)] by (auto simp: s'_def own_slot_def)
    qed
  qed
  have uf: "used_frame s' r" if "?T a = Some r" for a r
    using that q(1) pt_repD(2) [OF rep, of a r] fp bb by (auto simp: used_frame_def split: if_splits)
  have inj: "a = b" if "?T a = Some r" "?T b = Some r" for a b r
    using that q(2) pt_repD(3) [OF rep] by (auto split: if_splits)
  have pre: "?T a \<noteq> None \<and> own_slot K a j" if "?T (a @ [j]) \<noteq> None" for a j
    using that i p pt_repD(5) [OF rep, of a j] by (auto split: if_splits)
  obtain p0 where p0: "T [] = Some p0" "pml4 = tbl_at p0" using pt_repD(1) [OF rep] by blast
  have "?T [] = Some p0" using p0 by simp
  then show "pt_rep K pml4 s' ?T" using p0(2) uf inj pre cells by (rule pt_repI)
  have "pte s' ?T (a, b, c, d) = pte s T (a, b, c, d)" for a b c d
  proof (cases "[a, b, c] = path @ [i]")
    case True
    then show ?thesis using new at_q [of d] by (auto simp: pte_def)
  next
    case False
    have "[a, b, c] \<noteq> path" using i512(2) by auto
    then show ?thesis using False st(1) [of "[a, b, c]" _ d] by (auto simp: pte_def s'_def split: option.splits)
  qed
  then show "pte s' ?T = pte s T" by (simp add: fun_eq_iff)
qed

text \<open>What is in used frames that are no tables stays, and these frames do not become tables.\<close>

definition leaves_data :: "'a kmem_scheme \<Rightarrow> (nat list \<Rightarrow> nat option) \<Rightarrow> 'a kmem_scheme \<Rightarrow> (nat list \<Rightarrow> nat option) \<Rightarrow> bool" where
  "leaves_data s T s' T' \<longleftrightarrow> (\<forall>q. used_frame s q \<and> q \<notin> ran T \<longrightarrow>
     used_frame s' q \<and> q \<notin> ran T' \<and> (\<forall>x \<in> frame q. mem s' x = mem s x))"

lemma leaves_data_refl [simp]: "leaves_data s T s T"
  by (simp add: leaves_data_def)

lemma leaves_data_trans [trans]: "leaves_data s T s1 T1 \<Longrightarrow> leaves_data s1 T1 s2 T2 \<Longrightarrow> leaves_data s T s2 T2"
  unfolding leaves_data_def by auto

lemma leaves_data_store:
  assumes rep: "pt_rep K pml4 s T" and p: "T path = Some p" and i: "i < 512"
  shows "leaves_data s T (s\<lparr>mem := write64 (mem s) (tbl_cell (tbl_at p) i) v\<rparr>) T"
proof -
  have "x \<notin> span (tbl_cell (tbl_at p) i) 8" if "used_frame s q" "q \<notin> ran T" "x \<in> frame q" for q x
  proof -
    have "p \<noteq> q" using that(2) p by (auto simp: ran_def)
    moreover have "p < 2 ^ 52" "q < 2 ^ 52" using pt_repD(2) [OF rep p] that(1) by (auto simp: used_frame_def)
    ultimately show ?thesis using tbl_cell_frame [OF i, of p] frame_disjoint [of p q] that(3) by auto
  qed
  then show ?thesis using store_cell(2) [OF rep p i, of v]
    by (auto simp: leaves_data_def used_frame_def bitmap_bytes_def write64_other)
qed

text \<open>One level down, creating the table if it is not there.\<close>

lemma get_next_level_rep:
  assumes ok: "pages_ok s" and rep: "pt_rep K pml4 s T" and p: "T path = Some p" and i: "own_slot K path i"
    and room: "0 < n_free s" and vo: "vec_ok (page_tables_addr v)"
  obtains q v' s' T' where "get_next_level (tbl_at p) i v s = Some (tbl_at q, v', s')" "pages_ok s'"
    "pt_rep K pml4 s' T'" "T' (path @ [i]) = Some q" "pte s' T' = pte s T" "n_free s \<le> Suc (n_free s')"
    "m_pml4 v' = m_pml4 v" "vec_ok (page_tables_addr v')" "m_ranges v' = m_ranges v" "leaves_data s T s' T'"
proof (cases "T (path @ [i])")
  case None
  have p34: "p < 2 ^ 34" using pt_repD(2) [OF rep p] by (simp add: used_frame_def)
  have e: "read64 (mem s) (tbl_cell (tbl_at p) i) = 0" using pt_repD(4) [OF rep p i] None by (simp add: entry_of_def)
  obtain q0 where q0: "free_page s q0" using n_free_pos [OF room] by blast
  obtain q s1 where s1: "pmm_alloc 1 s = Some (page_addr q, s1)" "free_page s q" "pages_ok s1"
      "bitmap_bytes s1 = bitmap_bytes s" "\<And>j. free_page s1 j \<longleftrightarrow> free_page s j \<and> j \<noteq> q"
      "\<And>x. x \<in> frame q \<Longrightarrow> mem s1 x = 0"
    using pa.alloc_frame [OF ok q0] by auto
  have keep: "mem s1 x = mem s x" if "T a = Some r" "x \<in> frame r" for a r x
    using pa.alloc_keeps_used_frame [OF ok s1(2) _ _ _ s1(1) that(2)] pt_repD(2) [OF rep that(1)]
    by (auto simp: used_frame_def)
  have sub: "free_page s j" if "free_page s1 j" for j using s1(5) that by simp
  have rep1: "pt_rep K pml4 s1 T" "pte s1 T = pte s T" by (rule pt_rep_frames [OF rep keep sub s1(4)]; assumption)+
  have "T a \<noteq> Some q" for a using pt_repD(2) [OF rep, of a q] s1(2) by (auto simp: used_frame_def)
  moreover have "used_frame s1 q"
    using s1(2,4,5) pa.free_bound [OF ok s1(2)] pa.free_apart [OF ok s1(2)] by (simp add: used_frame_def)
  ultimately have add: "pt_rep K pml4 (s1\<lparr>mem := write64 (mem s1) (tbl_cell (tbl_at p) i) (page_addr q OR 7)\<rparr>) (T(path @ [i] \<mapsto> q))"
    "pte (s1\<lparr>mem := write64 (mem s1) (tbl_cell (tbl_at p) i) (page_addr q OR 7)\<rparr>) (T(path @ [i] \<mapsto> q)) = pte s1 T"
    using pt_rep_add [OF rep1(1) p i None _ _ s1(6)] by blast+
  have i512: "i < 512" using i by (simp add: own_slot_def)
  note st = store_cell(2,3) [OF rep1(1) p i512, where v = "page_addr q OR 7"]
  let ?s = "s1\<lparr>mem := write64 (mem s1) (tbl_cell (tbl_at p) i) (page_addr q OR 7)\<rparr>"
  let ?v = "v\<lparr>page_tables_addr := vec_push_back (\<lambda>_. 0) (page_addr q) (page_tables_addr v)\<rparr>"
  have "get_next_level (tbl_at p) i v s = Some (tbl_at q, ?v, ?s)"
    using direct_map_bit [OF p34] e s1(1) by (simp add: get_next_level_def Let_def add.commute)
  moreover have "n_free s \<le> Suc (n_free ?s)"
    using n_free_Suc [of s1 s q] s1(2,5) st(1) by (simp add: n_free_def)
  moreover have "leaves_data s T ?s (T(path @ [i] \<mapsto> q))"
  proof -
    have "leaves_data s T s1 (T(path @ [i] \<mapsto> q))"
      using pa.alloc_keeps_used_frame [OF ok s1(2) _ _ _ s1(1)] s1(2,4,5) None
      by (auto simp: leaves_data_def used_frame_def ran_map_upd)
    moreover have "leaves_data s1 (T(path @ [i] \<mapsto> q)) ?s (T(path @ [i] \<mapsto> q))"
      using leaves_data_store [OF rep1(1) p i512, of "page_addr q OR 7"] None by (auto simp: leaves_data_def ran_map_upd)
    ultimately show ?thesis by (rule leaves_data_trans)
  qed
  ultimately show ?thesis
    using add rep1(2) st(2) s1(3) vec_push_back_list(1) [OF vo]
    by (intro that [of q ?v ?s "T(path @ [i] \<mapsto> q)"]) simp_all
next
  case (Some q)
  have p34: "p < 2 ^ 34" using pt_repD(2) [OF rep p] by (simp add: used_frame_def)
  have q: "q < 2 ^ 52" using pt_repD(2) [OF rep Some] by (simp add: used_frame_def)
  have e: "read64 (mem s) (tbl_cell (tbl_at p) i) = page_addr q OR 7"
    using pt_repD(4) [OF rep p i] Some by (simp add: entry_of_def)
  have "get_next_level (tbl_at p) i v s = Some (tbl_at q, v, s)"
    using direct_map_bit [OF p34] table_entry [OF q] by (simp add: get_next_level_def Let_def e add.commute)
  then show ?thesis using ok rep Some vo by (intro that [of q v s T]) simp_all
qed

section \<open>Indices\<close>

lemma index_less: "unat (drop_bit n (virt :: u64) AND 0x1FF) < 512"
proof -
  have m: "(0x1FF :: u64) = mask 9" by (simp add: mask_eq_exp_minus_1)
  have "unat (drop_bit n virt AND mask 9) = take_bit 9 (unat (drop_bit n virt))"
    by (simp only: take_bit_eq_mask [symmetric] unsigned_take_bit_eq)
  then show ?thesis using take_bit_nat_less_exp [of 9 "unat (drop_bit n virt)"] unfolding m by simp
qed

lemma indices_less: "get_pml4e virt < 512" "get_pdpe virt < 512" "get_pde virt < 512" "get_pte virt < 512"
  by (simp_all add: get_pml4e_def get_pdpe_def get_pde_def get_pte_def index_less)

section \<open>Walking and storing\<close>

lemma walk_levels_rep:
  assumes ok: "pages_ok s" and rep: "pt_rep K (m_pml4 v) s T" and mine: "get_pml4e virt \<notin> K"
    and room: "3 \<le> n_free s" and vo: "vec_ok (page_tables_addr v)"
  obtains q v' s' T' where "walk_levels virt v s = Some (tbl_at q, v', s')" "pages_ok s'"
    "pt_rep K (m_pml4 v') s' T'" "T' [get_pml4e virt, get_pdpe virt, get_pde virt] = Some q" "pte s' T' = pte s T"
    "n_free s \<le> n_free s' + 3" "vec_ok (page_tables_addr v')" "m_ranges v' = m_ranges v" "m_pml4 v' = m_pml4 v"
    "leaves_data s T s' T'"
proof -
  obtain p where p: "T [] = Some p" "m_pml4 v = tbl_at p" using pt_repD(1) [OF rep] by blast
  have o1: "own_slot K [] (get_pml4e virt)" "own_slot K [get_pml4e virt] (get_pdpe virt)"
    "own_slot K [get_pml4e virt, get_pdpe virt] (get_pde virt)"
    using mine indices_less [of virt] by (auto simp: own_slot_def)
  have r0: "0 < n_free s" using room by simp
  obtain q1 v1 s1 T1 where l1: "get_next_level (tbl_at p) (get_pml4e virt) v s = Some (tbl_at q1, v1, s1)" "pages_ok s1"
    "pt_rep K (m_pml4 v) s1 T1" "T1 ([] @ [get_pml4e virt]) = Some q1" "pte s1 T1 = pte s T" "n_free s \<le> Suc (n_free s1)"
    "m_pml4 v1 = m_pml4 v" "vec_ok (page_tables_addr v1)" "m_ranges v1 = m_ranges v" "leaves_data s T s1 T1"
    by (rule get_next_level_rep [OF ok rep p(1) o1(1) r0 vo]) (rule that)
  have r1: "0 < n_free s1" using l1(6) room by simp
  obtain q2 v2 s2 T2 where l2: "get_next_level (tbl_at q1) (get_pdpe virt) v1 s1 = Some (tbl_at q2, v2, s2)" "pages_ok s2"
    "pt_rep K (m_pml4 v) s2 T2" "T2 ([get_pml4e virt] @ [get_pdpe virt]) = Some q2" "pte s2 T2 = pte s1 T1" "n_free s1 \<le> Suc (n_free s2)"
    "m_pml4 v2 = m_pml4 v1" "vec_ok (page_tables_addr v2)" "m_ranges v2 = m_ranges v1" "leaves_data s1 T1 s2 T2"
    by (rule get_next_level_rep [OF l1(2,3) l1(4) [simplified] o1(2) r1 l1(8)]) (rule that)
  have r2: "0 < n_free s2" using l1(6) l2(6) room by simp
  obtain q3 v3 s3 T3 where l3: "get_next_level (tbl_at q2) (get_pde virt) v2 s2 = Some (tbl_at q3, v3, s3)" "pages_ok s3"
    "pt_rep K (m_pml4 v) s3 T3" "T3 ([get_pml4e virt, get_pdpe virt] @ [get_pde virt]) = Some q3" "pte s3 T3 = pte s2 T2"
    "n_free s2 \<le> Suc (n_free s3)" "m_pml4 v3 = m_pml4 v2" "vec_ok (page_tables_addr v3)" "m_ranges v3 = m_ranges v2"
    "leaves_data s2 T2 s3 T3"
    by (rule get_next_level_rep [OF l2(2,3) l2(4) [simplified] o1(3) r2 l2(8)]) (rule that)
  have "walk_levels virt v s = Some (tbl_at q3, v3, s3)" using l1(1) l2(1) l3(1) by (simp add: walk_levels_def p(2))
  moreover have "leaves_data s T s3 T3" using l1(10) l2(10) l3(10) by (blast intro: leaves_data_trans)
  ultimately show ?thesis
    using l1(5-9) l2(5-9) l3(2-9) by (intro that [of q3 v3 s3 T3]) simp_all
qed

lemma pt_rep_leaf:
  assumes rep: "pt_rep K pml4 s T" and q: "T [a, b, c] = Some q" and d: "d < 512"
  shows "pt_rep K pml4 (s\<lparr>mem := write64 (mem s) (tbl_cell (tbl_at q) d) e\<rparr>) T"
    and "pte (s\<lparr>mem := write64 (mem s) (tbl_cell (tbl_at q) d) e\<rparr>) T = (pte s T)((a, b, c, d) := e)"
proof -
  let ?s = "s\<lparr>mem := write64 (mem s) (tbl_cell (tbl_at q) d) e\<rparr>"
  note st = store_cell [OF rep q d, where v = e]
  have bb: "bitmap_bytes ?s = bitmap_bytes s" by (simp add: bitmap_bytes_def)
  obtain p0 where p0: "T [] = Some p0" "pml4 = tbl_at p0" using pt_repD(1) [OF rep] by blast
  have uf: "used_frame ?s r" if "T x = Some r" for x r
    using pt_repD(2) [OF rep that] by (simp add: used_frame_def st(2) bb)
  have pre: "T x \<noteq> None \<and> own_slot K x j" if "T (x @ [j]) \<noteq> None" for x j
    using pt_repD(5) [OF rep, of x j] that by blast
  have cells: "read64 (mem ?s) (tbl_cell (tbl_at r) j) = entry_of (T (x @ [j]))" if "T x = Some r" "own_slot K x j" for x r j
  proof -
    have "(x, j) \<noteq> ([a, b, c], d)" "j < 512" using that(2) by (auto simp: own_slot_def)
    then show ?thesis using st(1) [OF that(1), of j] pt_repD(4) [OF rep that] by simp
  qed
  show "pt_rep K pml4 ?s T" using p0 uf pt_repD(3) [OF rep] pre cells by (rule pt_repI)
  have "pte ?s T (x, y, z, j) = ((pte s T)((a, b, c, d) := e)) (x, y, z, j)" for x y z j
    using st(1) [of "[x, y, z]" _ j] q d by (auto simp: pte_def split: option.splits)
  then show "pte ?s T = (pte s T)((a, b, c, d) := e)" by (simp only: fun_eq_iff split_paired_All) blast
qed

text \<open>A page map: the entries \<open>M\<close> that the tables of \<open>v\<close> hold in memory.\<close>

definition aspace :: "nat set \<Rightarrow> vmm \<Rightarrow> 'a kmem_scheme \<Rightarrow> (page_index \<Rightarrow> u64) \<Rightarrow> bool" where
  "aspace K v s M \<longleftrightarrow> pages_ok s \<and> vec_ok (page_tables_addr v) \<and> (\<exists>T. pt_rep K (m_pml4 v) s T \<and> pte s T = M)"

text \<open>A page map beside frames \<open>D\<close> that hold the bytes \<open>m0\<close>.\<close>

definition dspace :: "nat set \<Rightarrow> vmm \<Rightarrow> 'a kmem_scheme \<Rightarrow> (page_index \<Rightarrow> u64) \<Rightarrow> nat set \<Rightarrow> mem \<Rightarrow> bool" where
  "dspace K v s M D m0 \<longleftrightarrow> pages_ok s \<and> vec_ok (page_tables_addr v) \<and>
     (\<exists>T. pt_rep K (m_pml4 v) s T \<and> pte s T = M \<and>
       (\<forall>q \<in> D. used_frame s q \<and> q \<notin> ran T \<and> (\<forall>x \<in> frame q. mem s x = m0 x)))"

lemma aspace_dspace: "aspace K v s M \<longleftrightarrow> dspace K v s M {} m0"
  by (simp add: aspace_def dspace_def)

lemma dspace_aspace: "dspace K v s M D m0 \<Longrightarrow> aspace K v s M"
  by (auto simp: aspace_def dspace_def)

lemma map_page_dspace:
  assumes as: "dspace K v s M D m0" and mine: "get_pml4e virt \<notin> K" and room: "3 \<le> n_free s"
  shows "\<exists>v' s'. map_page virt phys flags v s = Some (v', s') \<and>
    dspace K v' s' (M(index_of virt := phys OR ucast flags)) D m0 \<and> n_free s \<le> n_free s' + 3"
proof -
  obtain T where T: "pages_ok s" "vec_ok (page_tables_addr v)" "pt_rep K (m_pml4 v) s T" "pte s T = M"
    "\<forall>q \<in> D. used_frame s q \<and> q \<notin> ran T \<and> (\<forall>x \<in> frame q. mem s x = m0 x)"
    using as by (auto simp: dspace_def)
  obtain q v' s' T' where w: "walk_levels virt v s = Some (tbl_at q, v', s')" "pages_ok s'"
    "pt_rep K (m_pml4 v') s' T'" "T' [get_pml4e virt, get_pdpe virt, get_pde virt] = Some q" "pte s' T' = pte s T"
    "n_free s \<le> n_free s' + 3" "vec_ok (page_tables_addr v')" "leaves_data s T s' T'"
    by (rule walk_levels_rep [OF T(1,3) mine room T(2)]) (rule that)
  let ?s = "s'\<lparr>mem := write64 (mem s') (tbl_cell (tbl_at q) (get_pte virt)) (phys OR ucast flags)\<rparr>"
  note leaf = pt_rep_leaf [OF w(3,4) indices_less(4) [of virt], of "phys OR ucast flags"]
  note st = store_cell(2,3) [OF w(3,4) indices_less(4) [of virt], of "phys OR ucast flags"]
  have "leaves_data s T ?s T'"
    using w(8) leaves_data_store [OF w(3,4) indices_less(4) [of virt]] by (rule leaves_data_trans)
  then have "\<forall>q \<in> D. used_frame ?s q \<and> q \<notin> ran T' \<and> (\<forall>x \<in> frame q. mem ?s x = m0 x)"
    using T(5) by (auto simp only: leaves_data_def)
  then have "dspace K v' ?s (M(index_of virt := phys OR ucast flags)) D m0"
    using leaf w(2,5,7) st(2) T(4) unfolding dspace_def index_of_def by (intro conjI exI [of _ T']) simp_all
  moreover have "map_page virt phys flags v s = Some (v', ?s)" using w(1) by (simp add: map_page_def)
  moreover have "n_free s \<le> n_free ?s + 3" using w(6) st(1) by (simp add: n_free_def)
  ultimately show ?thesis by blast
qed

lemma map_page_aspace:
  assumes "aspace K v s M" "get_pml4e virt \<notin> K" "3 \<le> n_free s"
  shows "\<exists>v' s'. map_page virt phys flags v s = Some (v', s') \<and>
    aspace K v' s' (M(index_of virt := phys OR ucast flags)) \<and> n_free s \<le> n_free s' + 3"
proof -
  obtain v' s' where "map_page virt phys flags v s = Some (v', s')"
    "dspace K v' s' (M(index_of virt := phys OR ucast flags)) {} (\<lambda>_. 0)" "n_free s \<le> n_free s' + 3"
    using map_page_dspace [of K v s M "{}" "\<lambda>_. 0"] assms aspace_dspace [of K v s M "\<lambda>_. 0"] by blast
  then show ?thesis by (blast intro: dspace_aspace)
qed

lemma virtual_to_physical_aspace:
  assumes as: "aspace K v s M" and mine: "get_pml4e virt \<notin> K" and room: "3 \<le> n_free s"
  shows "\<exists>v' s'. virtual_to_physical virt v s = Some (M (index_of virt) AND PAGE_MASK, v', s') \<and>
    aspace K v' s' M \<and> n_free s \<le> n_free s' + 3"
proof -
  obtain T where T: "pages_ok s" "vec_ok (page_tables_addr v)" "pt_rep K (m_pml4 v) s T" "pte s T = M"
    using as by (auto simp: aspace_def)
  obtain q v' s' T' where w: "walk_levels virt v s = Some (tbl_at q, v', s')" "pages_ok s'"
    "pt_rep K (m_pml4 v') s' T'" "T' [get_pml4e virt, get_pdpe virt, get_pde virt] = Some q" "pte s' T' = pte s T"
    "n_free s \<le> n_free s' + 3" "vec_ok (page_tables_addr v')"
    by (rule walk_levels_rep [OF T(1,3) mine room T(2)]) (rule that)
  have "M (index_of virt) = read64 (mem s') (tbl_cell (tbl_at q) (get_pte virt))"
    using w(4,5) T(4) indices_less(4) [of virt] by (auto simp: pte_def index_of_def)
  then have "virtual_to_physical virt v s = Some (M (index_of virt) AND PAGE_MASK, v', s')"
    using w(1) by (simp add: virtual_to_physical_def)
  moreover have "aspace K v' s' M" using w(2,3,5,7) T(4) by (auto simp: aspace_def)
  ultimately show ?thesis using w(6) by blast
qed

section \<open>The mapping interface\<close>

text \<open>Something that maps one page at a time, and what mapping many pages amounts to.\<close>

locale page_mapper =
  fixes space :: "'s \<Rightarrow> (page_index \<Rightarrow> u64) \<Rightarrow> bool"
    and room :: "'s \<Rightarrow> nat"
    and mine :: "u64 \<Rightarrow> bool"
    and map_one :: "u64 \<Rightarrow> u64 \<Rightarrow> u16 \<Rightarrow> 's \<Rightarrow> 's option"
  assumes map_one: "space s M \<Longrightarrow> mine virt \<Longrightarrow> 3 \<le> room s \<Longrightarrow>
    \<exists>s'. map_one virt phys flags s = Some s' \<and> space s' (M(index_of virt := phys OR ucast flags)) \<and> room s \<le> room s' + 3"
begin

lemma map_many:
  assumes "space s M" "\<And>k. k \<in> set ks \<Longrightarrow> mine (va k)" "3 * length ks \<le> room s"
  shows "\<exists>s'. foldl (\<lambda>s k. Option.bind s (map_one (va k) (pa k) fl)) (Some s) ks = Some s' \<and>
    space s' (foldl (\<lambda>M k. M(index_of (va k) := pa k OR ucast fl)) M ks) \<and> room s \<le> room s' + 3 * length ks"
  using assms
proof (induction ks arbitrary: s M)
  case (Cons k ks)
  have "mine (va k)" "3 \<le> room s" using Cons.prems by auto
  then obtain s1 where s1: "map_one (va k) (pa k) fl s = Some s1"
      "space s1 (M(index_of (va k) := pa k OR ucast fl))" "room s \<le> room s1 + 3"
    using map_one [OF Cons.prems(1), of "va k" "pa k" fl] by blast
  obtain s2 where "foldl (\<lambda>s k. Option.bind s (map_one (va k) (pa k) fl)) (Some s1) ks = Some s2"
      "space s2 (foldl (\<lambda>M k. M(index_of (va k) := pa k OR ucast fl)) (M(index_of (va k) := pa k OR ucast fl)) ks)"
      "room s1 \<le> room s2 + 3 * length ks"
    using Cons.IH [OF s1(2)] Cons.prems(2,3) s1(3) by (auto simp del: fun_upd_apply)
  then show ?case using s1 by (auto simp del: fun_upd_apply)
qed auto

end

interpretation pd: page_mapper "\<lambda>(v, s) M. dspace K v s M D m0" "\<lambda>(v, s). n_free s" "\<lambda>virt. get_pml4e virt \<notin> K"
  "\<lambda>virt phys flags (v, s). map_page virt phys flags v s" for K D m0
  by unfold_locales (use map_page_dspace in fastforce)

interpretation pm: page_mapper "\<lambda>(v, s) M. aspace K v s M" "\<lambda>(v, s). n_free s" "\<lambda>virt. get_pml4e virt \<notin> K"
  "\<lambda>virt phys flags (v, s). map_page virt phys flags v s" for K
  by unfold_locales (use map_page_aspace in fastforce)

text \<open>The loop of \<open>map_range_raw\<close> as a sequence of page mappings.\<close>

lemma map_loop_foldl:
  fixes s :: "'a kmem_scheme"
  shows "map_loop virt phys len prot (n * PAGE_SIZE) v s =
     foldl (\<lambda>vs k. Option.bind vs (\<lambda>(v, s). map_page (virt + of_nat (k * PAGE_SIZE)) (phys + of_nat (k * PAGE_SIZE)) (ucast prot) v s))
       (Some (v, s)) [n ..< len div PAGE_SIZE + 1]"
proof (induction "len div PAGE_SIZE + 1 - n" arbitrary: n v s)
  case 0
  then have "len div PAGE_SIZE < n" by simp
  then have "\<not> n * PAGE_SIZE \<le> len" by (simp add: PAGE_SIZE_def div_less_iff_less_mult not_le)
  then show ?case using 0 by (subst map_loop.simps) simp
next
  case (Suc d)
  then have "n \<le> len div PAGE_SIZE" by simp
  then have le: "n * PAGE_SIZE \<le> len" by (simp add: PAGE_SIZE_def less_eq_div_iff_mult_less_eq)
  have up: "[n ..< len div PAGE_SIZE + 1] = n # [Suc n ..< len div PAGE_SIZE + 1]"
    using \<open>n \<le> len div PAGE_SIZE\<close> by (subst upt_conv_Cons) auto
  have next_page: "n * PAGE_SIZE + PAGE_SIZE = Suc n * PAGE_SIZE" by simp
  have "map_loop virt phys len prot (Suc n * PAGE_SIZE) v' s' =
     foldl (\<lambda>vs k. Option.bind vs (\<lambda>(v, s). map_page (virt + of_nat (k * PAGE_SIZE)) (phys + of_nat (k * PAGE_SIZE)) (ucast prot) v s))
       (Some (v', s')) [Suc n ..< len div PAGE_SIZE + 1]" for v' and s' :: "'a kmem_scheme"
    using Suc.hyps(2) by (intro Suc.hyps(1)) simp
  then show ?case
    unfolding up foldl_bind_Cons using le by (subst map_loop.simps) (simp only: if_True next_page prod.case case_prod_eta,
        intro arg_cong [where f = "Option.bind _"] ext, simp only: split_paired_all prod.case)
qed

end
