(* ===== verification/Vmm_Props.thy ===== *)
theory Vmm_Props
  imports Page_Tables
begin

text \<open>
  Properties of the page maps: a fresh one, mapping, unmapping, looking up, mapping ranges, and what
  the processor's own walk through the same tables finds.
\<close>

section \<open>A new page map\<close>

abbreviation kernel_slots :: "nat set" where
  "kernel_slots \<equiv> {256, 511}"

lemma single_table_rep:
  assumes uf: "used_frame s p" and zero: "\<And>i. i < 512 \<Longrightarrow> i \<notin> K \<Longrightarrow> read64 (mem s) (tbl_cell (tbl_at p) i) = 0"
  shows "pt_rep K (tbl_at p) s [[] \<mapsto> p]" "pte s [[] \<mapsto> p] = (\<lambda>_. 0)"
proof -
  show "pt_rep K (tbl_at p) s [[] \<mapsto> p]"
    by (rule pt_repI [of _ p]) (use uf zero in \<open>auto simp: own_slot_def entry_of_def split: if_splits\<close>)
  show "pte s [[] \<mapsto> p] = (\<lambda>_. 0)" by (auto simp: pte_def fun_eq_iff)
qed

lemma vmm_new_dspace:
  assumes ok: "pages_ok s" and free: "free_page s q" and k: "m_pml4 k = tbl_at kp" "used_frame s kp" and D: "\<forall>q \<in> D. used_frame s q"
  shows "\<exists>v s'. vmm_new k s = Some (v, s') \<and> dspace kernel_slots v s' (\<lambda>_. 0) D (mem s) \<and> n_free s = Suc (n_free s') \<and>
    (\<forall>i \<in> kernel_slots. read64 (mem s') (tbl_cell (m_pml4 v) i) = read64 (mem s) (tbl_cell (m_pml4 k) i))"
proof -
  obtain p s1 where s1: "pmm_alloc 1 s = Some (page_addr p, s1)" "free_page s p" "pages_ok s1"
      "bitmap_bytes s1 = bitmap_bytes s" "\<And>j. free_page s1 j \<longleftrightarrow> free_page s j \<and> j \<noteq> p"
      "\<And>x. x \<in> frame p \<Longrightarrow> mem s1 x = 0"
    using pa.alloc_frame [OF ok free] by auto
  have kp: "kp \<noteq> p" "kp < 2 ^ 52" "p < 2 ^ 52" using k(2) s1(2) pa.free_bound [OF ok s1(2)] by (auto simp: used_frame_def)
  have keep_used: "mem s1 x = mem s x" if "used_frame s r" "x \<in> frame r" for r x
    using pa.alloc_keeps_used_frame [OF ok s1(2) _ _ _ s1(1) that(2)] that(1) by (auto simp: used_frame_def)
  have keep: "mem s1 x = mem s x" if "x \<in> frame kp" for x using keep_used [OF k(2) that] .
  have kr: "read64 (mem s1) (tbl_cell (tbl_at kp) i) = read64 (mem s) (tbl_cell (tbl_at kp) i)" if "i < 512" for i
    using tbl_cell_frame [OF that, of kp] keep by (intro read64_cong) auto
  define e where "e i = read64 (mem s) (tbl_cell (tbl_at kp) i)" for i
  define m where "m = write64 (write64 (mem s1) (tbl_cell (tbl_at p) 256) (e 256)) (tbl_cell (tbl_at p) 511) (e 511)"
  have uf: "used_frame s1 p"
    using s1(2,4,5) pa.free_bound [OF ok s1(2)] pa.free_apart [OF ok s1(2)] by (simp add: used_frame_def)
  have apart: "span (tbl_cell (tbl_at a) i) 8 \<inter> span (tbl_cell (tbl_at p) j) 8 = {}"
    if "i < 512" "j < 512" "(a, i) \<noteq> (p, j)" "a = kp \<or> a = p" for a i j
    using that kp by (intro tbl_cells_apart) auto
  have new: "vmm_new k s = Some (\<lparr>m_pml4 = tbl_at p, m_ranges = vector_new, page_tables_addr = vector_new\<rparr>, s1\<lparr>mem := m\<rparr>)"
    using s1(1) kr kp(1) apart
    by (simp add: vmm_new_def Let_def k(1) m_def e_def read64_write64_other add.commute)
  have bm: "m x = mem s1 x" if "x \<in> bitmap_bytes s1" for x
    unfolding m_def using that uf tbl_cell_frame [of 256 p] tbl_cell_frame [of 511 p]
    by (subst write64_other; (subst write64_other)?) (auto simp: used_frame_def)
  note st = pmm_store [OF bm]
  have cells: "read64 m (tbl_cell (tbl_at p) i) = (if i = 511 then e 511 else if i = 256 then e 256 else 0)" if "i < 512" for i
  proof -
    have "read64 (mem s1) (tbl_cell (tbl_at p) i) = 0"
      using tbl_cell_frame [OF that, of p] s1(6) by (intro read64_zeros) auto
    then show ?thesis using apart [OF that, of 511 p] apart [OF that, of 256 p] apart [of 256 511 p]
      by (auto simp: m_def read64_write64_other)
  qed
  have uf': "used_frame (s1\<lparr>mem := m\<rparr>) p" using uf st(1) by (simp add: used_frame_def bitmap_bytes_def)
  have data: "used_frame (s1\<lparr>mem := m\<rparr>) r \<and> r \<noteq> p \<and> (\<forall>x \<in> frame r. m x = mem s x)" if r: "r \<in> D" for r
  proof -
    have u: "used_frame s r" "r \<noteq> p" "r < 2 ^ 52" using D r s1(2) by (auto simp: used_frame_def)
    have "m x = mem s1 x" if "x \<in> frame r" for x
      unfolding m_def using that frame_disjoint [of r p] u kp(3) tbl_cell_frame [of 256 p] tbl_cell_frame [of 511 p]
      by (subst write64_other; (subst write64_other)?) auto
    then show ?thesis using u keep_used s1(4,5) st(1) by (auto simp: used_frame_def bitmap_bytes_def)
  qed
  have "dspace kernel_slots \<lparr>m_pml4 = tbl_at p, m_ranges = vector_new, page_tables_addr = vector_new\<rparr> (s1\<lparr>mem := m\<rparr>) (\<lambda>_. 0) D (mem s)"
    unfolding dspace_def using single_table_rep [OF uf', of kernel_slots] cells s1(3) st(2) data
    by (intro conjI exI [of _ "[[] \<mapsto> p]"]) auto
  moreover have "n_free s = Suc (n_free (s1\<lparr>mem := m\<rparr>))"
    using n_free_Suc [of s1 s p] s1(2,5) st(1) by (simp add: n_free_def)
  ultimately show ?thesis using new cells by (auto simp: e_def k(1))
qed

lemma vmm_new_aspace:
  assumes "pages_ok s" "free_page s q" "m_pml4 k = tbl_at kp" "used_frame s kp"
  shows "\<exists>v s'. vmm_new k s = Some (v, s') \<and> aspace kernel_slots v s' (\<lambda>_. 0) \<and> n_free s = Suc (n_free s') \<and>
    (\<forall>i \<in> kernel_slots. read64 (mem s') (tbl_cell (m_pml4 v) i) = read64 (mem s) (tbl_cell (m_pml4 k) i))"
  using vmm_new_dspace [OF assms, of "{}"] by (auto intro: dspace_aspace)

section \<open>The processor's walk\<close>

text \<open>
  What the memory management unit does with the value in \<open>cr3\<close>: at each level the entry must have its
  present bit, and its address bits are those of the next table. Physical memory is seen through the
  direct map.
\<close>

definition mmu_next :: "mem \<Rightarrow> u64 \<Rightarrow> nat \<Rightarrow> u64 option" where
  "mmu_next m tbl i =
     (let e = read64 m (tbl_cell (PHYSICAL_BASE_ADDRESS + (tbl AND PAGE_MASK)) i) in if bit e 0 then Some e else None)"

definition mmu_walk :: "mem \<Rightarrow> u64 \<Rightarrow> page_index \<Rightarrow> u64 option" where
  "mmu_walk m cr3 = (\<lambda>(a, b, c, d). do {
     e4 \<leftarrow> mmu_next m cr3 a;
     e3 \<leftarrow> mmu_next m e4 b;
     e2 \<leftarrow> mmu_next m e3 c;
     mmu_next m e2 d
   })"

lemma mmu_next_table:
  assumes "pt_rep K pml4 s T" "T path = Some p" "own_slot K path i" "tbl AND PAGE_MASK = page_addr p"
  shows "mmu_next (mem s) tbl i = map_option (\<lambda>q. page_addr q OR 7) (T (path @ [i]))"
proof -
  have "bit (page_addr q OR 7) 0" for q by (simp add: bit_or_iff)
  then show ?thesis using pt_repD(4) [OF assms(1-3)] assms(4)
    by (cases "T (path @ [i])") (simp_all add: mmu_next_def entry_of_def Let_def)
qed

lemma mmu_next_leaf:
  assumes "q < 2 ^ 52"
  shows "mmu_next m (page_addr q OR 7) d = (let e = read64 m (tbl_cell (tbl_at q) d) in if bit e 0 then Some e else None)"
  by (simp add: mmu_next_def table_entry [OF assms])

lemma mmu_walk_pte:
  assumes rep: "pt_rep K (m_pml4 v) s T" and i: "a \<notin> K" "a < 512" "b < 512" "c < 512" "d < 512"
  shows "mmu_walk (mem s) (switch_pagemap v) (a, b, c, d) =
    (if bit (pte s T (a, b, c, d)) 0 then Some (pte s T (a, b, c, d)) else None)"
proof -
  obtain p where p: "T [] = Some p" "m_pml4 v = tbl_at p" using pt_repD(1) [OF rep] by blast
  have lim: "q < 2 ^ 52" if "T x = Some q" for x q using pt_repD(2) [OF rep that] by (simp add: used_frame_def)
  have "(page_addr p AND PAGE_MASK) = page_addr p"
    using table_entry(1) [OF lim [OF p(1)]] by (metis and.assoc and.idem)
  then have cr3: "switch_pagemap v AND PAGE_MASK = page_addr p" using p(2) by (simp add: switch_pagemap_def)
  note next_table = mmu_next_table [OF rep]
  have o: "own_slot K [] a" "own_slot K [a] b" "own_slot K [a, b] c" using i by (auto simp: own_slot_def)
  have up: "T [a, b, c] = None" if "T [a] = None \<or> T [a, b] = None"
    using that pt_repD(5) [OF rep, of "[a]" b] pt_repD(5) [OF rep, of "[a, b]" c]
    by (cases "T [a, b, c]"; cases "T [a, b]") auto
  show ?thesis
  proof (cases "T [a]")
    case None
    then show ?thesis using next_table [OF p(1) o(1) cr3] up by (simp add: mmu_walk_def pte_def)
  next
    case (Some q1)
    note n1 = next_table [OF Some o(2) table_entry(1) [OF lim [OF Some]]]
    show ?thesis
    proof (cases "T [a, b]")
      case None
      then show ?thesis using next_table [OF p(1) o(1) cr3] n1 Some up by (simp add: mmu_walk_def pte_def)
    next
      case (Some q2)
      note n2 = next_table [OF Some o(3) table_entry(1) [OF lim [OF Some]]]
      show ?thesis
        using next_table [OF p(1) o(1) cr3] n1 n2 \<open>T [a] = Some q1\<close> Some i(5)
        by (cases "T [a, b, c]") (simp_all add: mmu_walk_def pte_def mmu_next_leaf [OF lim] Let_def)
    qed
  qed
qed

section \<open>Properties\<close>

text \<open>A new page map allocates one page, shares the two kernel slots of the kernel's top-level table and
  maps nothing else.\<close>

theorem vmm_new_shares_kernel:
  assumes "pages_ok s" "free_page s q" "m_pml4 k = tbl_at kp" "used_frame s kp"
  shows "\<exists>v s'. vmm_new k s = Some (v, s') \<and> aspace kernel_slots v s' (\<lambda>_. 0) \<and> n_free s = Suc (n_free s') \<and>
    (\<forall>i \<in> kernel_slots. read64 (mem s') (tbl_cell (m_pml4 v) i) = read64 (mem s) (tbl_cell (m_pml4 k) i))"
  by (rule vmm_new_aspace [OF assms])

text \<open>The eight-page machine with the kernel's table in page 100.\<close>

definition kernel_sample :: vmm where
  "kernel_sample = \<lparr>m_pml4 = tbl_at 100, m_ranges = vector_new, page_tables_addr = vector_new\<rparr>"

lemma sample_pages_ok: "pages_ok pmm_sample"
  using pmm_sample_wf by (simp add: pages_ok_def) (simp add: pmm_sample_def)

lemma sample_kernel_frame: "used_frame pmm_sample 100"
proof -
  have "span (PHYSICAL_BASE_ADDRESS + of_nat (100 * 4096)) 4096 \<inter> span (PHYSICAL_BASE_ADDRESS + of_nat 0x100000) 1 = {}"
    by (rule span_offset_disjoint) simp_all
  then show ?thesis
    by (simp add: used_frame_def pmm_sample_free frame_def page_addr_def PAGE_SIZE_def bitmap_bytes_def)
      (simp add: pmm_sample_def)
qed

lemma n_free_sample: "n_free pmm_sample = 8"
proof -
  have "{j. free_page pmm_sample j} = {..< 8}" by (auto simp: pmm_sample_free)
  then show ?thesis by (simp add: n_free_def)
qed

lemma sample_space:
  obtains v s where "vmm_new kernel_sample pmm_sample = Some (v, s)" "aspace kernel_slots v s (\<lambda>_. 0)" "n_free s = 7"
proof -
  have "free_page pmm_sample 0" by (simp add: pmm_sample_free)
  from vmm_new_aspace [OF sample_pages_ok this, of kernel_sample 100] sample_kernel_frame
  obtain v s where "vmm_new kernel_sample pmm_sample = Some (v, s)" "aspace kernel_slots v s (\<lambda>_. 0)"
      "n_free pmm_sample = Suc (n_free s)"
    by (auto simp: kernel_sample_def)
  then show ?thesis using n_free_sample by (intro that [of v s]) auto
qed

theorem vmm_new_shares_kernel_witness:
  "\<exists>v s'. vmm_new kernel_sample pmm_sample = Some (v, s') \<and> aspace kernel_slots v s' (\<lambda>_. 0)"
proof -
  have "free_page pmm_sample 0" by (simp add: pmm_sample_free)
  from vmm_new_shares_kernel [OF sample_pages_ok this, of kernel_sample 100] sample_kernel_frame
  show ?thesis by (auto simp: kernel_sample_def)
qed

text \<open>C3: with three free pages, \<open>map_page\<close> on an address outside the kernel slots returns and changes exactly one
  last-level entry of the page map, that of the address, to the physical address with the flags; all
  other entries stay, also those in tables it had to create.\<close>

theorem map_page_updates:
  assumes "aspace K v s M" "get_pml4e virt \<notin> K" "3 \<le> n_free s"
  shows "\<exists>v' s'. map_page virt phys flags v s = Some (v', s') \<and>
    aspace K v' s' (M(index_of virt := phys OR ucast flags)) \<and> n_free s \<le> n_free s' + 3"
  by (rule map_page_aspace [OF assms])

theorem map_page_updates_witness:
  "\<exists>v s v' s'. vmm_new kernel_sample pmm_sample = Some (v, s) \<and> map_page 0x400000 0x5000 7 v s = Some (v', s') \<and>
    aspace kernel_slots v' s' ((\<lambda>_. 0)(index_of 0x400000 := 0x5007))"
proof -
  obtain v s where vs: "vmm_new kernel_sample pmm_sample = Some (v, s)" "aspace kernel_slots v s (\<lambda>_. 0)" "n_free s = 7"
    by (rule sample_space) (rule that)
  show ?thesis
    using map_page_updates [OF vs(2), of "0x400000" "0x5000" 7] vs(1,3) by (auto simp: get_pml4e_def)
qed

text \<open>Looking an address up after mapping it gives the physical page back; mapping one page does not change
  what is found for any address of another page.\<close>

theorem map_page_translate:
  assumes "aspace K v s M" "get_pml4e virt \<notin> K" "get_pml4e other \<notin> K" "6 \<le> n_free s"
    "phys AND PAGE_MASK = phys" "ucast flags AND PAGE_MASK = 0"
  shows "\<exists>v1 s1 v2 s2. map_page virt phys flags v s = Some (v1, s1) \<and>
    virtual_to_physical other v1 s1 =
      Some (if index_of other = index_of virt then phys else M (index_of other) AND PAGE_MASK, v2, s2) \<and>
    aspace K v2 s2 (M(index_of virt := phys OR ucast flags))"
proof -
  have r: "3 \<le> n_free s" using assms(4) by simp
  obtain v1 s1 where m: "map_page virt phys flags v s = Some (v1, s1)"
      "aspace K v1 s1 (M(index_of virt := phys OR ucast flags))" "n_free s \<le> n_free s1 + 3"
    using map_page_aspace [OF assms(1,2) r] by blast
  have "(phys OR ucast flags) AND PAGE_MASK = phys" using assms(5,6) by (simp add: bit.conj_disj_distrib2)
  then have "(M(index_of virt := phys OR ucast flags)) (index_of other) AND PAGE_MASK =
      (if index_of other = index_of virt then phys else M (index_of other) AND PAGE_MASK)" by simp
  then show ?thesis
    using m virtual_to_physical_aspace [OF m(2) assms(3)] assms(4) by fastforce
qed

theorem map_page_translate_witness:
  "\<exists>v s v1 s1 v2 s2. vmm_new kernel_sample pmm_sample = Some (v, s) \<and> map_page 0x400000 0x5000 7 v s = Some (v1, s1) \<and>
    virtual_to_physical 0x400123 v1 s1 = Some (0x5000, v2, s2)"
proof -
  obtain v s where vs: "vmm_new kernel_sample pmm_sample = Some (v, s)" "aspace kernel_slots v s (\<lambda>_. 0)" "n_free s = 7"
    by (rule sample_space) (rule that)
  show ?thesis
    using map_page_translate [OF vs(2), of "0x400000" "0x400123" "0x5000" 7] vs(1,3)
    by (auto simp: get_pml4e_def get_pdpe_def get_pde_def get_pte_def index_of_def PAGE_MASK_def)
qed

lemma mmu_walk_aspace:
  assumes "aspace K v s M" "get_pml4e x \<notin> K"
  shows "mmu_walk (mem s) (switch_pagemap v) (index_of x) = (if bit (M (index_of x)) 0 then Some (M (index_of x)) else None)"
proof -
  obtain T where "pt_rep K (m_pml4 v) s T" "pte s T = M" using assms(1) by (auto simp: aspace_def)
  then show ?thesis using mmu_walk_pte [of K v s T] assms(2) indices_less [of x] by (auto simp: index_of_def)
qed

text \<open>C13: the processor, walking the tables from the value \<open>switch_pagemap\<close> loads, finds for every address outside
  the kernel slots exactly the entry of the page map if its present bit is set, and nothing otherwise:
  after \<open>unmap_page\<close> the address faults.\<close>

theorem mmu_agrees:
  assumes "aspace K v s M" "get_pml4e virt \<notin> K" "get_pml4e other \<notin> K" "3 \<le> n_free s"
  shows "mmu_walk (mem s) (switch_pagemap v) (index_of other) =
      (if bit (M (index_of other)) 0 then Some (M (index_of other)) else None) \<and>
    (\<exists>v' s'. unmap_page virt v s = Some (v', s') \<and> mmu_walk (mem s') (switch_pagemap v') (index_of virt) = None)"
proof -
  obtain v' s' where "unmap_page virt v s = Some (v', s')" "aspace K v' s' (M(index_of virt := 0))"
    using map_page_aspace [OF assms(1,2,4), of 0 0] by (auto simp: unmap_page_def)
  then show ?thesis using mmu_walk_aspace [OF assms(1,3)] mmu_walk_aspace [of K v' s' "M(index_of virt := 0)" virt] assms(2) by auto
qed

theorem mmu_agrees_witness:
  "\<exists>v s v' s'. vmm_new kernel_sample pmm_sample = Some (v, s) \<and> unmap_page 0x400000 v s = Some (v', s') \<and>
    mmu_walk (mem s') (switch_pagemap v') (index_of 0x400000) = None"
proof -
  obtain v s where vs: "vmm_new kernel_sample pmm_sample = Some (v, s)" "aspace kernel_slots v s (\<lambda>_. 0)" "n_free s = 7"
    by (rule sample_space) (rule that)
  show ?thesis
    using mmu_agrees [OF vs(2), of "0x400000" "0x400000"] vs(1,3) by (auto simp: get_pml4e_def)
qed

lemma map_range_raw_dspace:
  assumes "dspace K v s M D m0" "\<forall>k \<le> unat len div PAGE_SIZE. get_pml4e (virt + of_nat (k * PAGE_SIZE)) \<notin> K"
    "3 * (unat len div PAGE_SIZE + 1) \<le> n_free s"
  shows "\<exists>v' s'. map_range_raw virt phys len prot v s = Some (v', s') \<and>
    dspace K v' s' (foldl (\<lambda>M k. M(index_of (virt + of_nat (k * PAGE_SIZE)) := (phys + of_nat (k * PAGE_SIZE)) OR ucast (ucast prot :: u16)))
      M [0 ..< unat len div PAGE_SIZE + 1]) D m0"
proof -
  let ?ks = "[0 ..< unat len div PAGE_SIZE + 1]"
  have "\<exists>vs. foldl (\<lambda>vs k. Option.bind vs (\<lambda>(v, s). map_page (virt + of_nat (k * PAGE_SIZE)) (phys + of_nat (k * PAGE_SIZE)) (ucast prot) v s))
      (Some (v, s)) ?ks = Some vs \<and>
    (case vs of (v', s') \<Rightarrow> dspace K v' s' (foldl (\<lambda>M k. M(index_of (virt + of_nat (k * PAGE_SIZE)) :=
      (phys + of_nat (k * PAGE_SIZE)) OR ucast (ucast prot :: u16))) M ?ks) D m0)"
    using pd.map_many [of K D m0 "(v, s)" M ?ks "\<lambda>k. virt + of_nat (k * PAGE_SIZE)" "\<lambda>k. phys + of_nat (k * PAGE_SIZE)" "ucast prot"] assms
    by (auto simp del: upt_Suc foldl_Cons foldl_append fun_upd_apply of_nat_mult)
  then show ?thesis
    using map_loop_foldl [of virt phys "unat len" prot 0 v s] by (auto simp: map_range_raw_def simp del: upt_Suc)
qed

lemma map_range_raw_aspace:
  assumes "aspace K v s M" "\<forall>k \<le> unat len div PAGE_SIZE. get_pml4e (virt + of_nat (k * PAGE_SIZE)) \<notin> K"
    "3 * (unat len div PAGE_SIZE + 1) \<le> n_free s"
  shows "\<exists>v' s'. map_range_raw virt phys len prot v s = Some (v', s') \<and>
    aspace K v' s' (foldl (\<lambda>M k. M(index_of (virt + of_nat (k * PAGE_SIZE)) := (phys + of_nat (k * PAGE_SIZE)) OR ucast (ucast prot :: u16)))
      M [0 ..< unat len div PAGE_SIZE + 1])"
proof -
  have "dspace K v s M {} (\<lambda>_. 0)" using assms(1) aspace_dspace [of K v s M "\<lambda>_. 0"] by blast
  from map_range_raw_dspace [OF this assms(2,3), of phys prot] show ?thesis by (blast intro: dspace_aspace)
qed

text \<open>\<open>map_range_raw\<close> maps the pages at offsets 0, 4096, ..., up to and including the last multiple of the page
  size that is not above \<open>length\<close>, each to the physical page at the same offset.\<close>

theorem map_range_raw_maps:
  assumes "aspace K v s M" "\<forall>k \<le> unat len div PAGE_SIZE. get_pml4e (virt + of_nat (k * PAGE_SIZE)) \<notin> K"
    "3 * (unat len div PAGE_SIZE + 1) \<le> n_free s"
  shows "\<exists>v' s'. map_range_raw virt phys len prot v s = Some (v', s') \<and>
    aspace K v' s' (foldl (\<lambda>M k. M(index_of (virt + of_nat (k * PAGE_SIZE)) := (phys + of_nat (k * PAGE_SIZE)) OR ucast (ucast prot :: u16)))
      M [0 ..< unat len div PAGE_SIZE + 1])"
  by (rule map_range_raw_aspace [OF assms])

theorem map_range_raw_maps_witness:
  "\<exists>v s v' s'. vmm_new kernel_sample pmm_sample = Some (v, s) \<and> map_range_raw 0x400000 0x10000 0x1000 7 v s = Some (v', s')"
proof -
  obtain v s where vs: "vmm_new kernel_sample pmm_sample = Some (v, s)" "aspace kernel_slots v s (\<lambda>_. 0)" "n_free s = 7"
    by (rule sample_space) (rule that)
  have "get_pml4e (0x400000 + of_nat (k * PAGE_SIZE)) \<notin> kernel_slots" if "k \<le> 1" for k
    using that by (cases k) (auto simp: get_pml4e_def PAGE_SIZE_def)
  then show ?thesis
    using map_range_raw_maps [OF vs(2), of "0x1000" "0x400000" "0x10000" 7] vs(1,3) by (auto simp: PAGE_SIZE_def)
qed

text \<open>For a length that is a multiple of the page size, \<open>map_range_raw\<close> maps one page more than the range has: the
  page right after it is mapped to the physical page after the range.\<close>

theorem map_range_raw_extra_page:
  assumes "aspace K v s M" "\<forall>k \<le> unat len div PAGE_SIZE. get_pml4e (virt + of_nat (k * PAGE_SIZE)) \<notin> K"
    "3 * (unat len div PAGE_SIZE + 1) \<le> n_free s" "PAGE_SIZE dvd unat len"
  shows "\<exists>v' s' M'. map_range_raw virt phys len prot v s = Some (v', s') \<and> aspace K v' s' M' \<and>
    M' (index_of (virt + len)) = (phys + len) OR ucast (ucast prot :: u16)"
proof -
  have "unat len div PAGE_SIZE * PAGE_SIZE = unat len" using assms(4) by simp
  then have len: "of_nat (unat len div PAGE_SIZE * PAGE_SIZE) = len" by (simp only:) simp
  show ?thesis
    using map_range_raw_aspace [OF assms(1-3), of phys prot] by (fastforce simp del: of_nat_mult simp: len)
qed

theorem map_range_raw_extra_page_witness:
  "\<exists>v s v' s' M'. vmm_new kernel_sample pmm_sample = Some (v, s) \<and> map_range_raw 0x400000 0x10000 0x1000 7 v s = Some (v', s') \<and>
    aspace kernel_slots v' s' M' \<and> M' (index_of 0x401000) = 0x11007"
proof -
  obtain v s where vs: "vmm_new kernel_sample pmm_sample = Some (v, s)" "aspace kernel_slots v s (\<lambda>_. 0)" "n_free s = 7"
    by (rule sample_space) (rule that)
  have "get_pml4e (0x400000 + of_nat (k * PAGE_SIZE)) \<notin> kernel_slots" if "k \<le> 1" for k
    using that by (cases k) (auto simp: get_pml4e_def PAGE_SIZE_def)
  then show ?thesis
    using map_range_raw_extra_page [OF vs(2), of "0x1000" "0x400000" "0x10000" 7] vs(1,3) by (auto simp: PAGE_SIZE_def)
qed

section \<open>duplicate\<close>

lemma get_next_level_ranges: "get_next_level p i v s = Some (q, v', s') \<Longrightarrow> m_ranges v' = m_ranges v"
  by (auto simp: get_next_level_def Let_def bind_eq_Some_iff split: if_splits prod.splits)

lemma map_page_ranges: "map_page virt phys fl v s = Some (v', s') \<Longrightarrow> m_ranges v' = m_ranges v"
  by (auto simp: map_page_def walk_levels_def bind_eq_Some_iff dest!: get_next_level_ranges)

lemma copy_pages_ranges: "copy_pages cpu base prot n v s = Some (v', s') \<Longrightarrow> m_ranges v' = m_ranges v"
proof (induction n arbitrary: v' s')
  case (Suc n)
  then show ?case by (auto simp: bind_eq_Some_iff Let_def dest!: map_page_ranges)
qed simp

lemma copy_ranges_ranges: "copy_ranges cpu rs v s = Some (v', s') \<Longrightarrow> m_ranges v' = m_ranges v"
proof (induction rs arbitrary: v s)
  case (Cons r rs)
  then show ?case by (auto simp: bind_eq_Some_iff dest!: copy_pages_ranges)
qed simp

text \<open>The page map \<open>duplicate\<close> returns has no memory areas, whatever areas the original has: \<open>get_ranges\<close> returns a
  copy of the vector, and the areas are pushed on that copy. A second \<open>duplicate\<close> copies nothing and
  \<open>destroy\<close> frees none of the copied pages.\<close>

theorem duplicate_forgets_areas:
  assumes "duplicate cpu k v s = Some (v', s')"
  shows "m_ranges v' = vector_new"
  using assms by (auto simp: duplicate_def vmm_new_def bind_eq_Some_iff Let_def dest!: copy_ranges_ranges)

theorem duplicate_forgets_areas_witness:
  "\<exists>v' s'. duplicate (\<lambda>m a. a) kernel_sample (kernel_sample\<lparr>m_ranges := vec_push_back (\<lambda>_. \<lparr>ma_base = 0, ma_limit = 0, ma_prot = 0, ma_flags = 0\<rparr>)
      \<lparr>ma_base = 0x400000, ma_limit = 0, ma_prot = 7, ma_flags = 0\<rparr> vector_new\<rparr>) pmm_sample = Some (v', s') \<and> m_ranges v' = vector_new"
proof -
  obtain v s where new: "vmm_new kernel_sample pmm_sample = Some (v, s)" by (rule sample_space) (rule that)
  have z: "DIV_CEIL 0 PAGE_SIZE = 0" by (simp add: DIV_CEIL_def PAGE_SIZE_def)
  have "duplicate (\<lambda>m a. a) kernel_sample (kernel_sample\<lparr>m_ranges := vec_push_back (\<lambda>_. \<lparr>ma_base = 0, ma_limit = 0, ma_prot = 0, ma_flags = 0\<rparr>)
      \<lparr>ma_base = 0x400000, ma_limit = 0, ma_prot = 7, ma_flags = 0\<rparr> vector_new\<rparr>) pmm_sample = Some (v, s)"
    by (simp add: duplicate_def new vec_push_back_list z)
  then show ?thesis using duplicate_forgets_areas by blast
qed

end
