(* ===== verification/Page_Data.thy ===== *)
theory Page_Data
  imports Vmm_Props
begin

text \<open>
  Data in frames beside the page tables, and how the processor sees it: page numbers of addresses, runs of pages taken from
  the allocator, copying into them and mapping them.
\<close>

section \<open>Page numbers\<close>

lemma index_of_page: "drop_bit 12 a = drop_bit 12 b \<Longrightarrow> index_of a = index_of b" for a b :: u64
proof -
  assume e: "drop_bit 12 a = drop_bit 12 b"
  have d: "drop_bit (12 + n) a = drop_bit (12 + n) b" for n using arg_cong [OF e, of "drop_bit n"] by (simp add: add.commute)
  show ?thesis using d [of 0] d [of 9] d [of 18] d [of 27]
    by (simp add: index_of_def get_pml4e_def get_pdpe_def get_pde_def get_pte_def)
qed

lemma index_of_bits: "index_of a = index_of b \<Longrightarrow> take_bit 36 (drop_bit 12 a) = take_bit 36 (drop_bit 12 b)" for a b :: u64
proof (rule bit_word_eqI)
  fix n :: nat
  assume e: "index_of a = index_of b" and "n < LENGTH(64)"
  have m: "(0x1FF :: u64) = mask 9" by (simp add: mask_eq_exp_minus_1)
  have "bit (drop_bit (12 + 9 * k) a) i = bit (drop_bit (12 + 9 * k) b) i" if k: "k < 4" and i: "i < 9" for k i
  proof -
    have "take_bit 9 (drop_bit (12 + 9 * k) a) = take_bit 9 (drop_bit (12 + 9 * k) b)"
    proof -
      consider "k = 0" | "k = 1" | "k = 2" | "k = 3" using k by linarith
      then show ?thesis
        using e unfolding index_of_def get_pml4e_def get_pdpe_def get_pde_def get_pte_def m take_bit_eq_mask
        by cases (simp_all add: word_unat_eq_iff)
    qed
    then show ?thesis using i by (metis bit_take_bit_iff)
  qed
  from this [of "n div 9" "n mod 9"]
  show "bit (take_bit 36 (drop_bit 12 a)) n = bit (take_bit 36 (drop_bit 12 b)) n"
    by (cases "n < 36") (auto simp: bit_simps add.assoc)
qed

definition page_no :: "u64 \<Rightarrow> nat" where
  "page_no a = unat a div 4096"

lemma unat_drop_12: "unat (drop_bit 12 a) = page_no a" for a :: u64
  by (simp add: page_no_def drop_bit_eq_div unat_div)

lemma page_no_add: "page_no (a + of_nat j) = (unat a + j) div 4096 mod 2 ^ 52"
proof -
  have "unat (a + of_nat j) = (unat a + j) mod (4096 * 2 ^ 52)"
    by (simp add: unat_word_ariths unat_of_nat mod_add_right_eq)
  also have "\<dots> div 4096 = (unat a + j) div 4096 mod 2 ^ 52" by (simp only: mod_mult2_eq)
  finally show ?thesis by (simp add: page_no_def)
qed

lemma pages_distinct:
  assumes "index_of (a + of_nat (i * PAGE_SIZE)) = index_of (a + of_nat (j * PAGE_SIZE))" "i < 2 ^ 36" "j < 2 ^ 36"
  shows "i = j"
proof -
  have n: "page_no (a + of_nat (k * PAGE_SIZE)) mod 2 ^ 36 = (unat a div 4096 + k) mod 2 ^ 36" for k
    by (simp add: page_no_add PAGE_SIZE_def mod_mod_cancel add.commute del: of_nat_mult)
  have "unat (take_bit 36 (drop_bit 12 x)) = page_no x mod 2 ^ 36" for x :: u64
    unfolding unsigned_take_bit_eq by (simp only: take_bit_eq_mod unat_drop_12)
  then have "(unat a div 4096 + i) mod 2 ^ 36 = (unat a div 4096 + j) mod 2 ^ 36"
    using arg_cong [OF index_of_bits [OF assms(1)], of unat] n by (simp del: of_nat_mult)
  then have "i mod 2 ^ 36 = j mod 2 ^ 36" unfolding nat_mod_eq_iff by (auto simp: add.assoc)
  then show ?thesis using assms(2,3) by simp
qed

text \<open>The address at offset \<open>j\<close> of a range lies in page number \<open>(align + j) div 4096\<close> of the range.\<close>

lemma page_at_offset:
  assumes "k = (unat a mod 4096 + j) div 4096"
  shows "index_of (a + of_nat j) = index_of (a + of_nat (k * PAGE_SIZE))"
proof -
  have "(unat a + j) div 4096 = unat a div 4096 + k" unfolding assms
    by (metis div_mult_mod_eq mult.commute add.assoc div_mult_self4 zero_neq_numeral)
  then have "page_no (a + of_nat j) = page_no (a + of_nat (k * PAGE_SIZE))"
    by (simp add: page_no_add PAGE_SIZE_def add.commute del: of_nat_mult)
  then show ?thesis by (intro index_of_page) (simp only: word_unat_eq_iff unat_drop_12)
qed

lemma foldl_upd_lookup: "inj_on f {..< n} \<Longrightarrow> j < n \<Longrightarrow> foldl (\<lambda>M k. M(f k := e k)) M [0 ..< n] (f j) = e j"
  by (induction n) (auto simp: inj_on_def less_Suc_eq lessThan_Suc)

section \<open>Data beside the tables\<close>

lemma dspaceD:
  assumes "dspace K v s M D m" "q \<in> D"
  shows "q < 2 ^ 34" "x \<in> frame q \<Longrightarrow> mem s x = m x"
  using assms by (auto simp only: dspace_def used_frame_def)

lemma dspace_store:
  assumes d: "dspace K v s M D m0" and m: "\<And>x. (\<forall>q \<in> D. x \<notin> frame q) \<Longrightarrow> m x = mem s x"
  shows "dspace K v (s\<lparr>mem := m\<rparr>) M D m" "n_free (s\<lparr>mem := m\<rparr>) = n_free s"
proof -
  obtain T where T: "pages_ok s" "vec_ok (page_tables_addr v)" "pt_rep K (m_pml4 v) s T" "pte s T = M"
    "\<forall>q \<in> D. used_frame s q \<and> q \<notin> ran T"
    using d by (auto simp: dspace_def)
  have bm: "m x = mem s x" if "x \<in> bitmap_bytes s" for x
    using T(5) that by (intro m) (auto simp: used_frame_def)
  have free: "free_page (s\<lparr>mem := m\<rparr>) = free_page s" "pages_ok (s\<lparr>mem := m\<rparr>)"
    using pmm_store [OF bm] T(1) by auto
  have tables: "m x = mem s x" if "T path = Some p" "x \<in> frame p" for path p x
  proof (rule m, intro ballI)
    fix q assume "q \<in> D"
    then have "q \<noteq> p" "q < 2 ^ 52" "p < 2 ^ 52"
      using T(5) that(1) pt_repD(2) [OF T(3) that(1)] by (auto simp: used_frame_def ran_def)
    then show "x \<notin> frame q" using frame_disjoint [of q p] that(2) by auto
  qed
  note rep = pt_rep_frames [OF T(3), of "s\<lparr>mem := m\<rparr>"]
  have "pt_rep K (m_pml4 v) (s\<lparr>mem := m\<rparr>) T" by (rule rep(1)) (use tables free in \<open>auto simp: bitmap_bytes_def\<close>)
  moreover have "pte (s\<lparr>mem := m\<rparr>) T = pte s T" by (rule rep(2)) (use tables free in \<open>auto simp: bitmap_bytes_def\<close>)
  ultimately show "dspace K v (s\<lparr>mem := m\<rparr>) M D m" using T free
    by (auto simp: dspace_def used_frame_def bitmap_bytes_def)
  show "n_free (s\<lparr>mem := m\<rparr>) = n_free s" by (simp only: n_free_def free(1))
qed

text \<open>A run of pages taken from the allocator becomes data beside the tables.\<close>

lemma alloc_run_data:
  fixes s :: "'a kmem_scheme"
  assumes as: "dspace K v s M D m0" and run: "0 < n" "free_run s p n" "\<forall>q < p. \<not> free_run s q n"
  obtains s1 :: "'a kmem_scheme" where "pmm_alloc n s = Some (page_addr p, s1)" "dspace K v s1 M (D \<union> {p ..< p + n}) (mem s1)"
    "\<And>q x. q \<in> {p ..< p + n} \<Longrightarrow> x \<in> frame q \<Longrightarrow> mem s1 x = 0"
    "\<And>q x. used_frame s q \<Longrightarrow> x \<in> frame q \<Longrightarrow> mem s1 x = mem s x"
    "n_free s = n_free s1 + n" "\<exists>m. s1 = s\<lparr>mem := m\<rparr>"
proof -
  obtain T where T: "pages_ok s" "vec_ok (page_tables_addr v)" "pt_rep K (m_pml4 v) s T" "pte s T = M"
    "\<forall>q \<in> D. used_frame s q \<and> q \<notin> ran T"
    using as by (auto simp: dspace_def)
  have wf: "pmm_wf s" "pmm_lock s = 0" using T(1) by (simp_all add: pages_ok_def)
  obtain s1 where s1: "pmm_alloc n s = Some (page_addr p, s1)" "pmm_wf s1" "pmm_lock s1 = 0"
    "\<And>j. free_page s1 j \<longleftrightarrow> free_page s j \<and> \<not> (p \<le> j \<and> j < p + n)"
    "\<And>x. x \<in> span (PHYSICAL_BASE_ADDRESS + page_addr p) (n * PAGE_SIZE) \<Longrightarrow> mem s1 x = 0"
    "\<And>x. x \<notin> span (PHYSICAL_BASE_ADDRESS + page_addr p) (n * PAGE_SIZE) \<Longrightarrow> x \<notin> bitmap_bytes s \<Longrightarrow> mem s1 x = mem s x"
    "bitmap s1 = bitmap s" "bitmapSize s1 = bitmapSize s"
    by (rule pmm_alloc_run [OF wf run]) (rule that)
  note pages = free_run_span [OF wf(1) run(2,1)]
  have bb: "bitmap_bytes s1 = bitmap_bytes s" using s1(7,8) by (simp add: bitmap_bytes_def)
  have free: "free_page s q" if "q \<in> {p ..< p + n}" for q using run(2) that by (auto simp: free_run_def)
  have keep: "mem s1 x = mem s x" if u: "used_frame s q" and x: "x \<in> frame q" for q x
  proof (rule s1(6))
    have "x \<notin> frame r" if r: "r \<in> {p ..< p + n}" for r
    proof -
      have "r \<noteq> q" using free [OF r] u by (auto simp: used_frame_def)
      moreover have "r < 2 ^ 52" using pa.free_bound [OF T(1) free [OF r]] by simp
      ultimately show ?thesis using frame_disjoint [of r q] u x by (auto simp: used_frame_def)
    qed
    then show "x \<notin> span (PHYSICAL_BASE_ADDRESS + page_addr p) (n * PAGE_SIZE)" unfolding pages(1) by auto
    show "x \<notin> bitmap_bytes s" using u x by (auto simp: used_frame_def)
  qed
  have ok1: "pages_ok s1" using T(1) s1(2,3,8) by (simp add: pages_ok_def)
  have tables: "mem s1 x = mem s x" if "T path = Some r" "x \<in> frame r" for path r x
    using keep pt_repD(2) [OF T(3) that(1)] that(2) by blast
  note r = pt_rep_frames [OF T(3), of s1]
  have rep: "pt_rep K (m_pml4 v) s1 T" by (rule r(1)) (simp_all add: tables s1(4) bb)
  have ptes: "pte s1 T = pte s T" by (rule r(2)) (simp_all add: tables s1(4) bb)
  have "used_frame s1 q \<and> q \<notin> ran T" if q: "q \<in> {p ..< p + n}" for q
    using pa.free_bound [OF T(1) free [OF q]] pa.free_apart [OF T(1) free [OF q]] s1(4) q bb pt_repD(2) [OF T(3), of _ q] free [OF q]
    by (auto simp: used_frame_def ran_def)
  moreover have "used_frame s1 q \<and> q \<notin> ran T" if "q \<in> D" for q
    using T(5) that s1(4) bb by (auto simp: used_frame_def)
  ultimately have "dspace K v s1 M (D \<union> {p ..< p + n}) (mem s1)"
    unfolding dspace_def using ok1 T(2,4) rep ptes by (intro conjI exI [of _ T]) auto
  moreover have "n_free s = n_free s1 + n"
  proof -
    have "{j. free_page s j} = {j. free_page s1 j} \<union> {p ..< p + n}" "{j. free_page s1 j} \<inter> {p ..< p + n} = {}"
      using s1(4) free by auto
    then show ?thesis unfolding n_free_def using finite_free [of s1] by (simp add: card_Un_disjoint)
  qed
  moreover have "mem s1 x = 0" if "q \<in> {p ..< p + n}" "x \<in> frame q" for q x
    using that by (intro s1(5)) (auto simp: pages(1))
  ultimately show thesis using that s1(1) keep pmm_alloc_frame [OF s1(1)] by blast
qed

section \<open>Bytes of a page\<close>

lemma unat_low_bits: "unat (w AND 4095) = unat w mod 4096" for w :: u64
proof -
  have "w AND 4095 = take_bit 12 w" by (simp add: take_bit_eq_mask mask_eq_exp_minus_1)
  then show ?thesis by (simp add: take_bit_eq_mod unat_mod)
qed

lemma low_bits_add: "(a + of_nat j) AND 4095 = of_nat ((unat (a AND 4095) + j) mod 4096)" for a :: u64
proof -
  have "unat (a + of_nat j) = (unat a + j) mod (4096 * 2 ^ 52)" by (simp add: unat_word_ariths unat_of_nat mod_add_right_eq)
  then have "unat ((a + of_nat j) AND 4095) = (unat a + j) mod 4096" unfolding unat_low_bits by (simp only: mod_mult2_eq) simp
  also have "\<dots> = (unat (a AND 4095) + j) mod 4096" unfolding unat_low_bits by (simp add: mod_add_left_eq)
  finally have "(of_nat (unat ((a + of_nat j) AND 4095)) :: u64) = of_nat ((unat (a AND 4095) + j) mod 4096)" by (rule arg_cong)
  then show ?thesis by simp
qed

lemma leaf_entry:
  assumes "q < 2 ^ 52" "pr = 5 \<or> pr = 7"
  shows "(page_addr q OR pr) AND PAGE_MASK = page_addr q" "bit (page_addr q OR pr) 0" "bit (page_addr q OR pr) 2"
    "bit (page_addr q OR pr) 1 \<longleftrightarrow> pr = 7"
proof -
  have pa: "page_addr q = push_bit 12 (of_nat q)"
    by (simp add: page_addr_def PAGE_SIZE_def push_bit_eq_mult mult.commute)
  have m: "page_addr q AND PAGE_MASK = page_addr q"
    using table_entry(1) [OF assms(1)] by (metis and.assoc and.idem)
  have "pr AND PAGE_MASK = 0" using assms(2) by (auto simp: PAGE_MASK_def)
  then show "(page_addr q OR pr) AND PAGE_MASK = page_addr q" using m by (simp add: bit.conj_disj_distrib2)
  show "bit (page_addr q OR pr) 0" "bit (page_addr q OR pr) 2" "bit (page_addr q OR pr) 1 \<longleftrightarrow> pr = 7"
    using assms(2) unfolding pa by (auto simp: bit_or_iff bit_push_bit_iff)
qed

text \<open>The byte at offset \<open>i\<close> of a run of pages lies in the page \<open>i div 4096\<close> of it.\<close>

lemma run_byte:
  "PHYSICAL_BASE_ADDRESS + page_addr (p + i div 4096) + of_nat (i mod 4096) = PHYSICAL_BASE_ADDRESS + page_addr p + of_nat i"
  "PHYSICAL_BASE_ADDRESS + page_addr p + of_nat i \<in> frame (p + i div 4096)"
proof -
  have "(of_nat i :: u64) = of_nat (i div 4096 * 4096 + i mod 4096)" by simp
  then show e: "PHYSICAL_BASE_ADDRESS + page_addr (p + i div 4096) + of_nat (i mod 4096) = PHYSICAL_BASE_ADDRESS + page_addr p + of_nat i"
    by (simp only: page_addr_def PAGE_SIZE_def of_nat_add of_nat_mult add_mult_distrib) (simp add: algebra_simps)
  have "i mod 4096 < PAGE_SIZE" by (simp add: PAGE_SIZE_def)
  from add_of_nat_in_span [OF this, of "PHYSICAL_BASE_ADDRESS + page_addr (p + i div 4096)"]
  show "PHYSICAL_BASE_ADDRESS + page_addr p + of_nat i \<in> frame (p + i div 4096)" unfolding frame_def e .
qed

text \<open>Bytes that lie in frames the allocator does not give out.\<close>

definition file_in_frames :: "'a kmem_scheme \<Rightarrow> u64 \<Rightarrow> nat \<Rightarrow> bool" where
  "file_in_frames s a n \<longleftrightarrow> (\<forall>j < n. \<exists>q. used_frame s q \<and> a + of_nat j \<in> frame q)"

lemma copy_to_run:
  assumes src: "\<And>j. j < n \<Longrightarrow> m0 (src + of_nat j) = m (src + of_nat j) \<and> src + of_nat j \<notin> span dst n" and n: "n \<le> 2 ^ 64"
  shows "memcpy m dst src n x = (if x \<in> span dst n then m0 (src + (x - dst)) else m x)"
proof -
  have "span dst n \<inter> span src n = {}" using src by (fastforce simp: in_span_iff_offset)
  note c = memcpy_spec [OF this n, of m x]
  show ?thesis
  proof (cases "x \<in> span dst n")
    case True
    then obtain k where "k < n" "x = dst + of_nat k" by (auto simp: in_span_iff_offset)
    then show ?thesis using c True src by simp
  qed (simp add: c)
qed

text \<open>Mapping a run of pages that holds data: what the processor then finds at each address of the range.\<close>

definition sees :: "mem \<Rightarrow> u64 \<Rightarrow> u64 \<Rightarrow> bool \<Rightarrow> u8 \<Rightarrow> bool" where
  "sees m cr3 a writable b \<longleftrightarrow> (\<exists>e. mmu_walk m cr3 (index_of a) = Some e \<and> bit e 2 \<and> (bit e 1 \<longleftrightarrow> writable) \<and>
     m (PHYSICAL_BASE_ADDRESS + (e AND PAGE_MASK) + (a AND 4095)) = b)"

lemma map_range_data:
  assumes d: "dspace K v s M {p ..< p + n} m" and n: "n < 2 ^ 36" and pr: "prot = 5 \<or> prot = 7"
    and mine: "\<forall>k \<le> n. get_pml4e (virt + of_nat (k * PAGE_SIZE)) \<notin> K" and room: "3 * (n + 1) \<le> n_free s"
  obtains v' s' M' where "map_range virt (page_addr p) (of_nat (n * PAGE_SIZE)) prot fl v s = Some (v', s')" "aspace K v' s' M'"
    "\<And>j. unat (virt AND 4095) + j < n * 4096 \<Longrightarrow> sees (mem s') (switch_pagemap v') (virt + of_nat j) (prot = 7)
       (m (PHYSICAL_BASE_ADDRESS + page_addr p + of_nat (unat (virt AND 4095) + j)))"
proof -
  define area where "area = \<lparr>ma_base = virt, ma_limit = of_nat (n * PAGE_SIZE), ma_prot = prot, ma_flags = fl\<rparr>"
  define v1 where "v1 = v\<lparr>m_ranges := vec_push_back (\<lambda>_. area) area (m_ranges v)\<rparr>"
  let ?M = "foldl (\<lambda>M k. M(index_of (virt + of_nat (k * PAGE_SIZE)) :=
       (page_addr p + of_nat (k * PAGE_SIZE)) OR ucast (ucast prot :: u16))) M [0 ..< n + 1]"
  have "n * PAGE_SIZE < 2 ^ 64" using n by (simp add: PAGE_SIZE_def)
  then have len: "unat (of_nat (n * PAGE_SIZE) :: u64) div PAGE_SIZE = n" by (simp only: unat_of_nat64) (simp add: PAGE_SIZE_def)
  have "dspace K v1 s M {p ..< p + n} m" using d by (simp add: dspace_def v1_def)
  from map_range_raw_dspace [OF this, of "of_nat (n * PAGE_SIZE)" virt "page_addr p" prot]
  obtain v' s' where mapped: "map_range_raw virt (page_addr p) (of_nat (n * PAGE_SIZE)) prot v1 s = Some (v', s')"
    "dspace K v' s' ?M {p ..< p + n} m"
    using mine room unfolding len by blast
  have as': "aspace K v' s' ?M" using mapped(2) by (rule dspace_aspace)
  have "sees (mem s') (switch_pagemap v') (virt + of_nat j) (prot = 7) (m (PHYSICAL_BASE_ADDRESS + page_addr p + of_nat (unat (virt AND 4095) + j)))"
    if j: "unat (virt AND 4095) + j < n * 4096" for j
  proof -
    let ?i = "unat (virt AND 4095) + j"
    define k e where "k = ?i div 4096" and "e = page_addr (p + k) OR prot"
    have q: "p + k \<in> {p ..< p + n}" and k: "k < n" using j by (auto simp: k_def div_less_iff_less_mult)
    have ix: "index_of (virt + of_nat j) = index_of (virt + of_nat (k * PAGE_SIZE))"
      by (rule page_at_offset) (simp add: k_def unat_low_bits)
    have inj: "inj_on (\<lambda>k. index_of (virt + of_nat (k * PAGE_SIZE))) {..< n + 1}"
      using n by (intro inj_onI pages_distinct [of virt]) auto
    have "?M (index_of (virt + of_nat (k * PAGE_SIZE))) = (page_addr p + of_nat (k * PAGE_SIZE)) OR ucast (ucast prot :: u16)"
      by (rule foldl_upd_lookup [OF inj]) (use k in simp)
    moreover have "page_addr p + of_nat (k * PAGE_SIZE) = page_addr (p + k)" by (simp add: page_addr_def algebra_simps)
    moreover have "ucast (ucast prot :: u16) = prot" using pr by auto
    ultimately have M: "?M (index_of (virt + of_nat j)) = e" unfolding ix e_def by (simp only:)
    have "p + k < 2 ^ 52" using dspaceD(1) [OF mapped(2) q] by simp
    note leaf = leaf_entry [OF this pr, folded e_def]
    have "get_pml4e (virt + of_nat j) \<notin> K" using mine k ix by (simp add: index_of_def del: of_nat_mult)
    from mmu_walk_aspace [OF as' this] leaf(2)
    have walk: "mmu_walk (mem s') (switch_pagemap v') (index_of (virt + of_nat j)) = Some e" unfolding M by (simp only: if_True)
    have x: "PHYSICAL_BASE_ADDRESS + (e AND PAGE_MASK) + ((virt + of_nat j) AND 4095) = PHYSICAL_BASE_ADDRESS + page_addr p + of_nat ?i"
      unfolding leaf(1) low_bits_add using run_byte(1) [of p ?i] by (simp add: k_def)
    have "PHYSICAL_BASE_ADDRESS + page_addr p + of_nat ?i \<in> frame (p + k)" using run_byte(2) [of p ?i] by (simp only: k_def)
    then have "mem s' (PHYSICAL_BASE_ADDRESS + page_addr p + of_nat ?i) = m (PHYSICAL_BASE_ADDRESS + page_addr p + of_nat ?i)"
      by (rule dspaceD(2) [OF mapped(2) q])
    then show ?thesis unfolding sees_def using walk leaf(3,4) by (intro exI [of _ e] conjI) (simp_all only: x)
  qed
  moreover have "map_range virt (page_addr p) (of_nat (n * PAGE_SIZE)) prot fl v s = Some (v', s')"
    using mapped(1) by (simp add: map_range_def v1_def area_def Let_def)
  ultimately show thesis using that as' by blast
qed

end
