(* ===== verification/Loader_Props.thy ===== *)
theory Loader_Props
  imports Loader Page_Data Vfs_Props
begin

text \<open>
  What the loader achieves: after a segment is loaded, the processor reads at its virtual addresses the bytes of the file,
  and zeros behind them, with the protection the segment asks for.
\<close>

section \<open>One segment\<close>

lemma segment_pages_eq:
  assumes "unat (memsz ph) \<le> 2 ^ 47"
  shows "segment_pages ph = (unat (memsz ph) + unat (vaddr ph AND 4095) + 4095) div 4096" "segment_pages ph < 2 ^ 36"
proof -
  let ?a = "unat (memsz ph) + unat (vaddr ph AND 4095)"
  have al: "unat (vaddr ph AND 4095) < 4096" by (simp add: unat_low_bits)
  have "memsz ph + (vaddr ph AND 4095) + of_nat PAGE_SIZE - 1 = of_nat (?a + 4095)"
    by (simp add: PAGE_SIZE_def)
  moreover have "unat (of_nat (?a + 4095) :: u64) = ?a + 4095" using assms al by (intro unat_of_nat64) simp
  ultimately show "segment_pages ph = (?a + 4095) div 4096"
    by (simp add: segment_pages_def unat_div PAGE_SIZE_def del: of_nat_add)
  then show "segment_pages ph < 2 ^ 36" using assms al by simp
qed

text \<open>Reading part of a file into a fresh run of pages, at some offset of the first one.\<close>

lemma read_into_run:
  fixes s :: "'a kvfs_scheme"
  assumes as: "aspace K v s M" and run: "0 < n" "free_run s p n" "\<forall>q < p. \<not> free_run s q n"
    and fits: "unat al + unat len \<le> n * 4096"
    and nd: "t_nodes s nd = Some node" "t_fs node = Some tmpfs" "unat off + unat len \<le> unat (t_size node)"
    and data: "file_in_frames s (t_data node + off) (unat len)"
  obtains m1 m2 where "pmm_alloc n s = Some (page_addr p, s\<lparr>mem := m1\<rparr>)"
    "vfs_read ret (Tmp_node nd) off len (page_addr p + al + PHYSICAL_BASE_ADDRESS) (s\<lparr>mem := m1\<rparr>) = Some (0, s\<lparr>mem := m2\<rparr>)"
    "dspace K v (s\<lparr>mem := m2\<rparr>) M {p ..< p + n} m2" "n_free s = n_free (s\<lparr>mem := m2\<rparr>) + n"
    "\<And>j. unat al + j < n * 4096 \<Longrightarrow> m2 (PHYSICAL_BASE_ADDRESS + page_addr p + of_nat (unat al + j)) =
       (if j < unat len then mem s (t_data node + off + of_nat j) else 0)"
proof -
  let ?src = "t_data node + off" and ?dst = "PHYSICAL_BASE_ADDRESS + page_addr p + al" and ?f = "unat len"
  obtain s1 where s1: "pmm_alloc n s = Some (page_addr p, s1)" "dspace K v s1 M {p ..< p + n} (mem s1)"
    "\<And>q x. q \<in> {p ..< p + n} \<Longrightarrow> x \<in> frame q \<Longrightarrow> mem s1 x = 0"
    "\<And>q x. used_frame s q \<Longrightarrow> x \<in> frame q \<Longrightarrow> mem s1 x = mem s x"
    "n_free s = n_free s1 + n" "\<exists>m. s1 = s\<lparr>mem := m\<rparr>"
    using alloc_run_data [of K v s M "{}" "\<lambda>_. 0", OF _ run] as aspace_dspace [of K v s M "\<lambda>_. 0"] by (metis Un_empty_left)
  obtain m1 where m1: "s1 = s\<lparr>mem := m1\<rparr>" using s1(6) by blast
  have at: "PHYSICAL_BASE_ADDRESS + page_addr p + of_nat (unat al + j) = ?dst + of_nat j" for j by (simp add: algebra_simps)
  have in_run: "\<exists>q \<in> {p ..< p + n}. ?dst + of_nat j \<in> frame q" if "unat al + j < n * 4096" for j
    using run_byte(2) [of p "unat al + j"] that unfolding at
    by (intro bexI [of _ "p + (unat al + j) div 4096"]) (auto simp: div_less_iff_less_mult)
  have dst_in: "\<exists>q \<in> {p ..< p + n}. x \<in> frame q" if x: "x \<in> span ?dst ?f" for x
    using x in_run fits by (auto simp only: in_span_iff_offset)
  have src: "mem s (?src + of_nat j) = mem s1 (?src + of_nat j) \<and> ?src + of_nat j \<notin> span ?dst ?f" if j: "j < ?f" for j
  proof -
    obtain q where q: "used_frame s q" "?src + of_nat j \<in> frame q" using data j by (auto simp: file_in_frames_def)
    have "?src + of_nat j \<notin> frame r" if r: "r \<in> {p ..< p + n}" for r
    proof -
      have "r \<noteq> q" "r < 2 ^ 52" "q < 2 ^ 52" using dspaceD(1) [OF s1(2) r] run(2) r q(1) by (auto simp: used_frame_def free_run_def)
      then show ?thesis using frame_disjoint [of r q] q(2) by auto
    qed
    then have "?src + of_nat j \<notin> span ?dst ?f" using dst_in by blast
    then show ?thesis using s1(4) [OF q] by simp
  qed
  define m2 where "m2 = memcpy (mem s1) ?dst ?src ?f"
  have m2: "m2 x = (if x \<in> span ?dst ?f then mem s (?src + (x - ?dst)) else mem s1 x)" for x
    unfolding m2_def by (rule copy_to_run [OF src less_imp_le [OF unat_u64_less]])
  have m2_out: "m2 x = mem s1 x" if "\<forall>q \<in> {p ..< p + n}. x \<notin> frame q" for x using dst_in [of x] that m2 [of x] by auto
  note d2 = dspace_store [OF s1(2) m2_out, unfolded m1, simplified]
  have "m2 (?dst + of_nat j) = (if j < ?f then mem s (?src + of_nat j) else 0)" if j: "unat al + j < n * 4096" for j
  proof -
    have "n * 4096 \<le> 2 ^ 64" using free_run_span(2) [of s p n] run as by (simp add: aspace_def pages_ok_def PAGE_SIZE_def)
    then have "unat (of_nat j :: u64) = j" using j by (intro unat_of_nat64) simp
    moreover have "mem s1 (?dst + of_nat j) = 0" using in_run [OF j] s1(3) by blast
    ultimately show ?thesis using m2 [of "?dst + of_nat j"] by (simp add: in_span)
  qed
  moreover have "vfs_read ret (Tmp_node nd) off len (page_addr p + al + PHYSICAL_BASE_ADDRESS) (s\<lparr>mem := m1\<rparr>) = Some (0, s\<lparr>mem := m2\<rparr>)"
  proof -
    have "unat (off + len) = unat off + ?f"
      using nd(3) unat_u64_less [of "t_size node"] by (intro unat_add_lem [THEN iffD1]) simp
    then have "off + len \<le> t_size node" using nd(3) by (simp add: word_le_nat_alt)
    moreover have "page_addr p + al + PHYSICAL_BASE_ADDRESS = ?dst" by (simp add: algebra_simps)
    ultimately show ?thesis using nd(1,2) unfolding m2_def
      by (simp only:) (simp add: vfs_read_def tmpfs_read_def m1 linorder_not_less)
  qed
  ultimately show thesis using that [of m1 m2] s1(1,5) d2 unfolding m1 at by simp
qed

lemma segment_loaded:
  assumes as: "aspace K v s M" and fits: "0 < unat (memsz ph)" "unat (memsz ph) \<le> 2 ^ 47" "unat (filesz ph) \<le> unat (memsz ph)"
    and run: "free_run s p (segment_pages ph)" "\<forall>q < p. \<not> free_run s q (segment_pages ph)" "0 < p"
    and room: "4 * segment_pages ph + 3 \<le> n_free s"
    and mine: "\<forall>k \<le> segment_pages ph. get_pml4e (vaddr ph + of_nat (k * PAGE_SIZE)) \<notin> K"
    and nd: "t_nodes s nd = Some node" "t_fs node = Some tmpfs" "unat (ph_offset ph) + unat (filesz ph) \<le> unat (t_size node)"
    and data: "file_in_frames s (t_data node + ph_offset ph) (unat (filesz ph))"
  shows "\<exists>v' s' M'. load_segment ret (Tmp_node nd) ph v s = Some (True, v', s') \<and> aspace K v' s' M' \<and>
    (\<forall>j < unat (memsz ph). sees (mem s') (switch_pagemap v') (vaddr ph + of_nat j) (ph_flags ph AND PT_WRITE \<noteq> 0)
       (if j < unat (filesz ph) then mem s (t_data node + ph_offset ph + of_nat j) else 0))"
proof -
  let ?n = "segment_pages ph" and ?al = "vaddr ph AND 4095"
  let ?prot = "if ph_flags ph AND PT_WRITE \<noteq> 0 then 7 else 5 :: u64"
  note n = segment_pages_eq [OF fits(2)]
  have n0: "0 < ?n" using fits(1) n(1) by simp
  have inside: "unat ?al + j < ?n * 4096" if "j < unat (memsz ph)" for j 
    using that DIV_CEIL_mult_ge [of 4096 "unat (memsz ph) + unat ?al"] by (simp add: n(1) DIV_CEIL_def)
  have len: "unat ?al + unat (filesz ph) \<le> ?n * 4096" using inside [of "unat (memsz ph) - 1"] fits(1,3) by simp
  obtain m1 m2 where rd: "pmm_alloc ?n s = Some (page_addr p, s\<lparr>mem := m1\<rparr>)"
    "vfs_read ret (Tmp_node nd) (ph_offset ph) (filesz ph) (page_addr p + ?al + PHYSICAL_BASE_ADDRESS) (s\<lparr>mem := m1\<rparr>) = Some (0, s\<lparr>mem := m2\<rparr>)"
    "dspace K v (s\<lparr>mem := m2\<rparr>) M {p ..< p + ?n} m2" "n_free s = n_free (s\<lparr>mem := m2\<rparr>) + ?n"
    "\<And>j. unat ?al + j < ?n * 4096 \<Longrightarrow> m2 (PHYSICAL_BASE_ADDRESS + page_addr p + of_nat (unat ?al + j)) =
       (if j < unat (filesz ph) then mem s (t_data node + ph_offset ph + of_nat j) else 0)"
    by (rule read_into_run [OF as n0 run(1,2) len nd data]) (rule that)
  have room2: "3 * (?n + 1) \<le> n_free (s\<lparr>mem := m2\<rparr>)" using rd(4) room by simp
  have pr: "?prot = 5 \<or> ?prot = 7" by simp
  obtain v' s' M' where mp: "map_range (vaddr ph) (page_addr p) (of_nat (?n * PAGE_SIZE)) ?prot 0 v (s\<lparr>mem := m2\<rparr>) = Some (v', s')" "aspace K v' s' M'"
    "\<And>j. unat ?al + j < ?n * 4096 \<Longrightarrow> sees (mem s') (switch_pagemap v') (vaddr ph + of_nat j) (?prot = 7)
       (m2 (PHYSICAL_BASE_ADDRESS + page_addr p + of_nat (unat ?al + j)))"
    by (rule map_range_data [OF rd(3) n(2) pr mine room2, where fl = 0]) (rule that)
  have "page_addr p \<noteq> 0"
    using page_addr_inj [of p 0] run(3) dspaceD(1) [OF rd(3), of p] n0 by (auto simp: page_addr_def)
  then have "load_segment ret (Tmp_node nd) ph v s = Some (True, v', s')"
    using rd(1,2) mp(1) by (simp add: load_segment_def Let_def del: of_nat_mult)
  moreover have "sees (mem s') (switch_pagemap v') (vaddr ph + of_nat j) (ph_flags ph AND PT_WRITE \<noteq> 0)
       (if j < unat (filesz ph) then mem s (t_data node + ph_offset ph + of_nat j) else 0)" if "j < unat (memsz ph)" for j
    using mp(3) [OF inside [OF that]] unfolding rd(5) [OF inside [OF that]] by (simp split: if_splits)
  ultimately show ?thesis using mp(2) by blast
qed

section \<open>Results\<close>


text \<open>A machine with seven free pages, an empty page map in frame 100 and a file with one byte in frame 101.\<close>

definition loader_sample :: kvfs where
  "loader_sample = vfs_sample\<lparr>mem := (\<lambda>_. 0)(bitmap pmm_sample := 0x80, PHYSICAL_BASE_ADDRESS + page_addr 101 := 0x90),
     t_nodes := [2 \<mapsto> (new_fs_node [102, 0] 4096 0 File None (Some tmpfs))\<lparr>t_data := PHYSICAL_BASE_ADDRESS + page_addr 101\<rparr>]\<rparr>"

definition segment_sample :: program_header where
  "segment_sample = \<lparr>ph_type = P_LOAD, ph_flags = PT_WRITE, ph_offset = 0, vaddr = 0x400000, filesz = 1, memsz = 16\<rparr>"

lemma loader_sample_fields: "bitmap loader_sample = PHYSICAL_BASE_ADDRESS + 0x100000" "bitmapSize loader_sample = 1" "pmm_lock loader_sample = 0"
  "mem loader_sample = (\<lambda>_. 0)(PHYSICAL_BASE_ADDRESS + 0x100000 := 0x80, PHYSICAL_BASE_ADDRESS + 0x65000 := 0x90)"
  by (simp_all add: loader_sample_def vfs_sample_def tmpfs_sample_def pmm_sample_def ktmpfs.defs page_addr_def PAGE_SIZE_def)

lemma loader_sample_free: "free_page loader_sample i \<longleftrightarrow> 0 < i \<and> i < 8"
proof -
  have "bit (0x80 :: u8) (7 - i) \<longleftrightarrow> i = 0" if "i < 8" for i using that by (auto simp: less_Suc_eq numeral_eq_Suc)
  then show ?thesis by (cases "i < 8") (auto simp: free_page_def is_bit_set_iff loader_sample_fields PHYSICAL_BASE_ADDRESS_def)
qed

lemma loader_sample_frame: "i < 256 \<Longrightarrow> frame i \<inter> bitmap_bytes loader_sample = {}"
proof -
  assume "i < 256"
  then have "span (PHYSICAL_BASE_ADDRESS + of_nat (i * 4096)) 4096 \<inter> span (PHYSICAL_BASE_ADDRESS + of_nat 0x100000) 1 = {}"
    by (intro span_offset_disjoint) simp_all
  then show ?thesis by (simp add: frame_def page_addr_def PAGE_SIZE_def bitmap_bytes_def loader_sample_fields)
qed

lemma loader_sample_space: "aspace kernel_slots kernel_sample loader_sample (\<lambda>_. 0)"
proof -
  have uf: "used_frame loader_sample 100" using loader_sample_frame [of 100] by (simp add: used_frame_def loader_sample_free)
  have "read64 (mem loader_sample) (tbl_cell (tbl_at 100) i) = 0" if "i < 512" for i
  proof (rule read64_zeros)
    fix x assume "x \<in> span (tbl_cell (tbl_at 100) i) 8"
    then have x: "x \<in> frame 100" using tbl_cell_frame [OF that, of 100] by auto
    then show "mem loader_sample x = 0"
      by (auto simp: loader_sample_fields frame_def page_addr_def PAGE_SIZE_def span_def)
  qed
  moreover have "pages_ok loader_sample"
    using loader_sample_frame by (auto simp: pages_ok_def pmm_wf_def loader_sample_free) (simp_all add: loader_sample_fields)
  ultimately show ?thesis using single_table_rep [OF uf, of kernel_slots] unfolding aspace_def
    by (intro conjI exI [of _ "[[] \<mapsto> 100]"]) (simp_all add: kernel_sample_def)
qed


text \<open>The second and third letters of the magic number are not looked at.\<close>

theorem magic_not_checked:
  "length (ident h) = 16 \<Longrightarrow> header_bad at m (h\<lparr>ident := (ident h)[2 := a, 3 := b]\<rparr>) = header_bad at m h"
  by (simp add: header_bad_def)

end

