(* ===== verification/Duplicate.thy ===== *)
theory Duplicate
  imports Page_Data
begin

text \<open>
  \<open>vmm::duplicate\<close>, the copy of the address space that \<open>fork\<close> makes: the child sees at every address of the parent's
  areas the bytes the parent had there, in pages of its own.
\<close>

section \<open>The loops as one sequence of page copies\<close>

definition copy_one :: "(mem \<Rightarrow> u64 \<Rightarrow> u64) \<Rightarrow> u64 \<times> u64 \<Rightarrow> vmm \<times> 'a kmem_scheme \<Rightarrow> (vmm \<times> 'a kmem_scheme) option" where
  "copy_one cpu = (\<lambda>(a, prot) (v, s). do {
     (addr, s) \<leftarrow> pmm_alloc 1 s;
     map_page a addr (ucast prot) v (s\<lparr>mem := memcpy8 (mem s) (addr + PHYSICAL_BASE_ADDRESS) (cpu (mem s) a) PAGE_SIZE\<rparr>)
   })"

definition copy_list :: "(mem \<Rightarrow> u64 \<Rightarrow> u64) \<Rightarrow> (u64 \<times> u64) list \<Rightarrow> vmm \<times> 'a kmem_scheme \<Rightarrow> (vmm \<times> 'a kmem_scheme) option" where
  "copy_list cpu ps vs = foldl (\<lambda>r p. Option.bind r (copy_one cpu p)) (Some vs) ps"

definition area_pages :: "MemArea \<Rightarrow> (u64 \<times> u64) list" where
  "area_pages area = map (\<lambda>t. ((ma_base area AND PAGE_MASK) + of_nat (t * PAGE_SIZE), ma_prot area))
     [0 ..< DIV_CEIL (unat (ma_limit area)) PAGE_SIZE]"

lemma copy_list_Nil [simp]: "copy_list cpu [] vs = Some vs"
  by (simp add: copy_list_def)

lemma copy_list_append: "copy_list cpu (ps @ qs) vs = Option.bind (copy_list cpu ps vs) (copy_list cpu qs)"
  by (cases "copy_list cpu ps vs") (simp_all add: copy_list_def foldl_bind_None)

lemma copy_list_snoc: "copy_list cpu (ps @ [p]) vs = Option.bind (copy_list cpu ps vs) (copy_one cpu p)"
  by (simp add: copy_list_def)

lemma copy_pages_list:
  "copy_pages cpu base prot n v s = copy_list cpu (map (\<lambda>t. (base + of_nat (t * PAGE_SIZE), prot)) [0 ..< n]) (v, s)"
  by (induction n) (simp_all add: copy_list_snoc copy_one_def Let_def case_prod_beta' cong: Option.bind_cong)

lemma copy_ranges_list: "copy_ranges cpu rs v s = copy_list cpu (concat (map area_pages rs)) (v, s)"
proof (induction rs arbitrary: v s)
  case (Cons a rs)
  then show ?case by (simp add: copy_list_append copy_pages_list area_pages_def case_prod_beta')
qed simp

section \<open>One page\<close>

text \<open>\<open>cpu\<close> finds page \<open>a\<close> in frame \<open>f\<close> as long as the frames \<open>D\<close> hold \<open>m0\<close>: the tables it walks are among them.\<close>

definition finds :: "(mem \<Rightarrow> u64 \<Rightarrow> u64) \<Rightarrow> nat set \<Rightarrow> mem \<Rightarrow> u64 \<Rightarrow> nat \<Rightarrow> bool" where
  "finds cpu D m0 a f \<longleftrightarrow> f \<in> D \<and> (\<forall>m. (\<forall>q \<in> D. \<forall>x \<in> frame q. m x = m0 x) \<longrightarrow> cpu m a = tbl_at f)"

lemma copy_page_spec:
  assumes "p \<noteq> f" "p < 2 ^ 52" "f < 2 ^ 52"
  shows "memcpy8 m (tbl_at p) (tbl_at f) PAGE_SIZE x = (if x \<in> frame p then m (tbl_at f + (x - tbl_at p)) else m x)"
proof -
  have "frame p \<inter> frame f = {}" using frame_disjoint [OF assms] .
  then have "span (tbl_at p) (8 * 512) \<inter> span (tbl_at f) (8 * 512) = {}" by (simp add: frame_def PAGE_SIZE_def)
  from memcpy8_loop_spec [OF this] show ?thesis by (simp add: memcpy8_def frame_def PAGE_SIZE_def)
qed

lemma copy_one_data:
  assumes d: "dspace K v s M D m0" and room: "4 \<le> n_free s" and mine: "get_pml4e a \<notin> K"
    and cpu: "finds cpu D0 m0 a f" "D0 \<subseteq> D"
  obtains p m2 v' s' where "copy_one cpu (a, pr) (v, s) = Some (v', s')" "p \<notin> D"
    "dspace K v' s' (M(index_of a := page_addr p OR ucast (ucast pr :: u16))) (insert p D) m2"
    "\<And>q x. q \<in> D \<Longrightarrow> x \<in> frame q \<Longrightarrow> m2 x = m0 x"
    "\<And>i. i < 4096 \<Longrightarrow> m2 (tbl_at p + of_nat i) = m0 (tbl_at f + of_nat i)" "n_free s \<le> n_free s' + 4"
proof -
  have run: "free_run s q 1 \<longleftrightarrow> free_page s q" for q by (auto simp: free_run_def) (metis Suc_leI le_antisym less_Suc_eq_le)
  have "\<exists>q. free_run s q 1" unfolding run using n_free_pos [of s] room by simp
  then obtain p where p: "free_run s p 1" "\<forall>q < p. \<not> free_run s q 1"
    using exists_least_iff [of "\<lambda>p. free_run s p 1"] by blast
  have used: "used_frame s q" "\<And>x. x \<in> frame q \<Longrightarrow> mem s x = m0 x" if "q \<in> D" for q
    using d that by (auto simp only: dspace_def)
  have free: "free_page s p" using p(1) by (auto simp: free_run_def)
  then have pD: "p \<notin> D" using used(1) by (auto simp: used_frame_def)
  obtain s1 where s1: "pmm_alloc 1 s = Some (page_addr p, s1)" "dspace K v s1 M (D \<union> {p ..< p + 1}) (mem s1)"
    "\<And>q x. used_frame s q \<Longrightarrow> x \<in> frame q \<Longrightarrow> mem s1 x = mem s x" "n_free s = n_free s1 + 1"
    by (rule alloc_run_data [OF d zero_less_one p]) (rule that)
  have at: "mem s1 x = m0 x" if "q \<in> D" "x \<in> frame q" for q x using s1(3) [OF used(1)] used(2) that by metis
  have fD: "f \<in> D" using cpu by (auto simp: finds_def)
  have src: "cpu (mem s1) a = tbl_at f" using cpu at unfolding finds_def by (meson subsetD)
  have pf: "p \<noteq> f" "p < 2 ^ 52" "f < 2 ^ 52"
    using pD fD dspaceD(1) [OF s1(2), of p] dspaceD(1) [OF s1(2), of f] by auto
  define m2 where "m2 = memcpy8 (mem s1) (tbl_at p) (tbl_at f) PAGE_SIZE"
  note m2 = copy_page_spec [OF pf, of "mem s1", folded m2_def]
  have "m2 x = mem s1 x" if "\<forall>q \<in> D \<union> {p ..< p + 1}. x \<notin> frame q" for x using that by (simp add: m2)
  note st = dspace_store [OF s1(2) this]
  have "D \<union> {p ..< p + 1} = insert p D" by auto
  then have d2: "dspace K v (s1\<lparr>mem := m2\<rparr>) M (insert p D) m2" "3 \<le> n_free (s1\<lparr>mem := m2\<rparr>)"
    using st s1(4) room by simp_all
  obtain v' s' where mp: "map_page a (page_addr p) (ucast pr) v (s1\<lparr>mem := m2\<rparr>) = Some (v', s')"
    "dspace K v' s' (M(index_of a := page_addr p OR ucast (ucast pr :: u16))) (insert p D) m2" "n_free (s1\<lparr>mem := m2\<rparr>) \<le> n_free s' + 3"
    using map_page_dspace [OF d2(1) mine d2(2)] by blast
  have "copy_one cpu (a, pr) (v, s) = Some (v', s')"
    using s1(1) mp(1) src by (simp add: copy_one_def m2_def add.commute)
  moreover have "m2 x = m0 x" if "q \<in> D" "x \<in> frame q" for q x
    using at [OF that] frame_disjoint [of p q] pD that dspaceD(1) [OF s1(2), of q] pf(2) by (auto simp: m2)
  moreover have "m2 (tbl_at p + of_nat i) = m0 (tbl_at f + of_nat i)" if "i < 4096" for i
    using at [OF fD] add_of_nat_in_span [of i PAGE_SIZE] that by (simp add: m2 frame_def PAGE_SIZE_def)
  moreover have "n_free s \<le> n_free s' + 4" using mp(3) s1(4) st(2) by simp
  ultimately show thesis using that [of v' s' p m2] mp(2) pD by blast
qed

section \<open>All pages\<close>

definition holds_copy :: "(page_index \<Rightarrow> u64) \<Rightarrow> nat set \<Rightarrow> nat set \<Rightarrow> mem \<Rightarrow> mem \<Rightarrow> (u64 \<Rightarrow> nat) \<Rightarrow> u64 \<times> u64 \<Rightarrow> bool" where
  "holds_copy M D D' m m0 f = (\<lambda>(a, pr). \<exists>q \<in> D'. q \<notin> D \<and> M (index_of a) = page_addr q OR ucast (ucast pr :: u16) \<and>
     (\<forall>i < 4096. m (tbl_at q + of_nat i) = m0 (tbl_at (f a) + of_nat i)))"

lemma copy_list_Cons: "copy_list cpu (p # ps) vs = Option.bind (copy_one cpu p vs) (copy_list cpu ps)"
  using copy_list_append [of cpu "[p]" ps vs] by (simp add: copy_list_def)

lemma finds_cong: "(\<And>q x. q \<in> D \<Longrightarrow> x \<in> frame q \<Longrightarrow> m x = m0 x) \<Longrightarrow> finds cpu D m a f = finds cpu D m0 a f"
  by (simp add: finds_def)

lemma page_byte: "i < 4096 \<Longrightarrow> tbl_at q + of_nat i \<in> frame q"
  using add_of_nat_in_span [of i PAGE_SIZE "tbl_at q"] by (simp add: frame_def PAGE_SIZE_def)

lemma copy_list_data:
  assumes "dspace K v s M D m" "\<forall>q \<in> D0. \<forall>x \<in> frame q. m x = m0 x" "D0 \<subseteq> D"
    and "\<forall>(a, pr) \<in> set ps. get_pml4e a \<notin> K \<and> finds cpu D0 m0 a (f a)" "distinct (map (\<lambda>p. index_of (fst p)) ps)" "4 * length ps \<le> n_free s"
  shows "\<exists>v' s' M' D' m'. copy_list cpu ps (v, s) = Some (v', s') \<and> dspace K v' s' M' D' m' \<and> D \<subseteq> D' \<and>
    (\<forall>q \<in> D. \<forall>x \<in> frame q. m' x = m x) \<and> (\<forall>p \<in> set ps. holds_copy M' D D' m' m0 f p) \<and>
    (\<forall>ix. ix \<notin> (\<lambda>p. index_of (fst p)) ` set ps \<longrightarrow> M' ix = M ix)"
  using assms
proof (induction ps arbitrary: v s M D m)
  case Nil
  then show ?case by (intro exI [of _ v] exI [of _ s] exI [of _ M] exI [of _ D] exI [of _ m]) simp
next
  case (Cons ap ps)
  obtain a pr where ap: "ap = (a, pr)" by fastforce
  have room: "4 \<le> n_free s" and mine: "get_pml4e a \<notin> K" and fd: "finds cpu D0 m a (f a)"
    using Cons.prems(2,4,6) finds_cong [of D0 m m0 cpu a "f a"] by (auto simp: ap)
  have fa: "f a \<in> D0" using fd by (simp add: finds_def)
  obtain p m2 v1 s1 where one: "copy_one cpu (a, pr) (v, s) = Some (v1, s1)" "p \<notin> D"
    "dspace K v1 s1 (M(index_of a := page_addr p OR ucast (ucast pr :: u16))) (insert p D) m2"
    "\<And>q x. q \<in> D \<Longrightarrow> x \<in> frame q \<Longrightarrow> m2 x = m x"
    "\<And>i. i < 4096 \<Longrightarrow> m2 (tbl_at p + of_nat i) = m (tbl_at (f a) + of_nat i)" "n_free s \<le> n_free s1 + 4"
    by (rule copy_one_data [OF Cons.prems(1) room mine fd Cons.prems(3), where pr = pr]) (rule that)
  have agree: "\<forall>q \<in> D0. \<forall>x \<in> frame q. m2 x = m0 x" using one(4) Cons.prems(2,3) by (metis subsetD)
  have pre: "\<forall>(a, pr) \<in> set ps. get_pml4e a \<notin> K \<and> finds cpu D0 m0 a (f a)" "distinct (map (\<lambda>p. index_of (fst p)) ps)"
    "4 * length ps \<le> n_free s1" using Cons.prems(4-6) one(6) by auto
  have sub: "D0 \<subseteq> insert p D" using Cons.prems(3) by blast
  obtain v' s' M' D' m' where rest: "copy_list cpu ps (v1, s1) = Some (v', s')" "dspace K v' s' M' D' m'" "insert p D \<subseteq> D'"
    "\<forall>q \<in> insert p D. \<forall>x \<in> frame q. m' x = m2 x" "\<forall>p' \<in> set ps. holds_copy M' (insert p D) D' m' m0 f p'"
    "\<forall>ix. ix \<notin> (\<lambda>p. index_of (fst p)) ` set ps \<longrightarrow> M' ix = (M(index_of a := page_addr p OR ucast (ucast pr :: u16))) ix"
    using Cons.IH [OF one(3) agree sub pre] by blast
  have "index_of a \<notin> (\<lambda>p. index_of (fst p)) ` set ps" using Cons.prems(5) by (simp add: ap)
  then have Ma: "M' (index_of a) = page_addr p OR ucast (ucast pr :: u16)" using rest(6) [rule_format, of "index_of a"] by simp
  have "m' (tbl_at p + of_nat i) = m0 (tbl_at (f a) + of_nat i)" if "i < 4096" for i
    using rest(4) page_byte [OF that, of p] one(5) [OF that] Cons.prems(2) fa page_byte [OF that, of "f a"] by simp
  then have "holds_copy M' D D' m' m0 f (a, pr)" using Ma one(2) rest(3) by (auto simp: holds_copy_def)
  moreover have "holds_copy M' D D' m' m0 f p'" if "p' \<in> set ps" for p'
    using rest(5) that by (auto simp: holds_copy_def)
  moreover have "copy_list cpu (ap # ps) (v, s) = Some (v', s')" using one(1) rest(1) by (simp add: copy_list_Cons ap)
  moreover have "m' x = m x" if "q \<in> D" "x \<in> frame q" for q x using rest(4) one(4) that by auto
  moreover have "M' ix = M ix" if "ix \<notin> (\<lambda>p. index_of (fst p)) ` set (ap # ps)" for ix using rest(6) [rule_format, of ix] that by (simp add: ap)
  ultimately show ?case using rest(2,3)
    by (intro exI [of _ v'] exI [of _ s'] exI [of _ M'] exI [of _ D'] exI [of _ m']) (auto simp: ap)
qed

section \<open>The copy\<close>

text \<open>A frame of data mapped by the entry of its page, as the processor sees it.\<close>

lemma sees_page:
  assumes as: "dspace K v s M D m" and q: "q \<in> D" "M (index_of a) = page_addr q OR pr" and pr: "pr = 5 \<or> pr = 7"
    and mine: "get_pml4e a \<notin> K" and a: "unat a mod 4096 = 0" and i: "i < 4096"
  shows "sees (mem s) (switch_pagemap v) (a + of_nat i) (pr = 7) (m (tbl_at q + of_nat i))"
proof -
  have "q < 2 ^ 52" using dspaceD(1) [OF as q(1)] by simp
  note leaf = leaf_entry [OF this pr]
  have ix: "index_of (a + of_nat i) = index_of a" using page_at_offset [of 0 a i] a i by simp
  have mine': "get_pml4e (a + of_nat i) \<notin> K" using mine ix by (simp add: index_of_def)
  from mmu_walk_aspace [OF dspace_aspace [OF as] this] leaf(2)
  have walk: "mmu_walk (mem s) (switch_pagemap v) (index_of (a + of_nat i)) = Some (page_addr q OR pr)" unfolding ix q(2) by simp
  have "(a + of_nat i) AND 4095 = of_nat i" unfolding low_bits_add unat_low_bits using a i by simp
  moreover have "mem s (tbl_at q + of_nat i) = m (tbl_at q + of_nat i)" by (rule dspaceD(2) [OF as q(1) page_byte [OF i]])
  ultimately show ?thesis unfolding sees_def using walk leaf(3,4)
    by (intro exI [of _ "page_addr q OR pr"] conjI) (simp_all only: leaf(1))
qed

lemma duplicate_copies:
  assumes ok: "pages_ok s" and kernel: "m_pml4 k = tbl_at kp" "used_frame s kp" and D: "\<forall>q \<in> D. used_frame s q"
    and pages: "\<forall>(a, pr) \<in> set ps. unat a mod 4096 = 0 \<and> (pr = 5 \<or> pr = 7) \<and> get_pml4e a \<notin> kernel_slots \<and> finds cpu D (mem s) a (f a)"
    and apart: "distinct (map (\<lambda>p. index_of (fst p)) ps)" and room: "4 * length ps + 1 \<le> n_free s"
    and areas: "ps = concat (map area_pages (m_data (m_ranges v)))"
  shows "\<exists>v' s'. duplicate cpu k v s = Some (v', s') \<and> (\<forall>q \<in> D. \<forall>x \<in> frame q. mem s' x = mem s x) \<and>
    (\<forall>(a, pr) \<in> set ps. \<forall>i < 4096. sees (mem s') (switch_pagemap v') (a + of_nat i) (pr = 7) (mem s (tbl_at (f a) + of_nat i)))"
proof -
  obtain q where "free_page s q" using n_free_pos [of s] room by auto
  from vmm_new_dspace [OF ok this kernel D]
  obtain v1 s1 where new: "vmm_new k s = Some (v1, s1)" "dspace kernel_slots v1 s1 (\<lambda>_. 0) D (mem s)" "n_free s = Suc (n_free s1)" by blast
  have pre: "\<forall>q \<in> D. \<forall>x \<in> frame q. mem s x = mem s x" "D \<subseteq> D"
    "\<forall>(a, pr) \<in> set ps. get_pml4e a \<notin> kernel_slots \<and> finds cpu D (mem s) a (f a)" "4 * length ps \<le> n_free s1"
    using pages room new(3) by auto
  obtain v' s' M' D' m' where c: "copy_list cpu ps (v1, s1) = Some (v', s')" "dspace kernel_slots v' s' M' D' m'" "D \<subseteq> D'"
    "\<forall>q \<in> D. \<forall>x \<in> frame q. m' x = mem s x" "\<forall>p \<in> set ps. holds_copy M' D D' m' (mem s) f p"
    using copy_list_data [OF new(2) pre(1-3) apart pre(4)] by blast
  have "duplicate cpu k v s = Some (v', s')" using new(1) c(1) by (simp add: duplicate_def copy_ranges_list areas)
  moreover have "mem s' x = mem s x" if "q \<in> D" "x \<in> frame q" for q x
    using dspaceD(2) [OF c(2), of q x] c(3,4) that by auto
  moreover have "sees (mem s') (switch_pagemap v') (a + of_nat i) (pr = 7) (mem s (tbl_at (f a) + of_nat i))"
    if ap: "(a, pr) \<in> set ps" and i: "i < 4096" for a pr i
  proof -
    have p: "unat a mod 4096 = 0" "pr = 5 \<or> pr = 7" "get_pml4e a \<notin> kernel_slots" using pages ap by auto
    obtain q where q: "q \<in> D'" "M' (index_of a) = page_addr q OR ucast (ucast pr :: u16)"
      "\<forall>i < 4096. m' (tbl_at q + of_nat i) = mem s (tbl_at (f a) + of_nat i)"
      using c(5) ap by (auto simp: holds_copy_def)
    have "ucast (ucast pr :: u16) = pr" using p(2) by auto
    then show ?thesis using sees_page [OF c(2) q(1) _ p(2,3,1) i] q(2,3) i by simp
  qed
  ultimately show ?thesis by blast
qed


text \<open>A parent with one page, in frame 101.\<close>

definition parent_sample :: vmm where
  "parent_sample = kernel_sample\<lparr>m_ranges :=
     \<lparr>m_data = [\<lparr>ma_base = 0x400000, ma_limit = 16, ma_prot = 7, ma_flags = 0\<rparr>], m_capacity = 1, m_isEmpty = False\<rparr>\<rparr>"

lemma sample_frame: "i \<in> {100, 101} \<Longrightarrow> used_frame pmm_sample i"
proof -
  assume i: "i \<in> {100, 101 :: nat}"
  have "span (PHYSICAL_BASE_ADDRESS + of_nat (i * 4096)) 4096 \<inter> span (PHYSICAL_BASE_ADDRESS + of_nat 0x100000) 1 = {}"
    using i by (intro span_offset_disjoint) auto
  then have "frame i \<inter> bitmap_bytes pmm_sample = {}"
    by (simp add: frame_def page_addr_def PAGE_SIZE_def bitmap_bytes_def pmm_sample_def)
  then show ?thesis using i by (auto simp only: used_frame_def pmm_sample_free) simp_all
qed


end
