(* ===== verification/Keyboard.thy ===== *)
theory Keyboard
  imports Video
begin

text \<open>
  \<^verbatim>\<open>kernel/drivers/keyboard.cpp\<close>: the interrupt handler of the keyboard. The scan code is what the handler reads from
  port 0x60; acknowledging the interrupt has no effect on the state. Reading outside a table has no result.
\<close>

section \<open>Tables and state\<close>

record kkeyboard = kscreen +
  shift :: bool
  caps :: bool

definition MAX_SCANCODE :: u8 where "MAX_SCANCODE = 0x59"

definition LSHIFT :: u8 where "LSHIFT = 0x2A"
definition RSHIFT :: u8 where "RSHIFT = 0x36"
definition CAPS :: u8 where "CAPS = 0x3A"

definition scNormal :: "u8 list" where
  "scNormal = [0, 0] @ ascii ''1234567890-='' @ [0, 0] @ ascii ''qwertyuiop[]'' @ [0, 0] @ ascii ''asdfghjkl;'' @ [0x27] @
     ascii ''`'' @ [0, 0x5C] @ ascii ''zxcvbnm,./'' @ [0, 0, 0] @ ascii '' ''"

definition scCaps :: "u8 list" where
  "scCaps = [0, 0] @ ascii ''1234567890-='' @ [0, 0] @ ascii ''QWERTYUIOP[]'' @ [0, 0] @ ascii ''ASDFGHJKL;'' @ [0x27] @
     ascii ''`'' @ [0, 0x5C] @ ascii ''ZXCVBNM,./'' @ [0, 0, 0] @ ascii '' ''"

definition scShift :: "u8 list" where
  "scShift = [0, 0] @ ascii ''!@#$%^&*()_+'' @ [0, 0] @ ascii ''QWERTYUIOP{}'' @ [0, 0] @ ascii ''ASDFGHJKL:'' @ [0x22] @
     ascii ''~'' @ [0] @ ascii ''|ZXCVBNM<>?''"

definition scShiftCaps :: "u8 list" where
  "scShiftCaps = [0, 0] @ ascii ''!@#$%^&*()_+'' @ [0, 0] @ ascii ''qwertyuiop{}'' @ [0, 0] @ ascii ''asdfghjkl:'' @ [0x22] @
     ascii ''~'' @ [0] @ ascii ''|zxcvbnm<>?''"

section \<open>The handler\<close>

definition isr_keyboard :: "(u64 \<Rightarrow> u8) \<Rightarrow> u8 \<Rightarrow> 'a kkeyboard_scheme \<Rightarrow> 'a kkeyboard_scheme option" where
  "isr_keyboard font key s =
     (if key \<ge> MAX_SCANCODE then
        (let releasedKey = key - 0x80 in
         Some (if releasedKey = LSHIFT \<or> releasedKey = RSHIFT then s\<lparr>shift := False\<rparr> else s))
      else if key = LSHIFT \<or> key = RSHIFT then Some (s\<lparr>shift := True\<rparr>)
      else if key = CAPS then Some (s\<lparr>caps := \<not> caps s\<rparr>)
      else do {
        let table = (if shift s \<and> caps s then scShiftCaps else if shift s then scShift else if caps s then scCaps else scNormal);
        buffer \<leftarrow> (if unat key < length table then Some (table ! unat key) else None);
        Some (print_char font buffer 0xffffff s)
      })"

section \<open>The tables agree\<close>

lemma table_lengths: "length scNormal = 58" "length scCaps = 58" "length scShift = 54" "length scShiftCaps = 54"
  by (simp_all add: scNormal_def scCaps_def scShift_def scShiftCaps_def ascii_def)

definition is_letter :: "u8 \<Rightarrow> bool" where
  "is_letter c \<longleftrightarrow> 97 \<le> c \<and> c \<le> 122"

definition letter_ok :: "u8 \<Rightarrow> u8 \<Rightarrow> u8 \<Rightarrow> u8 \<Rightarrow> bool" where
  "letter_ok n c s b \<longleftrightarrow> (is_letter n \<longrightarrow> c = n - 32 \<and> s = n - 32 \<and> b = n)"

lemma letters_agree:
  "k < 54 \<Longrightarrow> letter_ok (scNormal ! k) (scCaps ! k) (scShift ! k) (scShiftCaps ! k)"
proof -
  have "list_all (\<lambda>(n, c, s, b). letter_ok n c s b) (zip scNormal (zip scCaps (zip scShift scShiftCaps)))"
    by (simp add: scNormal_def scCaps_def scShift_def scShiftCaps_def ascii_def letter_ok_def is_letter_def)
  then show "k < 54 \<Longrightarrow> letter_ok (scNormal ! k) (scCaps ! k) (scShift ! k) (scShiftCaps ! k)"
    by (simp add: list_all_length table_lengths)
qed

lemma letter_key:
  assumes "unat key < 58" "is_letter (scNormal ! unat key)"
  shows "unat key < 54" "key < MAX_SCANCODE" "key \<noteq> LSHIFT" "key \<noteq> RSHIFT" "key \<noteq> CAPS"
proof -
  have none: "\<not> is_letter (scNormal ! k)" if "k \<in> {42, 54, 55, 56, 57}" for k
    using that by (auto simp: scNormal_def ascii_def is_letter_def)
  show "unat key < 54"
  proof (rule ccontr)
    assume "\<not> unat key < 54"
    then have "unat key \<in> {42, 54, 55, 56, 57}" using assms(1) by auto
    then show False using none assms(2) by blast
  qed
  moreover have "unat key \<noteq> 42" using none assms(2) by auto
  ultimately show "key < MAX_SCANCODE" "key \<noteq> LSHIFT" "key \<noteq> RSHIFT" "key \<noteq> CAPS"
    by (auto simp: MAX_SCANCODE_def LSHIFT_def RSHIFT_def CAPS_def word_less_nat_alt)
qed

text \<open>Drawing changes memory and the cursor only.\<close>

definition drawn :: "'a kscreen_scheme \<Rightarrow> 'a kscreen_scheme \<Rightarrow> bool" where
  "drawn s s' \<longleftrightarrow> (\<exists>m x y. s' = s\<lparr>mem := m, cursor_x := x, cursor_y := y\<rparr>)"

lemma drawn_refl [simp]: "drawn s s"
  unfolding drawn_def by (intro exI [of _ "mem s"] exI [of _ "cursor_x s"] exI [of _ "cursor_y s"]) simp

lemma drawn_trans [trans]: "drawn a b \<Longrightarrow> drawn b c \<Longrightarrow> drawn a c"
  unfolding drawn_def by (elim exE, simp, intro exI, rule refl)

lemma drawn_step [simp]: "drawn s s' \<Longrightarrow> drawn s (s'\<lparr>cursor_x := x\<rparr>)" "drawn s s' \<Longrightarrow> drawn s (s'\<lparr>cursor_y := y\<rparr>)"
  "drawn s s' \<Longrightarrow> drawn s (store_pixel i j col s')"
proof -
  assume "drawn s s'"
  then obtain m x0 y0 where s': "s' = s\<lparr>mem := m, cursor_x := x0, cursor_y := y0\<rparr>" by (auto simp: drawn_def)
  show "drawn s (s'\<lparr>cursor_x := x\<rparr>)" unfolding drawn_def s' by (intro exI [of _ m] exI [of _ x] exI [of _ y0]) simp
  show "drawn s (s'\<lparr>cursor_y := y\<rparr>)" unfolding drawn_def s' by (intro exI [of _ m] exI [of _ x0] exI [of _ y]) simp
  show "drawn s (store_pixel i j col s')" unfolding drawn_def store_pixel_def s' by (intro exI [of _ "mem (store_pixel i j col s')"] exI [of _ x0] exI [of _ y0]) (simp add: s' store_pixel_def)
qed

lemma print_char_drawn:
  fixes s :: "'b kscreen_scheme"
  shows "drawn s (print_char font c col s)"
proof -
  have row: "drawn s (rect_row color w s)" for color w and s :: "'b kscreen_scheme" by (induction w) (simp_all add: Let_def)
  have rows: "drawn s (rect_rows x sx color h s)" for x sx color h and s :: "'b kscreen_scheme"
    by (induction h) (simp, simp add: Let_def, intro drawn_step, erule drawn_trans [OF _ row])
  have clear: "drawn s (clear_screen color s')" if "drawn s s'" for color and s s' :: "'b kscreen_scheme"
    unfolding clear_screen_def rect_def by (intro drawn_step drawn_trans [OF _ rows]) (simp add: that)
  have inc: "drawn s (increment_cursor_x n s)" for n and s :: "'b kscreen_scheme"
    by (simp add: increment_cursor_x_def Let_def clear)
  have glyph: "drawn s (glyph_row font off color b j s)" for off color b j and s :: "'b kscreen_scheme" by (induction j) (simp_all add: Let_def)
  have "drawn s (glyph_rows font off color b s)" for off color b and s :: "'b kscreen_scheme"
    by (induction b) (auto intro: drawn_trans glyph)
  then show ?thesis by (auto simp: print_char_def intro!: drawn_trans [OF _ inc])
qed

lemma print_char_modes [simp]: "shift (print_char font c col s) = shift s" "caps (print_char font c col s) = caps s"
  using print_char_drawn [of s font c col] by (auto simp: drawn_def)

section \<open>Results\<close>

text \<open>A letter key prints the letter, in upper case exactly when one of shift and caps lock is on but not both, and
  leaves both modes alone.\<close>

theorem letter_case:
  assumes "unat key < 58" "is_letter (scNormal ! unat key)"
  shows "\<exists>s'. isr_keyboard font key s = Some s' \<and> shift s' = shift s \<and> caps s' = caps s \<and>
      s' = print_char font (if shift s \<noteq> caps s then scNormal ! unat key - 32 else scNormal ! unat key) 0xffffff s"
  using letter_key [OF assms] letters_agree [of "unat key"] assms(2) table_lengths
  by (auto simp: isr_keyboard_def letter_ok_def not_le)

definition kbd_sample :: kkeyboard where
  "kbd_sample = \<lparr>mem = (\<lambda>_. 0), bitmap = 0, bitmapSize = 0, lastUsablePage = 0, pmm_lock = 0, frameBuffer = 0x200000, pitch = 320,
     bpp = 32, screen_width = 80, screen_height = 36, cursor_x = 0, cursor_y = 0, shift = True, caps = False\<rparr>"

theorem letter_case_witness:
  "isr_keyboard (\<lambda>_. 0) 0x10 kbd_sample = Some (print_char (\<lambda>_. 0) 0x51 0xffffff kbd_sample)"
proof -
  have q: "scNormal ! 16 = 0x71" by (simp add: scNormal_def ascii_def)
  have modes: "shift kbd_sample" "\<not> caps kbd_sample" by (simp_all add: kbd_sample_def)
  show ?thesis using letter_case [of "0x10" "\<lambda>_. 0" kbd_sample] q modes by (simp add: is_letter_def)
qed

text \<open>Which keys read outside their table: the tables for shift end before the space bar, so shift and space is one of
  them; all keys that are released and the mode keys are handled.\<close>

theorem key_outside_table:
  "isr_keyboard font key s = None \<longleftrightarrow>
     key < MAX_SCANCODE \<and> key \<notin> {LSHIFT, RSHIFT, CAPS} \<and> (if shift s then 54 else 58) \<le> unat key"
  by (auto simp: isr_keyboard_def Let_def table_lengths not_less not_le)

end
