(* ===== verification/Acpi.thy ===== *)
theory Acpi
  imports Phys_Mem Strings
begin

text \<open>
  \<^verbatim>\<open>kernel/acpi/acpi.cpp\<close>: the search for a table of the firmware, and the list of tags of the boot loader
  (\<open>get_tag\<close> of \<^verbatim>\<open>kernel.cpp\<close>). The tables are packed structures in memory; their fields are read at their offsets. A
  null pointer is the address 0.
\<close>

section \<open>Tags\<close>

text \<open>A list that runs in a circle is never left.\<close>

partial_function (option) tag_loop :: "mem \<Rightarrow> u64 \<Rightarrow> u64 \<Rightarrow> u64 option" where
  "tag_loop m tag_id current_tag =
     (if current_tag = 0 then Some 0
      else if read64 m current_tag = tag_id then Some current_tag
      else tag_loop m tag_id (read64 m (current_tag + 8)))"

text \<open>The field \<open>tags\<close> follows the two strings of 64 bytes.\<close>

definition get_tag :: "mem \<Rightarrow> u64 \<Rightarrow> u64 \<Rightarrow> u64 option" where
  "get_tag m first_tag tag_id = tag_loop m tag_id (read64 m (first_tag + 128))"

section \<open>Tables of the firmware\<close>

definition sizeof_sdt :: u64 where "sizeof_sdt = 36"

definition sdt_signature :: "mem \<Rightarrow> u64 \<Rightarrow> cbuf" where
  "sdt_signature m table = map (\<lambda>i. m (table + of_nat i)) [0 ..< 4]"

definition sdt_length :: "mem \<Rightarrow> u64 \<Rightarrow> u32" where
  "sdt_length m table = read32 m (table + 4)"

text \<open>\<open>Acpi::init\<close>: the address of the table of tables, from the pointer in the tag.\<close>

definition acpi_init :: "mem \<Rightarrow> u64 \<Rightarrow> u64" where
  "acpi_init m rsdp_tag = ucast (read32 m (read64 m (rsdp_tag + 16) + 16)) + PHYSICAL_BASE_ADDRESS"

definition rsdt_table :: "mem \<Rightarrow> u64 \<Rightarrow> nat \<Rightarrow> u64" where
  "rsdt_table m rsdt i = ucast (read32 m (rsdt + sizeof_sdt + 4 * of_nat i)) + PHYSICAL_BASE_ADDRESS"

definition tablesNum :: "mem \<Rightarrow> u64 \<Rightarrow> nat" where
  "tablesNum m rsdt = unat ((ucast (sdt_length m rsdt) - sizeof_sdt) div 4)"

function find_from :: "mem \<Rightarrow> u64 \<Rightarrow> cbuf \<Rightarrow> nat \<Rightarrow> nat \<Rightarrow> u64 option" where
  "find_from m rsdt signature n i =
     (if i < n then do {
        let current_table = rsdt_table m rsdt i;
        same \<leftarrow> strncmp (sdt_signature m current_table) signature 4;
        if same then Some current_table else find_from m rsdt signature n (i + 1)
      } else Some 0)"
  by pat_completeness auto
termination
  by (relation "measure (\<lambda>(m, rsdt, signature, n, i). n - i)") auto

declare find_from.simps [simp del]

definition find_table :: "mem \<Rightarrow> u64 \<Rightarrow> cbuf \<Rightarrow> u64 option" where
  "find_table m rsdt signature = find_from m rsdt signature (tablesNum m rsdt) 0"

section \<open>What the searches find\<close>

text \<open>The tags from \<open>t\<close> on, as a list.\<close>

fun tag_list :: "mem \<Rightarrow> u64 \<Rightarrow> u64 list \<Rightarrow> bool" where
  "tag_list m t [] \<longleftrightarrow> t = 0"
| "tag_list m t (x # xs) \<longleftrightarrow> t = x \<and> x \<noteq> 0 \<and> tag_list m (read64 m (x + 8)) xs"

lemma tag_loop_finds:
  "tag_list m t xs \<Longrightarrow> tag_loop m tag_id t = Some (case find (\<lambda>x. read64 m x = tag_id) xs of None \<Rightarrow> 0 | Some x \<Rightarrow> x)"
proof (induction xs arbitrary: t)
  case Nil
  then show ?case by (simp add: tag_loop.simps)
next
  case (Cons x xs)
  then show ?case by (subst tag_loop.simps) auto
qed

lemma signature_compare:
  assumes "4 \<le> length signature"
  shows "strncmp (sdt_signature m t) signature 4 = Some (sdt_signature m t = take 4 signature)"
  using assms strncmp_take [of 4 "sdt_signature m t" signature] by (simp add: sdt_signature_def)

lemma find_from_finds:
  assumes "4 \<le> length signature" "i \<le> n"
  shows "find_from m rsdt signature n i =
    Some (case find (\<lambda>t. sdt_signature m t = take 4 signature) (map (rsdt_table m rsdt) [i ..< n]) of None \<Rightarrow> 0 | Some t \<Rightarrow> t)"
  using assms(2)
proof (induction "n - i" arbitrary: i)
  case 0
  then show ?case by (subst find_from.simps) simp
next
  case (Suc k)
  then have "i < n" by simp
  then have e: "[i ..< n] = i # [Suc i ..< n]" by (rule upt_conv_Cons)
  have "find_from m rsdt signature n (Suc i) =
      Some (case find (\<lambda>t. sdt_signature m t = take 4 signature) (map (rsdt_table m rsdt) [Suc i ..< n]) of None \<Rightarrow> 0 | Some t \<Rightarrow> t)"
    using Suc \<open>i < n\<close> by (intro Suc.hyps(1)) auto
  then show ?case unfolding e using \<open>i < n\<close> signature_compare [OF assms(1)] by (subst find_from.simps) (simp add: Let_def)
qed

text \<open>C36: \<open>find_table\<close> returns, for every contents of memory, the first table the root table lists whose signature is the one asked
  for, and null when there is none.\<close>

theorem find_table_first:
  assumes "4 \<le> length signature"
  shows "find_table m rsdt signature =
    Some (case find (\<lambda>t. sdt_signature m t = take 4 signature) (map (rsdt_table m rsdt) [0 ..< tablesNum m rsdt]) of None \<Rightarrow> 0 | Some t \<Rightarrow> t)"
  unfolding find_table_def by (rule find_from_finds [OF assms]) simp

text \<open>A root table at \<open>0x1000\<close> of the direct map with one entry, the table \<open>HPET\<close> at \<open>0x2000\<close>.\<close>

definition tables_sample :: mem where
  "tables_sample = (let b = PHYSICAL_BASE_ADDRESS in (\<lambda>_. 0)(b + 0x1004 := 40, b + 0x1025 := 0x20, b + 0x2000 := 72, b + 0x2001 := 80, b + 0x2002 := 69, b + 0x2003 := 84))"

theorem find_table_first_witness:
  "find_table tables_sample (PHYSICAL_BASE_ADDRESS + 0x1000) (cstr ''HPET'') = Some (PHYSICAL_BASE_ADDRESS + 0x2000)"
proof -
  have "tablesNum tables_sample (PHYSICAL_BASE_ADDRESS + 0x1000) = 1" "rsdt_table tables_sample (PHYSICAL_BASE_ADDRESS + 0x1000) 0 = PHYSICAL_BASE_ADDRESS + 0x2000"
    by (simp_all add: tablesNum_def rsdt_table_def sdt_length_def sizeof_sdt_def read32_def tables_sample_def PHYSICAL_BASE_ADDRESS_def)
  moreover have "sdt_signature tables_sample (PHYSICAL_BASE_ADDRESS + 0x2000) = take 4 (cstr ''HPET'')"
    by (simp add: sdt_signature_def tables_sample_def PHYSICAL_BASE_ADDRESS_def cstr_def ascii_def upt_conv_Cons)
  ultimately show ?thesis using find_table_first [of "cstr ''HPET''" tables_sample "PHYSICAL_BASE_ADDRESS + 0x1000"] by (simp add: cstr_def ascii_def)
qed

end
