(* ===== verification/Devices.thy ===== *)
theory Devices
  imports Prelude
begin

text \<open>
  Access to devices. A device has a state \<open>'d\<close> of its own that the kernel reaches only through ports
  (\<^verbatim>\<open>kernel/io.cpp\<close>, inline assembly) and through registers mapped into memory; a read can change the state as well. The
  accesses are parameters of the drivers. Polling loops have one shape, \<open>wait_until\<close>.
\<close>

record 'd hw =
  store32 :: "u64 \<Rightarrow> u32 \<Rightarrow> 'd \<Rightarrow> 'd"
  fetch32 :: "u64 \<Rightarrow> 'd \<Rightarrow> u32 \<times> 'd"
  store64 :: "u64 \<Rightarrow> u64 \<Rightarrow> 'd \<Rightarrow> 'd"
  fetch64 :: "u64 \<Rightarrow> 'd \<Rightarrow> u64 \<times> 'd"
  outb :: "u16 \<Rightarrow> u8 \<Rightarrow> 'd \<Rightarrow> 'd"
  inb :: "u16 \<Rightarrow> 'd \<Rightarrow> u8 \<times> 'd"
  outl :: "u16 \<Rightarrow> u32 \<Rightarrow> 'd \<Rightarrow> 'd"
  inl :: "u16 \<Rightarrow> 'd \<Rightarrow> u32 \<times> 'd"

text \<open>Each round asks the device once; the loop is left when the answer is yes.\<close>

partial_function (option) wait_until :: "('d \<Rightarrow> bool \<times> 'd) \<Rightarrow> 'd \<Rightarrow> 'd option" where
  "wait_until poll d = (if fst (poll d) then Some (snd (poll d)) else wait_until poll (snd (poll d)))"

primrec after_polls :: "('d \<Rightarrow> 'b \<times> 'd) \<Rightarrow> nat \<Rightarrow> 'd \<Rightarrow> 'd" where
  "after_polls poll 0 d = d"
| "after_polls poll (Suc n) d = after_polls poll n (snd (poll d))"

lemma after_polls_snd: "snd (poll (after_polls poll n d)) = after_polls poll (Suc n) d"
  by (induction n arbitrary: d) simp_all

lemma after_polls_add: "after_polls poll (m + n) d = after_polls poll n (after_polls poll m d)"
  by (induction m arbitrary: d) simp_all

lemma after_polls_cong: "(\<And>d. snd (poll d) = snd (poll' d)) \<Longrightarrow> after_polls poll n d = after_polls poll' n d"
  by (induction n arbitrary: d) simp_all

text \<open>The loop ends when some round is answered with yes, with the first such round.\<close>

lemma wait_until_first:
  "fst (poll (after_polls poll n d)) \<Longrightarrow> \<forall>k < n. \<not> fst (poll (after_polls poll k d)) \<Longrightarrow> wait_until poll d = Some (after_polls poll (Suc n) d)"
proof (induction n arbitrary: d)
  case 0
  then show ?case by (subst wait_until.simps) simp
next
  case (Suc n)
  have "\<not> fst (poll d)" using Suc.prems(2) by force
  moreover have "\<forall>k < n. \<not> fst (poll (after_polls poll k (snd (poll d))))" using Suc.prems(2) by force
  ultimately show ?case using Suc.IH [of "snd (poll d)"] Suc.prems(1) by (subst wait_until.simps) simp
qed

lemma wait_until_returns:
  assumes "fst (poll (after_polls poll n d))"
  shows "\<exists>k \<le> n. wait_until poll d = Some (after_polls poll (Suc k) d)"
proof -
  let ?P = "\<lambda>k. fst (poll (after_polls poll k d))"
  obtain k where "?P k" "\<forall>j < k. \<not> ?P j" using exists_least_iff [of ?P] assms by blast
  moreover have "k \<le> n" using calculation(2) assms not_le by blast
  ultimately show ?thesis using wait_until_first [of poll k d] by blast
qed

end
