(* ===== verification/Apic.thy ===== *)
theory Apic
  imports Acpi Devices
begin

text \<open>
  \<^verbatim>\<open>kernel/x86_64/apic.cpp\<close> and \<^verbatim>\<open>pic.cpp\<close>: the table of interrupt controllers (\<^verbatim>\<open>acpi/madt.hpp\<close>) and how the controllers
  are set up from it. What the kernel expects of an I/O APIC is \<open>ioapic_chip\<close> in \<open>Apic_Props\<close>.
\<close>

section \<open>The table of controllers\<close>

definition LAPIC :: u8 where "LAPIC = 0"
definition IOAPIC :: u8 where "IOAPIC = 1"
definition IOAPIC_ISO :: u8 where "IOAPIC_ISO = 2"
definition LAPIC_AO :: u8 where "LAPIC_AO = 5"

text \<open>The four vectors of pointers that the loop fills.\<close>

record madt =
  lapics :: "u64 list"
  ioapics :: "u64 list"
  isos :: "u64 list"
  addressOverride :: "u64 list"

definition no_entries :: madt where
  "no_entries = \<lparr>lapics = [], ioapics = [], isos = [], addressOverride = []\<rparr>"

definition push_entry :: "u8 \<Rightarrow> u64 \<Rightarrow> madt \<Rightarrow> madt" where
  "push_entry type p t =
     (if type = LAPIC then t\<lparr>lapics := lapics t @ [p]\<rparr>
      else if type = IOAPIC then t\<lparr>ioapics := ioapics t @ [p]\<rparr>
      else if type = IOAPIC_ISO then t\<lparr>isos := isos t @ [p]\<rparr>
      else if type = LAPIC_AO then t\<lparr>addressOverride := addressOverride t @ [p]\<rparr>
      else t)"

text \<open>An entry that claims the length 0 is looked at forever.\<close>

partial_function (option) madt_loop :: "mem \<Rightarrow> u64 \<Rightarrow> u64 \<Rightarrow> u64 \<Rightarrow> madt \<Rightarrow> madt option" where
  "madt_loop m madt_entries entries i t =
     (if i < entries then
        let header = madt_entries + i in
        madt_loop m madt_entries entries (i + ucast (m (header + 1))) (push_entry (m header) header t)
      else Some t)"

definition sizeof_madt :: u64 where "sizeof_madt = sizeof_sdt + 8"

section \<open>The I/O APIC\<close>

definition madt_gsib :: "mem \<Rightarrow> u64 \<Rightarrow> u32" where "madt_gsib m p = read32 m (p + 8)"
definition ioapic_base :: "mem \<Rightarrow> u64 \<Rightarrow> u64" where "ioapic_base m p = ucast (read32 m (p + 4)) + PHYSICAL_BASE_ADDRESS"

definition iso_irq :: "mem \<Rightarrow> u64 \<Rightarrow> u8" where "iso_irq m p = m (p + 3)"
definition iso_gsi :: "mem \<Rightarrow> u64 \<Rightarrow> u32" where "iso_gsi m p = read32 m (p + 4)"
definition iso_flags :: "mem \<Rightarrow> u64 \<Rightarrow> u16" where "iso_flags m p = read16 m (p + 8)"

definition ioapic_write :: "'d hw \<Rightarrow> u64 \<Rightarrow> u32 \<Rightarrow> u32 \<Rightarrow> 'd \<Rightarrow> 'd" where
  "ioapic_write io base_address reg v d = store32 io (base_address + 0x10) v (store32 io base_address reg d)"

definition ioapic_read :: "'d hw \<Rightarrow> u64 \<Rightarrow> u32 \<Rightarrow> 'd \<Rightarrow> u32 \<times> 'd" where
  "ioapic_read io base_address reg d = fetch32 io (base_address + 0x10) (store32 io base_address reg d)"

definition set_redirection :: "'d hw \<Rightarrow> u64 \<Rightarrow> u32 \<Rightarrow> u8 \<Rightarrow> u32 \<Rightarrow> u32 \<Rightarrow> 'd \<Rightarrow> 'd" where
  "set_redirection io base_address gsib vector gsi flags d =
     (let reg = (gsi - gsib) * 2 + 0x10;
          redirection = (ucast vector :: u64);
          redirection = redirection OR (if flags AND 2 \<noteq> 0 then push_bit 13 1 else redirection);
          redirection = redirection OR (if flags AND 8 \<noteq> 0 then push_bit 15 1 else redirection)
      in ioapic_write io base_address (reg + 1) (ucast (drop_bit 32 redirection)) (ioapic_write io base_address reg (ucast redirection) d))"

definition max_gsi :: "'d hw \<Rightarrow> u64 \<Rightarrow> 'd \<Rightarrow> u8 \<times> 'd" where
  "max_gsi io base_address d = (let (v, d) = ioapic_read io base_address 1 d in (ucast (drop_bit 16 v AND 0xFF), d))"

definition mask_gsi :: "'d hw \<Rightarrow> u64 \<Rightarrow> u32 \<Rightarrow> u32 \<Rightarrow> 'd \<Rightarrow> 'd" where
  "mask_gsi io base_address gsib gsi d =
     (let reg = (gsi - gsib) * 2 + 0x10; (v, d) = ioapic_read io base_address reg d
      in ioapic_write io base_address reg (v OR push_bit 16 1) d)"

definition unmask_gsi :: "'d hw \<Rightarrow> u64 \<Rightarrow> u32 \<Rightarrow> u32 \<Rightarrow> 'd \<Rightarrow> 'd" where
  "unmask_gsi io base_address gsib gsi d =
     (let reg = (gsi - gsib) * 2 + 0x10; (v, d) = ioapic_read io base_address reg d
      in ioapic_write io base_address reg (v AND NOT (push_bit 16 1)) d)"

text \<open>The body of the loop over the I/O APICs in \<open>Apic::init\<close>.\<close>

definition route_iso :: "'d hw \<Rightarrow> mem \<Rightarrow> u64 \<Rightarrow> u32 \<Rightarrow> nat \<Rightarrow> 'd \<Rightarrow> u64 \<Rightarrow> 'd" where
  "route_iso io m base_address gsib limit d p =
     (if unat (iso_gsi m p) < unat gsib \<or> unat (iso_gsi m p) \<ge> unat gsib + limit then d
      else set_redirection io base_address gsib (iso_irq m p + 0x20) (iso_gsi m p) (ucast (iso_flags m p)) d)"

definition setup_ioapic :: "'d hw \<Rightarrow> mem \<Rightarrow> u64 list \<Rightarrow> 'd \<Rightarrow> u64 \<Rightarrow> 'd" where
  "setup_ioapic io m over d p =
     (let gsib = madt_gsib m p; base_address = ioapic_base m p;
          (limit, d) = max_gsi io base_address d;
          d = (if gsib = 0 then foldl (\<lambda>d i. set_redirection io base_address gsib (of_nat i + 0x20) (of_nat i) 0 d) d [0 ..< 16] else d);
          d = foldl (route_iso io m base_address gsib (unat limit)) d over;
          d = foldl (\<lambda>d i. mask_gsi io base_address gsib (of_nat i) d) d [0 ..< unat limit]
      in if gsib = 0 then unmask_gsi io base_address gsib 1 d else d)"

section \<open>The other controllers\<close>

definition MASTER_COMMAND :: u16 where "MASTER_COMMAND = 0x20"
definition MASTER_DATA :: u16 where "MASTER_DATA = 0x21"
definition SLAVE_COMMAND :: u16 where "SLAVE_COMMAND = 0xA0"
definition SLAVE_DATA :: u16 where "SLAVE_DATA = 0xA1"

definition remap_pic :: "'d hw \<Rightarrow> u64 \<Rightarrow> u64 \<Rightarrow> 'd \<Rightarrow> 'd" where
  "remap_pic io vecOffset1 vecOffset2 d =
     foldl (\<lambda>d (port, v). outb io port v d) d
       [(MASTER_COMMAND, 0x11), (SLAVE_COMMAND, 0x11), (MASTER_DATA, ucast vecOffset1), (SLAVE_DATA, ucast vecOffset2),
        (MASTER_DATA, 4), (SLAVE_DATA, 2), (MASTER_DATA, 0x01), (SLAVE_DATA, 0x01), (MASTER_DATA, 0xFF), (SLAVE_DATA, 0xFF)]"

definition EOI :: u16 where "EOI = 0xB0"
definition SIVR :: u16 where "SIVR = 0xF0"
definition DCR :: u16 where "DCR = 0x3E0"
definition LVTTimer :: u16 where "LVTTimer = 0x320"
definition InitialCountR :: u16 where "InitialCountR = 0x380"
definition CurrentCountR :: u16 where "CurrentCountR = 0x390"

definition xapic_read :: "'d hw \<Rightarrow> u64 \<Rightarrow> u16 \<Rightarrow> 'd \<Rightarrow> u32 \<times> 'd" where
  "xapic_read io base_address reg d = fetch32 io (base_address + ucast reg) d"

definition xapic_write :: "'d hw \<Rightarrow> u64 \<Rightarrow> u16 \<Rightarrow> u32 \<Rightarrow> 'd \<Rightarrow> 'd" where
  "xapic_write io base_address reg v d = store32 io (base_address + ucast reg) v d"

definition xapic_enable :: "'d hw \<Rightarrow> u64 \<Rightarrow> 'd \<Rightarrow> 'd" where
  "xapic_enable io base_address d = (let (v, d) = xapic_read io base_address SIVR d in xapic_write io base_address SIVR (v OR 0x1FF) d)"

definition xapic_eoi :: "'d hw \<Rightarrow> u64 \<Rightarrow> 'd \<Rightarrow> 'd" where
  "xapic_eoi io base_address d = xapic_write io base_address EOI 0 d"

text \<open>\<open>sleep\<close> is the wait of the other timer.\<close>

definition calibrate_timer :: "'d hw \<Rightarrow> ('d \<Rightarrow> 'd option) \<Rightarrow> u64 \<Rightarrow> 'd \<Rightarrow> 'd option" where
  "calibrate_timer io sleep base_address d = do {
     let d = xapic_write io base_address InitialCountR 0xFFFFFFFF (xapic_write io base_address DCR 0x3 d);
     d \<leftarrow> sleep d;
     let (v, d) = xapic_read io base_address CurrentCountR d;
     let count = (0xFFFFFFFF :: u64) - ucast v;
     Some (xapic_write io base_address InitialCountR (ucast count)
       (xapic_write io base_address DCR 0x3 (xapic_write io base_address LVTTimer (0x20 OR 0x20000) d)))
   }"

section \<open>Apic::init\<close>

text \<open>The result is the address of the local APIC.\<close>

definition local_apic_base :: "mem \<Rightarrow> u64 \<Rightarrow> madt \<Rightarrow> u64" where
  "local_apic_base m table t =
     (if addressOverride t \<noteq> [] then read64 m (hd (addressOverride t) + 8) else ucast (read32 m (table + sizeof_sdt))) + PHYSICAL_BASE_ADDRESS"

definition apic_init :: "'d hw \<Rightarrow> mem \<Rightarrow> u64 \<Rightarrow> 'd \<Rightarrow> (u64 \<times> 'd) option" where
  "apic_init io m rsdt d = do {
     table \<leftarrow> find_table m rsdt (cstr ''APIC'');
     if table = 0 then None
     else do {
       t \<leftarrow> madt_loop m (table + sizeof_madt) (ucast (sdt_length m table) - sizeof_sdt - 8) 0 no_entries;
       let d = remap_pic io 0x20 0x28 (foldl (setup_ioapic io m (isos t)) d (ioapics t));
       let base_address = local_apic_base m table t;
       Some (base_address, xapic_enable io base_address d)
     }
   }"

end
