(* ===== verification/Apic_Props.thy ===== *)
theory Apic_Props
  imports Apic
begin

text \<open>
  The entries of the table of controllers are found in order, and after the set-up of the first I/O APIC exactly the pin
  of the keyboard is open, with every pin routed as the table says.
\<close>

section \<open>Reading the table\<close>

text \<open>The entries from offset \<open>i\<close> on, each with its type and length.\<close>

fun entries_at :: "mem \<Rightarrow> u64 \<Rightarrow> nat \<Rightarrow> (u8 \<times> u8) list \<Rightarrow> bool" where
  "entries_at m a i [] \<longleftrightarrow> True"
| "entries_at m a i ((ty, len) # es) \<longleftrightarrow> m (a + of_nat i) = ty \<and> m (a + of_nat i + 1) = len \<and> 2 \<le> unat len \<and> entries_at m a (i + unat len) es"

fun entry_addrs :: "u64 \<Rightarrow> nat \<Rightarrow> (u8 \<times> u8) list \<Rightarrow> (u8 \<times> u64) list" where
  "entry_addrs a i [] = []"
| "entry_addrs a i ((ty, len) # es) = (ty, a + of_nat i) # entry_addrs a (i + unat len) es"

definition of_type :: "u8 \<Rightarrow> (u8 \<times> u64) list \<Rightarrow> u64 list" where
  "of_type ty ps = map snd (filter (\<lambda>p. fst p = ty) ps)"

definition total :: "(u8 \<times> u8) list \<Rightarrow> nat" where
  "total es = sum_list (map (\<lambda>e. unat (snd e)) es)"

definition collect :: "(u8 \<times> u64) list \<Rightarrow> madt \<Rightarrow> madt" where
  "collect ps t = t\<lparr>lapics := lapics t @ of_type LAPIC ps, ioapics := ioapics t @ of_type IOAPIC ps,
     isos := isos t @ of_type IOAPIC_ISO ps, addressOverride := addressOverride t @ of_type LAPIC_AO ps\<rparr>"

lemma type_simps [simp]: "LAPIC \<noteq> IOAPIC" "LAPIC \<noteq> IOAPIC_ISO" "LAPIC \<noteq> LAPIC_AO" "IOAPIC \<noteq> IOAPIC_ISO" "IOAPIC \<noteq> LAPIC_AO" "IOAPIC_ISO \<noteq> LAPIC_AO"
  "IOAPIC \<noteq> LAPIC" "IOAPIC_ISO \<noteq> LAPIC" "LAPIC_AO \<noteq> LAPIC" "IOAPIC_ISO \<noteq> IOAPIC" "LAPIC_AO \<noteq> IOAPIC" "LAPIC_AO \<noteq> IOAPIC_ISO"
  by (simp_all add: LAPIC_def IOAPIC_def IOAPIC_ISO_def LAPIC_AO_def)

lemma push_entry_collect: "collect ps (push_entry ty p t) = collect ((ty, p) # ps) t"
  by (auto simp: push_entry_def collect_def of_type_def)

lemma madt_loop_collects:
  assumes "entries_at m a i es" "i + total es < 2 ^ 64"
  shows "madt_loop m a (of_nat (i + total es)) (of_nat i) t = Some (collect (entry_addrs a i es) t)"
  using assms
proof (induction es arbitrary: i t)
  case Nil
  then show ?case by (subst madt_loop.simps) (simp add: total_def collect_def of_type_def)
next
  case (Cons e es)
  obtain ty len where e: "e = (ty, len)" by (cases e)
  have tot: "i + total (e # es) = i + unat len + total es" by (simp add: total_def e)
  have small: "i + unat len + total es < 2 ^ 64" using Cons.prems(2) tot by simp
  have at: "m (a + of_nat i) = ty" "m (a + of_nat i + 1) = len" "2 \<le> unat len" "entries_at m a (i + unat len) es"
    using Cons.prems(1) by (simp_all add: e)
  have "unat (of_nat i :: u64) = i" "unat (of_nat (i + unat len + total es) :: u64) = i + unat len + total es"
    using small by (intro unat_of_nat64; simp)+
  then have less: "(of_nat i :: u64) < of_nat (i + unat len + total es)" using at(3) by (simp add: word_less_nat_alt)
  have "(of_nat i :: u64) + ucast len = of_nat (i + unat len)" by (simp add: of_nat_unat)
  then have "madt_loop m a (of_nat (i + unat len + total es)) (of_nat i) t =
      madt_loop m a (of_nat (i + unat len + total es)) (of_nat (i + unat len)) (push_entry ty (a + of_nat i) t)"
    using less at(1,2) by (subst madt_loop.simps) (simp add: Let_def)
  then show ?case unfolding tot using Cons.IH [OF at(4) small, of "push_entry ty (a + of_nat i) t"]
    by (simp add: push_entry_collect e)
qed

text \<open>The table of controllers is read completely and in order: when it holds entries of at least two bytes that fill
  it exactly, the loop ends and each of the four lists holds the addresses of the entries of its type, as they follow
  each other.\<close>

theorem madt_read:
  assumes "entries_at m (table + sizeof_madt) 0 es" "unat (sdt_length m table) = 44 + total es"
  shows "madt_loop m (table + sizeof_madt) (ucast (sdt_length m table) - sizeof_sdt - 8) 0 no_entries =
    Some (let ps = entry_addrs (table + sizeof_madt) 0 es in
      \<lparr>lapics = of_type LAPIC ps, ioapics = of_type IOAPIC ps, isos = of_type IOAPIC_ISO ps, addressOverride = of_type LAPIC_AO ps\<rparr>)"
proof -
  have "ucast (sdt_length m table) = (of_nat (44 + total es) :: u64)" by (simp add: of_nat_unat flip: assms(2))
  then have e: "(ucast (sdt_length m table) :: u64) - sizeof_sdt - 8 = of_nat (0 + total es)" by (simp add: sizeof_sdt_def)
  have "unat (sdt_length m table) < 2 ^ 32" by (rule order_less_le_trans [OF unsigned_less]) simp
  then have "0 + total es < 2 ^ 64" using assms(2) by simp
  from madt_loop_collects [OF assms(1) this, of no_entries] show ?thesis
    unfolding e by (simp add: collect_def no_entries_def Let_def)
qed

text \<open>A table with one local APIC, one I/O APIC and one override, at address 0.\<close>

definition madt_sample :: mem where
  "madt_sample = (\<lambda>_. 0)(4 := 74, 44 := 0, 45 := 8, 52 := 1, 53 := 12, 59 := 0xC0, 58 := 0xFE, 64 := 2, 65 := 10, 67 := 0, 68 := 2)"

theorem madt_read_witness:
  "madt_loop madt_sample (0 + sizeof_madt) (ucast (sdt_length madt_sample 0) - sizeof_sdt - 8) 0 no_entries =
    Some \<lparr>lapics = [44], ioapics = [52], isos = [64], addressOverride = []\<rparr>"
proof -
  let ?es = "[(0, 8), (1, 12), (2, 10)] :: (u8 \<times> u8) list"
  have "entries_at madt_sample (0 + sizeof_madt) 0 ?es" by (simp add: madt_sample_def sizeof_madt_def sizeof_sdt_def)
  moreover have "unat (sdt_length madt_sample 0) = 44 + total ?es" by (simp add: sdt_length_def read32_def madt_sample_def total_def)
  ultimately show ?thesis using madt_read [of madt_sample 0 ?es]
    by (simp add: of_type_def LAPIC_def IOAPIC_def IOAPIC_ISO_def LAPIC_AO_def sizeof_madt_def sizeof_sdt_def Let_def)
qed

section \<open>Redirection\<close>

text \<open>What the kernel relies on, from the data sheet of the chip: registers are reached through a select and a data register, a
  pin has two of them from 0x10 on, \<open>entry d g\<close> are the bits of the lower one that software sets (bits 12 and 14 belong to
  the chip), and register 1 tells the number of the last pin.\<close>

definition entry_mask :: u32 where "entry_mask = 0x1AFFF"

definition pin_reg :: "nat \<Rightarrow> u32" where "pin_reg g = of_nat g * 2 + 0x10"

definition ioapic_chip :: "'d hw \<Rightarrow> u64 \<Rightarrow> nat \<Rightarrow> ('d \<Rightarrow> nat \<Rightarrow> u32) \<Rightarrow> bool" where
  "ioapic_chip io base pins entry \<longleftrightarrow> 0 < pins \<and> pins \<le> 256 \<and>
     (\<forall>d g v g'. g < pins \<longrightarrow> entry (ioapic_write io base (pin_reg g) v d) g' = (if g' = g then v AND entry_mask else entry d g')) \<and>
     (\<forall>d g v g'. g < pins \<longrightarrow> entry (ioapic_write io base (pin_reg g + 1) v d) g' = entry d g') \<and>
     (\<forall>d g g'. g < pins \<longrightarrow> fst (ioapic_read io base (pin_reg g) d) AND entry_mask = entry d g \<and>
        entry (snd (ioapic_read io base (pin_reg g) d)) g' = entry d g') \<and>
     (\<forall>d g'. drop_bit 16 (fst (ioapic_read io base 1 d)) AND 0xFF = of_nat (pins - 1) \<and> entry (snd (ioapic_read io base 1 d)) g' = entry d g')"

text \<open>An entry for a vector and the flags of the table: bit 13 for active low, bit 15 for level triggered.\<close>

definition redirection :: "u8 \<Rightarrow> u16 \<Rightarrow> u32" where
  "redirection vector flags = ucast vector OR (if bit flags 1 then 0x2000 else 0) OR (if bit flags 3 then 0x8000 else 0)"

definition MASKED :: u32 where "MASKED = 0x10000"

lemma and_power_bit: "w AND 2 \<noteq> 0 \<longleftrightarrow> bit w 1" "w AND 8 \<noteq> 0 \<longleftrightarrow> bit w 3" for w :: u32
  by (auto simp: bit_iff_and_push_bit_not_eq_0)

lemma vector_bits: "(ucast v :: u32) AND entry_mask = ucast v" for v :: u8
proof (rule bit_word_eqI)
  fix n assume "n < LENGTH(32)"
  have "bit entry_mask n" if "n < 8" using that by (auto simp: entry_mask_def less_Suc_eq numeral_eq_Suc)
  then show "bit ((ucast v :: u32) AND entry_mask) n = bit (ucast v :: u32) n"
    using bit_imp_le_length [of v n] by (auto simp: bit_and_iff bit_ucast_iff)
qed

lemma redirection_bits:
  "ucast (let r = ucast v; r = r OR (if bit fl 1 then push_bit 13 1 else r) in r OR (if bit fl 3 then push_bit 15 1 else r) :: u64) AND entry_mask =
    redirection v fl"
proof -
  have uu: "(ucast (ucast v :: u64) :: u32) = ucast v" by (rule bit_word_eqI) (auto simp: bit_ucast_iff dest: bit_imp_le_length)
  have or: "(ucast (a OR b) :: u32) = ucast a OR ucast b" for a b :: u64 by (rule bit_word_eqI) (auto simp: bit_ucast_iff bit_or_iff)
  show ?thesis
    by (cases "bit fl 1"; cases "bit fl 3")
      (simp_all add: redirection_def Let_def or uu bit.conj_disj_distrib2 vector_bits, simp_all add: entry_mask_def ac_simps)
qed

lemma chip_set_redirection:
  assumes "ioapic_chip io base pins entry" "g < pins"
  shows "entry (set_redirection io base gsib v (gsib + of_nat g) (ucast fl) d) g' = (if g' = g then redirection v fl else entry d g')"
proof -
  have reg: "(gsib + of_nat g - gsib) * 2 + 0x10 = pin_reg g" by (simp add: pin_reg_def)
  have fl: "(ucast fl :: u32) AND 2 \<noteq> 0 \<longleftrightarrow> bit fl 1" "(ucast fl :: u32) AND 8 \<noteq> 0 \<longleftrightarrow> bit fl 3"
    unfolding and_power_bit by (simp_all add: bit_ucast_iff)
  show ?thesis using assms unfolding set_redirection_def reg Let_def fl ioapic_chip_def
    by (simp only: redirection_bits [unfolded Let_def] simp_thms)
qed

lemma chip_mask:
  assumes "ioapic_chip io base pins entry" "g < pins"
  shows "entry (mask_gsi io base gsib (gsib + of_nat g) d) g' = (if g' = g then entry d g OR MASKED else entry d g')"
    and "entry (unmask_gsi io base gsib (gsib + of_nat g) d) g' = (if g' = g then entry d g AND NOT MASKED else entry d g')"
proof -
  have reg: "(gsib + of_nat g - gsib) * 2 + 0x10 = pin_reg g" by (simp add: pin_reg_def)
  obtain v d1 where r: "ioapic_read io base (pin_reg g) d = (v, d1)" by (cases "ioapic_read io base (pin_reg g) d")
  have v: "v AND entry_mask = entry d g" "entry d1 g' = entry d g'" for g'
    using assms r unfolding ioapic_chip_def by (metis fst_conv, metis snd_conv)
  have m: "(v OR push_bit 16 1) AND entry_mask = entry d g OR MASKED"
    unfolding v(1) [symmetric] by (simp add: bit.conj_disj_distrib2 MASKED_def entry_mask_def)
  have u: "(v AND NOT (push_bit 16 1)) AND entry_mask = entry d g AND NOT MASKED"
    unfolding v(1) [symmetric] MASKED_def by (simp add: ac_simps)
  show "entry (mask_gsi io base gsib (gsib + of_nat g) d) g' = (if g' = g then entry d g OR MASKED else entry d g')"
    using assms m v(2) unfolding mask_gsi_def reg Let_def r ioapic_chip_def by simp
  show "entry (unmask_gsi io base gsib (gsib + of_nat g) d) g' = (if g' = g then entry d g AND NOT MASKED else entry d g')"
    using assms u v(2) unfolding unmask_gsi_def reg Let_def r ioapic_chip_def by simp
qed

section \<open>The whole chip\<close>

text \<open>The entry of pin \<open>g\<close> before masking: the last override for it, else what it was.\<close>

definition route :: "mem \<Rightarrow> u64 list \<Rightarrow> nat \<Rightarrow> u32 \<Rightarrow> u32" where
  "route m over g old = foldl (\<lambda>r p. if unat (iso_gsi m p) = g then redirection (iso_irq m p + 0x20) (iso_flags m p) else r) old over"

lemma chip_identity:
  assumes "ioapic_chip io base pins entry" "n \<le> pins"
  shows "entry (foldl (\<lambda>d i. set_redirection io base 0 (of_nat i + 0x20) (of_nat i) 0 d) d [0 ..< n]) g =
    (if g < n then redirection (of_nat g + 0x20) 0 else entry d g)"
  using assms(2)
proof (induction n)
  case (Suc n)
  have "n < pins" using Suc.prems by simp
  from chip_set_redirection [OF assms(1) this, of 0 "of_nat n + 0x20" 0] Suc show ?case by (auto simp: less_Suc_eq)
qed simp

lemma chip_overrides:
  assumes "ioapic_chip io base pins entry" "g < n" "n \<le> pins"
  shows "entry (foldl (route_iso io m base 0 n) d over) g = route m over g (entry d g)"
proof (induction over arbitrary: d)
  case (Cons p over)
  have "entry (route_iso io m base 0 n d p) g =
      (if unat (iso_gsi m p) = g then redirection (iso_irq m p + 0x20) (iso_flags m p) else entry d g)"
    using chip_set_redirection [OF assms(1), of "unat (iso_gsi m p)" 0] assms(2,3) by (auto simp: route_iso_def)
  then show ?case using Cons.IH by (simp add: route_def)
qed (simp add: route_def)

lemma chip_mask_all:
  assumes "ioapic_chip io base pins entry" "n \<le> pins"
  shows "entry (foldl (\<lambda>d i. mask_gsi io base 0 (of_nat i) d) d [0 ..< n]) g = (if g < n then entry d g OR MASKED else entry d g)"
  using assms(2)
proof (induction n)
  case (Suc n)
  have "n < pins" using Suc.prems by simp
  from chip_mask(1) [OF assms(1) this, of 0] Suc show ?case by (auto simp: less_Suc_eq)
qed simp

lemma chip_max:
  assumes "ioapic_chip io base pins entry"
  shows "\<exists>d'. max_gsi io base d = (of_nat (pins - 1), d') \<and> (\<forall>g. entry d' g = entry d g)" "unat (of_nat (pins - 1) :: u8) = pins - 1"
proof -
  obtain v d1 where r: "ioapic_read io base 1 d = (v, d1)" by (cases "ioapic_read io base 1 d")
  have c: "drop_bit 16 v AND 0xFF = of_nat (pins - 1)" "\<And>g. entry d1 g = entry d g" "0 < pins" "pins \<le> 256"
    using assms r unfolding ioapic_chip_def by (metis fst_conv, metis snd_conv, blast, blast)
  have "max_gsi io base d = (ucast (of_nat (pins - 1) :: u32), d1)" by (simp only: max_gsi_def r Let_def prod.case c(1))
  moreover have "(ucast (of_nat (pins - 1) :: u32) :: u8) = of_nat (pins - 1)" 
  proof -
    have "unat (of_nat (pins - 1) :: u32) = pins - 1" using c(4) by (simp add: unat_of_nat)
    then show ?thesis by (metis of_nat_unat)
  qed
  ultimately show "\<exists>d'. max_gsi io base d = (of_nat (pins - 1), d') \<and> (\<forall>g. entry d' g = entry d g)" using c(2) by simp
  have "pins - 1 < 256" using c(3,4) by simp
  then show "unat (of_nat (pins - 1) :: u8) = pins - 1" by (simp add: unat_of_nat del: of_nat_diff)
qed

lemma setup_entry:
  assumes c: "ioapic_chip io (ioapic_base m p) pins entry" and g: "16 < pins" "madt_gsib m p = 0" "g + 1 < pins"
  shows "entry (setup_ioapic io m over d p) g =
    (let r = route m over g (if g < 16 then redirection (of_nat g + 0x20) 0 else entry d g)
     in if g = 1 then r AND NOT MASKED else r OR MASKED)"
proof -
  let ?b = "ioapic_base m p" and ?n = "pins - 1"
  obtain d1 where d1: "max_gsi io ?b d = (of_nat ?n, d1)" "\<And>g. entry d1 g = entry d g" using chip_max(1) [OF c, of d] by blast
  define d2 where "d2 = foldl (\<lambda>d i. set_redirection io ?b 0 (of_nat i + 0x20) (of_nat i) 0 d) d1 [0 ..< 16]"
  define d3 where "d3 = foldl (route_iso io m ?b 0 ?n) d2 over"
  define d4 where "d4 = foldl (\<lambda>d i. mask_gsi io ?b 0 (of_nat i) d) d3 [0 ..< ?n]"
  have e: "setup_ioapic io m over d p = unmask_gsi io ?b 0 1 d4"
    by (simp add: setup_ioapic_def Let_def g(2) d1(1) [simplified] d2_def d3_def d4_def chip_max(2) [OF c, simplified] del: upt_Suc)
  have "entry d3 g = route m over g (if g < 16 then redirection (of_nat g + 0x20) 0 else entry d g)"
    using chip_overrides [OF c, of g ?n m d2 over] chip_identity [OF c, of 16 d1 g] g d1(2) by (simp add: d2_def d3_def del: upt_Suc)
  moreover have "entry d4 g = entry d3 g OR MASKED" using chip_mask_all [OF c, of ?n d3 g] g by (auto simp: d4_def)
  moreover have "(r OR MASKED) AND NOT MASKED = r AND NOT MASKED" for r by (rule bit_word_eqI) (auto simp: bit_simps)
  ultimately show ?thesis unfolding e using chip_mask(2) [OF c, of 1 0 d4 g] g by (cases "g = 1") (simp_all add: Let_def)
qed

text \<open>C30: after the set-up of the first I/O APIC every pin but the last is routed as the table says (to the vector 0x20 and its
  number, or to the vector, polarity and trigger of the last override for it) and all of them are masked except pin 1,
  the keyboard. Assumed is that the chip has more than 16 pins and the behaviour of its registers.\<close>

theorem ioapic_set_up:
  assumes "ioapic_chip io (ioapic_base m p) pins entry" "16 < pins" "madt_gsib m p = 0" "g + 1 < pins"
  shows "(let r = route m over g (if g < 16 then redirection (of_nat g + 0x20) 0 else entry d g)
     in entry (setup_ioapic io m over d p) g = (if g = 1 then r AND NOT MASKED else r OR MASKED)) \<and>
    (bit (entry (setup_ioapic io m over d p) g) 16 \<longleftrightarrow> g \<noteq> 1)"
proof -
  have "bit MASKED 16" by (simp add: MASKED_def)
  then show ?thesis using setup_entry [OF assms] by (simp add: Let_def bit_simps)
qed

text \<open>A chip with 24 pins at physical address 0: a register file with its select register.\<close>

definition chip_sample :: "(u32 \<times> (u32 \<Rightarrow> u32)) hw" where
  "chip_sample = \<lparr>store32 = (\<lambda>a v (sel, regs). if a = PHYSICAL_BASE_ADDRESS then (v, regs) else (sel, regs(sel := v))),
     fetch32 = (\<lambda>a (sel, regs). (if sel = 1 then 0x170011 else regs sel, (sel, regs))), store64 = (\<lambda>a v d. d), fetch64 = (\<lambda>a d. (0, d)),
     outb = (\<lambda>p v d. d), inb = (\<lambda>p d. (0, d)), outl = (\<lambda>p v d. d), inl = (\<lambda>p d. (0, d))\<rparr>"

definition sample_entry :: "u32 \<times> (u32 \<Rightarrow> u32) \<Rightarrow> nat \<Rightarrow> u32" where
  "sample_entry d g = (if g < 24 then snd d (pin_reg g) AND entry_mask else 0)"

lemma pin_reg_inj:
  assumes "g < 24" "g' < 24"
  shows "pin_reg g = pin_reg g' \<longleftrightarrow> g = g'" "pin_reg g \<noteq> pin_reg g' + 1" "pin_reg g \<noteq> 1"
proof -
  have e: "pin_reg k = of_nat (2 * k + 16)" "pin_reg k + 1 = of_nat (2 * k + 17)" for k by (simp_all add: pin_reg_def)
  have "unat (of_nat n :: u32) = n" if "n < 256" for n using that by (simp add: unat_of_nat)
  then have u: "unat (pin_reg g) = 2 * g + 16" "unat (pin_reg g') = 2 * g' + 16" "unat (pin_reg g' + 1) = 2 * g' + 17"
    unfolding e(2) unfolding e(1) using assms by (simp_all del: of_nat_add of_nat_mult)
  have "2 * g + 16 = 2 * g' + 16" if "pin_reg g = pin_reg g'" using u(1,2) that by metis
  then show "pin_reg g = pin_reg g' \<longleftrightarrow> g = g'" by auto
  have "2 * g + 16 \<noteq> 2 * g' + 17" by presburger
  then show "pin_reg g \<noteq> pin_reg g' + 1" using u(1,3) by metis
  have "2 * g + 16 \<noteq> 1" by simp
  then show "pin_reg g \<noteq> 1" using u(1) by (metis unat_1)
qed

lemma chip_sample_ok: "ioapic_chip chip_sample PHYSICAL_BASE_ADDRESS 24 sample_entry"
proof -
  have w: "ioapic_write chip_sample PHYSICAL_BASE_ADDRESS r v d = (r, (snd d)(r := v))" for r v d
    by (cases d) (simp add: ioapic_write_def chip_sample_def)
  have r: "ioapic_read chip_sample PHYSICAL_BASE_ADDRESS r d = (if r = 1 then 0x170011 else snd d r, (r, snd d))" for r d
    by (cases d) (simp add: ioapic_read_def chip_sample_def)
  show ?thesis unfolding ioapic_chip_def w r by (auto simp: sample_entry_def pin_reg_inj)
qed

theorem ioapic_set_up_witness:
  "let d = setup_ioapic chip_sample (\<lambda>_. 0) [] (0, \<lambda>_. 0) 0 in
     sample_entry d 1 = 0x21 \<and> sample_entry d 4 = 0x10024 \<and> bit (sample_entry d 4) 16"
proof -
  have b: "ioapic_base (\<lambda>_. 0) 0 = PHYSICAL_BASE_ADDRESS" "madt_gsib (\<lambda>_. 0) 0 = 0"
    by (simp_all add: ioapic_base_def madt_gsib_def read32_def)
  have c: "ioapic_chip chip_sample (ioapic_base (\<lambda>_. 0) 0) 24 sample_entry" unfolding b(1) by (rule chip_sample_ok)
  from ioapic_set_up [OF c _ b(2), of 1 "[]" "(0, \<lambda>_. 0)"] ioapic_set_up [OF c _ b(2), of 4 "[]" "(0, \<lambda>_. 0)"]
  show ?thesis by (simp add: Let_def route_def redirection_def MASKED_def)
qed

end
