(* ===== verification/Hpet.thy ===== *)
theory Hpet
  imports Acpi Devices
begin

text \<open>
  \<^verbatim>\<open>kernel/drivers/hpet.cpp\<close>: the timer whose counter the kernel reads to wait. The state of the driver is the address of the
  registers and the length of a tick in femtoseconds.
\<close>

definition MILISECOND_IN_FEMTOSECONDS :: u64 where "MILISECOND_IN_FEMTOSECONDS = 1000000000000"

record khpet =
  hpet_addr :: u64
  clock :: u32

text \<open>The address of the registers is at offset 44 of the table; of the registers the driver uses the capabilities (0), the
  configuration (16) and the counter (240).\<close>

definition hpet_init :: "'d hw \<Rightarrow> mem \<Rightarrow> u64 \<Rightarrow> 'd \<Rightarrow> (khpet \<times> 'd) option" where
  "hpet_init io m rsdt d = do {
     table \<leftarrow> find_table m rsdt (cstr ''HPET'');
     if table = 0 then None
     else do {
       let hpet = read64 m (table + 44) + PHYSICAL_BASE_ADDRESS;
       let (capabilities, d) = fetch64 io hpet d;
       Some (\<lparr>hpet_addr = hpet, clock = ucast (drop_bit 32 capabilities)\<rparr>, store64 io (hpet + 16) 1 d)
     }
   }"

definition main_counter :: "'d hw \<Rightarrow> khpet \<Rightarrow> 'd \<Rightarrow> u64 \<times> 'd" where
  "main_counter io h d = fetch64 io (hpet_addr h + 240) d"

text \<open>Division by a tick of length 0 traps.\<close>

definition hpet_sleep :: "'d hw \<Rightarrow> khpet \<Rightarrow> u64 \<Rightarrow> 'd \<Rightarrow> 'd option" where
  "hpet_sleep io h ms d =
     (let (now, d) = main_counter io h d in
      if clock h = 0 then None
      else let target = now + (ms * MILISECOND_IN_FEMTOSECONDS) div ucast (clock h)
        in wait_until (\<lambda>d. let (v, d) = main_counter io h d in (\<not> v < target, d)) d)"

section \<open>Sleeping long enough\<close>

text \<open>The counter of the chip: \<open>tick d\<close> is the number of ticks since it was started. It never goes back, moves on after some
  number of reads, and by at most \<open>jump\<close> from one read to the next.\<close>

definition counter_chip :: "'d hw \<Rightarrow> khpet \<Rightarrow> ('d \<Rightarrow> nat) \<Rightarrow> nat \<Rightarrow> bool" where
  "counter_chip io h tick jump \<longleftrightarrow> (\<forall>d. fst (main_counter io h d) = of_nat (tick d) \<and>
     tick d \<le> tick (snd (main_counter io h d)) \<and> tick (snd (main_counter io h d)) \<le> tick d + jump \<and>
     (\<exists>n. tick d < tick (after_polls (main_counter io h) n d)))"

lemma counter_reaches:
  assumes "counter_chip io h tick jump"
  shows "\<exists>n. T \<le> tick (after_polls (main_counter io h) n d)"
proof (induction T)
  case (Suc T)
  then obtain n where n: "T \<le> tick (after_polls (main_counter io h) n d)" by blast
  obtain k where "tick (after_polls (main_counter io h) n d) < tick (after_polls (main_counter io h) k (after_polls (main_counter io h) n d))"
    using assms unfolding counter_chip_def by blast
  then show ?case using n by (intro exI [of _ "n + k"]) (simp add: after_polls_add)
qed simp

text \<open>The first read at or past \<open>T\<close> does not overshoot it by more than a jump.\<close>

lemma counter_first:
  assumes c: "counter_chip io h tick jump" and d: "tick d \<le> T + jump"
  obtains n where "T \<le> tick (after_polls (main_counter io h) n d)" "tick (after_polls (main_counter io h) n d) \<le> T + jump"
    "\<forall>k < n. tick (after_polls (main_counter io h) k d) < T"
proof -
  let ?t = "\<lambda>n. tick (after_polls (main_counter io h) n d)"
  define n where "n = (LEAST n. T \<le> ?t n)"
  have n: "T \<le> ?t n" unfolding n_def using counter_reaches [OF c] by (rule LeastI_ex)
  have before: "\<forall>k < n. ?t k < T" unfolding n_def using not_less_Least not_le by blast
  have "?t n \<le> T + jump"
  proof (cases n)
    case (Suc k)
    have "?t (Suc k) \<le> ?t k + jump" using c unfolding counter_chip_def by (metis after_polls_snd)
    then show ?thesis using Suc before by auto
  qed (use d in simp)
  then show thesis using that n before by blast
qed

lemma sleep_returns:
  assumes c: "counter_chip io h tick jump" and h: "clock h \<noteq> 0" and ms: "unat ms * 10 ^ 12 < 2 ^ 64"
    and room: "tick d + unat ms * 10 ^ 12 div unat (clock h) + jump < 2 ^ 64"
  shows "\<exists>d'. hpet_sleep io h ms d = Some d' \<and> tick d + unat ms * 10 ^ 12 div unat (clock h) \<le> tick d'"
proof -
  let ?D = "unat ms * 10 ^ 12 div unat (clock h)"
  let ?T = "tick d + ?D"
  define d1 where "d1 = snd (main_counter io h d)"
  have d1: "main_counter io h d = (of_nat (tick d), d1)" "tick d1 \<le> ?T + jump"
    using c by (auto simp: counter_chip_def d1_def prod_eq_iff intro: order_trans)
  define poll where "poll = (\<lambda>d. let (v, d) = main_counter io h d in (\<not> v < of_nat ?T, d))"
  have poll: "fst (poll e) \<longleftrightarrow> \<not> of_nat (tick e) < (of_nat ?T :: u64)" "snd (poll e) = snd (main_counter io h e)" for e
    using c by (auto simp: poll_def counter_chip_def split: prod.splits) (metis fst_conv)+
  have polls: "after_polls poll k d1 = after_polls (main_counter io h) k d1" for k by (rule after_polls_cong) (rule poll(2))
  obtain n where n: "?T \<le> tick (after_polls poll n d1)" "tick (after_polls poll n d1) \<le> ?T + jump" "\<forall>k < n. tick (after_polls poll k d1) < ?T"
    using counter_first [OF c d1(2)] unfolding polls by blast
  have less: "(of_nat x :: u64) < of_nat ?T \<longleftrightarrow> x < ?T" if "x \<le> ?T + jump" for x
    using unat_of_nat64 [of x] unat_of_nat64 [of ?T] that room by (simp add: word_less_nat_alt)
  have ready: "fst (poll e) \<longleftrightarrow> \<not> tick e < ?T" if "tick e \<le> ?T + jump" for e using less [OF that] poll(1) by blast
  have "wait_until poll d1 = Some (after_polls poll (Suc n) d1)"
  proof (rule wait_until_first)
    show "fst (poll (after_polls poll n d1))" using ready [OF n(2)] n(1) by simp
    show "\<forall>k < n. \<not> fst (poll (after_polls poll k d1))"
    proof (intro allI impI)
      fix k assume "k < n"
      then have "tick (after_polls poll k d1) < ?T" using n(3) by blast
      then show "\<not> fst (poll (after_polls poll k d1))" using ready [of "after_polls poll k d1"] by simp
    qed
  qed
  moreover have "tick (after_polls poll n d1) \<le> tick (after_polls poll (Suc n) d1)"
    using c unfolding counter_chip_def by (metis after_polls_snd poll(2))
  moreover have "ms * MILISECOND_IN_FEMTOSECONDS div ucast (clock h) = of_nat ?D"
  proof -
    have "unat (ms * MILISECOND_IN_FEMTOSECONDS) = unat ms * 10 ^ 12"
      using ms by (simp add: MILISECOND_IN_FEMTOSECONDS_def unat_mult_lem [THEN iffD1])
    moreover have "unat (ucast w :: u64) = unat w" for w :: u32 by transfer (simp add: take_bit_nat_eq_self_iff)
    ultimately show ?thesis by (metis unat_div word_unat_eq_iff of_nat_unat ucast_id)
  qed
  ultimately show ?thesis using h n(1) d1(1) unfolding hpet_sleep_def
    by (intro exI [of _ "after_polls poll (Suc n) d1"]) (simp add: Let_def poll_def)
qed

text \<open>C31: \<open>sleep\<close> comes back, and not before the time is over: with a counter that goes on, the ticks that have passed are,
  up to one tick, at least the milliseconds asked for. Assumed is that neither the product in femtoseconds nor the
  counter overflows 64 bits on the way.\<close>

theorem hpet_sleep_long_enough:
  assumes "counter_chip io h tick jump" "clock h \<noteq> 0" "unat ms * 10 ^ 12 < 2 ^ 64"
    and "tick d + unat ms * 10 ^ 12 div unat (clock h) + jump < 2 ^ 64"
  shows "\<exists>d'. hpet_sleep io h ms d = Some d' \<and> unat ms * 10 ^ 12 < (tick d' - tick d + 1) * unat (clock h)"
proof -
  let ?D = "unat ms * 10 ^ 12 div unat (clock h)"
  obtain d' where d': "hpet_sleep io h ms d = Some d'" "tick d + ?D \<le> tick d'" using sleep_returns [OF assms] by blast
  have "0 < unat (clock h)" using assms(2) by (simp add: unat_gt_0)
  then have "unat ms * 10 ^ 12 < (?D + 1) * unat (clock h)" by (metis add.commute dividend_less_times_div mult.commute plus_1_eq_Suc mult_Suc_right mult_Suc)
  also have "\<dots> \<le> (tick d' - tick d + 1) * unat (clock h)" using d'(2) by (intro mult_le_mono1) simp
  finally show ?thesis using d'(1) by blast
qed

definition counter_sample :: "nat hw" where
  "counter_sample = \<lparr>store32 = (\<lambda>a v d. d), fetch32 = (\<lambda>a d. (0, d)), store64 = (\<lambda>a v d. d), fetch64 = (\<lambda>a d. (of_nat d, Suc d)),
     outb = (\<lambda>p v d. d), inb = (\<lambda>p d. (0, d)), outl = (\<lambda>p v d. d), inl = (\<lambda>p d. (0, d))\<rparr>"

theorem hpet_sleep_long_enough_witness:
  "\<exists>d'. hpet_sleep counter_sample \<lparr>hpet_addr = 0, clock = 10000000\<rparr> 500 (0 :: nat) = Some d' \<and> 500 * 10 ^ 12 < (d' + 1) * 10000000"
proof -
  let ?h = "\<lparr>hpet_addr = 0, clock = 10000000\<rparr>"
  have "after_polls (main_counter counter_sample ?h) (Suc 0) d = Suc d" for d by (simp add: main_counter_def counter_sample_def)
  then have "counter_chip counter_sample ?h (\<lambda>d. d) 1"
    unfolding counter_chip_def by (auto simp: main_counter_def counter_sample_def intro: exI [of _ "Suc 0"])
  from hpet_sleep_long_enough [OF this, of 500 0] show ?thesis by simp
qed

end
