(* ===== verification/Ports.thy ===== *)
theory Ports
  imports Devices Strings
begin

text \<open>
  Drivers that work through ports only: the serial line (\<^verbatim>\<open>kernel/drivers/serial.cpp\<close>) with \<open>log\<close> of
  \<^verbatim>\<open>kernel/utils.cpp\<close>, and PCI configuration space (\<^verbatim>\<open>kernel/pci.cpp\<close>).
\<close>

section \<open>The serial line\<close>

definition COM1 :: u16 where "COM1 = 0x3f8"

definition serial_init :: "'d hw \<Rightarrow> 'd \<Rightarrow> 'd" where
  "serial_init io d = foldl (\<lambda>d (port, v). outb io port v d) d
     [(COM1 + 1, 0x00), (COM1 + 3, 0x80), (COM1 + 0, 0x03), (COM1 + 1, 0x00), (COM1 + 3, 0x03), (COM1 + 2, 0xC7), (COM1 + 4, 0x0B)]"

definition is_transmit_empty :: "'d hw \<Rightarrow> 'd \<Rightarrow> u8 \<times> 'd" where
  "is_transmit_empty io d = (let (v, d) = inb io (COM1 + 5) d in (v AND 0x20, d))"

definition transmitter_ready :: "'d hw \<Rightarrow> 'd \<Rightarrow> bool \<times> 'd" where
  "transmitter_ready io d = (let (v, d) = is_transmit_empty io d in (v \<noteq> 0, d))"

definition send_char :: "'d hw \<Rightarrow> u8 \<Rightarrow> 'd \<Rightarrow> 'd option" where
  "send_char io c d = do {
     d \<leftarrow> wait_until (transmitter_ready io) d;
     Some (outb io COM1 c d)
   }"

function log_from :: "'d hw \<Rightarrow> cbuf \<Rightarrow> nat \<Rightarrow> 'd \<Rightarrow> 'd option" where
  "log_from io msg i d = (case rd msg i of None \<Rightarrow> None
     | Some c \<Rightarrow> if c = 0 then Some d else (case send_char io c d of None \<Rightarrow> None | Some d \<Rightarrow> log_from io msg (i + 1) d))"
  by pat_completeness auto
termination
  by (relation "measure (\<lambda>(io, msg, i, d). length msg - i)") (auto simp: rd_def split: if_splits)

declare log_from.simps [simp del]

definition log_str :: "'d hw \<Rightarrow> cbuf \<Rightarrow> 'd \<Rightarrow> 'd option" where
  "log_str io msg d = log_from io msg 0 d"

text \<open>The overloads for numbers; \<open>buf\<close> is the buffer of \<open>itoa\<close>.\<close>

definition log_num :: "'d hw \<Rightarrow> u64 \<Rightarrow> u64 \<Rightarrow> cbuf \<times> 'd \<Rightarrow> (cbuf \<times> 'd) option" where
  "log_num io num base bd = do {
     (msg, buf) \<leftarrow> itoa num base (fst bd);
     d \<leftarrow> log_str io msg (snd bd);
     Some (buf, d)
   }"

text \<open>The line: \<open>sent d\<close> is what went out so far. Asking for the status sends nothing, and the transmitter is ready again after some
  number of questions.\<close>

definition serial_chip :: "'d hw \<Rightarrow> ('d \<Rightarrow> u8 list) \<Rightarrow> bool" where
  "serial_chip io sent \<longleftrightarrow> (\<forall>d. sent (snd (inb io (COM1 + 5) d)) = sent d \<and> (\<forall>c. sent (outb io COM1 c d) = sent d @ [c]) \<and>
     (\<exists>n. bit (fst (inb io (COM1 + 5) (after_polls (inb io (COM1 + 5)) n d))) 5))"

lemma send_char_sends:
  assumes c: "serial_chip io sent"
  shows "\<exists>d'. send_char io x d = Some d' \<and> sent d' = sent d @ [x]"
proof -
  let ?in = "inb io (COM1 + 5)"
  have poll: "fst (transmitter_ready io e) \<longleftrightarrow> bit (fst (?in e)) 5" "snd (transmitter_ready io e) = snd (?in e)" for e
    by (auto simp: transmitter_ready_def is_transmit_empty_def bit_iff_and_push_bit_not_eq_0 split: prod.splits)
  have polls: "after_polls (transmitter_ready io) n d = after_polls ?in n d" for n by (rule after_polls_cong) (rule poll(2))
  have same: "sent (after_polls ?in n e) = sent e" for n e
    using c by (induction n arbitrary: e) (auto simp: serial_chip_def)
  obtain n where "fst (transmitter_ready io (after_polls (transmitter_ready io) n d))"
    using c unfolding serial_chip_def poll(1) polls by blast
  from wait_until_returns [of "transmitter_ready io" n d, OF this] obtain k where "wait_until (transmitter_ready io) d = Some (after_polls (transmitter_ready io) (Suc k) d)"
    by blast
  then show ?thesis using c same unfolding serial_chip_def send_char_def polls by simp
qed

lemma log_from_sends:
  assumes "serial_chip io sent" "0 \<notin> set xs"
  shows "\<exists>d'. log_from io (pre @ xs @ 0 # rest) (length pre) d = Some d' \<and> sent d' = sent d @ xs"
  using assms(2)
proof (induction xs arbitrary: pre d)
  case Nil
  then show ?case by (subst log_from.simps) (simp add: rd_def)
next
  case (Cons x xs)
  obtain d1 where d1: "send_char io x d = Some d1" "sent d1 = sent d @ [x]" using send_char_sends [OF assms(1)] by blast
  have "log_from io (pre @ (x # xs) @ 0 # rest) (length pre) d = log_from io ((pre @ [x]) @ xs @ 0 # rest) (length (pre @ [x])) d1"
    using Cons.prems d1(1) by (subst log_from.simps) (auto simp: rd_def)
  then show ?case using Cons.IH [of "pre @ [x]" d1] Cons.prems d1(2) by auto
qed

text \<open>\<open>log\<close> returns and the line has then carried the characters of the message, in order and once each, whatever follows
  the terminator.\<close>

theorem log_sends_message:
  assumes "serial_chip io sent" "0 \<notin> set xs"
  shows "\<exists>d'. log_str io (xs @ 0 # rest) d = Some d' \<and> sent d' = sent d @ xs"
  using log_from_sends [OF assms, of "[]" rest d] by (simp add: log_str_def)

text \<open>A line that is busy every other time.\<close>

definition serial_sample :: "(bool \<times> u8 list) hw" where
  "serial_sample = \<lparr>store32 = (\<lambda>a v d. d), fetch32 = (\<lambda>a d. (0, d)), store64 = (\<lambda>a v d. d), fetch64 = (\<lambda>a d. (0, d)),
     outb = (\<lambda>p v (b, out). (b, out @ [v])), inb = (\<lambda>p (b, out). (if b then 0x20 else 0, (\<not> b, out))), outl = (\<lambda>p v d. d), inl = (\<lambda>p d. (0, d))\<rparr>"

lemma serial_sample_chip: "serial_chip serial_sample snd"
proof -
  have "\<exists>n. bit (fst (inb serial_sample (COM1 + 5) (after_polls (inb serial_sample (COM1 + 5)) n d))) 5" for d
    by (cases d, cases "fst d") (rule exI [of _ 0], simp add: serial_sample_def, rule exI [of _ "Suc 0"], simp add: serial_sample_def)
  then show ?thesis unfolding serial_chip_def by (auto simp: serial_sample_def)
qed

theorem log_sends_message_witness: "\<exists>d'. log_str serial_sample [72, 105, 0, 33] (False, []) = Some d' \<and> snd d' = [72, 105]"
  using log_sends_message [OF serial_sample_chip, of "[72, 105]" "[33]" "(False, [])"] by simp

section \<open>PCI configuration space\<close>

definition CONFIG_ADDR :: u16 where "CONFIG_ADDR = 0xCF8"
definition CONFIG_DATA :: u16 where "CONFIG_DATA = 0xCFC"

definition config_address :: "u8 \<Rightarrow> u8 \<Rightarrow> u8 \<Rightarrow> u8 \<Rightarrow> u32" where
  "config_address bus dev func offset =
     ucast (offset AND 0xFC) OR push_bit 8 (ucast func) OR push_bit 11 (ucast dev) OR push_bit 16 (ucast bus) OR push_bit 31 1"

definition set_address :: "'d hw \<Rightarrow> u8 \<Rightarrow> u8 \<Rightarrow> u8 \<Rightarrow> u8 \<Rightarrow> 'd \<Rightarrow> 'd" where
  "set_address io bus dev func offset d = outl io CONFIG_ADDR (config_address bus dev func offset) d"

definition read_double_word :: "'d hw \<Rightarrow> u8 \<Rightarrow> u8 \<Rightarrow> u8 \<Rightarrow> u8 \<Rightarrow> 'd \<Rightarrow> u32 \<times> 'd" where
  "read_double_word io bus dev func offset d = inl io CONFIG_DATA (set_address io bus dev func offset d)"

definition exists :: "'d hw \<Rightarrow> u8 \<Rightarrow> u8 \<Rightarrow> u8 \<Rightarrow> 'd \<Rightarrow> bool \<times> 'd" where
  "exists io bus dev func d = (let (v, d) = read_double_word io bus dev func 0 d in (v \<noteq> 0xFFFFFFFF, d))"

text \<open>What is found is not recorded.\<close>

definition enumerate_devices :: "'d hw \<Rightarrow> 'd \<Rightarrow> 'd" where
  "enumerate_devices io d =
     foldl (\<lambda>d bus. foldl (\<lambda>d slot. foldl (\<lambda>d func. snd (exists io (of_nat bus) (of_nat slot) (of_nat func) d)) d [0 ..< 8]) d [0 ..< 32]) d [0 ..< 256]"

text \<open>The bridge reads the address register as the bus in bits 16 to 23, the device in bits 11 to 15, the function in bits 8 to 10 and the
  register in bits 2 to 7, and answers when bit 31 is set.\<close>

definition field :: "nat \<Rightarrow> nat \<Rightarrow> u32 \<Rightarrow> nat" where
  "field low width a = unat (take_bit width (drop_bit low a))"

definition pci_bridge :: "'d hw \<Rightarrow> (nat \<Rightarrow> nat \<Rightarrow> nat \<Rightarrow> nat \<Rightarrow> u32) \<Rightarrow> bool" where
  "pci_bridge io config \<longleftrightarrow> (\<forall>a d. bit a 31 \<longrightarrow>
     fst (inl io CONFIG_DATA (outl io CONFIG_ADDR a d)) = config (field 16 8 a) (field 11 5 a) (field 8 3 a) (field 2 6 a))"

lemma small_bits:
  assumes "unat w < 2 ^ n" "n \<le> k"
  shows "\<not> bit (w :: u8) k"
proof -
  have "unat (take_bit n w) = unat w" using assms(1) by (simp add: unsigned_take_bit_eq take_bit_nat_eq_self_iff)
  then have "take_bit n w = w" by (simp only: word_unat_eq_iff)
  then show ?thesis using assms(2) by (metis bit_take_bit_iff not_le)
qed

lemma unat_ucast_u8: "unat (ucast w :: u32) = unat w" for w :: u8
  by transfer (simp add: take_bit_nat_eq_self_iff)

lemma config_fields:
  fixes bus dev func offset :: u8
  assumes "unat dev < 32" "unat func < 8"
  shows "field 16 8 (config_address bus dev func offset) = unat bus" "field 11 5 (config_address bus dev func offset) = unat dev"
    "field 8 3 (config_address bus dev func offset) = unat func" "field 2 6 (config_address bus dev func offset) = unat offset div 4"
    "bit (config_address bus dev func offset) 31"
proof -
  let ?a = "config_address bus dev func offset"
  have dev: "\<not> bit dev k" if "5 \<le> k" for k using small_bits [of dev 5] assms(1) that by simp
  have func: "\<not> bit func k" if "3 \<le> k" for k using small_bits [of func 3] assms(2) that by simp
  have byte: "bit w k \<Longrightarrow> k < 8" for w :: u8 and k using bit_imp_le_length [of w k] by simp
  have "(63 :: int) = mask 6" by (simp add: mask_eq_exp_minus_1)
  then have mask: "bit (63 :: int) k \<longleftrightarrow> k < 6" for k by (simp only: bit_mask_iff) simp
  have "take_bit 8 (drop_bit 16 ?a) = ucast bus" "take_bit 5 (drop_bit 11 ?a) = ucast dev" "take_bit 3 (drop_bit 8 ?a) = ucast func"
    "take_bit 6 (drop_bit 2 ?a) = ucast (drop_bit 2 offset)"
    by (rule bit_word_eqI, auto simp: config_address_def bit_simps dev func mask dest: byte)+
  moreover have "unat (drop_bit 2 offset) = unat offset div 4" by (simp add: drop_bit_eq_div unat_div)
  ultimately show "field 16 8 ?a = unat bus" "field 11 5 ?a = unat dev" "field 8 3 ?a = unat func" "field 2 6 ?a = unat offset div 4"
    by (simp_all add: field_def unat_ucast_u8)
  show "bit ?a 31" by (simp add: config_address_def bit_simps)
qed

text \<open>The configuration of a function is read where it is: for a device below 32 and a function below 8 the bridge answers
  with the aligned register of exactly this bus, device and function.\<close>

theorem pci_reads_register:
  assumes "pci_bridge io config" "unat dev < 32" "unat func < 8"
  shows "fst (read_double_word io bus dev func offset d) = config (unat bus) (unat dev) (unat func) (unat offset div 4)"
  using assms(1) config_fields [OF assms(2,3), of bus offset] by (simp add: pci_bridge_def read_double_word_def set_address_def)

definition bridge_sample :: "u32 hw" where
  "bridge_sample = \<lparr>store32 = (\<lambda>a v d. d), fetch32 = (\<lambda>a d. (0, d)), store64 = (\<lambda>a v d. d), fetch64 = (\<lambda>a d. (0, d)),
     outb = (\<lambda>p v d. d), inb = (\<lambda>p d. (0, d)), outl = (\<lambda>p v d. v),
     inl = (\<lambda>p a. (if field 16 8 a = 2 \<and> field 11 5 a = 3 \<and> field 8 3 a = 1 then of_nat (field 2 6 a) else 0xFFFFFFFF, a))\<rparr>"

theorem pci_reads_register_witness:
  "fst (read_double_word bridge_sample 2 3 1 9 0) = 2 \<and> fst (read_double_word bridge_sample 2 4 1 9 0) = 0xFFFFFFFF"
proof -
  let ?config = "\<lambda>b d f r. if b = 2 \<and> d = 3 \<and> f = 1 then of_nat r else 0xFFFFFFFF"
  have "pci_bridge bridge_sample ?config" by (simp add: pci_bridge_def bridge_sample_def)
  from pci_reads_register [OF this, of 3 1 2 9 0] pci_reads_register [OF this, of 4 1 2 9 0] show ?thesis by simp
qed

end
