(* ===== verification/Format.thy ===== *)
theory Format
  imports Video Ports
begin

text \<open>
  The templates \<open>print\<close> of \<^verbatim>\<open>kernel/video.hpp\<close> and \<open>log\<close> of \<^verbatim>\<open>kernel/utils.hpp\<close>, which are the same code over two ways to put a
  character out, and \<open>__assert\<close>. A locale says what a place for text promises; it is interpreted on the screen and on the
  serial line, and both templates put out the text that the format describes.
\<close>

section \<open>The templates\<close>

datatype print_arg = Num u64 | Text cbuf

text \<open>One call of the template. \<open>put\<close>, \<open>str\<close> and \<open>num\<close> are the functions it calls: for a character, the overload for strings, and the
  overload for a number with a base. With a string for \<open>%d\<close> or \<open>%x\<close> the overload that fits is the template again, with the base as
  the value. The last value is used up by its directive, and what follows is put out as it is.\<close>

function fmt_from :: "(u8 \<Rightarrow> 's \<Rightarrow> 's option) \<Rightarrow> (cbuf \<Rightarrow> 's \<Rightarrow> 's option) \<Rightarrow> (u64 \<Rightarrow> u64 \<Rightarrow> 's \<Rightarrow> 's option) \<Rightarrow>
    cbuf \<Rightarrow> nat \<Rightarrow> print_arg \<Rightarrow> print_arg list \<Rightarrow> 's \<Rightarrow> 's option" where
  "fmt_from put str num msg i value args s = (case rd msg i of None \<Rightarrow> None | Some c \<Rightarrow>
     if c = 0 then Some s
     else if c = 37 then (case rd msg (i + 1) of None \<Rightarrow> None | Some d \<Rightarrow> Option.bind
       (if d = 100 \<or> d = 105 then (case value of Num n \<Rightarrow> num n 10 s | Text t \<Rightarrow> fmt_from put str num t 0 (Num 10) [] s)
        else if d = 115 then (case value of Num n \<Rightarrow> num n 16 s | Text t \<Rightarrow> str t s)
        else if d = 120 then (case value of Num n \<Rightarrow> num n 16 s | Text t \<Rightarrow> fmt_from put str num t 0 (Num 16) [] s)
        else if d = 37 then put 37 s
        else Some s)
       (\<lambda>s. case args of [] \<Rightarrow> str (drop (i + 2) msg) s | a # as \<Rightarrow> fmt_from put str num (drop (i + 2) msg) 0 a as s))
     else Option.bind (put c s) (fmt_from put str num msg (i + 1) value args))"
  by pat_completeness auto
termination
  by (relation "measures [\<lambda>(put, str, num, msg, i, value, args, s). length (filter (\<lambda>a. case a of Num _ \<Rightarrow> False | Text _ \<Rightarrow> True) (value # args)),
      \<lambda>(put, str, num, msg, i, value, args, s). length args, \<lambda>(put, str, num, msg, i, value, args, s). length msg - i]")
    (auto simp: rd_def split: if_splits print_arg.splits)

declare fmt_from.simps [simp del]

text \<open>Both work on the buffer of \<open>itoa\<close> and on their own state.\<close>

definition put_screen :: "(u64 \<Rightarrow> u8) \<Rightarrow> u8 \<Rightarrow> cbuf \<times> 'a kscreen_scheme \<Rightarrow> (cbuf \<times> 'a kscreen_scheme) option" where
  "put_screen font c bs = Some (fst bs, print_char font c 0xffffff (snd bs))"

definition str_screen :: "(u64 \<Rightarrow> u8) \<Rightarrow> cbuf \<Rightarrow> cbuf \<times> 'a kscreen_scheme \<Rightarrow> (cbuf \<times> 'a kscreen_scheme) option" where
  "str_screen font t bs = map_option (Pair (fst bs)) (print_str font t (snd bs))"

definition print_fmt :: "(u64 \<Rightarrow> u8) \<Rightarrow> cbuf \<Rightarrow> print_arg \<Rightarrow> print_arg list \<Rightarrow> cbuf \<times> 'a kscreen_scheme \<Rightarrow> (cbuf \<times> 'a kscreen_scheme) option" where
  "print_fmt font msg value args bs = fmt_from (put_screen font) (str_screen font) (print_num font) msg 0 value args bs"

definition put_line :: "'d hw \<Rightarrow> u8 \<Rightarrow> cbuf \<times> 'd \<Rightarrow> (cbuf \<times> 'd) option" where
  "put_line io c bd = map_option (Pair (fst bd)) (send_char io c (snd bd))"

definition str_line :: "'d hw \<Rightarrow> cbuf \<Rightarrow> cbuf \<times> 'd \<Rightarrow> (cbuf \<times> 'd) option" where
  "str_line io t bd = map_option (Pair (fst bd)) (log_str io t (snd bd))"

definition log_fmt :: "'d hw \<Rightarrow> cbuf \<Rightarrow> print_arg \<Rightarrow> print_arg list \<Rightarrow> cbuf \<times> 'd \<Rightarrow> (cbuf \<times> 'd) option" where
  "log_fmt io msg value args bd = fmt_from (put_line io) (str_line io) (log_num io) msg 0 value args bd"

section \<open>Numbers as text\<close>

definition shown_num :: "u64 \<Rightarrow> u64 \<Rightarrow> u8 list" where
  "shown_num base n = (if n = 0 then [48] else (if base = 16 then [48, 120] else []) @ map digit_char (rev (digits (unat base) (unat n))))"

definition printable :: "u64 \<Rightarrow> u64 \<Rightarrow> bool" where
  "printable base n \<longleftrightarrow> base = 16 \<or> base = 10 \<and> unat n < 10 ^ 19"

lemma digit_char_nonzero:
  assumes "d < 16"
  shows "digit_char d \<noteq> 0"
proof
  assume "digit_char d = 0"
  then have "of_nat (if d \<le> 9 then d + 48 else d - 10 + 65) = (0 :: u8)" by (simp add: digit_char_def split: if_splits)
  then have "256 dvd (if d \<le> 9 then d + 48 else d - 10 + 65)" by (simp only: word_of_nat_eq_0_iff) simp
  then show False using assms by (auto dest!: dvd_imp_le split: if_splits)
qed

lemma shown_num_nonzero: "printable base n \<Longrightarrow> 0 \<notin> set (shown_num base n)"
  by (auto simp: shown_num_def printable_def dest!: digits_less digit_char_nonzero [OF order_less_le_trans])

lemma itoa_hex:
  assumes "number \<noteq> 0" "length buf = 20"
  obtains rest where "itoa number 16 buf = Some (shown_num 16 number @ 0 # rest, shown_num 16 number @ 0 # rest)"
    "length (shown_num 16 number @ 0 # rest) = 20"
proof -
  let ?ds = "digits 16 (unat number)"
  have "unat number < 16 ^ 16" using unat_u64_less [of number] by simp
  then have len: "length ?ds \<le> 16" using digits_length [of 16 "unat number" 16] by simp
  obtain b0 b1 bs where b: "buf = b0 # b1 # bs" "length bs = 18" using assms(2) by (cases buf; cases "tl buf") auto
  obtain r rest where r: "drop (length ?ds) bs = r # rest" using len b(2) by (cases "drop (length ?ds) bs") auto
  have run: "itoa_digits 16 (unat number) 2 (48 # 120 # bs) = Some (2 + length ?ds, [48, 120] @ map digit_char ?ds @ r # rest)"
    using itoa_digits_run [of 16 "unat number" bs "[48, 120]"] len b(2) r by (simp add: numeral_2_eq_2)
  have rev: "reverse_loop 2 (2 + length ?ds - 1) ([48, 120] @ map digit_char ?ds @ r # rest) = [48, 120] @ map digit_char (rev ?ds) @ r # rest"
    using reverse_loop_rev [of "[48, 120]" "map digit_char ?ds" "r # rest"] by (simp add: rev_map numeral_2_eq_2)
  have "itoa number 16 buf = Some (shown_num 16 number @ 0 # rest, shown_num 16 number @ 0 # rest)"
    using assms(1) run rev by (simp add: itoa_def wr_def shown_num_def b(1) list_update_append)
  moreover have "length (shown_num 16 number @ 0 # rest) = 20"
    using arg_cong [OF r, of length] len b(2) assms(1) by (simp add: shown_num_def)
  ultimately show thesis by (rule that)
qed

lemma itoa_shows:
  assumes "printable base n" "length buf = 20"
  shows "\<exists>rest buf'. itoa n base buf = Some (shown_num base n @ 0 # rest, buf') \<and> length buf' = 20"
proof (cases "n = 0")
  case True
  then show ?thesis using assms by (simp add: itoa_def shown_num_def)
next
  case False
  consider "base = 16" | "base = 10" "unat n < 10 ^ 19" using assms(1) by (auto simp: printable_def)
  then show ?thesis
  proof cases
    case 1
    then show ?thesis using itoa_hex [OF False assms(2)] by metis
  next
    case 2
    have "shown_num 10 n = map digit_char (rev (digits 10 (unat n)))" using False by (simp add: shown_num_def)
    then show ?thesis using 2 itoa_decimal [OF False 2(2) assms(2)] by metis
  qed
qed

section \<open>Formats\<close>

text \<open>A format as it should be read: literals, each followed by a directive and its value, and a tail.\<close>

datatype piece = Dec u64 | Hex u64 | Str "u8 list"

fun letter :: "piece \<Rightarrow> u8" where
  "letter (Dec n) = 100"
| "letter (Hex n) = 120"
| "letter (Str t) = 115"

fun arg_of :: "piece \<Rightarrow> print_arg" where
  "arg_of (Dec n) = Num n"
| "arg_of (Hex n) = Num n"
| "arg_of (Str t) = Text (t @ [0])"

fun piece_text :: "piece \<Rightarrow> u8 list" where
  "piece_text (Dec n) = shown_num 10 n"
| "piece_text (Hex n) = shown_num 16 n"
| "piece_text (Str t) = t"

fun piece_ok :: "piece \<Rightarrow> bool" where
  "piece_ok (Dec n) = (unat n < 10 ^ 19)"
| "piece_ok (Hex n) = True"
| "piece_ok (Str t) = (0 \<notin> set t)"

definition format_src :: "(u8 list \<times> piece) list \<Rightarrow> u8 list" where
  "format_src ps = concat (map (\<lambda>(l, p). l @ [37, letter p]) ps)"

definition format_text :: "(u8 list \<times> piece) list \<Rightarrow> u8 list" where
  "format_text ps = concat (map (\<lambda>(l, p). l @ piece_text p) ps)"

definition format_ok :: "(u8 list \<times> piece) list \<Rightarrow> bool" where
  "format_ok ps \<longleftrightarrow> (\<forall>(l, p) \<in> set ps. 0 \<notin> set l \<and> 37 \<notin> set l \<and> piece_ok p)"

locale text_sink =
  fixes put :: "u8 \<Rightarrow> 's \<Rightarrow> 's option" and str :: "cbuf \<Rightarrow> 's \<Rightarrow> 's option" and num :: "u64 \<Rightarrow> u64 \<Rightarrow> 's \<Rightarrow> 's option"
    and ready :: "'s \<Rightarrow> bool" and out :: "'s \<Rightarrow> u8 list \<Rightarrow> 's \<Rightarrow> bool"
  assumes put_out: "ready s \<Longrightarrow> \<exists>s'. put c s = Some s' \<and> ready s' \<and> out s [c] s'"
    and str_out: "ready s \<Longrightarrow> 0 \<notin> set t \<Longrightarrow> \<exists>s'. str (t @ 0 # r) s = Some s' \<and> ready s' \<and> out s t s'"
    and num_out: "ready s \<Longrightarrow> printable base n \<Longrightarrow> \<exists>s'. num n base s = Some s' \<and> ready s' \<and> out s (shown_num base n) s'"
    and out_nil: "out s [] s"
    and out_trans: "out s t s' \<Longrightarrow> out s' u s'' \<Longrightarrow> out s (t @ u) s''"
begin

lemma fmt_literal:
  assumes "ready s" "0 \<notin> set l" "37 \<notin> set l"
  shows "\<exists>s'. ready s' \<and> out s l s' \<and>
    fmt_from put str num (pre @ l @ rest) (length pre) a as s = fmt_from put str num (pre @ l @ rest) (length pre + length l) a as s'"
  using assms
proof (induction l arbitrary: pre s)
  case Nil
  then show ?case using out_nil by auto
next
  case (Cons c l)
  obtain s1 where s1: "put c s = Some s1" "ready s1" "out s [c] s1" using put_out Cons.prems(1) by blast
  obtain s' where s': "ready s'" "out s1 l s'"
    "fmt_from put str num ((pre @ [c]) @ l @ rest) (length (pre @ [c])) a as s1 =
     fmt_from put str num ((pre @ [c]) @ l @ rest) (length (pre @ [c]) + length l) a as s'"
    using Cons.IH [OF s1(2), of "pre @ [c]"] Cons.prems by auto
  have "fmt_from put str num (pre @ (c # l) @ rest) (length pre) a as s = fmt_from put str num ((pre @ [c]) @ l @ rest) (length (pre @ [c])) a as s1"
    using Cons.prems s1(1) by (subst fmt_from.simps) auto
  then show ?case using s' out_trans [OF s1(3) s'(2)] by auto
qed

lemma fmt_literal_start:
  assumes "ready s" "0 \<notin> set l" "37 \<notin> set l"
  obtains s' where "ready s'" "out s l s'" "fmt_from put str num (l @ rest) 0 a as s = fmt_from put str num (l @ rest) (length l) a as s'"
proof -
  obtain s' where "ready s' \<and> out s l s' \<and> fmt_from put str num (l @ rest) 0 a as s = fmt_from put str num (l @ rest) (length l) a as s'"
    using fmt_literal [OF assms, of "[]" rest a as] by auto
  then show thesis using that [of s'] by simp
qed

lemma piece_out:
  assumes "ready s" "piece_ok p"
  obtains s' where "ready s'" "out s (piece_text p) s'"
    "\<And>pre rest a as. fmt_from put str num (pre @ 37 # letter p # rest) (length pre) (arg_of p) (a # as) s = fmt_from put str num rest 0 a as s'"
    "\<And>pre rest. fmt_from put str num (pre @ 37 # letter p # rest) (length pre) (arg_of p) [] s = str rest s'"
proof -
  have rd: "rd (pre @ 37 # c # rest) (Suc (length pre)) = Some c" for pre rest and c :: u8 by (simp add: rd_def nth_append)
  show thesis
  proof (cases p)
    case (Dec n)
    obtain s' where "num n 10 s = Some s'" "ready s'" "out s (shown_num 10 n) s'" using num_out [OF assms(1), of 10 n] assms(2) Dec by (auto simp: printable_def)
    then show thesis using Dec by (intro that [of s']) (simp_all add: fmt_from.simps [of put str num "_ @ _"] rd)
  next
    case (Hex n)
    obtain s' where "num n 16 s = Some s'" "ready s'" "out s (shown_num 16 n) s'" using num_out [OF assms(1), of 16 n] by (auto simp: printable_def)
    then show thesis using Hex by (intro that [of s']) (simp_all add: fmt_from.simps [of put str num "_ @ _"] rd)
  next
    case (Str t)
    obtain s' where "str (t @ 0 # []) s = Some s'" "ready s'" "out s t s'" using str_out [OF assms(1), of t "[]"] assms(2) Str by auto
    then show thesis using Str by (intro that [of s']) (simp_all add: fmt_from.simps [of put str num "_ @ _"] rd)
  qed
qed

lemma fmt_puts_text:
  assumes "ready s" "format_ok ((l, p) # ps)" "0 \<notin> set tail"
  shows "\<exists>s'. fmt_from put str num (format_src ((l, p) # ps) @ tail @ 0 # rest) 0 (arg_of p) (map (arg_of \<circ> snd) ps) s = Some s' \<and>
    ready s' \<and> out s (format_text ((l, p) # ps) @ tail) s'"
  using assms
proof (induction ps arbitrary: l p s)
  case Nil
  then have ok: "0 \<notin> set l" "37 \<notin> set l" "piece_ok p" by (simp_all add: format_ok_def)
  obtain s1 where s1: "ready s1" "out s l s1"
    "fmt_from put str num (l @ 37 # letter p # tail @ 0 # rest) 0 (arg_of p) [] s = fmt_from put str num (l @ 37 # letter p # tail @ 0 # rest) (length l) (arg_of p) [] s1"
    by (rule fmt_literal_start [OF Nil.prems(1) ok(1,2)]) (rule that)
  obtain s2 where s2: "ready s2" "out s1 (piece_text p) s2"
    "fmt_from put str num (l @ 37 # letter p # tail @ 0 # rest) (length l) (arg_of p) [] s1 = str (tail @ 0 # rest) s2"
    using piece_out [OF s1(1) ok(3)] by metis
  obtain s3 where s3: "str (tail @ 0 # rest) s2 = Some s3" "ready s3" "out s2 tail s3" using str_out [OF s2(1) Nil.prems(3)] by blast
  show ?case using s1(3) s2(3) s3 out_trans [OF out_trans [OF s1(2) s2(2)] s3(3)] by (simp add: format_src_def format_text_def)
next
  case (Cons q ps)
  obtain l' p' where q: "q = (l', p')" by (cases q)
  have ok: "0 \<notin> set l" "37 \<notin> set l" "piece_ok p" "format_ok ((l', p') # ps)" using Cons.prems(2) q by (auto simp: format_ok_def)
  let ?rest = "format_src ((l', p') # ps) @ tail @ 0 # rest" and ?as = "map (arg_of \<circ> snd) ps"
  obtain s1 where s1: "ready s1" "out s l s1"
    "fmt_from put str num (l @ 37 # letter p # ?rest) 0 (arg_of p) (arg_of p' # ?as) s = fmt_from put str num (l @ 37 # letter p # ?rest) (length l) (arg_of p) (arg_of p' # ?as) s1"
    by (rule fmt_literal_start [OF Cons.prems(1) ok(1,2)]) (rule that)
  obtain s2 where s2: "ready s2" "out s1 (piece_text p) s2"
    "fmt_from put str num (l @ 37 # letter p # ?rest) (length l) (arg_of p) (arg_of p' # ?as) s1 = fmt_from put str num ?rest 0 (arg_of p') ?as s2"
    using piece_out [OF s1(1) ok(3)] by metis
  obtain s3 where s3: "fmt_from put str num ?rest 0 (arg_of p') ?as s2 = Some s3" "ready s3" "out s2 (format_text ((l', p') # ps) @ tail) s3"
    using Cons.IH [OF s2(1) ok(4) Cons.prems(3)] by blast
  have src: "format_src ((l, p) # q # ps) @ tail @ 0 # rest = l @ 37 # letter p # ?rest" by (simp add: format_src_def q)
  have txt_eq: "format_text ((l, p) # q # ps) @ tail = (l @ piece_text p) @ format_text ((l', p') # ps) @ tail" by (simp add: format_text_def q)
  show ?case unfolding src txt_eq using s1(3) s2(3) s3 out_trans [OF out_trans [OF s1(2) s2(2)] s3(3)] by (simp add: q comp_def)
qed

end

section \<open>The screen and the line\<close>

text \<open>What \<open>print\<close> leaves on the screen: the characters one after the other.\<close>

definition shows_text :: "(u64 \<Rightarrow> u8) \<Rightarrow> cbuf \<times> 'a kscreen_scheme \<Rightarrow> u8 list \<Rightarrow> cbuf \<times> 'a kscreen_scheme \<Rightarrow> bool" where
  "shows_text font bs t bs' \<longleftrightarrow> snd bs' = foldl (\<lambda>s c. print_char font c 0xffffff s) (snd bs) t"

lemma print_from_text:
  "0 \<notin> set t \<Longrightarrow> print_from font (pre @ t @ 0 # r) (length pre) s = Some (foldl (\<lambda>s c. print_char font c 0xffffff s) s t)"
proof (induction t arbitrary: pre s)
  case (Cons c t)
  have "print_from font (pre @ (c # t) @ 0 # r) (length pre) s = print_from font ((pre @ [c]) @ t @ 0 # r) (length (pre @ [c])) (print_char font c 0xffffff s)"
    using Cons.prems by (subst print_from.simps) auto
  then show ?case using Cons.IH [of "pre @ [c]"] Cons.prems by simp
qed (simp add: print_from.simps)

lemma print_str_text: "0 \<notin> set t \<Longrightarrow> print_str font (t @ 0 # r) s = Some (foldl (\<lambda>s c. print_char font c 0xffffff s) s t)"
  using print_from_text [of t font "[]" r s] by (simp add: print_str_def)

interpretation screen: text_sink "put_screen font" "str_screen font" "print_num font" "\<lambda>bs. length (fst bs) = 20" "shows_text font"
proof unfold_locales
  fix s :: "cbuf \<times> 'a kscreen_scheme" and base n
  assume s: "length (fst s) = 20" and p: "printable base n"
  obtain rest buf' where "itoa n base (fst s) = Some (shown_num base n @ 0 # rest, buf')" "length buf' = 20" using itoa_shows [OF p s] by blast
  then show "\<exists>s'. print_num font n base s = Some s' \<and> length (fst s') = 20 \<and> shows_text font s (shown_num base n) s'"
    by (simp add: print_num_def shows_text_def print_str_text [OF shown_num_nonzero [OF p]])
qed (auto simp: put_screen_def str_screen_def shows_text_def print_str_text)

text \<open>C35: \<open>print\<close> with arguments puts the text of its format on the screen: the literals as they stand, each value in the base of its
  directive or as its string, and the tail; with one directive for every value, values in base ten below ten to the nineteenth,
  and no percent sign in a literal.\<close>

theorem print_fmt_shows:
  assumes "length buf = 20" "format_ok ((l, p) # ps)" "0 \<notin> set tail"
  shows "\<exists>buf'. print_fmt font (format_src ((l, p) # ps) @ tail @ 0 # rest) (arg_of p) (map (arg_of \<circ> snd) ps) (buf, s) =
    Some (buf', foldl (\<lambda>s c. print_char font c 0xffffff s) s (format_text ((l, p) # ps) @ tail)) \<and> length buf' = 20"
  using screen.fmt_puts_text [of "(buf, s)" l p ps tail font rest] assms by (auto simp: print_fmt_def shows_text_def)

theorem print_fmt_shows_witness:
  "\<forall>font (s :: kscreen). \<exists>buf'. print_fmt font (cstr ''CR2: %x, %d.'') (Num 0xB8) [Num 42] (replicate 20 0, s) =
    Some (buf', foldl (\<lambda>s c. print_char font c 0xffffff s) s (ascii ''CR2: 0xB8, 42.''))"
proof (intro allI)
  fix font :: "u64 \<Rightarrow> u8" and s :: kscreen
  let ?p = "(ascii ''CR2: '', Hex 0xB8)" and ?ps = "[(ascii '', '', Dec 42)]"
  have "digits 16 184 = [8, 11]" "digits 10 42 = [2, 4]" by (simp_all add: digits.simps)
  then have "format_text (?p # ?ps) @ ascii ''.'' = ascii ''CR2: 0xB8, 42.''"
    by (simp add: format_text_def shown_num_def ascii_def digit_char_def)
  moreover have "format_ok (?p # ?ps)" by (simp add: format_ok_def ascii_def)
  moreover have "format_src (?p # ?ps) @ ascii ''.'' @ 0 # [] = cstr ''CR2: %x, %d.''" by (simp add: format_src_def cstr_def ascii_def)
  ultimately show "\<exists>buf'. print_fmt font (cstr ''CR2: %x, %d.'') (Num 0xB8) [Num 42] (replicate 20 0, s) =
      Some (buf', foldl (\<lambda>s c. print_char font c 0xffffff s) s (ascii ''CR2: 0xB8, 42.''))"
    using print_fmt_shows [of "replicate 20 0" "fst ?p" "snd ?p" ?ps "ascii ''.''" font "[]" s] by (auto simp: ascii_def)
qed

lemma serial_sink:
  assumes "serial_chip io sent"
  shows "text_sink (put_line io) (str_line io) (log_num io) (\<lambda>bd. length (fst bd) = 20) (\<lambda>bd t bd'. sent (snd bd') = sent (snd bd) @ t)"
proof
  have log: "\<exists>d'. log_str io (t @ 0 # r) d = Some d' \<and> sent d' = sent d @ t" if "0 \<notin> set t" for t r d
    using log_from_sends [OF assms that, of "[]" r d] by (simp add: log_str_def)
  show "\<exists>s'. put_line io c s = Some s' \<and> length (fst s') = 20 \<and> sent (snd s') = sent (snd s) @ [c]" if "length (fst s) = 20" for s c
    using send_char_sends [OF assms, of c "snd s"] that by (auto simp: put_line_def)
  show "\<exists>s'. str_line io (t @ 0 # r) s = Some s' \<and> length (fst s') = 20 \<and> sent (snd s') = sent (snd s) @ t" if "length (fst s) = 20" "0 \<notin> set t" for s t r
    using log [OF that(2), of r "snd s"] that(1) by (auto simp: str_line_def)
  show "\<exists>s'. log_num io n base s = Some s' \<and> length (fst s') = 20 \<and> sent (snd s') = sent (snd s) @ shown_num base n"
    if s: "length (fst s) = 20" and p: "printable base n" for s base n
  proof -
    obtain rest buf' where b: "itoa n base (fst s) = Some (shown_num base n @ 0 # rest, buf')" "length buf' = 20" using itoa_shows [OF p s] by blast
    obtain d where d: "log_str io (shown_num base n @ 0 # rest) (snd s) = Some d" "sent d = sent (snd s) @ shown_num base n"
      using log [OF shown_num_nonzero [OF p]] by blast
    show ?thesis using b d by (simp add: log_num_def)
  qed
qed simp_all

text \<open>\<open>log\<close> with arguments returns and the line has carried the text of its format, under the same conditions, for every line whose
  transmitter becomes ready again.\<close>

theorem log_fmt_sends:
  assumes "serial_chip io sent" "length buf = 20" "format_ok ((l, p) # ps)" "0 \<notin> set tail"
  shows "\<exists>buf' d'. log_fmt io (format_src ((l, p) # ps) @ tail @ 0 # rest) (arg_of p) (map (arg_of \<circ> snd) ps) (buf, d) = Some (buf', d') \<and>
    sent d' = sent d @ format_text ((l, p) # ps) @ tail \<and> length buf' = 20"
  using text_sink.fmt_puts_text [OF serial_sink [OF assms(1)], of "(buf, d)" l p ps tail rest] assms(2-4) by (auto simp: log_fmt_def)

theorem log_fmt_sends_witness:
  "\<exists>buf' d'. log_fmt serial_sample (ascii ''ORDER %d: %s'' @ [10, 0]) (Num 5) [Text (cstr ''none'')] (replicate 20 0, (False, [])) = Some (buf', d') \<and>
     snd d' = ascii ''ORDER 5: none'' @ [10]"
proof -
  let ?ps = "[(ascii '': '', Str (ascii ''none''))]"
  have "digits 10 5 = [5]" by (simp add: digits.simps)
  then have "format_text ((ascii ''ORDER '', Dec 5) # ?ps) @ [10] = ascii ''ORDER 5: none'' @ [10]"
    by (simp add: format_text_def shown_num_def ascii_def digit_char_def)
  moreover have "format_ok ((ascii ''ORDER '', Dec 5) # ?ps)" by (simp add: format_ok_def ascii_def)
  moreover have "format_src ((ascii ''ORDER '', Dec 5) # ?ps) @ [10] @ 0 # [] = ascii ''ORDER %d: %s'' @ [10, 0]" by (simp add: format_src_def ascii_def)
  ultimately show ?thesis
    using log_fmt_sends [OF serial_sample_chip, of "replicate 20 0" "ascii ''ORDER ''" "Dec 5" ?ps "[10]" "[]" "(False, [])"] by (auto simp: cstr_def)
qed

text \<open>A percent sign at the end of the format: the terminator is taken for the letter of the directive, and the rest of the message is
  read from behind the string.\<close>

lemma percent_at_end: "0 \<notin> set l \<Longrightarrow> 37 \<notin> set l \<Longrightarrow> print_fmt font (l @ [37, 0]) v [] (replicate 20 0, s) = None"
proof -
  assume l: "0 \<notin> set l" "37 \<notin> set l"
  obtain bs where bs: "length (fst bs) = 20"
    "fmt_from (put_screen font) (str_screen font) (print_num font) (l @ [37, 0]) 0 v [] (replicate 20 0, s) =
     fmt_from (put_screen font) (str_screen font) (print_num font) (l @ [37, 0]) (length l) v [] bs"
    by (rule screen.fmt_literal_start [of "(replicate 20 0, s)" l font "[37, 0]" v "[]"]) (simp, rule l, rule l, rule that)
  have "rd (l @ [37, 0]) (Suc (length l)) = Some 0" by (simp add: rd_def nth_append)
  then show ?thesis unfolding print_fmt_def bs(2)
    by (subst fmt_from.simps) (simp add: str_screen_def print_str_def print_from.simps [of font "[]"] rd_def)
qed

end
