(* ===== verification/Reports.thy ===== *)
theory Reports
  imports Format Kernel_Heap Process
begin

text \<open>
  What the kernel reports: the exception handlers of \<^verbatim>\<open>idt.cpp\<close> and \<^verbatim>\<open>vmm.cpp\<close> and \<open>__assert\<close> of \<^verbatim>\<open>utils.cpp\<close>, which write to the screen
  and halt the core for good, and the functions that write the free lists, the mounts and the registers of a thread to the
  serial line. The result of a handler is what is on the screen when it halts.
\<close>

section \<open>Handlers\<close>

definition isr_div_by_zero :: "(u64 \<Rightarrow> u8) \<Rightarrow> 'a kscreen_scheme \<Rightarrow> 'a kscreen_scheme option" where
  "isr_div_by_zero font s = print_str font (cstr ''Division by zero!'') s"

definition isr_breakpoint :: "(u64 \<Rightarrow> u8) \<Rightarrow> 'a kscreen_scheme \<Rightarrow> 'a kscreen_scheme option" where
  "isr_breakpoint font s = print_str font (cstr ''Breakpoint'') s"

definition isr_double_fault :: "(u64 \<Rightarrow> u8) \<Rightarrow> 'a kscreen_scheme \<Rightarrow> 'a kscreen_scheme option" where
  "isr_double_fault font s = print_str font (cstr ''Double fault!'') s"

record interrupt_frame =
  error_code :: u64
  if_rip :: u64
  if_cs :: u64
  if_rflags :: u64
  if_rsp :: u64
  if_ss :: u64

definition isr_general_protection ::
  "(u64 \<Rightarrow> u8) \<Rightarrow> interrupt_frame \<Rightarrow> cbuf \<times> 'a kscreen_scheme \<Rightarrow> (cbuf \<times> 'a kscreen_scheme) option" where
  "isr_general_protection font iframe bs = do {
     bs \<leftarrow> str_screen font (cstr ''General protection exception!'') bs;
     print_fmt font (ascii ''Error code: %x'' @ [10, 0]) (Num (error_code iframe)) [] bs
   }"

text \<open>\<open>cr2\<close> is the register with the address of the fault.\<close>

definition isr_page_fault ::
  "(u64 \<Rightarrow> u8) \<Rightarrow> u64 \<Rightarrow> interrupt_frame \<Rightarrow> cbuf \<times> 'a kscreen_scheme \<Rightarrow> (cbuf \<times> 'a kscreen_scheme) option" where
  "isr_page_fault font cr2 iframe bs = do {
     bs \<leftarrow> str_screen font (cstr ''Page fault!'') bs;
     bs \<leftarrow> print_fmt font (ascii ''Error code: %d'' @ [10, 0]) (Num (error_code iframe)) [] bs;
     print_fmt font (ascii ''CR2: %x'' @ [10, 0]) (Num cr2) [] bs
   }"

definition assert_fail ::
  "(u64 \<Rightarrow> u8) \<Rightarrow> cbuf \<Rightarrow> cbuf \<Rightarrow> u64 \<Rightarrow> cbuf \<times> 'a kscreen_scheme \<Rightarrow> (cbuf \<times> 'a kscreen_scheme) option" where
  "assert_fail font msg file line bs =
     print_fmt font (ascii ''Assertation failed at %s, line %d: %s'' @ [10, 0]) (Text file) [Num line, Text msg] bs"

section \<open>Dumps\<close>

definition dump_registers :: "'d hw \<Rightarrow> context_t \<Rightarrow> cbuf \<times> 'd \<Rightarrow> (cbuf \<times> 'd) option" where
  "dump_registers io c bd = foldl (\<lambda>r (name, v). Option.bind r (log_fmt io (ascii name @ ascii '': %x'' @ [10, 0]) (Num v) [])) (Some bd)
     [(''RIP'', rip c), (''RAX'', rax c), (''RBX'', rbx c), (''RCX'', rcx c), (''RDX'', rdx c), (''RDI'', rdi c),
      (''RSI'', rsi c), (''RBP'', rbp c), (''RSP'', rsp c), (''R8'', r8 c), (''R9'', r9 c), (''R10'', r10 c),
      (''R11'', r11 c), (''R12'', r12 c), (''R13'', r13 c), (''R14'', r14 c), (''R15'', r15 c)]"

partial_function (option) dump_list :: "'d hw \<Rightarrow> mem \<Rightarrow> u64 \<Rightarrow> cbuf \<times> 'd \<Rightarrow> (cbuf \<times> 'd) option" where
  "dump_list io m head bd =
     (if head = 0 then Some bd
      else do { bd \<leftarrow> log_fmt io (cstr ''%x '') (Num head) [] bd; dump_list io m (blk_next m head) bd })"

fun dump_orders :: "'d hw \<Rightarrow> u64 \<Rightarrow> mem \<Rightarrow> nat list \<Rightarrow> cbuf \<times> 'd \<Rightarrow> (cbuf \<times> 'd) option" where
  "dump_orders io bl m [] bd = Some bd"
| "dump_orders io bl m (i # is) bd = do {
     bd \<leftarrow> log_fmt io (cstr ''ORDER %d: '') (Num (of_nat MAX_POWER - of_nat i)) [] bd;
     bd \<leftarrow> dump_list io m (read64 m (slot bl (of_nat i))) bd;
     bd \<leftarrow> str_line io [10, 0] bd;
     dump_orders io bl m is bd
   }"

definition dump_heap :: "'d hw \<Rightarrow> 'a kheap_scheme \<Rightarrow> cbuf \<times> 'd \<Rightarrow> (cbuf \<times> 'd) option" where
  "dump_heap io s bd = dump_orders io (bucketList s) (mem s) [12 ..< 16] bd"

partial_function (option) print_children :: "'d hw \<Rightarrow> (nat \<Rightarrow> node option) \<Rightarrow> nat list \<Rightarrow> cbuf \<times> 'd \<Rightarrow> (cbuf \<times> 'd) option" where
  "print_children io nodes hs bd = (case hs of [] \<Rightarrow> Some bd | head # hs \<Rightarrow> do {
     h \<leftarrow> nodes head;
     parent_name \<leftarrow> (case v_parent h of None \<Rightarrow> Some (cstr ''null'') | Some p \<Rightarrow> map_option v_name (nodes p));
     bd \<leftarrow> log_fmt io (ascii ''name: %s | parent: %s'' @ [10, 0]) (Text (v_name h)) [Text parent_name] bd;
     bd \<leftarrow> print_children io nodes (v_children h) bd;
     print_children io nodes hs bd
   })"

definition print_nodes :: "'d hw \<Rightarrow> (nat \<Rightarrow> node option) \<Rightarrow> nat option \<Rightarrow> cbuf \<times> 'd \<Rightarrow> (cbuf \<times> 'd) option" where
  "print_nodes io nodes root bd = (case root of None \<Rightarrow> Some bd | Some r \<Rightarrow> do { rn \<leftarrow> nodes r; print_children io nodes (v_children rn) bd })"

section \<open>The reports\<close>

text \<open>One value with its directive.\<close>

lemma ascii_append: "ascii (xs @ ys) = ascii xs @ ascii ys"
  by (simp add: ascii_def)

lemma log_value:
  assumes "serial_chip io sent" "length (fst bd) = 20" "format_ok [(l, p)]" "0 \<notin> set tail" "msg = l @ 37 # letter p # tail @ [0]"
  obtains bd' where "log_fmt io msg (arg_of p) [] bd = Some bd'" "length (fst bd') = 20" "sent (snd bd') = sent (snd bd) @ l @ piece_text p @ tail"
  using text_sink.fmt_puts_text [OF serial_sink [OF assms(1)], of bd l p "[]" tail "[]"] assms(2-5)
  by (auto simp: log_fmt_def format_src_def format_text_def)

lemma log_line_end:
  assumes "serial_chip io sent"
  obtains bd' where "str_line io [10, 0] bd = Some bd'" "fst bd' = fst bd" "sent (snd bd') = sent (snd bd) @ [10]"
  using log_from_sends [OF assms, of "[10]" "[]" "[]" "snd bd"] by (auto simp: str_line_def log_str_def)

definition list_text :: "u64 list \<Rightarrow> u8 list" where
  "list_text bs = concat (map (\<lambda>b. shown_num 16 b @ ascii '' '') bs)"

definition order_text :: "freelists \<Rightarrow> nat \<Rightarrow> u8 list" where
  "order_text F k = ascii ''ORDER '' @ shown_num 10 (of_nat k) @ ascii '': '' @ list_text (F k) @ [10]"

lemma dump_list_text:
  assumes "serial_chip io sent" "chain m p bs" "length (fst bd) = 20"
  shows "\<exists>bd'. dump_list io m p bd = Some bd' \<and> length (fst bd') = 20 \<and> sent (snd bd') = sent (snd bd) @ list_text bs"
  using assms(2,3)
proof (induction bs arbitrary: p bd)
  case Nil
  then show ?case by (subst dump_list.simps) (simp add: list_text_def)
next
  case (Cons b bs)
  have p: "p = b" "p \<noteq> 0" "chain m (blk_next m b) bs" using Cons.prems(1) by auto
  obtain bd1 where b1: "log_fmt io (cstr ''%x '') (arg_of (Hex b)) [] bd = Some bd1" "length (fst bd1) = 20"
    "sent (snd bd1) = sent (snd bd) @ [] @ piece_text (Hex b) @ ascii '' ''"
    by (rule log_value [OF assms(1) Cons.prems(2), of "[]" "Hex b" "ascii '' ''"]) (auto simp: format_ok_def ascii_def cstr_def)
  obtain bd' where "dump_list io m (blk_next m b) bd1 = Some bd'" "length (fst bd') = 20" "sent (snd bd') = sent (snd bd1) @ list_text bs"
    using Cons.IH [OF p(3) b1(2)] by blast
  then show ?case using p b1 by (subst dump_list.simps) (simp add: list_text_def)
qed

lemma dump_orders_text:
  assumes "serial_chip io sent" "heap_rep bl base m F" "length (fst bd) = 20" "\<forall>i \<in> set is. i \<le> 16"
  shows "\<exists>bd'. dump_orders io bl m is bd = Some bd' \<and> length (fst bd') = 20 \<and>
    sent (snd bd') = sent (snd bd) @ concat (map (\<lambda>i. order_text F (20 - i)) is)"
  using assms(3,4)
proof (induction "is" arbitrary: bd)
  case (Cons i "is")
  have i: "i \<le> 16" using Cons.prems(2) by simp
  have k: "(of_nat MAX_POWER :: u64) - of_nat i = of_nat (20 - i)" using i by (simp add: MAX_POWER_def of_nat_diff)
  have "of_nat i = index_from_order (20 - i)" using i by (simp add: index_from_order_def MAX_POWER_def of_nat_diff)
  then have head: "chain m (read64 m (slot bl (of_nat i))) (F (20 - i))" using heap_repD(3) [OF assms(2), of "20 - i"] i by (simp add: bucket_def)
  have small: "unat (of_nat (20 - i) :: u64) < 10 ^ 19" using unat_of_nat64 [of "20 - i"] i by simp
  obtain b1 where b1: "log_fmt io (cstr ''ORDER %d: '') (arg_of (Dec (of_nat (20 - i)))) [] bd = Some b1" "length (fst b1) = 20"
    "sent (snd b1) = sent (snd bd) @ ascii ''ORDER '' @ piece_text (Dec (of_nat (20 - i))) @ ascii '': ''"
    by (rule log_value [OF assms(1) Cons.prems(1), of "ascii ''ORDER ''" "Dec (of_nat (20 - i))" "ascii '': ''"])
      (use small in \<open>auto simp: format_ok_def ascii_def cstr_def\<close>)
  obtain b2 where b2: "dump_list io m (read64 m (slot bl (of_nat i))) b1 = Some b2" "length (fst b2) = 20"
    "sent (snd b2) = sent (snd b1) @ list_text (F (20 - i))" using dump_list_text [OF assms(1) head b1(2)] by blast
  obtain b3 where b3: "str_line io [10, 0] b2 = Some b3" "fst b3 = fst b2" "sent (snd b3) = sent (snd b2) @ [10]"
    by (rule log_line_end [OF assms(1)])
  obtain bd' where "dump_orders io bl m is b3 = Some bd'" "length (fst bd') = 20"
    "sent (snd bd') = sent (snd b3) @ concat (map (\<lambda>i. order_text F (20 - i)) is)" using Cons.IH [of b3] Cons.prems(2) b2(2) b3(2) by auto
  then show ?case using b1 b2 b3 k by (simp add: order_text_def)
qed simp

text \<open>\<open>dump_heap\<close> returns and writes to the line, for the orders 8 to 5 one after the other, the addresses of exactly the
  blocks in the free list, in its order.\<close>

theorem dump_heap_lists:
  assumes "serial_chip io sent" "heap_rep (bucketList s) base (mem s) F" "length buf = 20"
  shows "\<exists>buf' d'. dump_heap io s (buf, d) = Some (buf', d') \<and> sent d' = sent d @ concat (map (order_text F) [8, 7, 6, 5])"
proof -
  have "\<forall>i \<in> set [12 ..< 16]. i \<le> 16" by simp
  moreover have "map (\<lambda>i. order_text F (20 - i)) [12 ..< 16] = map (order_text F) [8, 7, 6, 5]" by (simp add: upt_conv_Cons)
  ultimately show ?thesis using dump_orders_text [OF assms(1,2), of "(buf, d)" "[12 ..< 16]"] assms(3) by (auto simp: dump_heap_def)
qed

text \<open>A heap with one free block of the smallest order.\<close>

lemma small_heap_rep: "heap_rep 0x1000 0x100000 (push_block 0x1000 5 0x100000 (\<lambda>_. 0)) ((\<lambda>_. [])(5 := [0x100000]))"
proof -
  have "valid_block 0x100000 (5, 0x100000)" using span_mono [of "2 ^ 5" "2 ^ 20" "0x100000"] by (auto simp: valid_block_def grid_def intro!: exI [of _ 0])
  from heap_rep_push [OF empty_heap_rep this] show ?thesis by (simp add: push_block_def free_bytes_def blks_def)
qed

theorem dump_heap_lists_witness:
  "\<exists>buf' d'. dump_heap serial_sample (heap_at (push_block 0x1000 5 0x100000 (\<lambda>_. 0))) (replicate 20 0, (False, [])) = Some (buf', d') \<and>
     snd d' = ascii ''ORDER 8: '' @ [10] @ ascii ''ORDER 7: '' @ [10] @ ascii ''ORDER 6: '' @ [10] @ ascii ''ORDER 5: 0x100000 '' @ [10]"
proof -
  have "digits 16 1048576 = [0, 0, 0, 0, 0, 1]" "digits 10 5 = [5]" "digits 10 6 = [6]" "digits 10 7 = [7]" "digits 10 8 = [8]"
    by (simp_all add: digits.simps)
  then show ?thesis
    using dump_heap_lists [OF serial_sample_chip, of "heap_at (push_block 0x1000 5 0x100000 (\<lambda>_. 0))" "0x100000" "(\<lambda>_. [])(5 := [0x100000])" "replicate 20 0" "(False, [])"] small_heap_rep
    by (simp add: order_text_def list_text_def shown_num_def ascii_def digit_char_def)
qed

text \<open>The screen after a text.\<close>

abbreviation with_text :: "(u64 \<Rightarrow> u8) \<Rightarrow> u8 list \<Rightarrow> 'a kscreen_scheme \<Rightarrow> 'a kscreen_scheme" where
  "with_text font t s \<equiv> foldl (\<lambda>s c. print_char font c 0xffffff s) s t"

lemma print_value:
  assumes "length (fst bs) = 20" "format_ok [(l, p)]" "0 \<notin> set tail" "msg = l @ 37 # letter p # tail @ [0]"
  obtains bs' where "print_fmt font msg (arg_of p) [] bs = Some bs'" "length (fst bs') = 20" "snd bs' = with_text font (l @ piece_text p @ tail) (snd bs)"
  using screen.fmt_puts_text [of bs l p "[]" tail font "[]"] assms
  by (auto simp: print_fmt_def format_src_def format_text_def shows_text_def)

text \<open>The handler of page faults puts the error code, in base ten, and the address of the fault, in base sixteen, on the
  screen before it halts.\<close>

theorem page_fault_report:
  assumes "length buf = 20" "unat (error_code iframe) < 10 ^ 19"
  shows "\<exists>buf'. isr_page_fault font cr2 iframe (buf, s) = Some (buf', with_text font (ascii ''Page fault!Error code: '' @
    shown_num 10 (error_code iframe) @ [10] @ ascii ''CR2: '' @ shown_num 16 cr2 @ [10]) s)"
proof -
  have nz: "0 \<notin> set (ascii ''Page fault!'')" by (simp add: ascii_def)
  have a: "str_screen font (cstr ''Page fault!'') (buf, s) = Some (buf, with_text font (ascii ''Page fault!'') s)"
    using print_str_text [OF nz, of font "[]" s] by (simp add: str_screen_def cstr_def)
  obtain b1 where b1: "print_fmt font (ascii ''Error code: %d'' @ [10, 0]) (arg_of (Dec (error_code iframe))) [] (buf, with_text font (ascii ''Page fault!'') s) = Some b1"
    "length (fst b1) = 20" "snd b1 = with_text font (ascii ''Error code: '' @ piece_text (Dec (error_code iframe)) @ [10]) (with_text font (ascii ''Page fault!'') s)"
    by (rule print_value [of "(buf, with_text font (ascii ''Page fault!'') s)" "ascii ''Error code: ''" "Dec (error_code iframe)" "[10]"])
      (use assms in \<open>auto simp: format_ok_def ascii_def\<close>)
  obtain b2 where b2: "print_fmt font (ascii ''CR2: %x'' @ [10, 0]) (arg_of (Hex cr2)) [] b1 = Some b2"
    "snd b2 = with_text font (ascii ''CR2: '' @ piece_text (Hex cr2) @ [10]) (snd b1)"
    by (rule print_value [of b1 "ascii ''CR2: ''" "Hex cr2" "[10]"]) (use b1(2) in \<open>auto simp: format_ok_def ascii_def\<close>)
  have "ascii ''Page fault!Error code: '' = ascii ''Page fault!'' @ ascii ''Error code: ''" by (simp add: ascii_def)
  then show ?thesis using a b1 b2 by (cases b2) (simp add: isr_page_fault_def foldl_append)
qed

text \<open>The model of \<open>panic\<close> is the call of the template in the source: for every message, also one without its terminator.\<close>

lemma panic_is_print:
  fixes s :: "'a kscreen_scheme"
  assumes "length buf = 20"
  shows "panic font msg s = map_option snd (print_fmt font (ascii ''Kernel panic: %s'' @ [10, 0]) (Text msg) [] (buf, s))"
proof -
  let ?l = "ascii ''Kernel panic: ''"
  have l: "0 \<notin> set ?l" "37 \<notin> set ?l" by (simp_all add: ascii_def)
  have fmt: "ascii ''Kernel panic: %s'' @ [10, 0] = ?l @ 37 # 115 # [10, 0]" by (simp add: ascii_def)
  obtain bs where bs: "length (fst bs) = 20" "shows_text font (buf, s) ?l bs"
    "fmt_from (put_screen font) (str_screen font) (print_num font) (?l @ 37 # 115 # [10, 0]) 0 (Text msg) [] (buf, s) =
     fmt_from (put_screen font) (str_screen font) (print_num font) (?l @ 37 # 115 # [10, 0]) (length ?l) (Text msg) [] bs"
    by (rule screen.fmt_literal_start [of "(buf, s)" ?l font "37 # 115 # [10, 0]" "Text msg" "[]"]) (use assms in simp, rule l, rule l, rule that)
  have "rd (?l @ 37 # 115 # [10, 0]) (Suc (length ?l)) = Some 115" by (simp add: rd_def nth_append)
  then have "print_fmt font (?l @ 37 # 115 # [10, 0]) (Text msg) [] (buf, s) = Option.bind (str_screen font msg bs) (str_screen font [10, 0])"
    unfolding print_fmt_def bs(3) by (subst fmt_from.simps) simp
  moreover have "snd bs = with_text font ?l s" using bs(2) by (simp add: shows_text_def)
  moreover have "print_str font (cstr ''Kernel panic: '') s = Some (with_text font ?l s)" using print_str_text [OF l(1), of font "[]" s] by (simp add: cstr_def)
  ultimately show ?thesis unfolding fmt by (cases "print_str font msg (snd bs)") (simp_all add: panic_def str_screen_def option.map_comp comp_def option.map_ident)
qed

theorem page_fault_report_witness:
  "\<forall>font (s :: kscreen). \<exists>buf'. isr_page_fault font 0xB8 \<lparr>error_code = 2, if_rip = 0, if_cs = 8, if_rflags = 2, if_rsp = 0, if_ss = 16\<rparr> (replicate 20 0, s) =
     Some (buf', with_text font (ascii ''Page fault!Error code: 2'' @ [10] @ ascii ''CR2: 0xB8'' @ [10]) s)"
proof (intro allI)
  fix font and s :: kscreen
  have "digits 16 184 = [8, 11]" "digits 10 2 = [2]" by (simp_all add: digits.simps)
  then have "shown_num 16 0xB8 = ascii ''0xB8''" "shown_num 10 2 = ascii ''2''" by (simp_all add: shown_num_def ascii_def digit_char_def)
  then show "\<exists>buf'. isr_page_fault font 0xB8 \<lparr>error_code = 2, if_rip = 0, if_cs = 8, if_rflags = 2, if_rsp = 0, if_ss = 16\<rparr> (replicate 20 0, s) =
     Some (buf', with_text font (ascii ''Page fault!Error code: 2'' @ [10] @ ascii ''CR2: 0xB8'' @ [10]) s)"
    using page_fault_report [of "replicate 20 0" "\<lparr>error_code = 2, if_rip = 0, if_cs = 8, if_rflags = 2, if_rsp = 0, if_ss = 16\<rparr>" font "0xB8" s]
    by (simp add: ascii_def)
qed

end
