(* ===== verification/Font.thy ===== *)
theory Font
  imports Video
begin

text \<open>
  The table of glyphs of \<^verbatim>\<open>kernel/font.hpp\<close>, sixteen rows of eight pixels for each of 256 characters, in two halves. The console reads
  it at the offset of the character, which is signed: bytes above 127 lead outside of the table, where memory holds \<open>other\<close>. For the
  printable characters of ASCII the glyphs differ, so that a character can be read back from the screen.
\<close>

section \<open>The table\<close>

definition font_low :: "nat list list" where
  "font_low =
    [
     [0, 0, 0, 0, 0, 0, 0, 0, 0, 0, 0, 0, 0, 0, 0, 0],
     [0, 0, 0, 0, 0, 0, 0, 0, 0, 0, 0, 0, 0, 0, 0, 0],
     [0, 0, 0, 0, 0, 0, 0, 0, 0, 0, 0, 0, 0, 0, 0, 0],
     [0, 0, 0, 0, 0, 0, 0, 0, 0, 0, 0, 0, 0, 0, 0, 0],
     [0, 0, 0, 0, 0, 0, 0, 0, 0, 0, 0, 0, 0, 0, 0, 0],
     [0, 0, 0, 0, 0, 0, 0, 0, 0, 0, 0, 0, 0, 0, 0, 0],
     [0, 0, 0, 0, 0, 0, 0, 0, 0, 0, 0, 0, 0, 0, 0, 0],
     [0, 0, 0, 0, 0, 0, 0, 0, 0, 0, 0, 0, 0, 0, 0, 0],
     [0, 0, 0, 0, 0, 0, 0, 0, 0, 0, 0, 0, 0, 0, 0, 0],
     [0, 0, 0, 0, 0, 0, 0, 0, 0, 0, 0, 0, 0, 0, 0, 0],
     [0, 0, 0, 0, 0, 0, 0, 0, 0, 0, 0, 0, 0, 0, 0, 0],
     [0, 0, 0, 0, 0, 0, 0, 0, 0, 0, 0, 0, 0, 0, 0, 0],
     [0, 0, 0, 0, 0, 0, 0, 0, 0, 0, 0, 0, 0, 0, 0, 0],
     [0, 0, 0, 0, 0, 0, 0, 0, 0, 0, 0, 0, 0, 0, 0, 0],
     [0, 0, 0, 0, 0, 0, 0, 0, 0, 0, 0, 0, 0, 0, 0, 0],
     [0, 0, 0, 0, 0, 0, 0, 0, 0, 0, 0, 0, 0, 0, 0, 0],
     [0, 0, 0, 0, 0, 0, 0, 0, 0, 0, 0, 0, 0, 0, 0, 0],
     [0, 0, 0, 0, 0, 0, 0, 0, 0, 0, 0, 0, 0, 0, 0, 0],
     [0, 0, 0, 0, 0, 0, 0, 0, 0, 0, 0, 0, 0, 0, 0, 0],
     [0, 0, 0, 0, 0, 0, 0, 0, 0, 0, 0, 0, 0, 0, 0, 0],
     [0, 0, 0, 0, 0, 0, 0, 0, 0, 0, 0, 0, 0, 0, 0, 0],
     [0, 0, 0, 0, 0, 0, 0, 0, 0, 0, 0, 0, 0, 0, 0, 0],
     [0, 0, 0, 0, 0, 0, 0, 0, 0, 0, 0, 0, 0, 0, 0, 0],
     [0, 0, 0, 0, 0, 0, 0, 0, 0, 0, 0, 0, 0, 0, 0, 0],
     [0, 0, 0, 0, 0, 0, 0, 0, 0, 0, 0, 0, 0, 0, 0, 0],
     [0, 0, 0, 0, 0, 0, 0, 0, 0, 0, 0, 0, 0, 0, 0, 0],
     [0, 0, 0, 0, 0, 0, 0, 0, 0, 0, 0, 0, 0, 0, 0, 0],
     [0, 0, 0, 0, 0, 0, 0, 0, 0, 0, 0, 0, 0, 0, 0, 0],
     [0, 0, 0, 0, 0, 0, 0, 0, 0, 0, 0, 0, 0, 0, 0, 0],
     [0, 0, 0, 0, 0, 0, 0, 0, 0, 0, 0, 0, 0, 0, 0, 0],
     [0, 0, 0, 0, 0, 0, 0, 0, 0, 0, 0, 0, 0, 0, 0, 0],
     [0, 0, 0, 0, 0, 0, 0, 0, 0, 0, 0, 0, 0, 0, 0, 0],
     [0, 0, 0, 0, 0, 0, 0, 0, 0, 0, 0, 0, 0, 0, 0, 0],
     [0, 0, 0, 0, 8, 8, 8, 8, 8, 8, 8, 0, 8, 8, 0, 0],
     [0, 0, 34, 34, 34, 34, 0, 0, 0, 0, 0, 0, 0, 0, 0, 0],
     [0, 0, 0, 0, 18, 18, 18, 126, 36, 36, 126, 72, 72, 72, 0, 0],
     [0, 0, 0, 0, 8, 62, 73, 72, 56, 14, 9, 73, 62, 8, 0, 0],
     [0, 0, 0, 0, 49, 74, 74, 52, 8, 8, 22, 41, 41, 70, 0, 0],
     [0, 0, 0, 0, 28, 34, 34, 20, 24, 41, 69, 66, 70, 57, 0, 0],
     [0, 0, 8, 8, 8, 8, 0, 0, 0, 0, 0, 0, 0, 0, 0, 0],
     [0, 0, 0, 4, 8, 8, 16, 16, 16, 16, 16, 16, 8, 8, 4, 0],
     [0, 0, 0, 32, 16, 16, 8, 8, 8, 8, 8, 8, 16, 16, 32, 0],
     [0, 0, 0, 0, 0, 0, 8, 73, 42, 28, 42, 73, 8, 0, 0, 0],
     [0, 0, 0, 0, 0, 0, 8, 8, 8, 127, 8, 8, 8, 0, 0, 0],
     [0, 0, 0, 0, 0, 0, 0, 0, 0, 0, 0, 0, 24, 8, 8, 16],
     [0, 0, 0, 0, 0, 0, 0, 0, 0, 60, 0, 0, 0, 0, 0, 0],
     [0, 0, 0, 0, 0, 0, 0, 0, 0, 0, 0, 0, 24, 24, 0, 0],
     [0, 0, 0, 0, 2, 2, 4, 8, 8, 16, 16, 32, 64, 64, 0, 0],
     [0, 0, 0, 0, 24, 36, 66, 70, 74, 82, 98, 66, 36, 24, 0, 0],
     [0, 0, 0, 0, 8, 24, 40, 8, 8, 8, 8, 8, 8, 62, 0, 0],
     [0, 0, 0, 0, 60, 66, 66, 2, 12, 16, 32, 64, 64, 126, 0, 0],
     [0, 0, 0, 0, 60, 66, 66, 2, 28, 2, 2, 66, 66, 60, 0, 0],
     [0, 0, 0, 0, 4, 12, 20, 36, 68, 68, 126, 4, 4, 4, 0, 0],
     [0, 0, 0, 0, 126, 64, 64, 64, 124, 2, 2, 2, 66, 60, 0, 0],
     [0, 0, 0, 0, 28, 32, 64, 64, 124, 66, 66, 66, 66, 60, 0, 0],
     [0, 0, 0, 0, 126, 2, 2, 4, 4, 4, 8, 8, 8, 8, 0, 0],
     [0, 0, 0, 0, 60, 66, 66, 66, 60, 66, 66, 66, 66, 60, 0, 0],
     [0, 0, 0, 0, 60, 66, 66, 66, 62, 2, 2, 2, 4, 56, 0, 0],
     [0, 0, 0, 0, 0, 0, 24, 24, 0, 0, 0, 24, 24, 0, 0, 0],
     [0, 0, 0, 0, 0, 0, 24, 24, 0, 0, 0, 24, 8, 8, 16, 0],
     [0, 0, 0, 0, 0, 2, 4, 8, 16, 32, 16, 8, 4, 2, 0, 0],
     [0, 0, 0, 0, 0, 0, 0, 126, 0, 0, 0, 126, 0, 0, 0, 0],
     [0, 0, 0, 0, 0, 64, 32, 16, 8, 4, 8, 16, 32, 64, 0, 0],
     [0, 0, 0, 0, 60, 66, 66, 2, 4, 8, 8, 0, 8, 8, 0, 0],
     [0, 0, 0, 0, 28, 34, 74, 86, 82, 82, 82, 78, 32, 30, 0, 0],
     [0, 0, 0, 0, 24, 36, 36, 66, 66, 126, 66, 66, 66, 66, 0, 0],
     [0, 0, 0, 0, 124, 66, 66, 66, 124, 66, 66, 66, 66, 124, 0, 0],
     [0, 0, 0, 0, 60, 66, 66, 64, 64, 64, 64, 66, 66, 60, 0, 0],
     [0, 0, 0, 0, 120, 68, 66, 66, 66, 66, 66, 66, 68, 120, 0, 0],
     [0, 0, 0, 0, 126, 64, 64, 64, 124, 64, 64, 64, 64, 126, 0, 0],
     [0, 0, 0, 0, 126, 64, 64, 64, 124, 64, 64, 64, 64, 64, 0, 0],
     [0, 0, 0, 0, 60, 66, 66, 64, 64, 78, 66, 66, 70, 58, 0, 0],
     [0, 0, 0, 0, 66, 66, 66, 66, 126, 66, 66, 66, 66, 66, 0, 0],
     [0, 0, 0, 0, 62, 8, 8, 8, 8, 8, 8, 8, 8, 62, 0, 0],
     [0, 0, 0, 0, 31, 4, 4, 4, 4, 4, 4, 68, 68, 56, 0, 0],
     [0, 0, 0, 0, 66, 68, 72, 80, 96, 96, 80, 72, 68, 66, 0, 0],
     [0, 0, 0, 0, 64, 64, 64, 64, 64, 64, 64, 64, 64, 126, 0, 0],
     [0, 0, 0, 0, 66, 66, 102, 102, 90, 90, 66, 66, 66, 66, 0, 0],
     [0, 0, 0, 0, 66, 98, 98, 82, 82, 74, 74, 70, 70, 66, 0, 0],
     [0, 0, 0, 0, 60, 66, 66, 66, 66, 66, 66, 66, 66, 60, 0, 0],
     [0, 0, 0, 0, 124, 66, 66, 66, 124, 64, 64, 64, 64, 64, 0, 0],
     [0, 0, 0, 0, 60, 66, 66, 66, 66, 66, 66, 90, 102, 60, 3, 0],
     [0, 0, 0, 0, 124, 66, 66, 66, 124, 72, 68, 68, 66, 66, 0, 0],
     [0, 0, 0, 0, 60, 66, 66, 64, 48, 12, 2, 66, 66, 60, 0, 0],
     [0, 0, 0, 0, 127, 8, 8, 8, 8, 8, 8, 8, 8, 8, 0, 0],
     [0, 0, 0, 0, 66, 66, 66, 66, 66, 66, 66, 66, 66, 60, 0, 0],
     [0, 0, 0, 0, 65, 65, 65, 34, 34, 34, 20, 20, 8, 8, 0, 0],
     [0, 0, 0, 0, 66, 66, 66, 66, 90, 90, 102, 102, 66, 66, 0, 0],
     [0, 0, 0, 0, 66, 66, 36, 36, 24, 24, 36, 36, 66, 66, 0, 0],
     [0, 0, 0, 0, 65, 65, 34, 34, 20, 8, 8, 8, 8, 8, 0, 0],
     [0, 0, 0, 0, 126, 2, 2, 4, 8, 16, 32, 64, 64, 126, 0, 0],
     [0, 0, 0, 14, 8, 8, 8, 8, 8, 8, 8, 8, 8, 8, 14, 0],
     [0, 0, 0, 0, 64, 64, 32, 16, 16, 8, 8, 4, 2, 2, 0, 0],
     [0, 0, 0, 112, 16, 16, 16, 16, 16, 16, 16, 16, 16, 16, 112, 0],
     [0, 0, 24, 36, 66, 0, 0, 0, 0, 0, 0, 0, 0, 0, 0, 0],
     [0, 0, 0, 0, 0, 0, 0, 0, 0, 0, 0, 0, 0, 0, 127, 0],
     [0, 32, 16, 8, 0, 0, 0, 0, 0, 0, 0, 0, 0, 0, 0, 0],
     [0, 0, 0, 0, 0, 0, 60, 66, 2, 62, 66, 66, 70, 58, 0, 0],
     [0, 0, 0, 64, 64, 64, 92, 98, 66, 66, 66, 66, 98, 92, 0, 0],
     [0, 0, 0, 0, 0, 0, 60, 66, 64, 64, 64, 64, 66, 60, 0, 0],
     [0, 0, 0, 2, 2, 2, 58, 70, 66, 66, 66, 66, 70, 58, 0, 0],
     [0, 0, 0, 0, 0, 0, 60, 66, 66, 126, 64, 64, 66, 60, 0, 0],
     [0, 0, 0, 12, 16, 16, 16, 124, 16, 16, 16, 16, 16, 16, 0, 0],
     [0, 0, 0, 0, 0, 2, 58, 68, 68, 68, 56, 32, 60, 66, 66, 60],
     [0, 0, 0, 64, 64, 64, 92, 98, 66, 66, 66, 66, 66, 66, 0, 0],
     [0, 0, 0, 8, 8, 0, 24, 8, 8, 8, 8, 8, 8, 62, 0, 0],
     [0, 0, 0, 4, 4, 0, 12, 4, 4, 4, 4, 4, 4, 4, 72, 48],
     [0, 0, 0, 64, 64, 64, 68, 72, 80, 96, 80, 72, 68, 66, 0, 0],
     [0, 0, 0, 24, 8, 8, 8, 8, 8, 8, 8, 8, 8, 62, 0, 0],
     [0, 0, 0, 0, 0, 0, 118, 73, 73, 73, 73, 73, 73, 73, 0, 0],
     [0, 0, 0, 0, 0, 0, 92, 98, 66, 66, 66, 66, 66, 66, 0, 0],
     [0, 0, 0, 0, 0, 0, 60, 66, 66, 66, 66, 66, 66, 60, 0, 0],
     [0, 0, 0, 0, 0, 0, 92, 98, 66, 66, 66, 66, 98, 92, 64, 64],
     [0, 0, 0, 0, 0, 0, 58, 70, 66, 66, 66, 66, 70, 58, 2, 2],
     [0, 0, 0, 0, 0, 0, 92, 98, 66, 64, 64, 64, 64, 64, 0, 0],
     [0, 0, 0, 0, 0, 0, 60, 66, 64, 48, 12, 2, 66, 60, 0, 0],
     [0, 0, 0, 0, 16, 16, 16, 124, 16, 16, 16, 16, 16, 12, 0, 0],
     [0, 0, 0, 0, 0, 0, 66, 66, 66, 66, 66, 66, 70, 58, 0, 0],
     [0, 0, 0, 0, 0, 0, 66, 66, 66, 36, 36, 36, 24, 24, 0, 0],
     [0, 0, 0, 0, 0, 0, 65, 73, 73, 73, 73, 73, 73, 54, 0, 0],
     [0, 0, 0, 0, 0, 0, 66, 66, 36, 24, 24, 36, 66, 66, 0, 0],
     [0, 0, 0, 0, 0, 0, 66, 66, 66, 66, 66, 38, 26, 2, 2, 60],
     [0, 0, 0, 0, 0, 0, 126, 2, 4, 8, 16, 32, 64, 126, 0, 0],
     [0, 0, 0, 12, 16, 16, 8, 8, 16, 32, 16, 8, 8, 16, 16, 12],
     [0, 0, 8, 8, 8, 8, 8, 8, 8, 8, 8, 8, 8, 8, 8, 8],
     [0, 0, 0, 48, 8, 8, 16, 16, 8, 4, 8, 16, 16, 8, 8, 48],
     [0, 0, 0, 49, 73, 70, 0, 0, 0, 0, 0, 0, 0, 0, 0, 0],
     [170, 0, 128, 0, 128, 115, 202, 75, 202, 115, 128, 0, 128, 0, 128, 85]]"

definition font_high :: "nat list list" where
  "font_high =
    [
     [170, 0, 128, 0, 128, 113, 202, 115, 194, 66, 128, 0, 128, 0, 128, 85],
     [170, 0, 128, 0, 128, 73, 202, 122, 202, 73, 128, 0, 128, 0, 128, 85],
     [170, 0, 128, 0, 128, 115, 202, 115, 202, 114, 128, 0, 128, 0, 128, 85],
     [170, 0, 128, 0, 128, 75, 234, 91, 202, 75, 128, 0, 128, 0, 128, 85],
     [170, 0, 128, 0, 128, 116, 166, 37, 164, 116, 128, 0, 128, 0, 128, 85],
     [170, 0, 128, 0, 128, 75, 234, 91, 202, 75, 128, 0, 128, 0, 128, 85],
     [170, 0, 128, 0, 128, 57, 194, 49, 136, 115, 128, 0, 128, 0, 128, 85],
     [170, 0, 128, 0, 128, 121, 194, 121, 192, 123, 128, 0, 128, 0, 128, 85],
     [170, 0, 128, 0, 128, 75, 201, 121, 201, 73, 128, 0, 128, 0, 128, 85],
     [170, 0, 128, 0, 128, 37, 164, 60, 164, 36, 128, 0, 128, 0, 128, 85],
     [170, 0, 128, 0, 128, 69, 196, 68, 168, 16, 128, 0, 128, 0, 128, 85],
     [170, 0, 128, 0, 128, 114, 202, 114, 194, 67, 128, 0, 128, 0, 128, 85],
     [170, 0, 128, 0, 128, 114, 202, 114, 194, 67, 128, 0, 128, 0, 128, 85],
     [170, 0, 128, 0, 128, 14, 137, 14, 138, 9, 128, 0, 128, 0, 128, 85],
     [170, 0, 128, 0, 128, 57, 194, 49, 136, 115, 128, 0, 128, 0, 128, 85],
     [170, 0, 128, 0, 128, 57, 194, 49, 136, 115, 128, 0, 128, 0, 128, 85],
     [170, 0, 128, 0, 128, 113, 202, 74, 202, 113, 128, 0, 128, 0, 128, 85],
     [170, 0, 128, 0, 128, 114, 202, 114, 194, 65, 128, 0, 128, 0, 128, 85],
     [170, 0, 128, 0, 128, 114, 202, 114, 194, 65, 128, 0, 128, 0, 128, 85],
     [170, 0, 128, 0, 128, 59, 193, 49, 137, 113, 128, 0, 128, 0, 128, 85],
     [170, 0, 128, 0, 128, 57, 194, 66, 194, 57, 128, 0, 128, 0, 128, 85],
     [170, 0, 128, 0, 128, 34, 182, 42, 162, 34, 128, 0, 128, 0, 128, 85],
     [170, 0, 128, 0, 128, 59, 194, 51, 138, 114, 128, 0, 128, 0, 128, 85],
     [170, 0, 128, 0, 128, 123, 194, 123, 194, 122, 128, 0, 128, 0, 128, 85],
     [170, 0, 128, 0, 128, 57, 194, 50, 138, 113, 128, 0, 128, 0, 128, 85],
     [170, 0, 128, 0, 128, 51, 196, 37, 148, 99, 128, 0, 128, 0, 128, 85],
     [170, 0, 128, 0, 128, 57, 194, 50, 138, 113, 128, 0, 128, 0, 128, 85],
     [170, 0, 128, 0, 128, 57, 194, 65, 192, 59, 128, 0, 128, 0, 128, 85],
     [170, 0, 128, 0, 128, 14, 144, 12, 130, 28, 128, 0, 128, 0, 128, 85],
     [170, 0, 128, 0, 128, 49, 202, 73, 200, 51, 128, 0, 128, 0, 128, 85],
     [170, 0, 128, 0, 128, 28, 146, 28, 144, 16, 128, 0, 128, 0, 128, 85],
     [170, 0, 128, 0, 128, 51, 202, 123, 202, 74, 128, 0, 128, 0, 128, 85],
     [0, 0, 0, 0, 0, 0, 0, 0, 0, 0, 0, 0, 0, 0, 0, 0],
     [0, 0, 0, 0, 8, 8, 0, 8, 8, 8, 8, 8, 8, 8, 0, 0],
     [0, 0, 0, 0, 8, 8, 62, 73, 72, 72, 73, 62, 8, 8, 0, 0],
     [0, 0, 0, 0, 14, 16, 16, 16, 124, 16, 16, 16, 62, 97, 0, 0],
     [0, 0, 0, 0, 0, 66, 60, 36, 66, 66, 36, 60, 66, 0, 0, 0],
     [0, 0, 0, 0, 65, 34, 20, 8, 127, 8, 127, 8, 8, 8, 0, 0],
     [0, 0, 0, 0, 8, 8, 8, 8, 0, 0, 8, 8, 8, 8, 0, 0],
     [0, 0, 0, 0, 60, 66, 64, 60, 66, 66, 60, 2, 66, 60, 0, 0],
     [36, 36, 0, 0, 0, 0, 0, 0, 0, 0, 0, 0, 0, 0, 0, 0],
     [0, 0, 0, 0, 60, 66, 153, 165, 161, 161, 165, 153, 66, 60, 0, 0],
     [0, 0, 28, 2, 30, 34, 30, 0, 62, 0, 0, 0, 0, 0, 0, 0],
     [0, 0, 0, 0, 0, 18, 18, 36, 36, 72, 36, 36, 18, 18, 0, 0],
     [0, 0, 0, 0, 0, 0, 0, 0, 0, 0, 126, 2, 2, 2, 0, 0],
     [170, 0, 128, 58, 194, 51, 138, 114, 128, 0, 128, 3, 128, 0, 128, 85],
     [0, 0, 0, 0, 60, 66, 185, 165, 165, 185, 169, 165, 66, 60, 0, 0],
     [0, 0, 126, 0, 0, 0, 0, 0, 0, 0, 0, 0, 0, 0, 0, 0],
     [0, 0, 0, 0, 24, 36, 36, 24, 0, 0, 0, 0, 0, 0, 0, 0],
     [0, 0, 0, 0, 8, 8, 8, 127, 8, 8, 8, 0, 127, 0, 0, 0],
     [0, 0, 0, 56, 68, 4, 24, 32, 64, 124, 0, 0, 0, 0, 0, 0],
     [0, 0, 0, 56, 68, 4, 56, 4, 68, 56, 0, 0, 0, 0, 0, 0],
     [0, 4, 8, 16, 0, 0, 0, 0, 0, 0, 0, 0, 0, 0, 0, 0],
     [0, 0, 0, 0, 0, 0, 66, 66, 66, 66, 66, 66, 102, 89, 64, 128],
     [0, 0, 0, 0, 63, 122, 122, 122, 58, 10, 10, 10, 10, 10, 10, 0],
     [0, 0, 0, 0, 0, 0, 0, 0, 24, 24, 0, 0, 0, 0, 0, 0],
     [0, 0, 0, 0, 0, 0, 0, 0, 0, 0, 0, 0, 0, 0, 8, 48],
     [0, 0, 0, 16, 48, 80, 16, 16, 16, 124, 0, 0, 0, 0, 0, 0],
     [0, 0, 28, 34, 34, 34, 28, 0, 62, 0, 0, 0, 0, 0, 0, 0],
     [0, 0, 0, 0, 0, 72, 72, 36, 36, 18, 36, 36, 72, 72, 0, 0],
     [0, 0, 0, 0, 34, 98, 36, 40, 40, 18, 22, 42, 78, 66, 0, 0],
     [0, 0, 0, 0, 34, 98, 36, 40, 40, 20, 26, 34, 68, 78, 0, 0],
     [0, 0, 0, 0, 98, 18, 36, 24, 104, 18, 22, 42, 78, 66, 0, 0],
     [0, 0, 0, 0, 16, 16, 0, 16, 16, 32, 64, 66, 66, 60, 0, 0],
     [48, 12, 0, 0, 24, 36, 36, 66, 66, 126, 66, 66, 66, 66, 0, 0],
     [12, 48, 0, 0, 24, 36, 36, 66, 66, 126, 66, 66, 66, 66, 0, 0],
     [24, 36, 0, 0, 24, 36, 36, 66, 66, 126, 66, 66, 66, 66, 0, 0],
     [50, 76, 0, 0, 24, 36, 36, 66, 66, 126, 66, 66, 66, 66, 0, 0],
     [36, 36, 0, 0, 24, 36, 36, 66, 66, 126, 66, 66, 66, 66, 0, 0],
     [24, 36, 24, 0, 24, 36, 36, 66, 66, 126, 66, 66, 66, 66, 0, 0],
     [0, 0, 0, 0, 31, 40, 72, 72, 127, 72, 72, 72, 72, 79, 0, 0],
     [0, 0, 0, 0, 60, 66, 66, 64, 64, 64, 64, 66, 66, 60, 8, 48],
     [48, 12, 0, 0, 126, 64, 64, 64, 124, 64, 64, 64, 64, 126, 0, 0],
     [12, 48, 0, 0, 126, 64, 64, 64, 124, 64, 64, 64, 64, 126, 0, 0],
     [24, 36, 0, 0, 126, 64, 64, 64, 124, 64, 64, 64, 64, 126, 0, 0],
     [36, 36, 0, 0, 126, 64, 64, 64, 124, 64, 64, 64, 64, 126, 0, 0],
     [24, 6, 0, 0, 62, 8, 8, 8, 8, 8, 8, 8, 8, 62, 0, 0],
     [12, 48, 0, 0, 62, 8, 8, 8, 8, 8, 8, 8, 8, 62, 0, 0],
     [24, 36, 0, 0, 62, 8, 8, 8, 8, 8, 8, 8, 8, 62, 0, 0],
     [36, 36, 0, 0, 62, 8, 8, 8, 8, 8, 8, 8, 8, 62, 0, 0],
     [0, 0, 0, 0, 120, 68, 66, 66, 242, 66, 66, 66, 68, 120, 0, 0],
     [50, 76, 0, 0, 66, 98, 98, 82, 82, 74, 74, 70, 70, 66, 0, 0],
     [48, 12, 0, 0, 60, 66, 66, 66, 66, 66, 66, 66, 66, 60, 0, 0],
     [12, 48, 0, 0, 60, 66, 66, 66, 66, 66, 66, 66, 66, 60, 0, 0],
     [24, 36, 0, 0, 60, 66, 66, 66, 66, 66, 66, 66, 66, 60, 0, 0],
     [50, 76, 0, 0, 60, 66, 66, 66, 66, 66, 66, 66, 66, 60, 0, 0],
     [36, 36, 0, 0, 60, 66, 66, 66, 66, 66, 66, 66, 66, 60, 0, 0],
     [0, 0, 0, 0, 0, 0, 0, 66, 36, 24, 36, 66, 0, 0, 0, 0],
     [0, 0, 0, 2, 58, 68, 70, 74, 74, 82, 82, 98, 34, 92, 64, 0],
     [48, 12, 0, 0, 66, 66, 66, 66, 66, 66, 66, 66, 66, 60, 0, 0],
     [12, 48, 0, 0, 66, 66, 66, 66, 66, 66, 66, 66, 66, 60, 0, 0],
     [24, 36, 0, 0, 66, 66, 66, 66, 66, 66, 66, 66, 66, 60, 0, 0],
     [36, 36, 0, 0, 66, 66, 66, 66, 66, 66, 66, 66, 66, 60, 0, 0],
     [12, 48, 0, 0, 65, 65, 34, 34, 20, 8, 8, 8, 8, 8, 0, 0],
     [0, 0, 0, 64, 64, 120, 68, 66, 66, 68, 120, 64, 64, 64, 0, 0],
     [0, 0, 0, 0, 56, 68, 68, 72, 88, 68, 66, 66, 82, 76, 0, 0],
     [0, 0, 48, 12, 0, 0, 60, 66, 2, 62, 66, 66, 70, 58, 0, 0],
     [0, 0, 12, 48, 0, 0, 60, 66, 2, 62, 66, 66, 70, 58, 0, 0],
     [0, 0, 24, 36, 0, 0, 60, 66, 2, 62, 66, 66, 70, 58, 0, 0],
     [0, 0, 50, 76, 0, 0, 60, 66, 2, 62, 66, 66, 70, 58, 0, 0],
     [0, 0, 36, 36, 0, 0, 60, 66, 2, 62, 66, 66, 70, 58, 0, 0],
     [0, 24, 36, 24, 0, 0, 60, 66, 2, 62, 66, 66, 70, 58, 0, 0],
     [0, 0, 0, 0, 0, 0, 62, 73, 9, 63, 72, 72, 73, 62, 0, 0],
     [0, 0, 0, 0, 0, 0, 60, 66, 64, 64, 64, 64, 66, 60, 8, 48],
     [0, 0, 48, 12, 0, 0, 60, 66, 66, 126, 64, 64, 66, 60, 0, 0],
     [0, 0, 12, 48, 0, 0, 60, 66, 66, 126, 64, 64, 66, 60, 0, 0],
     [0, 0, 24, 36, 0, 0, 60, 66, 66, 126, 64, 64, 66, 60, 0, 0],
     [0, 0, 36, 36, 0, 0, 60, 66, 66, 126, 64, 64, 66, 60, 0, 0],
     [0, 0, 48, 12, 0, 0, 24, 8, 8, 8, 8, 8, 8, 62, 0, 0],
     [0, 0, 12, 48, 0, 0, 24, 8, 8, 8, 8, 8, 8, 62, 0, 0],
     [0, 0, 24, 36, 0, 0, 24, 8, 8, 8, 8, 8, 8, 62, 0, 0],
     [0, 0, 36, 36, 0, 0, 24, 8, 8, 8, 8, 8, 8, 62, 0, 0],
     [0, 0, 50, 12, 20, 34, 2, 62, 66, 66, 66, 66, 66, 60, 0, 0],
     [0, 0, 50, 76, 0, 0, 92, 98, 66, 66, 66, 66, 66, 66, 0, 0],
     [0, 0, 48, 12, 0, 0, 60, 66, 66, 66, 66, 66, 66, 60, 0, 0],
     [0, 0, 12, 48, 0, 0, 60, 66, 66, 66, 66, 66, 66, 60, 0, 0],
     [0, 0, 24, 36, 0, 0, 60, 66, 66, 66, 66, 66, 66, 60, 0, 0],
     [0, 0, 50, 76, 0, 0, 60, 66, 66, 66, 66, 66, 66, 60, 0, 0],
     [0, 0, 36, 36, 0, 0, 60, 66, 66, 66, 66, 66, 66, 60, 0, 0],
     [0, 0, 0, 0, 0, 0, 24, 0, 0, 126, 0, 0, 24, 0, 0, 0],
     [0, 0, 0, 0, 0, 2, 60, 70, 74, 74, 82, 82, 98, 60, 64, 0],
     [0, 0, 48, 12, 0, 0, 66, 66, 66, 66, 66, 66, 70, 58, 0, 0],
     [0, 0, 12, 48, 0, 0, 66, 66, 66, 66, 66, 66, 70, 58, 0, 0],
     [0, 0, 24, 36, 0, 0, 66, 66, 66, 66, 66, 66, 70, 58, 0, 0],
     [0, 0, 36, 36, 0, 0, 66, 66, 66, 66, 66, 66, 70, 58, 0, 0],
     [0, 0, 12, 48, 0, 0, 66, 66, 66, 66, 66, 38, 26, 2, 2, 60],
     [0, 0, 0, 64, 64, 64, 92, 98, 66, 66, 66, 66, 98, 92, 64, 64],
     [0, 0, 36, 36, 0, 0, 66, 66, 66, 66, 66, 38, 26, 2, 2, 60]]"

definition font_data :: "(u64 \<Rightarrow> u8) \<Rightarrow> u64 \<Rightarrow> u8" where
  "font_data other a = (let t = concat (font_low @ font_high) in if unat a < length t then of_nat (t ! unat a) else other a)"

section \<open>Rows of the table\<close>

lemma font_shape: "length font_low = 128" "length font_high = 128" "\<forall>r \<in> set font_low. length r = 16" "\<forall>r \<in> set font_high. length r = 16"
  by (simp_all add: font_low_def font_high_def)

lemma font_bytes: "\<forall>r \<in> set font_low. \<forall>x \<in> set r. x < 256"
  by (simp add: font_low_def)

lemma printable_distinct: "distinct (take 95 (drop 32 font_low))"
  by (simp add: font_low_def)

lemma concat_rows:
  assumes "\<forall>r \<in> set rs. length r = n" "i < length rs" "b < n"
  shows "concat rs ! (n * i + b) = rs ! i ! b"
  using assms
proof (induction rs arbitrary: i)
  case (Cons r rs)
  show ?case
  proof (cases i)
    case 0
    then show ?thesis using Cons.prems by (simp add: nth_append)
  next
    case (Suc k)
    then show ?thesis using Cons.prems Cons.IH [of k] by (simp add: nth_append)
  qed
qed simp

lemma font_length: "length (concat (font_low @ font_high)) = 4096"
proof -
  have "map length rs = replicate (length rs) 16" if "\<forall>r \<in> set rs. length r = 16" for rs :: "nat list list"
    using that by (induction rs) simp_all
  then show ?thesis using font_shape by (simp add: length_concat sum_list_replicate)
qed

lemma glyph_offset_ascii:
  assumes "unat c < 128" "b < 16"
  shows "unat (glyph_offset c + of_nat b) = 16 * unat c + b"
proof -
  have "scast c = (of_nat (unat c) :: u64)"
  proof (rule bit_word_eqI)
    fix n :: nat assume "n < LENGTH(64)"
    have "unat (c div 2 ^ 7) = 0" using assms(1) by (simp add: unat_div)
    then have "c div 2 ^ 7 = 0" by (simp only: unat_eq_0)
    then have "\<not> bit c 7" by (simp only: bit_iff_odd) simp
    moreover have "n < 8" if "bit c n" using bit_imp_le_length [OF that] by simp
    ultimately have "n < 7" if "bit c n" using that by (cases "n = 7") (auto simp: less_Suc_eq numeral_eq_Suc)
    then show "bit (scast c :: u64) n = bit (of_nat (unat c) :: u64) n"
      using \<open>\<not> bit c 7\<close> by (cases "n < 7") (auto simp: bit_simps min_def)
  qed
  then have "glyph_offset c + of_nat b = of_nat (16 * unat c + b)" by (simp add: glyph_offset_def ac_simps)
  then show ?thesis using assms unat_of_nat64 [of "16 * unat c + b"] by simp
qed

text \<open>The sixteen bytes that a character reads.\<close>

lemma font_row:
  assumes "unat c < 128" "b < 16"
  shows "font_data other (glyph_offset c + of_nat b) = of_nat (font_low ! unat c ! b)"
proof -
  have "16 * unat c + b < 4096" using assms by simp
  moreover have "concat (font_low @ font_high) ! (16 * unat c + b) = font_low ! unat c ! b"
    using concat_rows [of "font_low @ font_high" 16 "unat c" b] assms font_shape by (auto simp: nth_append simp del: concat_append)
  ultimately show ?thesis using glyph_offset_ascii [OF assms] font_length by (simp add: font_data_def Let_def del: concat_append)
qed

end
