(* ===== verification/Font_Props.thy ===== *)
theory Font_Props
  imports Font
begin

text \<open>
  Which characters have a glyph in the table, and reading a printed character back from the screen.
\<close>

section \<open>Inside and outside of the table\<close>

text \<open>A byte above 127 is a negative \<open>char\<close>: its rows lie below the table.\<close>

lemma glyph_offset_other:
  assumes "128 \<le> unat c" "b < 16"
  shows "4096 \<le> unat (glyph_offset c + of_nat b)"
proof -
  have c: "unat c < 256" using unsigned_less [of c] by simp
  define k where "k = 255 - unat c"
  have k: "k < 256" by (simp add: k_def)
  have "unat (c div 2 ^ 7) = 1" using assms(1) c by (simp add: unat_div)
  then have "c div 2 ^ 7 = 1" by (metis unat_1 word_unat_eq_iff)
  then have b7: "bit c 7" unfolding bit_iff_odd by (simp only: odd_one) simp
  have "NOT c = of_nat k" using c by (simp add: not_eq_complement k_def of_nat_diff)
  moreover have "(scast c :: u64) = NOT (ucast (NOT c))"
  proof (rule bit_word_eqI)
    fix n :: nat assume n: "n < LENGTH(64)"
    show "bit (scast c :: u64) n = bit (NOT (ucast (NOT c)) :: u64) n"
      using b7 n by (cases "n < 7"; cases "n = 7") (auto simp: bit_simps min_def)
  qed
  moreover have "ucast (of_nat k :: u8) = (of_nat k :: u64)" using take_bit_nat_eq_self [of k 8] k by (simp add: unsigned_of_nat)
  ultimately have sc: "(scast c :: u64) = - of_nat (k + 1)" by (simp add: not_eq_complement)
  have "glyph_offset c + of_nat b = - of_nat (16 * (k + 1) - b)" unfolding glyph_offset_def sc using assms(2) by (simp add: of_nat_diff algebra_simps)
  also have "\<dots> = of_nat (2 ^ 64 - (16 * (k + 1) - b))" using assms c by (simp add: k_def of_nat_diff)
  finally have "unat (glyph_offset c + of_nat b) = 2 ^ 64 - (16 * (k + 1) - b)" using unat_of_nat64 [of "2 ^ 64 - (16 * (k + 1) - b)"] assms(2) by simp
  then show ?thesis using assms c by (simp add: k_def)
qed

text \<open>The rows of a character that \<open>print_char\<close> reads lie in the table of glyphs exactly when the character is one of the 128 of ASCII; in
  that case they are the sixteen bytes of its row.\<close>

theorem glyph_in_font:
  assumes "b < 16"
  shows "(unat (glyph_offset c + of_nat b) < length (concat (font_low @ font_high)) \<longleftrightarrow> unat c < 128) \<and>
    (unat c < 128 \<longrightarrow> font_data other (glyph_offset c + of_nat b) = of_nat (font_low ! unat c ! b))"
  using glyph_offset_ascii [OF _ assms, of c] glyph_offset_other [OF _ assms, of c] font_row [OF _ assms, of c other] font_length
  by (cases "unat c < 128") (use assms in \<open>auto simp del: concat_append\<close>)

theorem glyph_in_font_witness:
  "unat (glyph_offset 65 + of_nat 4) < length (concat (font_low @ font_high)) \<and> font_data (\<lambda>_. 0) (glyph_offset 65 + of_nat 4) = 0x18"
  using glyph_in_font [of 4 65 "\<lambda>_. 0"] by (simp add: font_low_def)

section \<open>Reading the screen\<close>

definition printables :: "u8 list" where
  "printables = map of_nat [32 ..< 127]"

definition has_color :: "mem \<Rightarrow> u64 \<Rightarrow> nat \<Rightarrow> u32 \<Rightarrow> bool" where
  "has_color m fb i color \<longleftrightarrow> (\<forall>k < 4. m (pixel_byte fb i k) = ucast (drop_bit (8 * k) color))"

text \<open>The character whose glyph the pixels of a colour in the cell at \<open>x\<close>, \<open>y\<close> show.\<close>

definition read_char :: "(u64 \<Rightarrow> u8) \<Rightarrow> u32 \<Rightarrow> nat \<Rightarrow> nat \<Rightarrow> 'a kscreen_scheme \<Rightarrow> u8 option" where
  "read_char ft color x y s = find (\<lambda>c. \<forall>b < 16. \<forall>j < 8. has_color (mem s) (frameBuffer s) (fb_index (j + x) (b + y) s) color \<longleftrightarrow> glyph_bit ft c b j) printables"

lemma in_printables: "c \<in> set printables \<longleftrightarrow> 32 \<le> unat c \<and> unat c < 127"
proof
  assume "c \<in> set printables"
  then obtain i where "i \<in> {32 ..< 127}" "c = of_nat i" unfolding printables_def set_map set_upt by blast
  then show "32 \<le> unat c \<and> unat c < 127" by (simp add: unat_of_nat)
next
  assume "32 \<le> unat c \<and> unat c < 127"
  then have "c = of_nat (unat c)" "unat c \<in> {32 ..< 127}" by simp_all
  then show "c \<in> set printables" unfolding printables_def set_map set_upt by (rule image_eqI)
qed

lemma glyphs_differ:
  assumes "c \<in> set printables" "d \<in> set printables" "\<forall>b < 16. \<forall>j < 8. glyph_bit (font_data other) c b j = glyph_bit (font_data other) d b j"
  shows "c = d"
proof -
  have cd: "32 \<le> unat c" "unat c < 127" "32 \<le> unat d" "unat d < 127" using assms(1,2) by (simp_all add: in_printables)
  have row: "font_low ! unat x \<in> set font_low" "length (font_low ! unat x) = 16" if "unat x < 127" for x :: u8
    using that font_shape by simp_all
  have "font_low ! unat c ! b = font_low ! unat d ! b" if b: "b < 16" for b
  proof -
    have "(of_nat (font_low ! unat c ! b) :: u8) = of_nat (font_low ! unat d ! b)"
    proof (rule bit_word_eqI)
      fix n :: nat assume "n < LENGTH(8)"
      then show "bit (of_nat (font_low ! unat c ! b) :: u8) n = bit (of_nat (font_low ! unat d ! b) :: u8) n"
        using assms(3) [rule_format, of b "7 - n"] b cd font_row [of c b other] font_row [of d b other] by (simp add: glyph_bit_def)
    qed
    moreover have "font_low ! unat c ! b < 256" "font_low ! unat d ! b < 256" using font_bytes row cd b by (metis nth_mem)+
    ultimately show ?thesis by (simp add: word_of_nat_eq_iff take_bit_nat_eq_self)
  qed
  then have "font_low ! unat c = font_low ! unat d" using row cd by (intro nth_equalityI) simp_all
  moreover have "font_low ! unat x = take 95 (drop 32 font_low) ! (unat x - 32)" if "32 \<le> unat x" "unat x < 127" for x :: u8
    using that font_shape(1) by simp
  moreover have "length (take 95 (drop 32 font_low)) = 95" using font_shape(1) by simp
  moreover have "unat c - 32 < 95" "unat d - 32 < 95" using cd by simp_all
  ultimately have "unat c - 32 = unat d - 32" using cd nth_eq_iff_index_eq [OF printable_distinct, of "unat c - 32" "unat d - 32"] by metis
  then have "unat c = unat d" using cd by simp
  then show ?thesis by (simp add: word_unat_eq_iff)
qed

lemma fb_index_inj:
  assumes "x < w" "x' < w" "w \<le> unat (pitch s) div 4" "fb_index x y s = fb_index x' y' s"
  shows "x = x' \<and> y = y'"
proof -
  let ?p = "unat (pitch s) div 4"
  have "x < ?p" "x' < ?p" using assms(1-3) by simp_all
  moreover have "y * ?p + x = y' * ?p + x'" using assms(4) by (simp add: fb_index_def)
  ultimately show ?thesis by (metis add.commute div_mult_self1_is_m mod_mult_self1 mod_less div_less add_0 div_mult_self3 not_less0 gr_implies_not0 less_nat_zero_code)
qed

text \<open>A cell after its glyph was painted: the pixels of the colour are those of the glyph.\<close>

lemma cell_shows:
  fixes s :: "'a kscreen_scheme"
  defines "cell j b \<equiv> fb_index (j + unat (cursor_x s)) (b + unat (cursor_y s)) s"
  assumes m: "painted (frameBuffer s) (glyph_pixels ft c 16 s) color (mem s) m" and w: "unat (cursor_x s) + 8 \<le> unat (pitch s) div 4"
    and blank: "\<not> has_color (mem s) (frameBuffer s) (cell j b) color" and bj: "b < 16" "j < 8"
  shows "has_color m (frameBuffer s) (cell j b) color \<longleftrightarrow> glyph_bit ft c b j"
proof (cases "glyph_bit ft c b j")
  case True
  then have "cell j b \<in> glyph_pixels ft c 16 s" using bj by (auto simp: glyph_pixels_def cell_def)
  then show ?thesis using m True by (simp add: painted_def has_color_def)
next
  case False
  have "cell j b \<notin> glyph_pixels ft c 16 s"
  proof
    assume "cell j b \<in> glyph_pixels ft c 16 s"
    then obtain b' j' where "b' < 16" "j' < 8" "glyph_bit ft c b' j'" "cell j b = cell j' b'" by (auto simp: glyph_pixels_def cell_def)
    then show False using fb_index_inj [OF _ _ w, of "j + unat (cursor_x s)" "j' + unat (cursor_x s)" "b + unat (cursor_y s)" "b' + unat (cursor_y s)"] bj False
      by (auto simp: cell_def)
  qed
  moreover have "i < 2 ^ 40" if "i \<in> insert (cell j b) (glyph_pixels ft c 16 s)" for i
    using that bj unat_u16 [of "cursor_x s"] unat_u16 [of "cursor_y s"] by (auto simp: glyph_pixels_def cell_def intro!: fb_index_small [simplified])
  ultimately have "m (pixel_byte (frameBuffer s) (cell j b) k) = mem s (pixel_byte (frameBuffer s) (cell j b) k)" if "k < 4" for k
    using m that pixel_byte_inj unfolding painted_def by (metis insertCI)
  then show ?thesis using blank False by (auto simp: has_color_def)
qed

lemma find_glyph: "c \<in> set xs \<Longrightarrow> find (\<lambda>d. d = c) xs = Some c"
  by (induction xs) auto

text \<open>C38: a printable character on a blank cell of the screen can be read back from the frame buffer: of the printable characters exactly the
  one that was printed has the glyph that the pixels of its colour show.\<close>

theorem print_char_read_back:
  assumes "c \<in> set printables" "unat (cursor_x s) + 10 < unat (screen_width s)" "cursor_y s < screen_height s" "unat (screen_width s) \<le> unat (pitch s) div 4"
    and "\<forall>b < 16. \<forall>j < 8. \<not> has_color (mem s) (frameBuffer s) (fb_index (j + unat (cursor_x s)) (b + unat (cursor_y s)) s) color"
  shows "read_char (font_data other) color (unat (cursor_x s)) (unat (cursor_y s)) (print_char (font_data other) c color s) = Some c"
proof -
  let ?f = "font_data other" and ?x = "unat (cursor_x s)" and ?y = "unat (cursor_y s)"
  have "c \<noteq> 10" using assms(1) by (auto simp: in_printables)
  obtain m where m: "print_char ?f c color s = s\<lparr>mem := m, cursor_x := cursor_x s + 10\<rparr>" "painted (frameBuffer s) (glyph_pixels ?f c 16 s) color (mem s) m"
    using print_char_paints [where font = ?f and color = color, OF \<open>c \<noteq> 10\<close> assms(2,3)] by blast
  let ?P = "\<lambda>d. \<forall>b < 16. \<forall>j < 8. has_color m (frameBuffer s) (fb_index (j + ?x) (b + ?y) s) color \<longleftrightarrow> glyph_bit ?f d b j"
  have "?P c" using cell_shows [OF m(2)] assms(2,4,5) by simp
  then have "?P d \<longleftrightarrow> d = c" if "d \<in> set printables" for d using glyphs_differ [OF assms(1) that, of other] by auto
  then have "find ?P printables = find (\<lambda>d. d = c) printables" by (intro find_cong) simp_all
  also have "\<dots> = Some c" using assms(1) by (rule find_glyph)
  finally show ?thesis unfolding read_char_def m(1) by (simp add: fb_index_def)
qed

theorem print_char_read_back_witness:
  "read_char (font_data (\<lambda>_. 0)) 0xffffff 0 0 (print_char (font_data (\<lambda>_. 0)) 65 0xffffff screen_sample) = Some 65"
proof -
  have "\<not> has_color (mem screen_sample) (frameBuffer screen_sample) i 0xffffff" for i
    by (auto simp: has_color_def screen_sample_def intro!: exI [of _ 0])
  then show ?thesis using print_char_read_back [of 65 screen_sample "0xffffff" "\<lambda>_. 0"] by (simp add: screen_sample_def in_printables)
qed

end
