(* ===== verification/Port_Io.thy ===== *)
theory Port_Io
  imports Devices
begin

text \<open>
  \<^verbatim>\<open>kernel/io.cpp\<close>: the port functions are two instructions of inline assembly each. Which registers hold the operands is the choice of the
  compiler, within what the clobber list leaves, and an argument here. An instruction that does not exist with its operands, as \<open>in\<close> to
  another register than the accumulator or \<open>out\<close> to a port in another register than \<open>dx\<close>, is \<open>None\<close>.
\<close>

section \<open>Instructions\<close>

datatype reg = RAX | RBX | RCX | RDX | RSI | RDI

record 'd ports =
  in_port :: "nat \<Rightarrow> u16 \<Rightarrow> 'd \<Rightarrow> u64 \<times> 'd"
  out_port :: "nat \<Rightarrow> u16 \<Rightarrow> u64 \<Rightarrow> 'd \<Rightarrow> 'd"

text \<open>Widths are in bits; operands stand in the order of the source.\<close>

datatype instr = Mov nat reg reg | In nat reg reg | Out nat reg reg

definition with_low :: "nat \<Rightarrow> u64 \<Rightarrow> u64 \<Rightarrow> u64" where
  "with_low w v old = push_bit w (drop_bit w old) OR take_bit w v"

fun exec1 :: "'d ports \<Rightarrow> instr \<Rightarrow> (reg \<Rightarrow> u64) \<times> 'd \<Rightarrow> ((reg \<Rightarrow> u64) \<times> 'd) option" where
  "exec1 io (Mov w src dst) (r, d) = Some (r(dst := with_low w (r src) (r dst)), d)"
| "exec1 io (In w port dst) (r, d) =
     (if port = RDX \<and> dst = RAX then (case in_port io w (ucast (r port)) d of (v, d) \<Rightarrow> Some (r(dst := with_low w v (r dst)), d)) else None)"
| "exec1 io (Out w src port) (r, d) =
     (if port = RDX \<and> src = RAX then Some (r, out_port io w (ucast (r port)) (take_bit w (r src)) d) else None)"

fun exec :: "'d ports \<Rightarrow> instr list \<Rightarrow> (reg \<Rightarrow> u64) \<times> 'd \<Rightarrow> ((reg \<Rightarrow> u64) \<times> 'd) option" where
  "exec io [] s = Some s"
| "exec io (i # is) s = Option.bind (exec1 io i s) (exec io is)"

section \<open>The port functions\<close>

text \<open>\<open>in0\<close> and \<open>out0\<close> are the registers the compiler has chosen, \<open>r\<close> what the registers hold before.\<close>

definition io_in :: "nat \<Rightarrow> 'd ports \<Rightarrow> reg \<Rightarrow> reg \<Rightarrow> (reg \<Rightarrow> u64) \<Rightarrow> u16 \<Rightarrow> 'd \<Rightarrow> (u64 \<times> 'd) option" where
  "io_in w io out0 in0 r port d =
     map_option (\<lambda>(r, d). (take_bit w (r out0), d)) (exec io [Mov 16 in0 RDX, In w RDX out0] (r(in0 := ucast port), d))"

definition io_inb :: "'d ports \<Rightarrow> reg \<Rightarrow> reg \<Rightarrow> (reg \<Rightarrow> u64) \<Rightarrow> u16 \<Rightarrow> 'd \<Rightarrow> (u8 \<times> 'd) option" where
  "io_inb io out0 in0 r port d = map_option (apfst ucast) (io_in 8 io out0 in0 r port d)"

definition io_inw :: "'d ports \<Rightarrow> reg \<Rightarrow> reg \<Rightarrow> (reg \<Rightarrow> u64) \<Rightarrow> u16 \<Rightarrow> 'd \<Rightarrow> (u16 \<times> 'd) option" where
  "io_inw io out0 in0 r port d = map_option (apfst ucast) (io_in 16 io out0 in0 r port d)"

definition io_inl :: "'d ports \<Rightarrow> reg \<Rightarrow> reg \<Rightarrow> (reg \<Rightarrow> u64) \<Rightarrow> u16 \<Rightarrow> 'd \<Rightarrow> (u32 \<times> 'd) option" where
  "io_inl io out0 in0 r port d = map_option (apfst ucast) (io_in 32 io out0 in0 r port d)"

definition io_out :: "nat \<Rightarrow> 'd ports \<Rightarrow> reg \<Rightarrow> reg \<Rightarrow> (reg \<Rightarrow> u64) \<Rightarrow> u16 \<Rightarrow> u64 \<Rightarrow> 'd \<Rightarrow> 'd option" where
  "io_out w io in0 in1 r port v d = map_option snd (exec io [Mov w in1 RAX, Out w RAX in0] (r(in0 := ucast port, in1 := v), d))"

definition io_outb :: "'d ports \<Rightarrow> reg \<Rightarrow> reg \<Rightarrow> (reg \<Rightarrow> u64) \<Rightarrow> u16 \<Rightarrow> u8 \<Rightarrow> 'd \<Rightarrow> 'd option" where
  "io_outb io in0 in1 r port v d = io_out 8 io in0 in1 r port (ucast v) d"

definition io_outw :: "'d ports \<Rightarrow> reg \<Rightarrow> reg \<Rightarrow> (reg \<Rightarrow> u64) \<Rightarrow> u16 \<Rightarrow> u16 \<Rightarrow> 'd \<Rightarrow> 'd option" where
  "io_outw io in0 in1 r port v d = io_out 16 io in0 in1 r port (ucast v) d"

definition io_outl :: "'d ports \<Rightarrow> reg \<Rightarrow> reg \<Rightarrow> (reg \<Rightarrow> u64) \<Rightarrow> u16 \<Rightarrow> u32 \<Rightarrow> 'd \<Rightarrow> 'd option" where
  "io_outl io in0 in1 r port v d = io_out 32 io in0 in1 r port (ucast v) d"

section \<open>What they do\<close>

lemma take_with_low: "w \<le> 64 \<Longrightarrow> take_bit w (with_low w v old) = take_bit w v"
  unfolding with_low_def by (rule bit_word_eqI) (auto simp: bit_simps)

lemma ucast_with_low: "ucast (with_low 16 (ucast p) old) = p" for p :: u16
  unfolding with_low_def by (rule bit_word_eqI) (auto simp: bit_simps)

lemma ucast_port: "ucast (ucast p :: u64) = p" for p :: u16
  by (rule bit_word_eqI) (auto simp: bit_simps)

lemma io_in_eq:
  assumes "w \<le> 64"
  shows "io_in w io out0 in0 r port d = (if out0 = RAX then Some (apfst (take_bit w) (in_port io w port d)) else None)"
  using assms by (simp add: io_in_def take_with_low ucast_with_low split: prod.splits)

lemma io_out_eq:
  assumes "in1 \<noteq> RAX" "in0 \<noteq> in1" "w \<le> 64"
  shows "io_out w io in0 in1 r port v d = (if in0 = RDX then Some (out_port io w port (take_bit w v) d) else None)"
  using assms by (auto simp: io_out_def take_with_low ucast_port)

lemma width_bits:
  "ucast (take_bit 8 x) = (ucast x :: u8)" "ucast (take_bit 16 x) = (ucast x :: u16)" "ucast (take_bit 32 x) = (ucast x :: u32)"
  "take_bit 8 (ucast a) = (ucast a :: u64)" "take_bit 16 (ucast b) = (ucast b :: u64)" "take_bit 32 (ucast c) = (ucast c :: u64)"
  for x :: u64 and a :: u8 and b :: u16 and c :: u32
  by (rule bit_word_eqI, auto simp: bit_simps dest: bit_imp_le_length)+

text \<open>C39: each port function does exactly one access of its width to its port and returns what the device answers or hands over the value, when
  the compiler puts the result of an input into the accumulator and the port of an output into \<open>dx\<close>; the constraints of the source allow
  other registers, and then there is no such instruction.\<close>

theorem port_functions:
  assumes "in0 \<noteq> RDX" "p \<noteq> RAX" "v0 \<noteq> RAX" "p \<noteq> v0"
  shows "io_inb io out0 in0 r port d = (if out0 = RAX then Some (apfst ucast (in_port io 8 port d)) else None) \<and>
    io_inw io out0 in0 r port d = (if out0 = RAX then Some (apfst ucast (in_port io 16 port d)) else None) \<and>
    io_inl io out0 in0 r port d = (if out0 = RAX then Some (apfst ucast (in_port io 32 port d)) else None) \<and>
    io_outb io p v0 r port b d = (if p = RDX then Some (out_port io 8 port (ucast b) d) else None) \<and>
    io_outw io p v0 r port w d = (if p = RDX then Some (out_port io 16 port (ucast w) d) else None) \<and>
    io_outl io p v0 r port l d = (if p = RDX then Some (out_port io 32 port (ucast l) d) else None)"
  using assms by (simp add: io_inb_def io_inw_def io_inl_def io_outb_def io_outw_def io_outl_def io_in_eq io_out_eq width_bits apfst_def map_prod_def split: prod.splits)

text \<open>A device that answers every input with its width and notes every output.\<close>

theorem port_functions_witness:
  "let io = \<lparr>in_port = (\<lambda>w p d. (of_nat w, d)), out_port = (\<lambda>w p v d. d @ [(w, p, v)])\<rparr> in
     io_inb io RAX RCX (\<lambda>_. 7) 0x60 [] = Some (8, []) \<and> io_inl io RBX RCX (\<lambda>_. 7) 0x60 [] = None \<and>
     io_outl io RDX RCX (\<lambda>_. 7) 0xCF8 0x80000000 [] = Some [(32, 0xCF8, 0x80000000)]"
  using port_functions [of RCX RDX RCX "\<lparr>in_port = (\<lambda>w p d. (of_nat w, d)), out_port = (\<lambda>w p v d. d @ [(w, p, v)])\<rparr>" RAX "\<lambda>_. 7" "0x60" "[]" 0 0 0]
    port_functions [of RCX RDX RCX "\<lparr>in_port = (\<lambda>w p d. (of_nat w, d)), out_port = (\<lambda>w p v d. d @ [(w, p, v)])\<rparr>" RBX "\<lambda>_. 7" "0x60" "[]" 0 0 0]
    port_functions [of RCX RDX RCX "\<lparr>in_port = (\<lambda>w p d. (of_nat w, d)), out_port = (\<lambda>w p v d. d @ [(w, p, v)])\<rparr>" RAX "\<lambda>_. 7" "0xCF8" "[]" 0 0 "0x80000000"]
  by (simp add: Let_def)

end
