(* ===== verification/Descriptors.thy ===== *)
theory Descriptors
  imports Phys_Mem
begin

text \<open>
  \<^verbatim>\<open>kernel/x86_64/gdt.cpp\<close> and \<^verbatim>\<open>kernel/x86_64/idt.cpp\<close>: the segment and interrupt descriptor tables, and what the
  processor reads from them. The addresses of the handlers, which are in assembly, are parameters.
\<close>

section \<open>The tables\<close>

record GDTEntry =
  limit1 :: u16
  base1 :: u16
  base2 :: u8
  access :: u8
  gflags :: u8
  base3 :: u8

record TSSEntry =
  t_limit :: u16
  t_base1 :: u16
  t_base2 :: u8
  flags1 :: u8
  flags2 :: u8
  t_base3 :: u8
  t_base4 :: u32
  t_reserved :: u32

record GDT =
  null :: GDTEntry
  kernelCode :: GDTEntry
  kernelData :: GDTEntry
  userCode :: GDTEntry
  userData :: GDTEntry
  tss :: TSSEntry

definition gdt_entry :: "u8 \<Rightarrow> u8 \<Rightarrow> GDTEntry" where
  "gdt_entry acc fl = \<lparr>limit1 = 0, base1 = 0, base2 = 0, access = acc, gflags = fl, base3 = 0\<rparr>"

definition init_gdt :: GDT where
  "init_gdt = \<lparr>null = gdt_entry 0 0, kernelCode = gdt_entry 0x9A 0x20, kernelData = gdt_entry 0x92 0,
     userCode = gdt_entry 0xFA 0x20, userData = gdt_entry 0xF2 0,
     tss = \<lparr>t_limit = 104, t_base1 = 0, t_base2 = 0, flags1 = 0x89, flags2 = 0, t_base3 = 0, t_base4 = 0, t_reserved = 0\<rparr>\<rparr>"

definition load_tss :: "u64 \<Rightarrow> GDT \<Rightarrow> GDT" where
  "load_tss tssAddr g = g\<lparr>tss := (tss g)\<lparr>t_base1 := ucast (tssAddr AND 0xFFFF), t_base2 := ucast (drop_bit 16 tssAddr AND 0xFF),
     t_base3 := ucast (drop_bit 24 tssAddr AND 0xFF), t_base4 := ucast (drop_bit 32 tssAddr)\<rparr>\<rparr>"

record IDTGate =
  offset1 :: u16
  selector :: u16
  ist :: u8
  gate_type :: u8
  offset2 :: u16
  offset3 :: u32
  zero :: u32

type_synonym idt = "IDTGate list"

text \<open>Storing outside the 256 gates has no result.\<close>

definition register_interrupt_handler :: "nat \<Rightarrow> u64 \<Rightarrow> u8 \<Rightarrow> u8 \<Rightarrow> idt \<Rightarrow> idt option" where
  "register_interrupt_handler index addr gateType st t =
     (if index < length t then Some (t[index := (t ! index)\<lparr>offset1 := ucast (addr AND 0xFFFF),
        offset2 := ucast (drop_bit 16 addr AND 0xFFFF), offset3 := ucast (drop_bit 32 addr), selector := 0x08,
        gate_type := gateType, zero := 0, ist := st\<rparr>])
      else None)"

definition zero_gate :: IDTGate where
  "zero_gate = \<lparr>offset1 = 0, selector = 0, ist = 0, gate_type = 0, offset2 = 0, offset3 = 0, zero = 0\<rparr>"

definition init_idt :: "u64 \<Rightarrow> u64 \<Rightarrow> u64 \<Rightarrow> u64 \<Rightarrow> u64 \<Rightarrow> u64 \<Rightarrow> idt option" where
  "init_idt isr_div_by_zero isr_breakpoint isr_double_fault isr_general_protection reschedule_handler syscall_entry = do {
     let t = replicate 256 zero_gate;
     t \<leftarrow> register_interrupt_handler 0x0 isr_div_by_zero 0x8E 0 t;
     t \<leftarrow> register_interrupt_handler 0x3 isr_breakpoint 0x8E 0 t;
     t \<leftarrow> register_interrupt_handler 0x8 isr_double_fault 0x8E 0 t;
     t \<leftarrow> register_interrupt_handler 0xD isr_general_protection 0x8E 0 t;
     t \<leftarrow> register_interrupt_handler 0x20 reschedule_handler 0x8E 1 t;
     register_interrupt_handler 0x80 syscall_entry 0xEE 0 t
   }"

section \<open>What the processor reads\<close>

definition tss_base :: "TSSEntry \<Rightarrow> u64" where
  "tss_base e = ucast (t_base1 e) OR push_bit 16 (ucast (t_base2 e)) OR push_bit 24 (ucast (t_base3 e)) OR push_bit 32 (ucast (t_base4 e))"

definition gate_target :: "IDTGate \<Rightarrow> u64" where
  "gate_target g = ucast (offset1 g) OR push_bit 16 (ucast (offset2 g)) OR push_bit 32 (ucast (offset3 g))"

definition dpl :: "u8 \<Rightarrow> nat" where
  "dpl b = unat (drop_bit 5 b AND 3)"

definition present :: "u8 \<Rightarrow> bool" where
  "present b = bit b 7"

text \<open>The code or data segment a selector names: the index is in the bits above the privilege level.\<close>

definition segment_of :: "GDT \<Rightarrow> u16 \<Rightarrow> GDTEntry option" where
  "segment_of g sel = (let i = unat (drop_bit 3 sel) in
     if i < 5 then Some ([null g, kernelCode g, kernelData g, userCode g, userData g] ! i) else None)"

text \<open>Whether code that runs at privilege level \<open>cpl\<close> may enter a vector by a software interrupt, and at which level the
  handler then runs.\<close>

definition may_enter :: "GDT \<Rightarrow> idt \<Rightarrow> nat \<Rightarrow> nat \<Rightarrow> (u64 \<times> nat) option" where
  "may_enter g t cpl v = (if v < length t \<and> present (gate_type (t ! v)) \<and> cpl \<le> dpl (gate_type (t ! v))
     then map_option (\<lambda>e. (gate_target (t ! v), dpl (access e))) (segment_of g (selector (t ! v))) else None)"

section \<open>Splitting and joining addresses\<close>

lemma and_low_masks: "(w :: u64) AND 0xFF = take_bit 8 w" "w AND 0xFFFF = take_bit 16 w"
  by (simp_all add: take_bit_eq_mask mask_eq_exp_minus_1)

lemma join_address:
  "(ucast (ucast (take_bit 16 a) :: u16) OR push_bit 16 (ucast (ucast (take_bit 16 (drop_bit 16 a)) :: u16)) OR
     push_bit 32 (ucast (ucast (drop_bit 32 a) :: u32)) :: u64) = a" for a :: u64
proof (rule bit_word_eqI)
  fix n :: nat assume "n < LENGTH(64)"
  then consider "n < 16" | "16 \<le> n" "n < 32" | "32 \<le> n" "n < 64" by fastforce
  then show "bit (ucast (ucast (take_bit 16 a) :: u16) OR push_bit 16 (ucast (ucast (take_bit 16 (drop_bit 16 a)) :: u16)) OR
     push_bit 32 (ucast (ucast (drop_bit 32 a) :: u32)) :: u64) n = bit a n"
    by cases (auto simp: bit_simps)
qed

lemma join_address_bytes:
  "(ucast (ucast (take_bit 16 a) :: u16) OR push_bit 16 (ucast (ucast (take_bit 8 (drop_bit 16 a)) :: u8)) OR
     push_bit 24 (ucast (ucast (take_bit 8 (drop_bit 24 a)) :: u8)) OR push_bit 32 (ucast (ucast (drop_bit 32 a) :: u32)) :: u64) = a" for a :: u64
proof (rule bit_word_eqI)
  fix n :: nat assume "n < LENGTH(64)"
  then consider "n < 16" | "16 \<le> n" "n < 24" | "24 \<le> n" "n < 32" | "32 \<le> n" "n < 64" by fastforce
  then show "bit (ucast (ucast (take_bit 16 a) :: u16) OR push_bit 16 (ucast (ucast (take_bit 8 (drop_bit 16 a)) :: u8)) OR
     push_bit 24 (ucast (ucast (take_bit 8 (drop_bit 24 a)) :: u8)) OR push_bit 32 (ucast (ucast (drop_bit 32 a) :: u32)) :: u64) n = bit a n"
    by cases (auto simp: bit_simps)
qed

definition gate_for :: "u64 \<Rightarrow> u8 \<Rightarrow> u8 \<Rightarrow> IDTGate" where
  "gate_for addr gateType st = \<lparr>offset1 = ucast (addr AND 0xFFFF), selector = 0x08, ist = st, gate_type = gateType,
     offset2 = ucast (drop_bit 16 addr AND 0xFFFF), offset3 = ucast (drop_bit 32 addr), zero = 0\<rparr>"

lemma gate_for_sel [simp]: "gate_target (gate_for addr ty st) = addr" "gate_type (gate_for addr ty st) = ty"
  "selector (gate_for addr ty st) = 0x08" "ist (gate_for addr ty st) = st"
  by (simp_all add: gate_target_def gate_for_def and_low_masks join_address)

lemma register_gate: "register_interrupt_handler i addr ty st t = (if i < length t then Some (t[i := gate_for addr ty st]) else None)"
  by (cases "t ! i") (simp add: register_interrupt_handler_def gate_for_def)

lemma init_idt_gates: "init_idt h0 h3 h8 h13 h20 h80 = Some ((replicate 256 zero_gate)[0 := gate_for h0 0x8E 0, 3 := gate_for h3 0x8E 0,
   8 := gate_for h8 0x8E 0, 0xD := gate_for h13 0x8E 0, 0x20 := gate_for h20 0x8E 1, 0x80 := gate_for h80 0xEE 0])"
  unfolding init_idt_def Let_def register_gate by simp

section \<open>Results\<close>

text \<open>The processor finds the task state segment at the address given to \<open>load_tss\<close>, which changes nothing else: the
  segments stay the ones of \<open>init_gdt\<close>, with user code and data at privilege level 3 under the selectors the scheduler
  loads (0x1b and 0x23) and kernel code at level 0.\<close>

theorem load_tss_segments:
  "tss_base (tss (load_tss a init_gdt)) = a \<and> present (flags1 (tss (load_tss a init_gdt))) \<and>
   map_option (\<lambda>e. dpl (access e)) (segment_of (load_tss a init_gdt) 0x08) = Some 0 \<and>
   map_option (\<lambda>e. dpl (access e)) (segment_of (load_tss a init_gdt) 0x10) = Some 0 \<and>
   map_option (\<lambda>e. dpl (access e)) (segment_of (load_tss a init_gdt) 0x1b) = Some 3 \<and>
   map_option (\<lambda>e. dpl (access e)) (segment_of (load_tss a init_gdt) 0x23) = Some 3"
  by (simp add: load_tss_def init_gdt_def tss_base_def and_low_masks join_address_bytes)
    (simp add: segment_of_def gdt_entry_def dpl_def present_def Let_def)

lemma kernel_code_segment: "segment_of (load_tss a init_gdt) 8 = Some (gdt_entry 0x9A 0x20)" "dpl (access (gdt_entry 0x9A 0x20)) = 0"
  by (simp_all add: segment_of_def load_tss_def init_gdt_def gdt_entry_def dpl_def)

end
