(* ===== verification/Boot.thy ===== *)
theory Boot
  imports Apic Descriptors Process
begin

text \<open>
  \<^verbatim>\<open>kernel/x86_64/cpu.cpp\<close> and the inline functions of \<^verbatim>\<open>cpu.hpp\<close>: how the boot core starts the others. The array of the boot
  loader is the list of its entries. \<open>new_cpu\<close> and \<open>new_tss\<close> are the addresses that \<open>new\<close> gives in round \<open>i\<close>; the two
  fields that the code leaves out have any value. Every core has its own model-specific registers.
\<close>

section \<open>Model-specific registers\<close>

definition GSBase :: u32 where "GSBase = 0xC0000101"
definition KernelGSBase :: u32 where "KernelGSBase = 0xC0000102"

text \<open>The halves \<open>edx\<close> and \<open>eax\<close> of every register.\<close>

type_synonym msrs = "u32 \<Rightarrow> u32 \<times> u32"

definition rdmsr :: "u32 \<Rightarrow> msrs \<Rightarrow> u64" where
  "rdmsr msr r = (case r msr of (edx, eax) \<Rightarrow> push_bit 32 (ucast edx) OR ucast eax)"

definition wrmsr :: "u32 \<Rightarrow> u64 \<Rightarrow> msrs \<Rightarrow> msrs" where
  "wrmsr msr v r = r(msr := (ucast (drop_bit 32 v), ucast v))"

definition local_core :: "msrs \<Rightarrow> u64" where
  "local_core r = rdmsr GSBase r"

definition set_gs :: "u64 \<Rightarrow> msrs \<Rightarrow> msrs" where
  "set_gs v r = wrmsr KernelGSBase 0 (wrmsr GSBase v r)"

section \<open>Features\<close>

record cpuid_return =
  cpuid_rax :: u64
  cpuid_rbx :: u64
  cpuid_rcx :: u64
  cpuid_rdx :: u64

record controls =
  cr0 :: u64
  cr4 :: u64

text \<open>What the instruction \<open>cpuid\<close> answers is an argument. The masks are of type \<open>int\<close> and extended to 64 bits with their sign.\<close>

definition init_features :: "(u32 \<Rightarrow> u32 \<Rightarrow> cpuid_return) \<Rightarrow> controls \<Rightarrow> controls" where
  "init_features cpuid c = (
     if cpuid_rdx (cpuid 1 0) AND push_bit 25 1 = 0 then c
     else c\<lparr>cr0 := cr0 c AND scast (NOT (push_bit 2 1) :: u32) OR 2, cr4 := cr4 c OR push_bit 9 1 OR push_bit 10 1\<rparr>)"

section \<open>Gates\<close>

text \<open>\<open>VMM::init\<close>: the page map the boot loader has left in \<open>cr3\<close> becomes the one of the kernel, and page faults get their handler.\<close>

definition vmm_init :: "u64 \<Rightarrow> u64 \<Rightarrow> idt \<Rightarrow> (vmm \<times> idt) option" where
  "vmm_init cr3 isr_page_fault t = do {
     t \<leftarrow> register_interrupt_handler 0xE isr_page_fault 0x8E 0 t;
     Some (\<lparr>m_pml4 = cr3 + PHYSICAL_BASE_ADDRESS, m_ranges = vector_new, page_tables_addr = vector_new\<rparr>, t)
   }"

definition keyboard_init :: "u64 \<Rightarrow> idt \<Rightarrow> idt option" where
  "keyboard_init isr_keyboard t = register_interrupt_handler 0x21 isr_keyboard 0x8E 0 t"

text \<open>Every gate that \<open>_start\<close> makes, in its order; the handlers of \<open>init_idt\<close> are the first six.\<close>

definition start_gates :: "u64 \<Rightarrow> u64 \<Rightarrow> u64 \<Rightarrow> u64 \<Rightarrow> u64 \<Rightarrow> u64 \<Rightarrow> u64 \<Rightarrow> u64 \<Rightarrow> u64 \<Rightarrow> (vmm \<times> idt) option" where
  "start_gates h0 h3 h8 h13 h20 h80 isr_page_fault isr_keyboard cr3 = do {
     t \<leftarrow> init_idt h0 h3 h8 h13 h20 h80;
     (v, t) \<leftarrow> vmm_init cr3 isr_page_fault t;
     t \<leftarrow> keyboard_init isr_keyboard t;
     Some (v, t)
   }"

section \<open>Starting the cores\<close>

record smp_info =
  smp_lapic_id :: u32
  target_stack :: u64
  goto_address :: u64
  extra_argument :: u64

text \<open>The two stacks of the task state segment that are set.\<close>

record TSS =
  rsp0 :: u64
  ist1 :: u64

record kboot = kmem +
  cpu_objs :: "u64 \<Rightarrow> cpu option"
  tss_objs :: "u64 \<Rightarrow> TSS option"
  gdt :: GDT
  msr_of :: "nat \<Rightarrow> msrs"

definition new_cpu_data :: "cpu \<Rightarrow> u32 \<Rightarrow> cpu" where
  "new_cpu_data garbage lapic = garbage\<lparr>lapic_id := ucast lapic, running_thread := None, running_process := None\<rparr>"

text \<open>Round \<open>i\<close>. \<open>boot\<close> is the number of the boot core; its task state segment is the only one.\<close>

definition start_core ::
  "(nat \<Rightarrow> u64) \<Rightarrow> (nat \<Rightarrow> u64) \<Rightarrow> cpu \<Rightarrow> u64 \<Rightarrow> u32 \<Rightarrow> nat \<Rightarrow> smp_info list \<times> 'a kboot_scheme \<Rightarrow> (smp_info list \<times> 'a kboot_scheme) option" where
  "start_core new_cpu new_tss garbage core_init bsp_lapic_id i st = (case st of (info, s) \<Rightarrow> do {
     let e = info ! i;
     let s = s\<lparr>cpu_objs := (cpu_objs s)(new_cpu i \<mapsto> new_cpu_data garbage (smp_lapic_id e))\<rparr>;
     if smp_lapic_id e = bsp_lapic_id then do {
       (a, s) \<leftarrow> pmm_alloc 4 s;
       (b, s) \<leftarrow> pmm_alloc 4 s;
       Some (info, s\<lparr>tss_objs := (tss_objs s)(new_tss i \<mapsto> \<lparr>rsp0 = a + PHYSICAL_BASE_ADDRESS, ist1 = b + PHYSICAL_BASE_ADDRESS\<rparr>),
         gdt := load_tss (new_tss i) (gdt s), msr_of := (msr_of s)(i := set_gs (new_cpu i) (msr_of s i))\<rparr>)
     }
     else do {
       (a, s) \<leftarrow> pmm_alloc 4 s;
       Some (info[i := e\<lparr>target_stack := a + PHYSICAL_BASE_ADDRESS, extra_argument := new_cpu i, goto_address := core_init\<rparr>], s)
     }
   })"

fun start_cores ::
  "(nat \<Rightarrow> u64) \<Rightarrow> (nat \<Rightarrow> u64) \<Rightarrow> cpu \<Rightarrow> u64 \<Rightarrow> u32 \<Rightarrow> nat list \<Rightarrow> smp_info list \<times> 'a kboot_scheme \<Rightarrow> (smp_info list \<times> 'a kboot_scheme) option" where
  "start_cores new_cpu new_tss garbage core_init bsp_lapic_id [] st = Some st"
| "start_cores new_cpu new_tss garbage core_init bsp_lapic_id (i # is) st = do {
     st \<leftarrow> start_core new_cpu new_tss garbage core_init bsp_lapic_id i st;
     start_cores new_cpu new_tss garbage core_init bsp_lapic_id is st
   }"

text \<open>The loop of \<open>bootstrap_cores\<close>; the wait that follows it is \<open>all_started\<close>.\<close>

definition bootstrap_cores ::
  "(nat \<Rightarrow> u64) \<Rightarrow> (nat \<Rightarrow> u64) \<Rightarrow> cpu \<Rightarrow> u64 \<Rightarrow> u32 \<Rightarrow> smp_info list \<times> 'a kboot_scheme \<Rightarrow> (smp_info list \<times> 'a kboot_scheme) option" where
  "bootstrap_cores new_cpu new_tss garbage core_init bsp_lapic_id st =
     start_cores new_cpu new_tss garbage core_init bsp_lapic_id [0 ..< length (fst st)] st"

text \<open>A core that the boot loader has sent to \<open>core_init\<close>: it turns its features on, takes its data from its entry, enables its
  controller and counts itself. The boot core meanwhile waits until the count is the number of cores. The address \<open>core_init\<close> is the last
  thing that is written to an entry, so a core that starts early reads the entry as the loop leaves it.\<close>

record 'd running =
  r_msr :: "nat \<Rightarrow> msrs"
  r_ctl :: "nat \<Rightarrow> controls"
  cpus :: nat
  started :: "nat set"
  apic_state :: 'd

inductive core_init_step :: "(u32 \<Rightarrow> u32 \<Rightarrow> cpuid_return) \<Rightarrow> 'd hw \<Rightarrow> u64 \<Rightarrow> u64 \<Rightarrow> smp_info list \<Rightarrow> 'd running \<Rightarrow> 'd running \<Rightarrow> bool" where
  enter: "i < length info \<Longrightarrow> goto_address (info ! i) = core_init \<Longrightarrow> i \<notin> started r \<Longrightarrow>
    core_init_step cpuid io localApic core_init info r
      (r\<lparr>r_ctl := (r_ctl r)(i := init_features cpuid (r_ctl r i)), r_msr := (r_msr r)(i := set_gs (extra_argument (info ! i)) (r_msr r i)), apic_state := xapic_enable io localApic (apic_state r),
         cpus := cpus r + 1, started := insert i (started r)\<rparr>)"

definition all_started :: "nat \<Rightarrow> 'd running \<Rightarrow> bool" where
  "all_started cpu_count r \<longleftrightarrow> \<not> cpus r \<noteq> cpu_count"

end
