(* ===== verification/Boot_Props.thy ===== *)
theory Boot_Props
  imports Boot Page_Data
begin

text \<open>
  Every core gets data and a stack of its own, finds its data again through its registers, and the boot core goes on only
  when all of them have done so.
\<close>

section \<open>Model-specific registers\<close>

lemma msr_halves: "push_bit 32 (ucast (ucast (drop_bit 32 v) :: u32)) OR ucast (ucast v :: u32) = v" for v :: u64
  by (rule bit_word_eqI) (auto simp: bit_simps)

lemma rdmsr_wrmsr: "rdmsr a (wrmsr b v r) = (if a = b then v else rdmsr a r)"
  using msr_halves [of v] by (simp add: rdmsr_def wrmsr_def)

lemma local_core_set_gs [simp]: "local_core (set_gs v r) = v"
  by (simp add: local_core_def set_gs_def rdmsr_wrmsr GSBase_def KernelGSBase_def)

section \<open>Gates\<close>

lemma gate_bits: "present 0x8E" "present 0xEE" "dpl 0x8E = 0" "dpl 0xEE = 3" "\<not> present (gate_type zero_gate)"
  by (simp_all add: present_def dpl_def zero_gate_def)

text \<open>The table after the start.\<close>

lemma start_gates_table:
  obtains v t where "start_gates h0 h3 h8 h13 h20 h80 pf kb cr3 = Some (v, t)" "length t = 256"
    "\<And>i. i < 256 \<Longrightarrow> t ! i = (if i = 0x21 then gate_for kb 0x8E 0 else if i = 0xE then gate_for pf 0x8E 0 else
       if i = 0x80 then gate_for h80 0xEE 0 else if i = 0x20 then gate_for h20 0x8E 1 else if i = 0xD then gate_for h13 0x8E 0
       else if i = 8 then gate_for h8 0x8E 0 else if i = 3 then gate_for h3 0x8E 0 else if i = 0 then gate_for h0 0x8E 0 else zero_gate)"
proof -
  define t where "t = (replicate 256 zero_gate)[0 := gate_for h0 0x8E 0, 3 := gate_for h3 0x8E 0, 8 := gate_for h8 0x8E 0,
    0xD := gate_for h13 0x8E 0, 0x20 := gate_for h20 0x8E 1, 0x80 := gate_for h80 0xEE 0, 0xE := gate_for pf 0x8E 0, 0x21 := gate_for kb 0x8E 0]"
  have "start_gates h0 h3 h8 h13 h20 h80 pf kb cr3 = Some (\<lparr>m_pml4 = cr3 + PHYSICAL_BASE_ADDRESS, m_ranges = vector_new, page_tables_addr = vector_new\<rparr>, t)"
    by (simp add: start_gates_def init_idt_gates vmm_init_def keyboard_init_def register_gate t_def)
  moreover have "length t = 256" by (simp add: t_def)
  ultimately show thesis by (rule that) (simp add: t_def nth_list_update)
qed

text \<open>C34: after \<open>_start\<close> has made all gates, whatever the addresses of the handlers, user code can enter exactly one vector by a software
  interrupt, the system call 0x80, and that leads to the system call entry at the level of the kernel; kernel code can
  also enter the five exceptions, the timer and the keyboard, and no vector else.\<close>

theorem user_enters_only_syscall:
  "\<exists>v t. start_gates h0 h3 h8 h13 h20 h80 pf kb cr3 = Some (v, t) \<and>
    (\<forall>i. may_enter (load_tss a init_gdt) t 3 i = (if i = 0x80 then Some (h80, 0) else None)) \<and>
    (\<forall>i. may_enter (load_tss a init_gdt) t 0 i \<noteq> None \<longleftrightarrow> i \<in> {0, 3, 8, 0xD, 0xE, 0x20, 0x21, 0x80})"
proof -
  obtain v t where t: "start_gates h0 h3 h8 h13 h20 h80 pf kb cr3 = Some (v, t)" "length t = 256"
    and nth: "\<And>i. i < 256 \<Longrightarrow> t ! i = (if i = 0x21 then gate_for kb 0x8E 0 else if i = 0xE then gate_for pf 0x8E 0 else
       if i = 0x80 then gate_for h80 0xEE 0 else if i = 0x20 then gate_for h20 0x8E 1 else if i = 0xD then gate_for h13 0x8E 0
       else if i = 8 then gate_for h8 0x8E 0 else if i = 3 then gate_for h3 0x8E 0 else if i = 0 then gate_for h0 0x8E 0 else zero_gate)"
    by (rule start_gates_table) (rule that)
  have "may_enter (load_tss a init_gdt) t 3 i = (if i = 0x80 then Some (h80, 0) else None)" for i
    by (cases "i < 256") (auto simp: may_enter_def t(2) nth gate_bits kernel_code_segment)
  moreover have "may_enter (load_tss a init_gdt) t 0 i \<noteq> None \<longleftrightarrow> i \<in> {0, 3, 8, 0xD, 0xE, 0x20, 0x21, 0x80}" for i
    by (cases "i < 256") (auto simp: may_enter_def t(2) nth gate_bits kernel_code_segment)
  ultimately show ?thesis using t(1) by blast
qed

section \<open>Features\<close>

text \<open>What the processor asks for before it executes SSE instructions: no emulation, the monitor bit, and the two bits of the
  operating system. The processor has them when bit 25 is set.\<close>

definition sse_enabled :: "controls \<Rightarrow> bool" where
  "sse_enabled c \<longleftrightarrow> \<not> bit (cr0 c) 2 \<and> bit (cr0 c) 1 \<and> bit (cr4 c) 9 \<and> bit (cr4 c) 10"

definition has_sse :: "(u32 \<Rightarrow> u32 \<Rightarrow> cpuid_return) \<Rightarrow> bool" where
  "has_sse cpuid = bit (cpuid_rdx (cpuid 1 0)) 25"

lemma init_features_sse:
  assumes "has_sse cpuid"
  shows "sse_enabled (init_features cpuid c)"
proof -
  have "cpuid_rdx (cpuid 1 0) AND 2 ^ 25 \<noteq> 0" using assms by (simp only: has_sse_def and_exp_eq_0_iff_not_bit) simp
  moreover have "(push_bit 25 1 :: u64) = 2 ^ 25" by simp
  ultimately show ?thesis by (simp only: init_features_def) (simp add: sse_enabled_def bit_simps)
qed

section \<open>Waiting for the cores\<close>

inductive cores_reach :: "(u32 \<Rightarrow> u32 \<Rightarrow> cpuid_return) \<Rightarrow> 'd hw \<Rightarrow> u64 \<Rightarrow> u64 \<Rightarrow> smp_info list \<Rightarrow> 'd running \<Rightarrow> 'd running \<Rightarrow> bool"
  for cpuid io localApic core_init info r0 where
  init: "cores_reach cpuid io localApic core_init info r0 r0"
| step: "cores_reach cpuid io localApic core_init info r0 r \<Longrightarrow> core_init_step cpuid io localApic core_init info r r' \<Longrightarrow>
    cores_reach cpuid io localApic core_init info r0 r'"

inductive_cases core_init_stepE: "core_init_step cpuid io localApic core_init info r r'"

definition counted :: "(u32 \<Rightarrow> u32 \<Rightarrow> cpuid_return) \<Rightarrow> smp_info list \<Rightarrow> nat \<Rightarrow> 'd running \<Rightarrow> bool" where
  "counted cpuid info boot r \<longleftrightarrow> boot \<in> started r \<and> started r \<subseteq> {..< length info} \<and> cpus r = card (started r) \<and>
     (\<forall>i \<in> started r. i \<noteq> boot \<longrightarrow> local_core (r_msr r i) = extra_argument (info ! i) \<and> (has_sse cpuid \<longrightarrow> sse_enabled (r_ctl r i)))"

lemma counted_step:
  assumes "core_init_step cpuid io localApic core_init info r r'" "counted cpuid info boot r"
  shows "counted cpuid info boot r'" "local_core (r_msr r' boot) = local_core (r_msr r boot)"
proof -
  have fin: "finite (started r)" using assms(2) finite_subset by (auto simp: counted_def)
  show "counted cpuid info boot r'" using assms(1)
    by (rule core_init_stepE) (use assms(2) fin in \<open>auto simp: counted_def init_features_sse\<close>)
  show "local_core (r_msr r' boot) = local_core (r_msr r boot)" using assms(1)
    by (rule core_init_stepE) (use assms(2) in \<open>auto simp: counted_def\<close>)
qed

lemma counted_reach:
  assumes "cores_reach cpuid io localApic core_init info r0 r" "counted cpuid info boot r0"
  shows "counted cpuid info boot r \<and> local_core (r_msr r boot) = local_core (r_msr r0 boot)"
  using assms(1)
proof induction
  case (step r r')
  then show ?case using counted_step [OF step.hyps(2), of boot] by simp
qed (use assms(2) in simp)

lemma started_all:
  assumes "counted cpuid info boot r"
  shows "all_started (length info) r \<longleftrightarrow> started r = {..< length info}"
proof
  assume "all_started (length info) r"
  then have "card (started r) = card {..< length info}" using assms by (simp add: all_started_def counted_def)
  moreover have "started r \<subseteq> {..< length info}" using assms by (simp add: counted_def)
  ultimately show "started r = {..< length info}" by (intro card_subset_eq) simp_all
qed (use assms in \<open>simp add: all_started_def counted_def\<close>)

text \<open>C32: the boot core waits for all cores: whatever the order in which the others run \<open>core_init\<close>, the loop of
  \<open>bootstrap_cores\<close> is left exactly when every core has passed it, each of them finds the data that was made for it through
  its own registers and has SSE turned on when the processor has it, and as long as the loop is not left some core can still pass.\<close>

theorem cores_all_started:
  assumes "cores_reach cpuid io localApic core_init info r0 r" "counted cpuid info boot r0"
    and "\<forall>i < length info. i \<noteq> boot \<longrightarrow> goto_address (info ! i) = core_init"
  shows "(all_started (length info) r \<longleftrightarrow> started r = {..< length info}) \<and>
    (\<forall>i \<in> started r. i \<noteq> boot \<longrightarrow> local_core (r_msr r i) = extra_argument (info ! i) \<and> (has_sse cpuid \<longrightarrow> sse_enabled (r_ctl r i))) \<and>
    local_core (r_msr r boot) = local_core (r_msr r0 boot) \<and>
    (\<not> all_started (length info) r \<longrightarrow> (\<exists>r'. core_init_step cpuid io localApic core_init info r r'))"
proof -
  have c: "counted cpuid info boot r" "local_core (r_msr r boot) = local_core (r_msr r0 boot)" using counted_reach [OF assms(1,2)] by auto
  have "\<exists>r'. core_init_step cpuid io localApic core_init info r r'" if "\<not> all_started (length info) r"
  proof -
    have "started r \<noteq> {..< length info}" "started r \<subseteq> {..< length info}" using that started_all [OF c(1)] c(1) by (simp_all add: counted_def)
    then obtain i where "i < length info" "i \<notin> started r" by blast
    moreover have "i \<noteq> boot" using calculation c(1) by (auto simp: counted_def)
    ultimately show ?thesis using core_init_step.enter [of i info core_init r cpuid io localApic] assms(3) by blast
  qed
  then show ?thesis using c started_all [OF c(1)] by (auto simp: counted_def)
qed

text \<open>Three cores, of which the last has entered \<open>core_init\<close> and the first is the boot core.\<close>

definition started_sample :: "smp_info list" where
  "started_sample = map (\<lambda>i. \<lparr>smp_lapic_id = of_nat i, target_stack = 0, goto_address = 0x900, extra_argument = 0x1000 + of_nat i\<rparr>) [0, 1, 2]"

definition running_sample :: "unit running" where
  "running_sample = \<lparr>r_msr = (\<lambda>_ _. (0, 0)), r_ctl = (\<lambda>_. \<lparr>cr0 = 4, cr4 = 0\<rparr>), cpus = 1, started = {0}, apic_state = ()\<rparr>"

definition cpuid_sample :: "u32 \<Rightarrow> u32 \<Rightarrow> cpuid_return" where
  "cpuid_sample eax ecx = \<lparr>cpuid_rax = 0, cpuid_rbx = 0, cpuid_rcx = 0, cpuid_rdx = 0x2000000\<rparr>"

definition lines_sample :: "unit hw" where
  "lines_sample = \<lparr>store32 = (\<lambda>a v d. d), fetch32 = (\<lambda>a d. (0, d)), store64 = (\<lambda>a v d. d), fetch64 = (\<lambda>a d. (0, d)),
     outb = (\<lambda>p v d. d), inb = (\<lambda>p d. (0, d)), outl = (\<lambda>p v d. d), inl = (\<lambda>p d. (0, d))\<rparr>"

theorem cores_all_started_witness:
  "\<exists>r r'. cores_reach cpuid_sample lines_sample 0 0x900 started_sample running_sample r \<and> local_core (r_msr r 2) = 0x1002 \<and>
     sse_enabled (r_ctl r 2) \<and> core_init_step cpuid_sample lines_sample 0 0x900 started_sample r r'"
proof -
  obtain r where r: "core_init_step cpuid_sample lines_sample 0 0x900 started_sample running_sample r" "started r = {0, 2}"
    using core_init_step.enter [of 2 started_sample "0x900" running_sample cpuid_sample lines_sample 0]
    by (simp add: started_sample_def running_sample_def insert_commute)
  have reach: "cores_reach cpuid_sample lines_sample 0 0x900 started_sample running_sample r" by (rule cores_reach.step [OF cores_reach.init r(1)])
  have c: "counted cpuid_sample started_sample 0 running_sample" by (simp add: counted_def running_sample_def started_sample_def)
  have g: "\<forall>i < length started_sample. i \<noteq> 0 \<longrightarrow> goto_address (started_sample ! i) = 0x900"
    by (simp add: started_sample_def less_Suc_eq all_conj_distrib)
  have sse: "has_sse cpuid_sample" by (simp add: has_sse_def cpuid_sample_def bit_numeral_rec)
  have "local_core (r_msr r 2) = 0x1002 \<and> sse_enabled (r_ctl r 2) \<and> (\<exists>r'. core_init_step cpuid_sample lines_sample 0 0x900 started_sample r r')"
    using cores_all_started [OF reach c g] r(2) sse by (auto simp: started_sample_def lessThan_Suc numeral_3_eq_3)
  then show ?thesis using reach by blast
qed

section \<open>Data and stacks\<close>

lemma kmem_fields:
  "free_page (s\<lparr>cpu_objs := c\<rparr>) = free_page s" "pages_ok (s\<lparr>cpu_objs := c\<rparr>) = pages_ok s"
  "free_page (s\<lparr>tss_objs := t, gdt := g, msr_of := r\<rparr>) = free_page s" "pages_ok (s\<lparr>tss_objs := t, gdt := g, msr_of := r\<rparr>) = pages_ok s"
  by (auto simp: free_page_def pages_ok_def pmm_wf_def bitmap_bytes_def fun_eq_iff)

lemma free_run_mono: "(\<And>j. free_page s j \<Longrightarrow> free_page t j) \<Longrightarrow> free_run s p n \<Longrightarrow> free_run t p n"
  by (simp add: free_run_def)

text \<open>Taking four pages leaves a long free run long enough: the first fit lies before it or at its start.\<close>

lemma alloc_stack:
  fixes s :: "'a kmem_scheme"
  assumes ok: "pages_ok s" and run: "free_run s p0 (4 + n)"
  obtains p m where "pmm_alloc 4 s = Some (page_addr p, s\<lparr>mem := m\<rparr>)" "free_run s p 4" "pages_ok (s\<lparr>mem := m\<rparr>)"
    "\<And>j. free_page (s\<lparr>mem := m\<rparr>) j \<longleftrightarrow> free_page s j \<and> j \<notin> {p ..< p + 4}" "free_run (s\<lparr>mem := m\<rparr>) (p0 + 4) n"
proof -
  have wf: "pmm_wf s" "pmm_lock s = 0" using ok by (simp_all add: pages_ok_def)
  have "free_run s p0 4" using run by (simp add: free_run_def)
  then obtain p where p: "free_run s p 4" "\<forall>q < p. \<not> free_run s q 4" using exists_least_iff [of "\<lambda>p. free_run s p 4"] by blast
  have le: "p \<le> p0" using p(2) \<open>free_run s p0 4\<close> not_le by blast
  obtain s1 where s1: "pmm_alloc 4 s = Some (page_addr p, s1)" "pmm_wf s1" "pmm_lock s1 = 0"
    "\<And>j. free_page s1 j \<longleftrightarrow> free_page s j \<and> \<not> (p \<le> j \<and> j < p + 4)" "bitmapSize s1 = bitmapSize s"
    by (rule pmm_alloc_run [OF wf _ p]) (simp, rule that)
  obtain m where m: "s1 = s\<lparr>mem := m\<rparr>" using pmm_alloc_frame [OF s1(1)] by blast
  have "pages_ok s1" using ok s1(2,3,5) by (simp add: pages_ok_def)
  moreover have "free_run s1 (p0 + 4) n" using run le s1(4) by (auto simp: free_run_def)
  ultimately show thesis using that [of p m] s1(1,4) p(1) unfolding m by auto
qed

definition handed_over :: "(nat \<Rightarrow> u64) \<Rightarrow> u64 \<Rightarrow> nat \<Rightarrow> nat \<Rightarrow> smp_info \<Rightarrow> smp_info" where
  "handed_over new_cpu core_init p i e = e\<lparr>target_stack := page_addr p + PHYSICAL_BASE_ADDRESS, extra_argument := new_cpu i, goto_address := core_init\<rparr>"

lemma start_core_step:
  fixes s :: "'a kboot_scheme"
  assumes ok: "pages_ok s" and run: "free_run s p0 (8 + n)"
  obtains p info1 p1 and s1 :: "'a kboot_scheme" where "start_core new_cpu new_tss garbage core_init bsp i (info, s) = Some (info1, s1)"
    "pages_ok s1" "free_run s1 p1 n" "\<And>j. free_page s1 j \<Longrightarrow> free_page s j" "free_run s p 4" "\<And>j. j \<in> {p ..< p + 4} \<Longrightarrow> \<not> free_page s1 j"
    "cpu_objs s1 = (cpu_objs s)(new_cpu i \<mapsto> new_cpu_data garbage (smp_lapic_id (info ! i)))"
    "if smp_lapic_id (info ! i) = bsp then info1 = info \<and> msr_of s1 = (msr_of s)(i := set_gs (new_cpu i) (msr_of s i))
     else info1 = info[i := handed_over new_cpu core_init p i (info ! i)] \<and> msr_of s1 = msr_of s"
proof -
  let ?s = "s\<lparr>cpu_objs := (cpu_objs s)(new_cpu i \<mapsto> new_cpu_data garbage (smp_lapic_id (info ! i)))\<rparr>"
  have run': "free_run ?s p0 (4 + (4 + n))" using run by (simp add: free_run_def kmem_fields add.assoc)
  obtain p m where a: "pmm_alloc 4 ?s = Some (page_addr p, ?s\<lparr>mem := m\<rparr>)" "free_run ?s p 4" "pages_ok (?s\<lparr>mem := m\<rparr>)"
    "\<And>j. free_page (?s\<lparr>mem := m\<rparr>) j \<longleftrightarrow> free_page ?s j \<and> j \<notin> {p ..< p + 4}" "free_run (?s\<lparr>mem := m\<rparr>) (p0 + 4) (4 + n)"
    by (rule alloc_stack [OF _ run']) (use ok in \<open>simp add: kmem_fields\<close>, rule that)
  obtain p' m' where b: "pmm_alloc 4 (?s\<lparr>mem := m\<rparr>) = Some (page_addr p', ?s\<lparr>mem := m, mem := m'\<rparr>)" "pages_ok (?s\<lparr>mem := m, mem := m'\<rparr>)"
    "\<And>j. free_page (?s\<lparr>mem := m, mem := m'\<rparr>) j \<longleftrightarrow> free_page (?s\<lparr>mem := m\<rparr>) j \<and> j \<notin> {p' ..< p' + 4}"
    "free_run (?s\<lparr>mem := m, mem := m'\<rparr>) (p0 + 4 + 4) n"
    by (rule alloc_stack [OF a(3,5)]) (rule that)
  have p: "free_run s p 4" using a(2) by (simp add: free_run_def kmem_fields)
  show thesis
  proof (cases "smp_lapic_id (info ! i) = bsp")
    case True
    show thesis
    proof (rule that [of info _ "p0 + 4 + 4" p])
      show "start_core new_cpu new_tss garbage core_init bsp i (info, s) = Some (info, ?s\<lparr>mem := m, mem := m',
          tss_objs := (tss_objs s)(new_tss i \<mapsto> \<lparr>rsp0 = page_addr p + PHYSICAL_BASE_ADDRESS, ist1 = page_addr p' + PHYSICAL_BASE_ADDRESS\<rparr>),
          gdt := load_tss (new_tss i) (gdt s), msr_of := (msr_of s)(i := set_gs (new_cpu i) (msr_of s i))\<rparr>)"
        using True a(1) b(1) by (simp add: start_core_def Let_def)
    qed (use True b(2-4) a(4) p in \<open>auto simp: kmem_fields free_run_def\<close>)
  next
    case False
    show thesis
    proof (rule that [of "info[i := handed_over new_cpu core_init p i (info ! i)]" "?s\<lparr>mem := m\<rparr>" "p0 + 4" p])
      show "start_core new_cpu new_tss garbage core_init bsp i (info, s) = Some (info[i := handed_over new_cpu core_init p i (info ! i)], ?s\<lparr>mem := m\<rparr>)"
        using False a(1) by (simp add: start_core_def handed_over_def Let_def)
    qed (use False a(3-5) p in \<open>auto simp: kmem_fields free_run_def\<close>)
  qed
qed

text \<open>What is ready for core \<open>i\<close>: its data, and for a core other than the boot core its entry with a stack of four pages that were free
  before and are not any more; the boot core has its data in its register.\<close>

definition core_ready ::
  "(nat \<Rightarrow> u64) \<Rightarrow> cpu \<Rightarrow> u64 \<Rightarrow> u32 \<Rightarrow> smp_info list \<Rightarrow> 'a kboot_scheme \<Rightarrow> smp_info list \<Rightarrow> 'a kboot_scheme \<Rightarrow> (nat \<Rightarrow> nat) \<Rightarrow> nat \<Rightarrow> bool" where
  "core_ready new_cpu garbage core_init bsp info s info' s' q i \<longleftrightarrow>
     cpu_objs s' (new_cpu i) = Some (new_cpu_data garbage (smp_lapic_id (info ! i))) \<and>
     (if smp_lapic_id (info ! i) = bsp then info' ! i = info ! i \<and> local_core (msr_of s' i) = new_cpu i
      else info' ! i = handed_over new_cpu core_init (q i) i (info ! i) \<and> free_run s (q i) 4 \<and> (\<forall>j \<in> {q i ..< q i + 4}. \<not> free_page s' j))"

lemma start_cores_ready:
  fixes s :: "'a kboot_scheme"
  assumes "pages_ok s" "free_run s p0 (8 * length is)" "distinct is" "\<forall>i \<in> set is. i < length info" "inj_on new_cpu (set is)"
  shows "\<exists>q info' s'. start_cores new_cpu new_tss garbage core_init bsp is (info, s) = Some (info', s') \<and> length info' = length info \<and>
    (\<forall>j. free_page s' j \<longrightarrow> free_page s j) \<and> (\<forall>a. a \<notin> new_cpu ` set is \<longrightarrow> cpu_objs s' a = cpu_objs s a) \<and>
    (\<forall>i. i \<notin> set is \<longrightarrow> info' ! i = info ! i \<and> msr_of s' i = msr_of s i) \<and>
    (\<forall>i \<in> set is. core_ready new_cpu garbage core_init bsp info s info' s' q i) \<and>
    (\<forall>i \<in> set is. \<forall>j \<in> set is. smp_lapic_id (info ! i) \<noteq> bsp \<and> smp_lapic_id (info ! j) \<noteq> bsp \<and> i \<noteq> j \<longrightarrow> {q i ..< q i + 4} \<inter> {q j ..< q j + 4} = {})"
  using assms
proof (induction "is" arbitrary: s info p0)
  case (Cons i "is")
  have run: "free_run s p0 (8 + 8 * length is)" using Cons.prems(2) by simp
  obtain p info1 p1 s1 where st: "start_core new_cpu new_tss garbage core_init bsp i (info, s) = Some (info1, s1)"
    "pages_ok s1" "free_run s1 p1 (8 * length is)" "\<And>j. free_page s1 j \<Longrightarrow> free_page s j" "free_run s p 4" "\<And>j. j \<in> {p ..< p + 4} \<Longrightarrow> \<not> free_page s1 j"
    "cpu_objs s1 = (cpu_objs s)(new_cpu i \<mapsto> new_cpu_data garbage (smp_lapic_id (info ! i)))"
    "if smp_lapic_id (info ! i) = bsp then info1 = info \<and> msr_of s1 = (msr_of s)(i := set_gs (new_cpu i) (msr_of s i))
     else info1 = info[i := handed_over new_cpu core_init p i (info ! i)] \<and> msr_of s1 = msr_of s"
    by (rule start_core_step [OF Cons.prems(1) run]) (rule that)
  have len: "length info1 = length info" using st(8) by (auto split: if_splits)
  have other: "info1 ! j = info ! j" "msr_of s1 j = msr_of s j" if "j \<noteq> i" for j
    using st(8) that by (auto split: if_splits)
  have i: "i \<notin> set is" "new_cpu i \<notin> new_cpu ` set is" "i < length info" using Cons.prems(3-5) by (auto simp: inj_on_def)
  have prems: "distinct is" "\<forall>j \<in> set is. j < length info1" "inj_on new_cpu (set is)"
    using Cons.prems(3-5) st(8) by (auto split: if_splits simp: inj_on_def)
  obtain q info' s' where r: "start_cores new_cpu new_tss garbage core_init bsp is (info1, s1) = Some (info', s')" "length info' = length info1"
    "\<forall>j. free_page s' j \<longrightarrow> free_page s1 j" "\<forall>a. a \<notin> new_cpu ` set is \<longrightarrow> cpu_objs s' a = cpu_objs s1 a"
    "\<forall>i. i \<notin> set is \<longrightarrow> info' ! i = info1 ! i \<and> msr_of s' i = msr_of s1 i"
    "\<forall>i \<in> set is. core_ready new_cpu garbage core_init bsp info1 s1 info' s' q i"
    "\<forall>i \<in> set is. \<forall>j \<in> set is. smp_lapic_id (info1 ! i) \<noteq> bsp \<and> smp_lapic_id (info1 ! j) \<noteq> bsp \<and> i \<noteq> j \<longrightarrow> {q i ..< q i + 4} \<inter> {q j ..< q j + 4} = {}"
    using Cons.IH [OF st(2,3) prems] by blast
  let ?q = "q(i := p)"
  have same: "info1 ! j = info ! j" "j \<noteq> i" if "j \<in> set is" for j using other(1) [of j] that i(1) by metis+
  have fresh: "free_run s1 (q j) 4" if "j \<in> set is" "smp_lapic_id (info ! j) \<noteq> bsp" for j
    using r(6) that same by (auto simp: core_ready_def)
  have rest: "core_ready new_cpu garbage core_init bsp info s info' s' ?q j" if "j \<in> set is" for j
    using r(6) that same [OF that] free_run_mono [of s1 s "q j" 4] st(4) by (auto simp: core_ready_def split: if_splits)
  have mine: "core_ready new_cpu garbage core_init bsp info s info' s' ?q i"
    using st(5-8) r(3-5) i by (auto simp: core_ready_def split: if_splits)
  have apart: "{p ..< p + 4} \<inter> {q j ..< q j + 4} = {}" if "j \<in> set is" "smp_lapic_id (info ! j) \<noteq> bsp" for j
  proof -
    have "free_page s1 x" if "x \<in> {q j ..< q j + 4}" for x using fresh [OF \<open>j \<in> set is\<close> \<open>smp_lapic_id (info ! j) \<noteq> bsp\<close>] that by (simp add: free_run_def)
    then show ?thesis using st(6) by blast
  qed
  have apart': "{q j ..< q j + 4} \<inter> {q k ..< q k + 4} = {}"
    if "j \<in> set is" "k \<in> set is" "smp_lapic_id (info ! j) \<noteq> bsp" "smp_lapic_id (info ! k) \<noteq> bsp" "j \<noteq> k" for j k
    using r(7) that same by metis
  show ?case
  proof (intro exI [of _ ?q] exI [of _ info'] exI [of _ s'] conjI)
    show "start_cores new_cpu new_tss garbage core_init bsp (i # is) (info, s) = Some (info', s')" using st(1) r(1) by simp
    show "length info' = length info" using r(2) len by simp
    show "\<forall>j. free_page s' j \<longrightarrow> free_page s j" using r(3) st(4) by blast
    show "\<forall>a. a \<notin> new_cpu ` set (i # is) \<longrightarrow> cpu_objs s' a = cpu_objs s a" using r(4) st(7) by simp
    show "\<forall>j. j \<notin> set (i # is) \<longrightarrow> info' ! j = info ! j \<and> msr_of s' j = msr_of s j" using r(5) other by simp
    show "\<forall>j \<in> set (i # is). core_ready new_cpu garbage core_init bsp info s info' s' ?q j" using rest mine by simp
    show "\<forall>j \<in> set (i # is). \<forall>k \<in> set (i # is). smp_lapic_id (info ! j) \<noteq> bsp \<and> smp_lapic_id (info ! k) \<noteq> bsp \<and> j \<noteq> k \<longrightarrow>
        {?q j ..< ?q j + 4} \<inter> {?q k ..< ?q k + 4} = {}"
    proof (intro ballI impI)
      fix j k assume jk: "j \<in> set (i # is)" "k \<in> set (i # is)" "smp_lapic_id (info ! j) \<noteq> bsp \<and> smp_lapic_id (info ! k) \<noteq> bsp \<and> j \<noteq> k"
      consider "j = i" "k \<in> set is" | "k = i" "j \<in> set is" | "j \<in> set is" "k \<in> set is" using jk by auto
      then show "{?q j ..< ?q j + 4} \<inter> {?q k ..< ?q k + 4} = {}"
      proof cases
        case 1 then show ?thesis using apart [of k] jk(3) i(1) by auto
      next
        case 2 then show ?thesis using apart [of j] jk(3) i(1) by auto
      next
        case 3 then show ?thesis using apart' [of j k] jk(3) i(1) same(2) by simp
      qed
    qed
  qed
qed simp

text \<open>C33: \<open>bootstrap_cores\<close> prepares every core: when there are free pages enough for the stacks, the loop over the cores ends, and
  every core has data of its own with its number in it. Every core but the boot core is sent to \<open>core_init\<close> with that
  data and with four pages of stack that were free before, that the allocator does not give out again, and that no other
  core has; the boot core reaches its data through its register.\<close>

theorem bootstrap_cores_ready:
  fixes s :: "'a kboot_scheme"
  assumes "pages_ok s" "free_run s p0 (8 * length info)" "inj_on new_cpu {..< length info}"
  shows "\<exists>q info' s'. bootstrap_cores new_cpu new_tss garbage core_init bsp (info, s) = Some (info', s') \<and> length info' = length info \<and>
    (\<forall>i < length info. core_ready new_cpu garbage core_init bsp info s info' s' q i) \<and>
    (\<forall>i < length info. \<forall>j < length info. smp_lapic_id (info ! i) \<noteq> bsp \<and> smp_lapic_id (info ! j) \<noteq> bsp \<and> i \<noteq> j \<longrightarrow>
       {q i ..< q i + 4} \<inter> {q j ..< q j + 4} = {})"
proof -
  have inj: "inj_on new_cpu (set [0 ..< length info])" using assms(3) by (simp add: atLeast0LessThan)
  have dom: "free_run s p0 (8 * length [0 ..< length info])" "distinct [0 ..< length info]" "\<forall>i \<in> set [0 ..< length info]. i < length info"
    using assms(2) by simp_all
  obtain q info' s' where
    "start_cores new_cpu new_tss garbage core_init bsp [0 ..< length info] (info, s) = Some (info', s')" "length info' = length info"
    "\<forall>i \<in> set [0 ..< length info]. core_ready new_cpu garbage core_init bsp info s info' s' q i"
    "\<forall>i \<in> set [0 ..< length info]. \<forall>j \<in> set [0 ..< length info]. smp_lapic_id (info ! i) \<noteq> bsp \<and> smp_lapic_id (info ! j) \<noteq> bsp \<and> i \<noteq> j \<longrightarrow>
       {q i ..< q i + 4} \<inter> {q j ..< q j + 4} = {}"
    using start_cores_ready [OF assms(1) dom inj, of new_tss garbage core_init bsp] by blast
  then show ?thesis by (intro exI [of _ q] exI [of _ info'] exI [of _ s']) (simp add: bootstrap_cores_def)
qed

text \<open>Two cores, the second of them the boot core, and sixteen free pages.\<close>

definition cores_sample :: kboot where
  "cores_sample = \<lparr>mem = (\<lambda>_. 0), bitmap = PHYSICAL_BASE_ADDRESS + 0x100000, bitmapSize = 2, lastUsablePage = 0x10000, pmm_lock = 0,
     cpu_objs = Map.empty, tss_objs = Map.empty, gdt = init_gdt, msr_of = (\<lambda>_ _. (0, 0))\<rparr>"

definition smp_sample :: "smp_info list" where
  "smp_sample = [\<lparr>smp_lapic_id = 4, target_stack = 0, goto_address = 0, extra_argument = 0\<rparr>,
     \<lparr>smp_lapic_id = 7, target_stack = 0, goto_address = 0, extra_argument = 0\<rparr>]"

definition cpu_sample :: cpu where
  "cpu_sample = \<lparr>lapic_id = 0, running_process = Some 3, running_thread = None, working_dir = None, cpu_pagemap = None\<rparr>"

lemma cores_sample_free: "free_page cores_sample i \<longleftrightarrow> i < 16"
  by (auto simp: free_page_def cores_sample_def is_bit_set_def)

lemma cores_sample_wf: "pmm_wf cores_sample"
proof -
  have "frame i \<inter> bitmap_bytes cores_sample = {}" if "i < 16" for i
  proof -
    have "span (PHYSICAL_BASE_ADDRESS + of_nat (i * 4096)) 4096 \<inter> span (PHYSICAL_BASE_ADDRESS + of_nat 0x100000) 2 = {}"
      by (rule span_offset_disjoint) (use that in auto)
    then show ?thesis by (simp add: frame_def page_addr_def PAGE_SIZE_def bitmap_bytes_def cores_sample_def)
  qed
  then show ?thesis by (simp add: pmm_wf_def cores_sample_free) (simp add: cores_sample_def)
qed

theorem bootstrap_cores_ready_witness:
  "\<exists>p info' s'. bootstrap_cores (\<lambda>i. 0x1000 + of_nat i) (\<lambda>i. 0x2000) cpu_sample 0x900 7 (smp_sample, cores_sample) = Some (info', s') \<and>
     info' ! 0 = \<lparr>smp_lapic_id = 4, target_stack = page_addr p + PHYSICAL_BASE_ADDRESS, goto_address = 0x900, extra_argument = 0x1000\<rparr> \<and>
     local_core (msr_of s' 1) = 0x1001"
proof -
  have "pages_ok cores_sample" by (simp add: pages_ok_def cores_sample_wf) (simp add: cores_sample_def)
  moreover have "free_run cores_sample 0 (8 * length smp_sample)" by (simp add: free_run_def cores_sample_free smp_sample_def)
  moreover have "inj_on (\<lambda>i. 0x1000 + of_nat i :: u64) {..< length smp_sample}" by (auto simp: inj_on_def smp_sample_def less_Suc_eq)
  ultimately obtain q info' s' where
    "bootstrap_cores (\<lambda>i. 0x1000 + of_nat i) (\<lambda>i. 0x2000) cpu_sample 0x900 7 (smp_sample, cores_sample) = Some (info', s')"
    and ready: "\<forall>i < length smp_sample. core_ready (\<lambda>i. 0x1000 + of_nat i) cpu_sample 0x900 7 smp_sample cores_sample info' s' q i"
    using bootstrap_cores_ready [of cores_sample 0 smp_sample "\<lambda>i. 0x1000 + of_nat i" "\<lambda>i. 0x2000" cpu_sample "0x900" 7] by blast
  moreover have "info' ! 0 = \<lparr>smp_lapic_id = 4, target_stack = page_addr (q 0) + PHYSICAL_BASE_ADDRESS, goto_address = 0x900, extra_argument = 0x1000\<rparr>"
    using spec [OF ready, of 0] by (simp add: core_ready_def handed_over_def smp_sample_def)
  moreover have "local_core (msr_of s' 1) = 0x1001" using spec [OF ready, of 1] by (simp add: core_ready_def smp_sample_def)
  ultimately show ?thesis by blast
qed

end
