(* ===== verification/Stivale.thy ===== *)
theory Stivale
  imports Boot_Props Acpi
begin

text \<open>
  The structures of \<^verbatim>\<open>boot/stivale2.hpp\<close> as they lie in memory, and the two loops of the kernel that write to them: \<open>PMM::init\<close>
  shortens a region of the memory map, \<open>bootstrap_cores\<close> fills the entries of the cores. The theories \<open>Pmm\<close> and \<open>Boot\<close> have the
  arrays as lists; here the same loops work on the bytes, and compute what the lists do. All structures are packed.
\<close>

section \<open>Memories that differ in one place\<close>

definition agree :: "u64 set \<Rightarrow> mem \<Rightarrow> mem \<Rightarrow> bool" where
  "agree R m m' \<longleftrightarrow> (\<forall>x. x \<notin> R \<longrightarrow> m x = m' x)"

lemma agree_refl [simp]: "agree R m m"
  by (simp add: agree_def)

lemma agree_trans: "agree R a b \<Longrightarrow> agree R b c \<Longrightarrow> agree R a c"
  by (simp add: agree_def)

lemma agree_mono: "agree R a b \<Longrightarrow> R \<subseteq> S \<Longrightarrow> agree S a b"
  by (auto simp: agree_def)

lemma agree_off: "agree R a b \<Longrightarrow> x \<notin> R \<Longrightarrow> a x = b x"
  by (simp add: agree_def)

lemma agree_write64: "span a 8 \<subseteq> R \<Longrightarrow> agree R (write64 m a v) m"
  by (auto simp: agree_def intro: write64_other)

lemma agree_memset: "agree R m m' \<Longrightarrow> n \<le> 2 ^ 64 \<Longrightarrow> agree R (memset m a v n) (memset m' a v n)"
  by (simp add: agree_def memset_fills)

text \<open>A bit that is changed outside \<open>R\<close>: both memories get the same byte, and \<open>R\<close> keeps its own.\<close>

lemma agree_set_bits:
  assumes "\<forall>i \<in> set js. i < 8 * n" "span b n \<inter> R = {}" "agree R m m'"
  shows "agree R (fold (\<lambda>i m. bm_set_bit m b i) js m) (fold (\<lambda>i m. bm_set_bit m b i) js m')"
  using assms
proof (induction js arbitrary: m m')
  case (Cons i js)
  have "b + of_nat (i div 8) \<in> span b n" using Cons.prems(1) by (intro add_of_nat_in_span) auto
  then have "agree R (bm_set_bit m b i) (bm_set_bit m' b i)"
    using Cons.prems(2,3) by (auto simp: agree_def bm_set_bit_def Let_def)
  then show ?case using Cons by simp
qed simp

lemma agree_clear_bits:
  assumes "\<forall>i \<in> set js. i < 8 * n" "span b n \<inter> R = {}" "agree R m m'"
  shows "agree R (fold (\<lambda>i m. bm_clear_bit m b i) js m) (fold (\<lambda>i m. bm_clear_bit m b i) js m')"
  using assms
proof (induction js arbitrary: m m')
  case (Cons i js)
  have "b + of_nat (i div 8) \<in> span b n" using Cons.prems(1) by (intro add_of_nat_in_span) auto
  then have "agree R (bm_clear_bit m b i) (bm_clear_bit m' b i)"
    using Cons.prems(2,3) by (auto simp: agree_def bm_clear_bit_def Let_def)
  then show ?case using Cons by simp
qed simp

section \<open>Arrays of packed entries\<close>

definition elems :: "nat \<Rightarrow> (mem \<Rightarrow> u64 \<Rightarrow> 'e) \<Rightarrow> mem \<Rightarrow> u64 \<Rightarrow> nat \<Rightarrow> 'e list" where
  "elems sz item m base n = map (\<lambda>i. item m (base + of_nat (i * sz))) [0 ..< n]"

lemma length_elems [simp]: "length (elems sz item m base n) = n"
  by (simp add: elems_def)

lemma nth_elems [simp]: "i < n \<Longrightarrow> elems sz item m base n ! i = item m (base + of_nat (i * sz))"
  by (simp add: elems_def)

lemma elem_inside: "i < n \<Longrightarrow> span (base + of_nat (i * sz)) sz \<subseteq> span base (n * sz)"
  by (rule span_offset_subset) (metis Suc_leI add.commute mult_Suc mult_le_mono1)

lemma elem_apart:
  assumes "i \<noteq> j" "i < n" "j < n" "n * sz \<le> 2 ^ 64"
  shows "span (base + of_nat (i * sz)) sz \<inter> span (base + of_nat (j * sz)) sz = {}"
proof -
  have *: "span (base + of_nat (a * sz)) sz \<inter> span (base + of_nat (b * sz)) sz = {}" if "a < b" "b < n" for a b
  proof (rule span_offset_disjoint)
    show "a * sz + sz \<le> b * sz" using that(1) by (metis Suc_leI add.commute mult_Suc mult_le_mono1)
    have "b * sz + sz \<le> n * sz" using that(2) by (metis Suc_leI add.commute mult_Suc mult_le_mono1)
    then show "b * sz + sz \<le> 2 ^ 64" using assms(4) by simp
  qed
  show ?thesis using assms(1-3) * [of i j] * [of j i] by (cases "i < j") auto
qed

text \<open>A reader that looks at the bytes of its entry only.\<close>

locale packed =
  fixes sz :: nat and item :: "mem \<Rightarrow> u64 \<Rightarrow> 'e"
  assumes item_cong: "(\<And>x. x \<in> span a sz \<Longrightarrow> m x = m' x) \<Longrightarrow> item m a = item m' a"
begin

lemma elems_cong:
  assumes "\<And>x. x \<in> span base (n * sz) \<Longrightarrow> m x = m' x"
  shows "elems sz item m base n = elems sz item m' base n"
proof (rule nth_equalityI)
  fix i assume i: "i < length (elems sz item m base n)"
  show "elems sz item m base n ! i = elems sz item m' base n ! i"
    using i elem_inside [of i n base sz] assms by (auto intro!: item_cong)
qed simp

lemma elems_update:
  assumes "agree (span (base + of_nat (k * sz)) sz) m' m" "k < n" "n * sz \<le> 2 ^ 64"
  shows "elems sz item m' base n = (elems sz item m base n)[k := item m' (base + of_nat (k * sz))]"
proof (rule nth_equalityI)
  fix i assume "i < length (elems sz item m' base n)"
  then have i: "i < n" by simp
  show "elems sz item m' base n ! i = (elems sz item m base n)[k := item m' (base + of_nat (k * sz))] ! i"
  proof (cases "i = k")
    case False
    then have "span (base + of_nat (i * sz)) sz \<inter> span (base + of_nat (k * sz)) sz = {}"
      using elem_apart i assms(2,3) by blast
    then have "item m' (base + of_nat (i * sz)) = item m (base + of_nat (i * sz))"
      using assms(1) by (intro item_cong) (auto intro: agree_off)
    then show ?thesis using i False by simp
  qed (use i in simp)
qed simp

end

section \<open>The structures\<close>

definition read_mmap_entry :: "mem \<Rightarrow> u64 \<Rightarrow> mmap_entry" where
  "read_mmap_entry m a = \<lparr>mm_base = read64 m a, mm_length = read64 m (a + 8), mm_type = read32 m (a + 16)\<rparr>"

definition memmap_entries :: "mem \<Rightarrow> u64 \<Rightarrow> nat" where
  "memmap_entries m tag = unat (read64 m (tag + 16))"

definition memmap_array :: "u64 \<Rightarrow> u64" where
  "memmap_array tag = tag + 24"

definition read_smp_info :: "mem \<Rightarrow> u64 \<Rightarrow> smp_info" where
  "read_smp_info m a = \<lparr>smp_lapic_id = read32 m (a + 4), target_stack = read64 m (a + 8), goto_address = read64 m (a + 16),
     extra_argument = read64 m (a + 24)\<rparr>"

definition smp_bsp_lapic_id :: "mem \<Rightarrow> u64 \<Rightarrow> u32" where
  "smp_bsp_lapic_id m tag = read32 m (tag + 24)"

definition smp_cpu_count :: "mem \<Rightarrow> u64 \<Rightarrow> nat" where
  "smp_cpu_count m tag = unat (read64 m (tag + 32))"

definition smp_array :: "u64 \<Rightarrow> u64" where
  "smp_array tag = tag + 40"

lemma read32_cong: "(\<And>x. x \<in> span a 4 \<Longrightarrow> m x = m' x) \<Longrightarrow> read32 m a = read32 m' a"
  using add_of_nat_in_span [of 0 4 a] add_of_nat_in_span [of 1 4 a] add_of_nat_in_span [of 2 4 a] add_of_nat_in_span [of 3 4 a]
  by (simp add: read32_def)

lemma field_inside:
  "span a 8 \<subseteq> span a 24" "span (a + 8) 8 \<subseteq> span a 24" "span (a + 16) 4 \<subseteq> span a 24"
  "span (a + 4) 4 \<subseteq> span a 32" "span (a + 8) 8 \<subseteq> span a 32" "span (a + 16) 8 \<subseteq> span a 32" "span (a + 24) 8 \<subseteq> span a 32"
  using span_offset_subset [of 0 8 24 a] span_offset_subset [of 8 8 24 a] span_offset_subset [of 16 4 24 a]
    span_offset_subset [of 4 4 32 a] span_offset_subset [of 8 8 32 a] span_offset_subset [of 16 8 32 a] span_offset_subset [of 24 8 32 a]
  by simp_all

lemma field_apart:
  "span a 8 \<inter> span (a + 8) 8 = {}" "span (a + 16) 4 \<inter> span a 8 = {}" "span (a + 16) 4 \<inter> span (a + 8) 8 = {}"
  "span (a + 4) 4 \<inter> span (a + 8) 8 = {}" "span (a + 4) 4 \<inter> span (a + 16) 8 = {}" "span (a + 4) 4 \<inter> span (a + 24) 8 = {}"
  "span (a + 8) 8 \<inter> span (a + 16) 8 = {}" "span (a + 8) 8 \<inter> span (a + 24) 8 = {}" "span (a + 16) 8 \<inter> span (a + 24) 8 = {}"
  using span_offset_disjoint [of 0 8 8 8 a] span_offset_disjoint [of 0 8 16 4 a] span_offset_disjoint [of 8 8 16 4 a]
    span_offset_disjoint [of 4 4 8 8 a] span_offset_disjoint [of 4 4 16 8 a] span_offset_disjoint [of 4 4 24 8 a]
    span_offset_disjoint [of 8 8 16 8 a] span_offset_disjoint [of 8 8 24 8 a] span_offset_disjoint [of 16 8 24 8 a]
  by (simp_all add: Int_commute)

interpretation mmap_entries: packed 24 read_mmap_entry
proof
  fix a and m m' :: mem assume "\<And>x. x \<in> span a 24 \<Longrightarrow> m x = m' x"
  then show "read_mmap_entry m a = read_mmap_entry m' a"
    using field_inside(1-3) [of a] by (auto simp: read_mmap_entry_def intro!: read64_cong read32_cong)
qed

interpretation smp_entries: packed 32 read_smp_info
proof
  fix a and m m' :: mem assume "\<And>x. x \<in> span a 32 \<Longrightarrow> m x = m' x"
  then show "read_smp_info m a = read_smp_info m' a"
    using field_inside(4-7) [of a] by (auto simp: read_smp_info_def intro!: read64_cong read32_cong)
qed

section \<open>PMM::init on the array of the boot loader\<close>

fun find_last_in :: "mem \<Rightarrow> u64 \<Rightarrow> nat list \<Rightarrow> u64 \<Rightarrow> u64" where
  "find_last_in m mmap [] lastUsable = lastUsable"
| "find_last_in m mmap (i # js) lastUsable =
     (let e = read_mmap_entry m (mmap + of_nat (i * 24)) in
      if mm_type e \<noteq> STIVALE2_MMAP_USABLE \<and> mm_type e \<noteq> STIVALE2_MMAP_KERNEL_AND_MODULES
      then find_last_in m mmap js lastUsable
      else let top = mm_base e + mm_length e
           in find_last_in m mmap js (if top > lastUsable then top else lastUsable))"

fun place_in :: "u64 \<Rightarrow> nat list \<Rightarrow> 'a kmem_scheme \<Rightarrow> 'a kmem_scheme" where
  "place_in mmap [] s = s"
| "place_in mmap (i # js) s =
     (let a = mmap + of_nat (i * 24); e = read_mmap_entry (mem s) a in
      if (mm_type e \<noteq> STIVALE2_MMAP_USABLE \<and> mm_type e \<noteq> STIVALE2_MMAP_BOOTLOADER_RECLAIMABLE)
         \<or> unat (mm_length e) < bitmapSize s
      then place_in mmap js s
      else let bm = mm_base e + PHYSICAL_BASE_ADDRESS;
               bitmapPages = DIV_CEIL (bitmapSize s) PAGE_SIZE;
               m = memset (mem s) bm 0xFF (bitmapSize s);
               m = write64 m a (read64 m a + of_nat (bitmapPages * PAGE_SIZE));
               m = write64 m (a + 8) (read64 m (a + 8) - of_nat (bitmapPages * PAGE_SIZE))
           in s\<lparr>bitmap := bm, mem := m\<rparr>)"

fun mark_in :: "u64 \<Rightarrow> u64 \<Rightarrow> nat list \<Rightarrow> mem \<Rightarrow> mem" where
  "mark_in bm mmap [] m = m"
| "mark_in bm mmap (i # js) m =
     (let e = read_mmap_entry m (mmap + of_nat (i * 24)) in
      if mm_type e \<noteq> STIVALE2_MMAP_USABLE \<and> mm_type e \<noteq> STIVALE2_MMAP_BOOTLOADER_RECLAIMABLE
      then mark_in bm mmap js m
      else let pageNumber = unat (mm_base e) div PAGE_SIZE;
               len = unat (mm_length e) div PAGE_SIZE
           in mark_in bm mmap js
                (fold (\<lambda>i m. bm_clear_bit m bm i) [pageNumber ..< Suc (pageNumber + len)] m))"

definition pmm_init_in :: "u64 \<Rightarrow> nat \<Rightarrow> 'a kmem_scheme \<Rightarrow> 'a kmem_scheme" where
  "pmm_init_in mmap entries s =
     (let lastUsable = find_last_in (mem s) mmap [0 ..< entries] (lastUsablePage s);
          s1 = s\<lparr>lastUsablePage := lastUsable, bitmapSize := DIV_CEIL (unat lastUsable div PAGE_SIZE) 8\<rparr>;
          s2 = place_in mmap [0 ..< entries] s1
      in s2\<lparr>mem := mark_in (bitmap s2) mmap [0 ..< entries] (mem s2)\<rparr>)"

abbreviation mmap_at :: "mem \<Rightarrow> u64 \<Rightarrow> nat \<Rightarrow> mmap_entry" where
  "mmap_at m mmap i \<equiv> read_mmap_entry m (mmap + of_nat (i * 24))"

lemma find_last_in_list: "find_last_in m mmap js a = find_last_usable (map (mmap_at m mmap) js) a"
  by (induction js arbitrary: a) (simp_all add: Let_def)

definition shortened :: "nat \<Rightarrow> mmap_entry \<Rightarrow> mmap_entry" where
  "shortened sz e = e\<lparr>mm_base := mm_base e + of_nat (DIV_CEIL sz PAGE_SIZE * PAGE_SIZE), mm_length := mm_length e - of_nat (DIV_CEIL sz PAGE_SIZE * PAGE_SIZE)\<rparr>"

abbreviation filled :: "mmap_entry \<Rightarrow> 'a kmem_scheme \<Rightarrow> mem" where
  "filled e s \<equiv> memset (mem s) (mm_base e + PHYSICAL_BASE_ADDRESS) 0xFF (bitmapSize s)"

text \<open>Both searches stop at the same entry.\<close>

lemma place_in_list:
  "(place_in mmap js s = s \<and> place_bitmap (map (mmap_at (mem s) mmap) js) s = (map (mmap_at (mem s) mmap) js, s)) \<or>
   (\<exists>k < length js. let e = mmap_at (mem s) mmap (js ! k); a = mmap + of_nat (js ! k * 24); m = filled e s;
        n = of_nat (DIV_CEIL (bitmapSize s) PAGE_SIZE * PAGE_SIZE); m1 = write64 m a (read64 m a + n) in
      place_bitmap (map (mmap_at (mem s) mmap) js) s = ((map (mmap_at (mem s) mmap) js)[k := shortened (bitmapSize s) e], s\<lparr>bitmap := mm_base e + PHYSICAL_BASE_ADDRESS, mem := m\<rparr>) \<and>
      place_in mmap js s = s\<lparr>bitmap := mm_base e + PHYSICAL_BASE_ADDRESS, mem := write64 m1 (a + 8) (read64 m1 (a + 8) - n)\<rparr>)"
  (is "?none js \<or> (\<exists>k < length js. ?here js k)")
proof (induction js)
  case (Cons i js)
  let ?e = "mmap_at (mem s) mmap i"
  show ?case
  proof (cases "(mm_type ?e \<noteq> STIVALE2_MMAP_USABLE \<and> mm_type ?e \<noteq> STIVALE2_MMAP_BOOTLOADER_RECLAIMABLE) \<or> unat (mm_length ?e) < bitmapSize s")
    case True
    have "?none js \<Longrightarrow> ?none (i # js)" using True by (auto simp: Let_def)
    moreover have "?here js k \<Longrightarrow> ?here (i # js) (Suc k)" for k using True by (auto simp: Let_def)
    ultimately show ?thesis using Cons.IH by (metis Suc_mono length_Cons)
  next
    case False
    then have "?here (i # js) 0" by (auto simp: Let_def shortened_def)
    then show ?thesis by blast
  qed
qed simp

text \<open>The third loop, on an array that lies outside the bitmap.\<close>

lemma mark_in_list:
  assumes "agree R m m'" "span mmap (n * 24) \<subseteq> R" "R \<inter> span bm sz = {}"
    and "\<forall>i \<in> set js. i < n \<and> (\<forall>j. cleared_page (mmap_at m mmap i) j \<longrightarrow> j < 8 * sz)"
  shows "agree R (mark_in bm mmap js m) (mark_free bm (map (mmap_at m mmap) js) m') \<and> (\<forall>x \<in> R. mark_in bm mmap js m x = m x)"
  using assms
proof (induction js arbitrary: m m')
  case (Cons i js)
  let ?e = "mmap_at m mmap i"
  show ?case
  proof (cases "free_type ?e")
    case False
    then show ?thesis using Cons by (simp add: Let_def free_type_def)
  next
    case True
    let ?ps = "[unat (mm_base ?e) div PAGE_SIZE ..< Suc (unat (mm_base ?e) div PAGE_SIZE + unat (mm_length ?e) div PAGE_SIZE)]"
    let ?m = "fold (\<lambda>i m. bm_clear_bit m bm i) ?ps m" and ?m' = "fold (\<lambda>i m. bm_clear_bit m bm i) ?ps m'"
    have ps: "\<forall>j \<in> set ?ps. j < 8 * sz" using Cons.prems(4) True by (auto simp: cleared_page_def simp del: upt_Suc)
    have keep: "?m x = m x" if "x \<in> R" for x using fold_clear_other [OF ps] Cons.prems(3) that by blast
    have same: "mmap_at ?m mmap k = mmap_at m mmap k" if "k < n" for k
      using keep Cons.prems(2) elem_inside [OF that, of mmap 24] by (intro mmap_entries.item_cong) blast
    have ag: "agree R ?m ?m'" by (rule agree_clear_bits [OF ps _ Cons.prems(1)]) (use Cons.prems(3) in blast)
    have bounds: "\<forall>i \<in> set js. i < n \<and> (\<forall>j. cleared_page (mmap_at ?m mmap i) j \<longrightarrow> j < 8 * sz)"
      using Cons.prems(4) same by (simp del: upt_Suc)
    have es: "map (mmap_at ?m mmap) js = map (mmap_at m mmap) js" using Cons.prems(4) same by (simp del: upt_Suc)
    note IH = Cons.IH [OF ag Cons.prems(2,3) bounds, unfolded es]
    have "mark_in bm mmap (i # js) m = mark_in bm mmap js ?m" using True by (auto simp: Let_def free_type_def simp del: upt_Suc)
    moreover have "mark_free bm (map (mmap_at m mmap) (i # js)) m' = mark_free bm (map (mmap_at m mmap) js) ?m'"
      using True by (auto simp: Let_def free_type_def simp del: upt_Suc)
    ultimately show ?thesis using IH keep by (simp del: upt_Suc)
  qed
qed simp

text \<open>The second loop writes the entry it shortens, and nothing else of the array.\<close>

lemma shorten_entry:
  fixes m :: mem
  defines "m1 \<equiv> \<lambda>a c. write64 m a (read64 m a + c)"
  defines "m2 \<equiv> \<lambda>a c. write64 (m1 a c) (a + 8) (read64 (m1 a c) (a + 8) - c)"
  shows "agree (span a 24) (m2 a c) m"
    and "read_mmap_entry (m2 a c) a = (read_mmap_entry m a)\<lparr>mm_base := read64 m a + c, mm_length := read64 m (a + 8) - c\<rparr>"
proof -
  have "agree (span a 24) (m1 a c) m" unfolding m1_def by (rule agree_write64 [OF field_inside(1)])
  moreover have "agree (span a 24) (m2 a c) (m1 a c)" unfolding m2_def by (rule agree_write64 [OF field_inside(2)])
  ultimately show "agree (span a 24) (m2 a c) m" by (meson agree_trans)
  have "read64 (m1 a c) (a + 8) = read64 m (a + 8)" unfolding m1_def using field_apart(1) [of a] by (intro read64_write64_other) blast
  moreover have "read64 (m2 a c) a = read64 m a + c" unfolding m2_def using field_apart(1) [of a] by (subst read64_write64_other) (simp_all add: m1_def)
  moreover have "read32 (m2 a c) (a + 16) = read32 m (a + 16)"
  proof (rule read32_cong)
    fix x assume "x \<in> span (a + 16) 4"
    then have "x \<notin> span a 8" "x \<notin> span (a + 8) 8" using field_apart(2,3) [of a] by blast+
    then show "m2 a c x = m x" by (simp add: m2_def m1_def write64_other)
  qed
  ultimately show "read_mmap_entry (m2 a c) a = (read_mmap_entry m a)\<lparr>mm_base := read64 m a + c, mm_length := read64 m (a + 8) - c\<rparr>"
    by (simp add: read_mmap_entry_def m2_def)
qed

lemma place_in_elems:
  assumes pb: "place_bitmap (elems 24 read_mmap_entry (mem s) mmap n) s = (es, s2)" and n: "n * 24 \<le> 2 ^ 64"
    and apart: "span mmap (n * 24) \<inter> bitmap_bytes s2 = {}"
  obtains m where "place_in mmap [0 ..< n] s = s2\<lparr>mem := m\<rparr>" "agree (span mmap (n * 24)) m (mem s2)" "elems 24 read_mmap_entry m mmap n = es"
proof -
  have e: "map (mmap_at (mem s) mmap) [0 ..< n] = elems 24 read_mmap_entry (mem s) mmap n" by (simp add: elems_def)
  from place_in_list [of mmap "[0 ..< n]" s] show thesis
  proof (elim disjE exE conjE)
    assume "place_in mmap [0 ..< n] s = s" "place_bitmap (map (mmap_at (mem s) mmap) [0 ..< n]) s = (map (mmap_at (mem s) mmap) [0 ..< n], s)"
    then show thesis using pb e by (intro that [of "mem s"]) simp_all
  next
    fix k assume "k < length [0 ..< n]"
    then have k: "k < n" "[0 ..< n] ! k = k" by simp_all
    let ?e = "mmap_at (mem s) mmap k" and ?a = "mmap + of_nat (k * 24)"
    let ?m = "filled ?e s" and ?c = "of_nat (DIV_CEIL (bitmapSize s) PAGE_SIZE * PAGE_SIZE)"
    let ?m1 = "write64 ?m ?a (read64 ?m ?a + ?c)"
    let ?m2 = "write64 ?m1 (?a + 8) (read64 ?m1 (?a + 8) - ?c)"
    assume here: "let e = mmap_at (mem s) mmap ([0 ..< n] ! k); a = mmap + of_nat ([0 ..< n] ! k * 24); m = filled e s;
        c = of_nat (DIV_CEIL (bitmapSize s) PAGE_SIZE * PAGE_SIZE); m1 = write64 m a (read64 m a + c) in
      place_bitmap (map (mmap_at (mem s) mmap) [0 ..< n]) s = ((map (mmap_at (mem s) mmap) [0 ..< n])[k := shortened (bitmapSize s) e], s\<lparr>bitmap := mm_base e + PHYSICAL_BASE_ADDRESS, mem := m\<rparr>) \<and>
      place_in mmap [0 ..< n] s = s\<lparr>bitmap := mm_base e + PHYSICAL_BASE_ADDRESS, mem := write64 m1 (a + 8) (read64 m1 (a + 8) - c)\<rparr>"
    then have s2: "es = (elems 24 read_mmap_entry (mem s) mmap n)[k := shortened (bitmapSize s) ?e]"
      "s2 = s\<lparr>bitmap := mm_base ?e + PHYSICAL_BASE_ADDRESS, mem := ?m\<rparr>" using pb unfolding Let_def k(2) e by simp_all
    have pi: "place_in mmap [0 ..< n] s = s2\<lparr>mem := ?m2\<rparr>" using here unfolding Let_def k(2) s2(2) by simp
    have old: "?m x = mem s x" if "x \<in> span mmap (n * 24)" for x using that apart by (intro memset_other) (auto simp: bitmap_bytes_def s2(2))
    have ae: "elems 24 read_mmap_entry ?m mmap n = elems 24 read_mmap_entry (mem s) mmap n" by (rule mmap_entries.elems_cong) (rule old)
    then have re: "read_mmap_entry ?m ?a = ?e" using k(1) by (metis nth_elems)
    then have rb: "read64 ?m ?a = mm_base ?e" "read64 ?m (?a + 8) = mm_length ?e" by (simp_all add: read_mmap_entry_def)
    note sh = shorten_entry [where a = ?a and m = ?m and c = ?c]
    have "elems 24 read_mmap_entry ?m2 mmap n = (elems 24 read_mmap_entry ?m mmap n)[k := read_mmap_entry ?m2 ?a]"
      by (rule mmap_entries.elems_update [OF sh(1) k(1) n])
    moreover have "read_mmap_entry ?m2 ?a = shortened (bitmapSize s) ?e" by (rule trans [OF sh(2)]) (simp only: re rb shortened_def)
    ultimately have "elems 24 read_mmap_entry ?m2 mmap n = es" using ae s2(1) by simp
    moreover have "agree (span mmap (n * 24)) ?m2 ?m" by (rule agree_mono [OF sh(1) elem_inside [OF k(1)]])
    ultimately show thesis using pi s2(2) by (intro that [of ?m2]) simp_all
  qed
qed

lemma pmm_init_in_refines:
  assumes "pmm_init (elems 24 read_mmap_entry (mem s) mmap n) s = (es, s')" "n * 24 \<le> 2 ^ 64"
    and "span mmap (n * 24) \<inter> bitmap_bytes s' = {}" "\<forall>e \<in> set es. \<forall>j. cleared_page e j \<longrightarrow> j < bitmapSize s' * 8"
  shows "\<exists>m. pmm_init_in mmap n s = s'\<lparr>mem := m\<rparr> \<and> elems 24 read_mmap_entry m mmap n = es \<and> agree (span mmap (n * 24)) m (mem s')"
proof -
  let ?lu = "find_last_usable (elems 24 read_mmap_entry (mem s) mmap n) (lastUsablePage s)"
  let ?s1 = "s\<lparr>lastUsablePage := ?lu, bitmapSize := DIV_CEIL (unat ?lu div PAGE_SIZE) 8\<rparr>"
  obtain s2 where s2: "place_bitmap (elems 24 read_mmap_entry (mem ?s1) mmap n) ?s1 = (es, s2)" "s' = s2\<lparr>mem := mark_free (bitmap s2) es (mem s2)\<rparr>"
    using assms(1) by (auto simp: pmm_init_def Let_def split: prod.splits)
  have bb: "bitmap_bytes s' = bitmap_bytes s2" "bitmapSize s' = bitmapSize s2" by (simp_all add: s2(2) bitmap_bytes_def)
  obtain m2 where m2: "place_in mmap [0 ..< n] ?s1 = s2\<lparr>mem := m2\<rparr>" "agree (span mmap (n * 24)) m2 (mem s2)" "elems 24 read_mmap_entry m2 mmap n = es"
    using place_in_elems [OF s2(1) assms(2)] assms(3) bb by metis
  have es: "map (mmap_at m2 mmap) [0 ..< n] = es" using m2(3) by (simp add: elems_def)
  have "\<forall>i \<in> set [0 ..< n]. i < n \<and> (\<forall>j. cleared_page (mmap_at m2 mmap i) j \<longrightarrow> j < 8 * bitmapSize s2)"
    using assms(4) bb(2) es by (auto simp: mult.commute)
  then have mk: "agree (span mmap (n * 24)) (mark_in (bitmap s2) mmap [0 ..< n] m2) (mark_free (bitmap s2) es (mem s2))"
    "\<forall>x \<in> span mmap (n * 24). mark_in (bitmap s2) mmap [0 ..< n] m2 x = m2 x"
    using mark_in_list [OF m2(2) subset_refl, of "bitmap s2" "bitmapSize s2" "[0 ..< n]"] assms(3) bb(1) unfolding es bitmap_bytes_def by auto
  have "find_last_in (mem s) mmap [0 ..< n] (lastUsablePage s) = ?lu" by (simp add: find_last_in_list elems_def)
  then have "pmm_init_in mmap n s = s'\<lparr>mem := mark_in (bitmap s2) mmap [0 ..< n] m2\<rparr>"
    using m2(1) by (simp add: pmm_init_in_def Let_def s2(2))
  moreover have "elems 24 read_mmap_entry (mark_in (bitmap s2) mmap [0 ..< n] m2) mmap n = es"
    unfolding m2(3) [symmetric] by (rule mmap_entries.elems_cong) (use mk(2) in blast)
  ultimately show ?thesis using mk(1) by (auto simp: s2(2))
qed

text \<open>C21: \<open>PMM::init\<close> on the bytes of the boot loader refines the model on the list of regions: when the array lies outside the bitmap it
  places and every page it frees is one the bitmap has a bit for, it computes the same bitmap and the same state, leaves the shortened regions in the
  array, and changes no byte of memory besides.\<close>

theorem pmm_init_in_memory:
  assumes "pmm_init (elems 24 read_mmap_entry (mem s) mmap n) s = (es, s')" "n * 24 \<le> 2 ^ 64"
    and "span mmap (n * 24) \<inter> bitmap_bytes s' = {}" "\<forall>e \<in> set es. \<forall>j. cleared_page e j \<longrightarrow> j < bitmapSize s' * 8"
  shows "\<exists>m. pmm_init_in mmap n s = s'\<lparr>mem := m\<rparr> \<and> elems 24 read_mmap_entry m mmap n = es \<and> agree (span mmap (n * 24)) m (mem s')"
  using assms by (rule pmm_init_in_refines)

text \<open>The memory map of \<open>sample_mmap\<close> as bytes at \<open>0x500000\<close>.\<close>

definition mmap_bytes_sample :: mem where
  "mmap_bytes_sample = (\<lambda>_. 0)(0x50000A := 1, 0x500010 := 1, 0x50001A := 1, 0x500022 := 1, 0x500028 := 2,
     0x500032 := 2, 0x50003A := 1, 0x500040 := 1, 0x500041 := 0x10)"

lemma mmap_bytes_sample_read: "elems 24 read_mmap_entry mmap_bytes_sample 0x500000 3 = sample_mmap"
  by (simp add: elems_def upt_rec [of _ 3] read_mmap_entry_def read64_def read32_def mmap_bytes_sample_def sample_mmap_def)

definition mmap_state_sample :: kmem where
  "mmap_state_sample = pmm_sample\<lparr>mem := mmap_bytes_sample\<rparr>"

lemma mmap_state_init:
  "fst (pmm_init sample_mmap mmap_state_sample) =
     [\<lparr>mm_base = 0x1000, mm_length = 0xF000, mm_type = 1\<rparr>,
      \<lparr>mm_base = 0x10000, mm_length = 0x10000, mm_type = 2\<rparr>,
      \<lparr>mm_base = 0x20000, mm_length = 0x10000, mm_type = 0x1001\<rparr>]"
  "bitmapSize (snd (pmm_init sample_mmap mmap_state_sample)) = 6" "bitmap (snd (pmm_init sample_mmap mmap_state_sample)) = PHYSICAL_BASE_ADDRESS"
  by (simp_all add: pmm_init_def sample_mmap_def mmap_state_sample_def pmm_sample_def STIVALE2_MMAP_USABLE_def
      STIVALE2_MMAP_KERNEL_AND_MODULES_def STIVALE2_MMAP_BOOTLOADER_RECLAIMABLE_def DIV_CEIL_def PAGE_SIZE_def Let_def)

theorem pmm_init_in_memory_witness:
  "\<exists>m. pmm_init_in 0x500000 3 mmap_state_sample = (snd (pmm_init sample_mmap mmap_state_sample))\<lparr>mem := m\<rparr> \<and>
     read_mmap_entry m 0x500000 = \<lparr>mm_base = 0x1000, mm_length = 0xF000, mm_type = 1\<rparr>"
proof -
  let ?es = "fst (pmm_init sample_mmap mmap_state_sample)" and ?s = "snd (pmm_init sample_mmap mmap_state_sample)"
  have e: "elems 24 read_mmap_entry (mem mmap_state_sample) 0x500000 3 = sample_mmap" using mmap_bytes_sample_read by (simp add: mmap_state_sample_def)
  have "span (0x500000 + of_nat 0) 72 \<inter> span (0x500000 + of_nat (unat PHYSICAL_BASE_ADDRESS - 0x500000)) 6 = {}"
    by (rule span_offset_disjoint) (simp_all add: PHYSICAL_BASE_ADDRESS_def)
  then have a: "span 0x500000 (3 * 24) \<inter> bitmap_bytes ?s = {}"
    by (simp add: bitmap_bytes_def mmap_state_init PHYSICAL_BASE_ADDRESS_def)
  have c: "\<forall>e \<in> set ?es. \<forall>j. cleared_page e j \<longrightarrow> j < bitmapSize ?s * 8"
    by (simp add: mmap_state_init cleared_page_def free_type_def PAGE_SIZE_def STIVALE2_MMAP_USABLE_def STIVALE2_MMAP_BOOTLOADER_RECLAIMABLE_def)
  have "pmm_init (elems 24 read_mmap_entry (mem mmap_state_sample) 0x500000 3) mmap_state_sample = (?es, ?s)" unfolding e by simp
  from pmm_init_in_memory [OF this _ a c] obtain m where m: "pmm_init_in 0x500000 3 mmap_state_sample = ?s\<lparr>mem := m\<rparr>" "elems 24 read_mmap_entry m 0x500000 3 = ?es"
    by auto
  have "read_mmap_entry m 0x500000 = ?es ! 0" using nth_elems [of 0 3 24 read_mmap_entry m "0x500000"] m(2) by simp
  then show ?thesis using m(1) by (auto simp: mmap_state_init)
qed

section \<open>The cores\<close>

text \<open>Round \<open>i\<close> of \<open>bootstrap_cores\<close> on the entries of the tag. The address of the code is stored last.\<close>

definition start_core_in ::
  "(nat \<Rightarrow> u64) \<Rightarrow> (nat \<Rightarrow> u64) \<Rightarrow> cpu \<Rightarrow> u64 \<Rightarrow> u64 \<Rightarrow> nat \<Rightarrow> 'a kboot_scheme \<Rightarrow> 'a kboot_scheme option" where
  "start_core_in new_cpu new_tss garbage core_init smpInfo i s = do {
     let a = smp_array smpInfo + of_nat (i * 32);
     let s = s\<lparr>cpu_objs := (cpu_objs s)(new_cpu i \<mapsto> new_cpu_data garbage (smp_lapic_id (read_smp_info (mem s) a)))\<rparr>;
     if smp_lapic_id (read_smp_info (mem s) a) = smp_bsp_lapic_id (mem s) smpInfo then do {
       (x, s) \<leftarrow> pmm_alloc 4 s;
       (y, s) \<leftarrow> pmm_alloc 4 s;
       Some (s\<lparr>tss_objs := (tss_objs s)(new_tss i \<mapsto> \<lparr>rsp0 = x + PHYSICAL_BASE_ADDRESS, ist1 = y + PHYSICAL_BASE_ADDRESS\<rparr>),
         gdt := load_tss (new_tss i) (gdt s), msr_of := (msr_of s)(i := set_gs (new_cpu i) (msr_of s i))\<rparr>)
     }
     else do {
       (x, s) \<leftarrow> pmm_alloc 4 s;
       let m = write64 (mem s) (a + 8) (x + PHYSICAL_BASE_ADDRESS);
       let m = write64 m (a + 24) (new_cpu i);
       Some (s\<lparr>mem := write64 m (a + 16) core_init\<rparr>)
     }
   }"

text \<open>The loop reads the number of cores from the tag in every round.\<close>

partial_function (option) bootstrap_loop ::
  "(nat \<Rightarrow> u64) \<Rightarrow> (nat \<Rightarrow> u64) \<Rightarrow> cpu \<Rightarrow> u64 \<Rightarrow> u64 \<Rightarrow> nat \<Rightarrow> 'a kboot_scheme \<Rightarrow> 'a kboot_scheme option" where
  "bootstrap_loop new_cpu new_tss garbage core_init smpInfo i s =
     (if i < smp_cpu_count (mem s) smpInfo then do {
        s \<leftarrow> start_core_in new_cpu new_tss garbage core_init smpInfo i s;
        bootstrap_loop new_cpu new_tss garbage core_init smpInfo (i + 1) s
      } else Some s)"

definition bootstrap_cores_in ::
  "(nat \<Rightarrow> u64) \<Rightarrow> (nat \<Rightarrow> u64) \<Rightarrow> cpu \<Rightarrow> u64 \<Rightarrow> u64 \<Rightarrow> 'a kboot_scheme \<Rightarrow> 'a kboot_scheme option" where
  "bootstrap_cores_in new_cpu new_tss garbage core_init smpInfo s = bootstrap_loop new_cpu new_tss garbage core_init smpInfo 0 s"

text \<open>Bytes that the page allocator does not touch.\<close>

definition untouched :: "u64 set \<Rightarrow> 'a kmem_scheme \<Rightarrow> bool" where
  "untouched R s \<longleftrightarrow> pmm_wf s \<and> R \<inter> bitmap_bytes s = {} \<and> (\<forall>j. free_page s j \<longrightarrow> frame j \<inter> R = {})"

lemma alloc_cases:
  assumes "pmm_wf s" "pmm_lock s = 0" "0 < k"
  shows "(\<exists>p. free_run s p k \<and> (\<forall>q < p. \<not> free_run s q k) \<and>
        pmm_alloc k s = Some (page_addr p, s\<lparr>mem := \<lambda>x. if x \<in> (\<Union>i \<in> {p ..< p + k}. frame i) then 0 else mark_used s p k x\<rparr>)) \<or>
      ((\<forall>p. \<not> free_run s p k) \<and> pmm_alloc k s = Some (0, s))"
proof -
  let ?s = "s\<lparr>pmm_lock := 1\<rparr>"
  have eqs: "free_page ?s = free_page s" "bitmap_bytes ?s = bitmap_bytes s" "free_run ?s = free_run s"
    by (auto simp: fun_eq_iff free_page_def bitmap_bytes_def free_run_def)
  have wf: "pmm_wf ?s" using assms(1) by (simp add: pmm_wf_def eqs)
  have al: "pmm_alloc k s = Some (alloc_loop k 0 0 ?s)" using assms(2) by (simp add: pmm_alloc_def)
  have z: "s\<lparr>mem := f, pmm_lock := 0\<rparr> = s\<lparr>mem := f\<rparr>" "s\<lparr>pmm_lock := 0\<rparr> = s" for f using assms(2) by (cases s; simp)+
  have "scan_inv ?s k 0 0" using assms(3) by (simp add: scan_inv_def)
  from alloc_loop_finds [OF this, unfolded eqs] show ?thesis
  proof (elim disjE exE conjE)
    fix p assume p: "free_run s p k" "\<forall>q < p. \<not> free_run s q k" "alloc_loop k 0 0 ?s = take_pages p k ?s"
    obtain a s' where t: "take_pages p k ?s = (a, s')" by fastforce
    have "free_run ?s p k" using p(1) by (simp only: eqs)
    then have m: "mem s' = (\<lambda>x. if x \<in> (\<Union>i \<in> {p ..< p + k}. frame i) then 0 else mark_used s p k x)"
      using take_pages_mem [OF wf _ assms(3) t] by (simp cong: if_cong)
    have "a = page_addr p" "s' = s\<lparr>mem := mem s', pmm_lock := 0\<rparr>" using t by (auto simp: take_pages_def Let_def page_addr_def)
    then have "pmm_alloc k s = Some (page_addr p, s\<lparr>mem := mem s'\<rparr>)" using al p(3) t z(1) by simp
    then show ?thesis unfolding m using p(1,2) by blast
  qed (use al z(2) in simp)
qed

lemma untouched_alloc:
  assumes "untouched R s" "0 < k" "pmm_alloc k s = Some (a, s')"
  shows "untouched R s'" "\<And>x. x \<in> R \<Longrightarrow> mem s' x = mem s x"
proof -
  have wf: "pmm_wf s" "pmm_lock s = 0" using assms(1,3) by (auto simp: untouched_def pmm_alloc_def acquire_eq_Some split: Option.bind_splits)
  consider p where "free_run s p k" "\<forall>q < p. \<not> free_run s q k" | "\<forall>p. \<not> free_run s p k"
    using exists_least_iff [of "\<lambda>p. free_run s p k"] by blast
  then have "untouched R s' \<and> (\<forall>x \<in> R. mem s' x = mem s x)"
  proof cases
    case (1 p)
    obtain t where t: "pmm_alloc k s = Some (page_addr p, t)" "pmm_wf t" "\<And>j. free_page t j \<longleftrightarrow> free_page s j \<and> \<not> (p \<le> j \<and> j < p + k)"
      "\<And>x. x \<notin> span (PHYSICAL_BASE_ADDRESS + page_addr p) (k * PAGE_SIZE) \<Longrightarrow> x \<notin> bitmap_bytes s \<Longrightarrow> mem t x = mem s x"
      "bitmap t = bitmap s" "bitmapSize t = bitmapSize s" by (rule pmm_alloc_run [OF wf assms(2) 1]) (rule that)
    have "x \<notin> span (PHYSICAL_BASE_ADDRESS + page_addr p) (k * PAGE_SIZE)" if "x \<in> R" for x
      using assms(1) that 1(1) unfolding free_run_span(1) [OF wf(1) 1(1) assms(2)] by (fastforce simp: untouched_def free_run_def)
    then show ?thesis using t assms(1,3) by (auto simp: untouched_def bitmap_bytes_def)
  next
    case 2
    then show ?thesis using alloc_cases [OF wf assms(2)] assms(1,3) by auto
  qed
  then show "untouched R s'" "\<And>x. x \<in> R \<Longrightarrow> mem s' x = mem s x" by simp_all
qed

text \<open>The allocator on a memory that differs in \<open>R\<close> does the same.\<close>

lemma alloc_agree:
  assumes "untouched R s" "0 < k" "pmm_alloc k s = Some (a, s')" "agree R m (mem s)"
  obtains m' where "pmm_alloc k (s\<lparr>mem := m\<rparr>) = Some (a, s'\<lparr>mem := m'\<rparr>)" "agree R m' (mem s')" "\<And>x. x \<in> R \<Longrightarrow> m' x = m x"
proof -
  let ?c = "s\<lparr>mem := m\<rparr>"
  have wf: "pmm_wf s" "pmm_lock s = 0" using assms(1,3) by (auto simp: untouched_def pmm_alloc_def acquire_eq_Some split: Option.bind_splits)
  have "m x = mem s x" if "x \<in> bitmap_bytes s" for x using assms(1,4) that by (auto simp: untouched_def agree_def)
  then have fp: "free_page ?c = free_page s" by (intro pmm_store(1)) simp
  have c: "untouched R ?c" "pmm_lock ?c = 0" using assms(1) wf(2) fp by (simp_all add: untouched_def pmm_wf_def bitmap_bytes_def)
  have wfc: "pmm_wf ?c" using c(1) by (simp add: untouched_def)
  have fr: "free_run ?c = free_run s" by (simp add: fun_eq_iff free_run_def fp)
  show thesis
  proof (cases "\<exists>p. free_run s p k")
    case False
    then show thesis using alloc_cases [OF wf assms(2)] alloc_cases [OF wfc c(2) assms(2)] assms(3,4) fr by (intro that [of m]) auto
  next
    case True
    then obtain p where p: "free_run s p k" "a = page_addr p" "\<forall>q < p. \<not> free_run s q k"
      "s' = s\<lparr>mem := \<lambda>x. if x \<in> (\<Union>i \<in> {p ..< p + k}. frame i) then 0 else mark_used s p k x\<rparr>"
      using alloc_cases [OF wf assms(2)] assms(3) by auto
    define m' where "m' = (\<lambda>x. if x \<in> (\<Union>i \<in> {p ..< p + k}. frame i) then 0 else mark_used ?c p k x)"
    obtain p' where p': "free_run s p' k" "\<forall>q < p'. \<not> free_run s q k"
      "pmm_alloc k ?c = Some (page_addr p', ?c\<lparr>mem := \<lambda>x. if x \<in> (\<Union>i \<in> {p' ..< p' + k}. frame i) then 0 else mark_used ?c p' k x\<rparr>)"
      using alloc_cases [OF wfc c(2) assms(2)] True unfolding fr by auto
    have "p' = p" using p(1,3) p'(1,2) by (metis linorder_neqE_nat)
    then have al: "pmm_alloc k ?c = Some (a, s'\<lparr>mem := m'\<rparr>)" using p'(3) unfolding \<open>p' = p\<close> p(2,4) m'_def by simp
    have is8: "\<forall>i \<in> set [p ..< p + k]. i < 8 * bitmapSize s" using free_run_bounds [OF p(1) assms(2)] by (auto simp: mult.commute)
    have "agree R (mark_used ?c p k) (mark_used s p k)"
      using agree_set_bits [OF is8, of "bitmap s" R m "mem s"] assms(1,4) by (simp add: untouched_def bitmap_bytes_def Int_commute)
    then have "agree R m' (mem s')" by (auto simp: agree_def m'_def p(4))
    moreover have "m' x = m x" if "x \<in> R" for x using untouched_alloc(2) [OF c(1) assms(2) al that] by simp
    ultimately show thesis using al by (rule that [rotated])
  qed
qed

text \<open>What relates the state with the list of entries (\<open>info\<close>, \<open>s\<close>) to the one with the tag (\<open>c\<close>). The head of the tag and the
  array are the bytes \<open>tag_bytes\<close>.\<close>

definition tag_bytes :: "u64 \<Rightarrow> nat \<Rightarrow> u64 set" where
  "tag_bytes smpInfo n = span smpInfo (40 + n * 32)"

definition smp_rel :: "u64 \<Rightarrow> u32 \<Rightarrow> nat \<Rightarrow> smp_info list \<times> 'a kboot_scheme \<Rightarrow> 'a kboot_scheme \<Rightarrow> bool" where
  "smp_rel smpInfo bsp n st c \<longleftrightarrow> (case st of (info, s) \<Rightarrow> c = s\<lparr>mem := mem c\<rparr> \<and> untouched (tag_bytes smpInfo n) s \<and>
     agree (span (smp_array smpInfo) (n * 32)) (mem c) (mem s) \<and> elems 32 read_smp_info (mem c) (smp_array smpInfo) n = info \<and>
     smp_cpu_count (mem c) smpInfo = n \<and> smp_bsp_lapic_id (mem c) smpInfo = bsp)"

lemma tag_parts:
  "span (smp_array t) (n * 32) \<subseteq> tag_bytes t n" "span (t + 24) 4 \<subseteq> tag_bytes t n" "span (t + 32) 8 \<subseteq> tag_bytes t n"
  using span_offset_subset [of 40 "n * 32" "40 + n * 32" t] span_offset_subset [of 24 4 "40 + n * 32" t] span_offset_subset [of 32 8 "40 + n * 32" t]
  by (simp_all add: smp_array_def tag_bytes_def)

lemma head_apart:
  assumes "40 + n * 32 \<le> 2 ^ 64"
  shows "span (t + 24) 4 \<inter> span (smp_array t) (n * 32) = {}" "span (t + 32) 8 \<inter> span (smp_array t) (n * 32) = {}"
  using span_offset_disjoint [of 24 4 40 "n * 32" t] span_offset_disjoint [of 32 8 40 "n * 32" t] assms by (simp_all add: smp_array_def)

text \<open>The fields of the head are read as before when the memory changes in the array only, and everything when it keeps the tag.\<close>

lemma head_keep:
  assumes "agree (span (smp_array t) (n * 32)) m' m" "40 + n * 32 \<le> 2 ^ 64"
  shows "smp_cpu_count m' t = smp_cpu_count m t" "smp_bsp_lapic_id m' t = smp_bsp_lapic_id m t"
proof -
  have "read64 m' (t + 32) = read64 m (t + 32)" using head_apart(2) [OF assms(2), of t] assms(1) by (intro read64_cong) (auto intro: agree_off)
  then show "smp_cpu_count m' t = smp_cpu_count m t" by (simp add: smp_cpu_count_def)
  have "read32 m' (t + 24) = read32 m (t + 24)" using head_apart(1) [OF assms(2), of t] assms(1) by (intro read32_cong) (auto intro: agree_off)
  then show "smp_bsp_lapic_id m' t = smp_bsp_lapic_id m t" by (simp add: smp_bsp_lapic_id_def)
qed

lemma tag_keep:
  assumes "\<And>x. x \<in> tag_bytes t n \<Longrightarrow> m' x = m x"
  shows "elems 32 read_smp_info m' (smp_array t) n = elems 32 read_smp_info m (smp_array t) n" "smp_cpu_count m' t = smp_cpu_count m t"
    "smp_bsp_lapic_id m' t = smp_bsp_lapic_id m t"
proof -
  show "elems 32 read_smp_info m' (smp_array t) n = elems 32 read_smp_info m (smp_array t) n"
    by (rule smp_entries.elems_cong) (use assms tag_parts(1) in blast)
  have "read64 m' (t + 32) = read64 m (t + 32)" by (rule read64_cong) (use assms tag_parts(3) in blast)
  then show "smp_cpu_count m' t = smp_cpu_count m t" by (simp add: smp_cpu_count_def)
  have "read32 m' (t + 24) = read32 m (t + 24)" by (rule read32_cong) (use assms tag_parts(2) in blast)
  then show "smp_bsp_lapic_id m' t = smp_bsp_lapic_id m t" by (simp add: smp_bsp_lapic_id_def)
qed

text \<open>The three stores of a round.\<close>

lemma fill_entry:
  fixes m :: mem and a x y z :: u64
  defines "m' \<equiv> write64 (write64 (write64 m (a + 8) x) (a + 24) y) (a + 16) z"
  shows "agree (span a 32) m' m"
    and "read_smp_info m' a = (read_smp_info m a)\<lparr>target_stack := x, extra_argument := y, goto_address := z\<rparr>"
proof -
  note w = agree_write64 [OF field_inside(5), of a m x] agree_write64 [OF field_inside(7), of a "write64 m (a + 8) x" y]
    agree_write64 [OF field_inside(6), of a "write64 (write64 m (a + 8) x) (a + 24) y" z]
  show "agree (span a 32) m' m" unfolding m'_def by (rule agree_trans [OF w(3) agree_trans [OF w(2) w(1)]])
  have "read32 m' (a + 4) = read32 m (a + 4)"
  proof (rule read32_cong)
    fix b assume "b \<in> span (a + 4) 4"
    then have "b \<notin> span (a + 8) 8" "b \<notin> span (a + 24) 8" "b \<notin> span (a + 16) 8" using field_apart(4-6) [of a] by blast+
    then show "m' b = m b" by (simp add: m'_def write64_other)
  qed
  moreover have "read64 m' (a + 8) = x" "read64 m' (a + 24) = y" "read64 m' (a + 16) = z"
    using field_apart(7-9) [of a] by (simp_all add: m'_def read64_write64_other Int_commute)
  ultimately show "read_smp_info m' a = (read_smp_info m a)\<lparr>target_stack := x, extra_argument := y, goto_address := z\<rparr>"
    by (simp add: read_smp_info_def)
qed

lemma smp_rel_alloc:
  assumes "smp_rel t bsp n (info, s) c" "0 < k" "pmm_alloc k s = Some (a, s')"
  obtains c' where "pmm_alloc k c = Some (a, c')" "smp_rel t bsp n (info, s') c'"
proof -
  let ?A = "span (smp_array t) (n * 32)" and ?R = "tag_bytes t n"
  have r: "c = s\<lparr>mem := mem c\<rparr>" "untouched ?R s" "agree ?A (mem c) (mem s)" "elems 32 read_smp_info (mem c) (smp_array t) n = info"
    "smp_cpu_count (mem c) t = n" "smp_bsp_lapic_id (mem c) t = bsp" using assms(1) by (simp_all add: smp_rel_def)
  obtain m' where m': "pmm_alloc k (s\<lparr>mem := mem c\<rparr>) = Some (a, s'\<lparr>mem := m'\<rparr>)" "agree ?R m' (mem s')" "\<And>x. x \<in> ?R \<Longrightarrow> m' x = mem c x"
    by (rule alloc_agree [OF r(2) assms(2,3) agree_mono [OF r(3) tag_parts(1)]]) (rule that)
  note u = untouched_alloc [OF r(2) assms(2,3)]
  have "agree ?A m' (mem s')" using m'(2,3) u(2) r(3) unfolding agree_def by metis
  then have "smp_rel t bsp n (info, s') (s'\<lparr>mem := m'\<rparr>)" using u(1) r(4-6) tag_keep [of t n m' "mem c", OF m'(3)] by (simp add: smp_rel_def)
  then show thesis using m'(1) r(1) by (intro that) simp_all
qed

lemma smp_rel_fields:
  assumes "smp_rel t bsp n (info, s) c"
  shows "smp_rel t bsp n (info, s\<lparr>cpu_objs := f\<rparr>) (c\<lparr>cpu_objs := f\<rparr>)" "cpu_objs c = cpu_objs s" "tss_objs c = tss_objs s" "gdt c = gdt s" "msr_of c = msr_of s"
    "smp_rel t bsp n (info, s\<lparr>tss_objs := g, gdt := h, msr_of := r\<rparr>) (c\<lparr>tss_objs := g, gdt := h, msr_of := r\<rparr>)"
proof -
  obtain m where c: "c = s\<lparr>mem := m\<rparr>" using assms by (auto simp: smp_rel_def)
  show "cpu_objs c = cpu_objs s" "tss_objs c = tss_objs s" "gdt c = gdt s" "msr_of c = msr_of s" by (simp_all add: c)
  have "untouched R (s\<lparr>cpu_objs := f\<rparr>) = untouched R s" "untouched R (s\<lparr>tss_objs := g, gdt := h, msr_of := r\<rparr>) = untouched R s" for R
    by (auto simp: untouched_def pmm_wf_def free_page_def bitmap_bytes_def)
  then show "smp_rel t bsp n (info, s\<lparr>cpu_objs := f\<rparr>) (c\<lparr>cpu_objs := f\<rparr>)"
    "smp_rel t bsp n (info, s\<lparr>tss_objs := g, gdt := h, msr_of := r\<rparr>) (c\<lparr>tss_objs := g, gdt := h, msr_of := r\<rparr>)"
    using assms by (auto simp: smp_rel_def c)
qed

lemma smp_rel_entry:
  assumes "smp_rel t bsp n (info, s) c" "i < n"
  shows "read_smp_info (mem c) (smp_array t + of_nat (i * 32)) = info ! i" "smp_bsp_lapic_id (mem c) t = bsp"
  using assms nth_elems [of i n 32 read_smp_info "mem c" "smp_array t"] by (simp_all add: smp_rel_def del: nth_elems)

text \<open>The stores of a round are the update of the list.\<close>

lemma smp_rel_store:
  fixes c :: "'a kboot_scheme"
  defines "m' \<equiv> \<lambda>a x y z. write64 (write64 (write64 (mem c) (a + 8) x) (a + 24) y) (a + 16) z"
  assumes r: "smp_rel t bsp n (info, s) c" and i: "i < n" and n: "40 + n * 32 \<le> 2 ^ 64" and a: "a = smp_array t + of_nat (i * 32)"
  shows "smp_rel t bsp n (info[i := (info ! i)\<lparr>target_stack := x, extra_argument := y, goto_address := z\<rparr>], s) (c\<lparr>mem := m' a x y z\<rparr>)"
proof -
  let ?A = "span (smp_array t) (n * 32)" and ?m = "m' a x y z"
  have ag: "agree (span a 32) ?m (mem c)" and rd: "read_smp_info ?m a = (read_smp_info (mem c) a)\<lparr>target_stack := x, extra_argument := y, goto_address := z\<rparr>"
    unfolding m'_def by (rule fill_entry)+
  have "n * 32 \<le> 2 ^ 64" using n by linarith
  then have "elems 32 read_smp_info ?m (smp_array t) n = (elems 32 read_smp_info (mem c) (smp_array t) n)[i := read_smp_info ?m a]"
    using smp_entries.elems_update [OF ag [unfolded a] i] a by simp
  also have "\<dots> = info[i := (info ! i)\<lparr>target_stack := x, extra_argument := y, goto_address := z\<rparr>]"
    using r smp_rel_entry(1) [OF r i] rd a by (simp add: smp_rel_def)
  finally have el: "elems 32 read_smp_info ?m (smp_array t) n = info[i := (info ! i)\<lparr>target_stack := x, extra_argument := y, goto_address := z\<rparr>]" .
  have agA: "agree ?A ?m (mem c)" using agree_mono [OF ag] elem_inside [OF i, of "smp_array t" 32] a by blast
  then show ?thesis using r el head_keep [OF agA n] agree_trans [OF agA] by (cases s; cases c) (auto simp: smp_rel_def)
qed

lemma start_core_sim:
  assumes r: "smp_rel t bsp n (info, s) c" and i: "i < n" and n: "40 + n * 32 \<le> 2 ^ 64"
    and st: "start_core new_cpu new_tss garbage core_init bsp i (info, s) = Some (info', s')"
  obtains c' where "start_core_in new_cpu new_tss garbage core_init t i c = Some c'" "smp_rel t bsp n (info', s') c'"
proof -
  let ?e = "info ! i" and ?a = "smp_array t + of_nat (i * 32)"
  let ?f = "(cpu_objs s)(new_cpu i \<mapsto> new_cpu_data garbage (smp_lapic_id ?e))"
  let ?s = "s\<lparr>cpu_objs := ?f\<rparr>" and ?c = "c\<lparr>cpu_objs := ?f\<rparr>"
  have r1: "smp_rel t bsp n (info, ?s) ?c" and co: "cpu_objs c = cpu_objs s" using smp_rel_fields [OF r] by simp_all
  have e: "read_smp_info (mem c) ?a = ?e" "smp_bsp_lapic_id (mem c) t = bsp" using smp_rel_entry [OF r i] by simp_all
  show thesis
  proof (cases "smp_lapic_id ?e = bsp")
    case True
    then obtain x s1 y s2 where al: "pmm_alloc 4 ?s = Some (x, s1)" "pmm_alloc 4 s1 = Some (y, s2)" "info' = info"
      and s': "s' = s2\<lparr>tss_objs := (tss_objs s2)(new_tss i \<mapsto> \<lparr>rsp0 = x + PHYSICAL_BASE_ADDRESS, ist1 = y + PHYSICAL_BASE_ADDRESS\<rparr>),
         gdt := load_tss (new_tss i) (gdt s2), msr_of := (msr_of s2)(i := set_gs (new_cpu i) (msr_of s2 i))\<rparr>"
      using st by (auto simp: start_core_def Let_def split: Option.bind_splits)
    obtain c1 where c1: "pmm_alloc 4 ?c = Some (x, c1)" "smp_rel t bsp n (info, s1) c1" by (rule smp_rel_alloc [OF r1 _ al(1)]) (simp, rule that)
    obtain c2 where c2: "pmm_alloc 4 c1 = Some (y, c2)" "smp_rel t bsp n (info, s2) c2" by (rule smp_rel_alloc [OF c1(2) _ al(2)]) (simp, rule that)
    note f = smp_rel_fields [OF c2(2)]
    show thesis
    proof (rule that)
      show "start_core_in new_cpu new_tss garbage core_init t i c = Some (c2\<lparr>tss_objs := (tss_objs s2)(new_tss i \<mapsto> \<lparr>rsp0 = x + PHYSICAL_BASE_ADDRESS, ist1 = y + PHYSICAL_BASE_ADDRESS\<rparr>),
         gdt := load_tss (new_tss i) (gdt s2), msr_of := (msr_of s2)(i := set_gs (new_cpu i) (msr_of s2 i))\<rparr>)"
        using True e co c1(1) c2(1) f(3-5) by (simp add: start_core_in_def Let_def)
    qed (use f(6) s' al(3) in simp)
  next
    case False
    then obtain x s1 where al: "pmm_alloc 4 ?s = Some (x, s1)" "s' = s1"
      "info' = info[i := ?e\<lparr>target_stack := x + PHYSICAL_BASE_ADDRESS, extra_argument := new_cpu i, goto_address := core_init\<rparr>]"
      using st by (auto simp: start_core_def Let_def split: Option.bind_splits)
    obtain c1 where c1: "pmm_alloc 4 ?c = Some (x, c1)" "smp_rel t bsp n (info, s1) c1" by (rule smp_rel_alloc [OF r1 _ al(1)]) (simp, rule that)
    show thesis using smp_rel_store [OF c1(2) i n refl] False e co c1(1) al(2,3) by (intro that) (simp_all add: start_core_in_def Let_def)
  qed
qed

lemma start_core_returns:
  fixes s :: "'a kboot_scheme"
  assumes "pmm_lock s = 0"
  shows "\<exists>info' s'. start_core new_cpu new_tss garbage core_init bsp i (info, s) = Some (info', s') \<and> pmm_lock s' = 0"
proof -
  have al: "\<exists>a u. pmm_alloc 4 t = Some (a, u) \<and> pmm_lock u = 0" if "pmm_lock t = 0" for t :: "'a kboot_scheme"
    using pmm_alloc_returns [OF that, of 4] that by auto
  let ?s = "s\<lparr>cpu_objs := (cpu_objs s)(new_cpu i \<mapsto> new_cpu_data garbage (smp_lapic_id (info ! i)))\<rparr>"
  obtain a u where u: "pmm_alloc 4 ?s = Some (a, u)" "pmm_lock u = 0" using al [of ?s] assms by auto
  obtain b v where "pmm_alloc 4 u = Some (b, v)" "pmm_lock v = 0" using al [OF u(2)] by auto
  with u show ?thesis by (cases "smp_lapic_id (info ! i) = bsp") (auto simp: start_core_def Let_def)
qed

lemma bootstrap_loop_sim:
  assumes "smp_rel t bsp n (info, s) c" "i \<le> n" "40 + n * 32 \<le> 2 ^ 64" "pmm_lock s = 0"
  shows "\<exists>info' s' c'. start_cores new_cpu new_tss garbage core_init bsp [i ..< n] (info, s) = Some (info', s') \<and>
    bootstrap_loop new_cpu new_tss garbage core_init t i c = Some c' \<and> smp_rel t bsp n (info', s') c'"
  using assms(1,2,4)
proof (induction "n - i" arbitrary: i info s c)
  case 0
  then show ?case by (subst bootstrap_loop.simps) (auto simp: smp_rel_def)
next
  case (Suc k)
  then have i: "i < n" by simp
  then have e: "[i ..< n] = i # [Suc i ..< n]" by (rule upt_conv_Cons)
  have cnt: "smp_cpu_count (mem c) t = n" using Suc.prems(1) by (simp add: smp_rel_def)
  obtain info1 s1 where s1: "start_core new_cpu new_tss garbage core_init bsp i (info, s) = Some (info1, s1)" "pmm_lock s1 = 0"
    using start_core_returns [OF Suc.prems(3), of new_cpu new_tss garbage core_init bsp i info] by blast
  obtain c1 where c1: "start_core_in new_cpu new_tss garbage core_init t i c = Some c1" "smp_rel t bsp n (info1, s1) c1"
    by (rule start_core_sim [OF Suc.prems(1) i assms(3) s1(1)]) (rule that)
  obtain info' s' c' where *: "start_cores new_cpu new_tss garbage core_init bsp [Suc i ..< n] (info1, s1) = Some (info', s')"
    "bootstrap_loop new_cpu new_tss garbage core_init t (Suc i) c1 = Some c'" "smp_rel t bsp n (info', s') c'"
  proof -
    have "k = n - Suc i" "Suc i \<le> n" using Suc.hyps(2) i by simp_all
    from Suc.hyps(1) [OF this(1) c1(2) this(2) s1(2)] show thesis using that by blast
  qed
  then show ?case unfolding e using s1(1) c1(1) cnt i by (subst bootstrap_loop.simps) auto
qed


text \<open>The tag of \<open>smp_sample\<close> as bytes at \<open>0x600000\<close>.\<close>

definition smp_bytes_sample :: mem where
  "smp_bytes_sample = (\<lambda>_. 0)(0x600018 := 7, 0x600020 := 2, 0x60002C := 4, 0x60004C := 7)"

definition smp_state_sample :: kboot where
  "smp_state_sample = cores_sample\<lparr>mem := smp_bytes_sample\<rparr>"

lemma smp_bytes_read:
  "elems 32 read_smp_info smp_bytes_sample (smp_array 0x600000) 2 = smp_sample" "smp_cpu_count smp_bytes_sample 0x600000 = 2"
  "smp_bsp_lapic_id smp_bytes_sample 0x600000 = 7"
  by (simp_all add: elems_def upt_rec [of _ 2] read_smp_info_def smp_array_def smp_cpu_count_def smp_bsp_lapic_id_def read64_def read32_def
      smp_bytes_sample_def smp_sample_def)

lemma smp_bytes_untouched: "untouched (tag_bytes 0x600000 2) smp_state_sample" "pmm_lock smp_state_sample = 0"
proof -
  have d: "span (0x600000 + of_nat 0) 104 \<inter> span (0x600000 + of_nat (unat PHYSICAL_BASE_ADDRESS - 0x600000 + i)) l = {}"
    if "i + l \<le> 0x200000" for i l by (rule span_offset_disjoint) (use that in \<open>simp_all add: PHYSICAL_BASE_ADDRESS_def\<close>)
  have b: "tag_bytes 0x600000 2 \<inter> bitmap_bytes cores_sample = {}"
    using d [of "0x100000" 2] by (simp add: tag_bytes_def bitmap_bytes_def cores_sample_def PHYSICAL_BASE_ADDRESS_def)
  have f: "frame j \<inter> tag_bytes 0x600000 2 = {}" if "j < 16" for j
  proof -
    have "0x600000 + of_nat (unat PHYSICAL_BASE_ADDRESS - 0x600000 + j * 4096) = PHYSICAL_BASE_ADDRESS + page_addr j"
      by (simp add: PHYSICAL_BASE_ADDRESS_def page_addr_def PAGE_SIZE_def)
    then show ?thesis using d [of "j * 4096" 4096] that by (simp add: tag_bytes_def frame_def PAGE_SIZE_def Int_commute)
  qed
  have "smp_bytes_sample x = mem cores_sample x" if "x \<in> bitmap_bytes cores_sample" for x
  proof -
    have "x \<notin> span 0x600000 104" using b that by (auto simp: tag_bytes_def)
    then have "x \<noteq> 0x600000 + of_nat k" if "k < 104" for k using add_of_nat_in_span [OF that, of "0x600000"] by auto
    from this [of 24] this [of 32] this [of 44] this [of 76] show ?thesis by (simp add: smp_bytes_sample_def cores_sample_def)
  qed
  then have fp: "free_page smp_state_sample = free_page cores_sample" unfolding smp_state_sample_def by (rule pmm_store(1))
  then show "untouched (tag_bytes 0x600000 2) smp_state_sample"
    using b f cores_sample_wf by (simp add: untouched_def pmm_wf_def cores_sample_free) (simp add: smp_state_sample_def bitmap_bytes_def)
  show "pmm_lock smp_state_sample = 0" by (simp add: smp_state_sample_def cores_sample_def)
qed


end
