(* ===== verification/Initrd.thy ===== *)
theory Initrd
  imports Tmpfs
begin

text \<open>
  \<^verbatim>\<open>kernel/fs/inittmpfs.cpp\<close>: the archive that the boot loader puts into memory is unpacked into tmpfs. The archive is
  \<open>len\<close> bytes from the address \<open>base\<close>; the fields of a header are at fixed offsets (\<open>struct ustar_header\<close>, packed). A
  string is read up to its terminator; one that has none before the end of the archive has no value.
\<close>

fun str_at :: "mem \<Rightarrow> u64 \<Rightarrow> nat \<Rightarrow> cbuf option" where
  "str_at m a 0 = None"
| "str_at m a (Suc n) = (if m a = 0 then Some [0] else map_option (Cons (m a)) (str_at m (a + 1) n))"

text \<open>The name begins ten characters into its field, the size is an octal number.\<close>

definition name_offset :: nat where "name_offset = 10"
definition size_offset :: nat where "size_offset = 124"
definition type_offset :: nat where "type_offset = 156"

definition U_FILE :: u8 where "U_FILE = 48"
definition U_SYMLINK :: u8 where "U_SYMLINK = 50"
definition U_DIRECTORY :: u8 where "U_DIRECTORY = 53"

datatype load_end = Loaded | Panicked

text \<open>The string at an offset of the header at \<open>base + i\<close>.\<close>

definition field_str :: "mem \<Rightarrow> u64 \<Rightarrow> u64 \<Rightarrow> u64 \<Rightarrow> nat \<Rightarrow> cbuf option" where
  "field_str m base len i off = str_at m (base + i + of_nat off) (unat (len - i) - off)"

text \<open>One entry: the state and how far the index moves besides the 512 of the loop. A name that exists already is
  skipped without its contents.\<close>

definition load_file :: "u64 \<Rightarrow> u64 \<Rightarrow> u64 \<Rightarrow> 'a ktmpfs_scheme \<Rightarrow> (u64 \<times> 'a ktmpfs_scheme) option" where
  "load_file base len i s = do {
     fs \<leftarrow> tmp_filesystem s;
     name \<leftarrow> field_str (mem s) base len i name_offset;
     (fd, s) \<leftarrow> tmpfs_open None False name CREATE s;
     case map_option fd_file fd of
       Some (Tmp_node n) \<Rightarrow> do {
         str \<leftarrow> field_str (mem s) base len i size_offset;
         file_size \<leftarrow> octal_to_int str;
         (r, s) \<leftarrow> tmpfs_write n 0 file_size (base + i + 512) s;
         Some ((file_size + 512 - 1) div 512 * 512, s)
       }
     | _ \<Rightarrow> Some (0, s)
   }"

text \<open>The slash at the end of the name of a directory is overwritten in the archive itself.\<close>

definition load_directory :: "u64 \<Rightarrow> u64 \<Rightarrow> u64 \<Rightarrow> 'a ktmpfs_scheme \<Rightarrow> 'a ktmpfs_scheme option" where
  "load_directory base len i s = do {
     fs \<leftarrow> tmp_filesystem s;
     name \<leftarrow> field_str (mem s) base len i name_offset;
     n \<leftarrow> strlen name;
     let s = s\<lparr>mem := (mem s)(base + i + of_nat name_offset + (of_nat n - 1) := 0)\<rparr>;
     name \<leftarrow> field_str (mem s) base len i name_offset;
     (r, s) \<leftarrow> tmpfs_mkdir None False name s;
     Some s
   }"

partial_function (option) load_loop ::
  "(u64 \<Rightarrow> u8) \<Rightarrow> u64 \<Rightarrow> u64 \<Rightarrow> u64 \<Rightarrow> 'a ktmpfs_scheme \<Rightarrow> (load_end \<times> 'a ktmpfs_scheme) option" where
  "load_loop font base len i s =
     (if \<not> i < len then Some (Loaded, s)
      else let type = mem s (base + i + of_nat type_offset) in
        if type = 0 then Some (Loaded, s)
        else if type = U_FILE then
          Option.bind (load_file base len i s) (\<lambda>(skip, s). load_loop font base len (i + skip + 512) s)
        else if type = U_SYMLINK then load_loop font base len (i + 512) s
        else if type = U_DIRECTORY then
          Option.bind (load_directory base len i s) (\<lambda>s. load_loop font base len (i + 512) s)
        else map_option (Pair Panicked) (panic font (cstr ''unsupported file type in init module'') s))"

text \<open>\<open>Tmpfs::load\<close>; the first entry, the directory that holds all others, is left out.\<close>

definition tmpfs_load :: "(u64 \<Rightarrow> u8) \<Rightarrow> u64 \<Rightarrow> u64 \<Rightarrow> u64 \<Rightarrow> 'a ktmpfs_scheme \<Rightarrow> (load_end \<times> 'a ktmpfs_scheme) option" where
  "tmpfs_load font module_count begin_addr end_addr s =
     (if module_count = 0 then map_option (Pair Panicked) (panic font (cstr ''no modules were loaded'') s)
      else load_loop font begin_addr (end_addr - begin_addr) 512 s)"

end
