(* ===== verification/Initrd_Props.thy ===== *)
theory Initrd_Props
  imports Initrd Page_Data Tmpfs_Props
begin

text \<open>
  Unpacking the initial archive. First the tree: after a node is added the paths are the old ones and one more. Then the
  archive as a list of items, and the invariant of the loop over it: what has been unpacked, and that memory outside
  the pages taken since the start and the archive itself is as it was.
\<close>

section \<open>Paths of a tree that grows\<close>

lemma resolve_snoc: "resolve nodes n (q @ [c]) = Option.bind (resolve nodes n q) (\<lambda>h. child_named nodes h c)"
  by (induction q arbitrary: n) (auto split: option.splits)

lemma child_named_parent:
  assumes "fs_ok s" "child_named (t_nodes s) n c = Some h"
  shows "\<exists>hd. t_nodes s h = Some hd \<and> t_parent hd = Some n \<and> t_name hd = c @ [0]"
proof -
  obtain nd where "t_nodes s n = Some nd" "h \<in> set (t_children nd)" "has_name (t_nodes s) c h"
    using child_named_in [OF assms(2)] by blast
  then show ?thesis using assms(1) by (fastforce simp: fs_ok_def has_name_def split: option.splits)
qed

text \<open>No two paths lead to the same node.\<close>

lemma resolve_unique:
  assumes ok: "fs_ok s"
  shows "resolve (t_nodes s) (root_tmpfs_node s) p = Some n \<Longrightarrow> resolve (t_nodes s) (root_tmpfs_node s) q = Some n \<Longrightarrow> p = q"
proof (induction p arbitrary: q n rule: rev_induct)
  case Nil
  have "\<exists>r. t_nodes s n = Some r \<and> t_parent r = None" using ok Nil(1) by (auto simp: fs_ok_def)
  then show ?case using Nil(2) child_named_parent [OF ok, of _ _ n]
    by (cases q rule: rev_cases) (auto simp: resolve_snoc bind_eq_Some_iff)
next
  case (snoc c p)
  obtain h where h: "resolve (t_nodes s) (root_tmpfs_node s) p = Some h" "child_named (t_nodes s) h c = Some n"
    using snoc.prems(1) by (auto simp: resolve_snoc bind_eq_Some_iff)
  obtain nd where nd: "t_nodes s n = Some nd" "t_parent nd = Some h" "t_name nd = c @ [0]"
    using child_named_parent [OF ok h(2)] by blast
  show ?case
  proof (cases q rule: rev_cases)
    case Nil
    then show ?thesis using snoc.prems(2) nd ok by (auto simp: fs_ok_def)
  next
    case (snoc q' d)
    then obtain k where k: "resolve (t_nodes s) (root_tmpfs_node s) q' = Some k" "child_named (t_nodes s) k d = Some n"
      using snoc.prems(2) by (auto simp: resolve_snoc bind_eq_Some_iff)
    then have "k = h" "d = c" using child_named_parent [OF ok k(2)] nd by auto
    then show ?thesis using snoc.IH [OF h(1), of q'] k(1) snoc by simp
  qed
qed

lemma resolve_add_iff:
  assumes ok: "fs_ok s" and p: "t_nodes s p = Some parent" and new: "t_children new = []" "t_name new = c @ [0]"
    and none: "child_named (t_nodes s) p c = None" and cs: "resolve (t_nodes s) (root_tmpfs_node s) cs = Some p"
  shows "resolve (t_nodes (add_child p parent new s)) (root_tmpfs_node s) q =
    (if q = cs @ [c] then Some (t_fresh s) else resolve (t_nodes s) (root_tmpfs_node s) q)"
proof -
  let ?N = "t_nodes (add_child p parent new s)" and ?r = "root_tmpfs_node s"
  obtain r where r: "t_nodes s ?r = Some r" using fs_okD(2) [OF ok] by blast
  note grow = resolve_add [OF ok p new none r]
  have "resolve ?N ?r q = None" if "q \<noteq> cs @ [c]" "resolve (t_nodes s) ?r q = None"
    using that
  proof (induction q rule: rev_induct)
    case (snoc d q)
    show ?case
    proof (cases "resolve (t_nodes s) ?r q")
      case None
      show ?thesis
      proof (cases "q = cs @ [c]")
        case True
        have "?N (t_fresh s) = Some new" using fs_okD(5) [OF ok p] by (simp add: add_child_def)
        then have "child_named ?N (t_fresh s) d = None" using new(1) by (simp add: child_named_def)
        then show ?thesis using grow(2) [OF cs] True by (simp only: resolve_snoc) simp
      next
        case False
        then show ?thesis using snoc.IH [OF False None] by (simp add: resolve_snoc)
      qed
    next
      case (Some h)
      then obtain hd where hd: "t_nodes s h = Some hd" using resolve_exists [OF ok r] by blast
      have "\<not> (h = p \<and> d = c)" using resolve_unique [OF ok Some, of cs] cs snoc.prems(1) by auto
      then show ?thesis using snoc.prems(2) Some grow(1) [OF Some] child_named_add [OF ok p new hd, of d]
        by (simp add: resolve_snoc)
    qed
  qed simp
  moreover have "resolve (t_nodes s) ?r (cs @ [c]) = None" using cs none by (simp add: resolve_snoc)
  ultimately show ?thesis using grow cs by (cases "resolve (t_nodes s) ?r q") auto
qed

section \<open>Archives\<close>

datatype item = Dir_item "cbuf list" | File_item "cbuf list" "u8 list"

fun item_path :: "item \<Rightarrow> cbuf list" where
  "item_path (Dir_item cs) = cs"
| "item_path (File_item cs d) = cs"

fun item_size :: "item \<Rightarrow> nat" where
  "item_size (Dir_item cs) = 512"
| "item_size (File_item cs d) = 512 + 512 * DIV_CEIL (length d) 512"

definition bytes_at :: "mem \<Rightarrow> u64 \<Rightarrow> u8 list \<Rightarrow> bool" where
  "bytes_at m a xs \<longleftrightarrow> (\<forall>i < length xs. m (a + of_nat i) = xs ! i)"

text \<open>The header of an item at \<open>a\<close>, and for a file its contents behind it. A directory is written with a slash at its
  end; the size of a file with octal digits and a terminator.\<close>

definition octal :: "nat list \<Rightarrow> nat" where
  "octal ds = foldl (\<lambda>n d. n * 8 + d) 0 ds"

fun item_at :: "mem \<Rightarrow> u64 \<Rightarrow> item \<Rightarrow> bool" where
  "item_at m a (Dir_item cs) \<longleftrightarrow> m (a + of_nat type_offset) = U_DIRECTORY \<and>
     bytes_at m (a + of_nat name_offset) (butlast (path_str cs) @ [SLASH, 0]) \<and> length (path_str cs) < 90"
| "item_at m a (File_item cs d) \<longleftrightarrow> m (a + of_nat type_offset) = U_FILE \<and>
     bytes_at m (a + of_nat name_offset) (path_str cs) \<and> length (path_str cs) \<le> 90 \<and> bytes_at m (a + 512) d \<and>
     (\<exists>ds. bytes_at m (a + of_nat size_offset) (map digit_char ds @ [0]) \<and> length ds < 12 \<and> (\<forall>k \<in> set ds. k < 8) \<and> octal ds = length d)"

text \<open>The archive from offset \<open>i\<close> on; it ends with its last byte or with a header of type 0.\<close>

fun archive :: "mem \<Rightarrow> u64 \<Rightarrow> nat \<Rightarrow> nat \<Rightarrow> item list \<Rightarrow> bool" where
  "archive m b n i [] \<longleftrightarrow> n \<le> i \<or> i + 512 \<le> n \<and> m (b + of_nat i + of_nat type_offset) = 0"
| "archive m b n i (x # xs) \<longleftrightarrow> i + item_size x \<le> n \<and> item_at m (b + of_nat i) x \<and> archive m b n (i + item_size x) xs"

text \<open>Every item comes after the directory it lies in, once, under a name that is not the name of that directory, and a
  file has at most one page. \<open>ds\<close> are the directories so far, \<open>ps\<close> all the paths.\<close>

fun in_order :: "cbuf list set \<Rightarrow> cbuf list set \<Rightarrow> item list \<Rightarrow> bool" where
  "in_order ds ps [] \<longleftrightarrow> True"
| "in_order ds ps (x # xs) \<longleftrightarrow>
     item_path x \<noteq> [] \<and> (\<forall>c \<in> set (item_path x). good c) \<and> butlast (item_path x) \<in> ds \<and> item_path x \<notin> ps \<and>
     (butlast (item_path x) \<noteq> [] \<longrightarrow> last (butlast (item_path x)) \<noteq> last (item_path x)) \<and>
     (case x of Dir_item cs \<Rightarrow> in_order (insert cs ds) (insert cs ps) xs
      | File_item cs d \<Rightarrow> length d \<le> 4096 \<and> in_order ds (insert cs ps) xs)"

lemma bytes_atD: "bytes_at m a xs \<Longrightarrow> i < length xs \<Longrightarrow> m (a + of_nat i) = xs ! i"
  by (simp add: bytes_at_def)

lemma bytes_at_Cons: "bytes_at m a (x # xs) \<longleftrightarrow> m a = x \<and> bytes_at m (a + 1) xs"
  by (auto simp: bytes_at_def less_Suc_eq_0_disj ac_simps)

lemma bytes_at_append: "bytes_at m a (xs @ ys) \<longleftrightarrow> bytes_at m a xs \<and> bytes_at m (a + of_nat (length xs)) ys"
  by (induction xs arbitrary: a) (simp_all add: bytes_at_Cons bytes_at_def [of _ _ "[]"] ac_simps)

lemma bytes_at_cong:
  assumes "bytes_at m a xs" "\<And>i. i < length xs \<Longrightarrow> m' (a + of_nat i) = m (a + of_nat i)"
  shows "bytes_at m' a xs"
  using assms by (simp add: bytes_at_def)

lemma str_at_string:
  assumes "0 \<notin> set xs" "bytes_at m a (xs @ [0])" "length xs < n"
  shows "str_at m a n = Some (xs @ [0])"
  using assms
proof (induction xs arbitrary: a n)
  case Nil
  then show ?case by (cases n) (simp_all add: bytes_at_Cons)
next
  case (Cons x xs)
  then obtain k where "n = Suc k" by (cases n) auto
  then show ?case using Cons by (simp add: bytes_at_Cons)
qed

lemma path_str_split: "\<forall>c \<in> set cs. good c \<Longrightarrow> path_str cs = butlast (path_str cs) @ [0] \<and> 0 \<notin> set (butlast (path_str cs))"
proof (induction cs)
  case (Cons c cs)
  then show ?case by (simp add: butlast_append good_def)
qed simp

lemma octal_digits:
  assumes "\<forall>k \<in> set ds. k < 8"
  shows "foldl (\<lambda>n c. n * 8 + digit_value c) (of_nat k) (map digit_char ds) = of_nat (foldl (\<lambda>n d. n * 8 + d) k ds)"
  using assms
proof (induction ds arbitrary: k)
  case (Cons d ds)
  have "foldl (\<lambda>n c. n * 8 + digit_value c) (of_nat (k * 8 + d)) (map digit_char ds) = of_nat (foldl (\<lambda>n d. n * 8 + d) (k * 8 + d) ds)"
    using Cons by (intro Cons.IH) simp
  then show ?case using digit_char_decimal(3) [of d] Cons.prems by (simp add: algebra_simps)
qed simp

lemma octal_to_int_digits:
  assumes "\<forall>k \<in> set ds. k < 8"
  shows "octal_to_int (map digit_char ds @ [0]) = Some (of_nat (octal ds))" "0 \<notin> set (map digit_char ds)"
proof -
  have nz: "digit_char k \<noteq> 0" if "k < 8" for k using digit_char_decimal(1) [of k] that by auto
  then show z: "0 \<notin> set (map digit_char ds)" using assms by (auto simp: eq_commute [of 0])
  show "octal_to_int (map digit_char ds @ [0]) = Some (of_nat (octal ds))"
    using parse_from_digits [OF z, of 8 "[]" "[]" 0] octal_digits [OF assms, of 0] by (simp add: octal_to_int_def octal_def)
qed

section \<open>The tree while it is unpacked\<close>

definition path_node :: "'a ktmpfs_scheme \<Rightarrow> cbuf list \<Rightarrow> tmpfs_node option" where
  "path_node s p = Option.bind (resolve (t_nodes s) (root_tmpfs_node s) p) (t_nodes s)"

definition is_dir :: "'a ktmpfs_scheme \<Rightarrow> cbuf list \<Rightarrow> bool" where
  "is_dir s p \<longleftrightarrow> (\<exists>nd. path_node s p = Some nd \<and> t_type nd = Directory \<and> t_name nd = (if p = [] then [SLASH] else last p) @ [0])"

definition tree_inv :: "'a ktmpfs_scheme \<Rightarrow> cbuf list set \<Rightarrow> cbuf list set \<Rightarrow> bool" where
  "tree_inv s ds ps \<longleftrightarrow> fs_ok s \<and> (\<forall>p. resolve (t_nodes s) (root_tmpfs_node s) p \<noteq> None \<longleftrightarrow> p \<in> ps) \<and> (\<forall>p \<in> ds. is_dir s p)"

text \<open>Nodes that differ at most in their children.\<close>

definition same_node :: "tmpfs_node \<Rightarrow> tmpfs_node \<Rightarrow> bool" where
  "same_node x y \<longleftrightarrow> x\<lparr>t_children := []\<rparr> = y\<lparr>t_children := []\<rparr>"

lemma same_nodeD: "same_node x y \<Longrightarrow> t_type y = t_type x \<and> t_name y = t_name x \<and> t_size y = t_size x \<and> t_data y = t_data x"
  by (cases x, cases y) (simp add: same_node_def)

lemma tree_inv_mem [simp]: "tree_inv (s\<lparr>mem := m\<rparr>) ds ps = tree_inv s ds ps"
  by (simp add: tree_inv_def is_dir_def path_node_def)

lemma tree_find:
  assumes t: "tree_inv s ds ps" and cs: "butlast p \<in> ds" "p \<notin> ps" "p \<noteq> []" and g: "good (last p)"
    and ne: "butlast p \<noteq> [] \<longrightarrow> last (butlast p) \<noteq> last p"
  obtains n nd where "resolve (t_nodes s) (root_tmpfs_node s) (butlast p) = Some n" "t_nodes s n = Some nd" "t_type nd = Directory"
    "t_name nd \<noteq> last p @ [0]" "child_named (t_nodes s) n (last p) = None" "find_node (t_nodes s) (root_tmpfs_node s) p = Some n"
proof -
  obtain n nd where n: "resolve (t_nodes s) (root_tmpfs_node s) (butlast p) = Some n" "t_nodes s n = Some nd" "t_type nd = Directory"
    "t_name nd = (if butlast p = [] then [SLASH] else last (butlast p)) @ [0]"
    using t cs(1) unfolding tree_inv_def is_dir_def path_node_def by (fastforce simp: bind_eq_Some_iff)
  have "resolve (t_nodes s) (root_tmpfs_node s) (butlast p @ [last p]) = None" using t cs(2,3) by (auto simp: tree_inv_def)
  then have none: "child_named (t_nodes s) n (last p) = None" using n(1) by (simp only: resolve_snoc) simp
  have "find_node (t_nodes s) (root_tmpfs_node s) (butlast p @ [last p]) = Some n" by (rule find_node_missing [OF n(1) none])
  moreover have "last p \<noteq> [SLASH]" using g by (auto simp: good_def)
  then have "t_name nd \<noteq> last p @ [0]" using n(4) ne by (auto simp: eq_commute [of "[SLASH]"])
  ultimately show thesis using that n none cs(3) by simp
qed

lemma tree_add:
  assumes t: "tree_inv s ds ps" and cs: "resolve (t_nodes s) (root_tmpfs_node s) cs = Some n" "t_nodes s n = Some nd"
    and none: "child_named (t_nodes s) n c = None"
    and new: "t_children new = []" "t_name new = c @ [0]" "good c" "t_parent new = Some n"
  defines "s' \<equiv> add_child n nd new s"
  shows "tree_inv s' ds (insert (cs @ [c]) ps)" "path_node s' (cs @ [c]) = Some new"
    "path_node s p = Some x \<Longrightarrow> \<exists>y. path_node s' p = Some y \<and> same_node x y"
proof -
  have ok: "fs_ok s" using t by (simp add: tree_inv_def)
  have root: "root_tmpfs_node s' = root_tmpfs_node s" by (simp add: s'_def add_child_def)
  note res = resolve_add_iff [OF ok cs(2) new(1,2) none cs(1), folded s'_def]
  have fresh: "t_nodes s (t_fresh s) = None" "n \<noteq> t_fresh s" using fs_okD(3,5) [OF ok] cs(2) by auto
  show path: "\<exists>y. path_node s' p = Some y \<and> same_node x y" if "path_node s p = Some x" for p x
  proof -
    obtain k where k: "resolve (t_nodes s) (root_tmpfs_node s) p = Some k" "t_nodes s k = Some x"
      using \<open>path_node s p = Some x\<close> by (auto simp: path_node_def bind_eq_Some_iff)
    have "p \<noteq> cs @ [c]" using k(1) cs(1) none by (auto simp: resolve_snoc)
    then have "resolve (t_nodes s') (root_tmpfs_node s') p = Some k" using res k(1) root by simp
    moreover have "\<exists>y. t_nodes s' k = Some y \<and> same_node x y"
      using k(2) cs(2) fresh by (auto simp: s'_def add_child_def same_node_def)
    ultimately show ?thesis by (simp add: path_node_def)
  qed
  show "path_node s' (cs @ [c]) = Some new" using res root fresh by (simp add: path_node_def) (simp add: s'_def add_child_def)
  have "is_dir s' p" if "p \<in> ds" for p
  proof -
    obtain x where "path_node s p = Some x" "t_type x = Directory" "t_name x = (if p = [] then [SLASH] else last p) @ [0]"
      using t \<open>p \<in> ds\<close> by (auto simp: tree_inv_def is_dir_def)
    then show ?thesis using path [of p x] same_nodeD unfolding is_dir_def by metis
  qed
  moreover have "fs_ok s'" unfolding s'_def by (rule add_child_ok [OF ok cs(2) new])
  moreover have "resolve (t_nodes s') (root_tmpfs_node s') p \<noteq> None \<longleftrightarrow> p \<in> insert (cs @ [c]) ps" for p
    using t res root by (simp add: tree_inv_def)
  ultimately show "tree_inv s' ds (insert (cs @ [c]) ps)" by (simp add: tree_inv_def)
qed

section \<open>The loop\<close>

definition holds_file :: "(nat \<Rightarrow> bool) \<Rightarrow> 'a ktmpfs_scheme \<Rightarrow> cbuf list \<Rightarrow> u8 list \<Rightarrow> bool" where
  "holds_file F s p d \<longleftrightarrow> (\<exists>nd q. path_node s p = Some nd \<and> t_type nd = File \<and> t_name nd = last p @ [0] \<and> t_size nd = 4096 \<and>
     t_data nd = PHYSICAL_BASE_ADDRESS + page_addr q \<and> F q \<and> \<not> free_page s q \<and> length d \<le> 4096 \<and> bytes_at (mem s) (t_data nd) d)"

text \<open>\<open>s0\<close> is the state at the start; the archive is unchanged from offset \<open>i\<close> on.\<close>

definition unpacked :: "'a ktmpfs_scheme \<Rightarrow> u64 \<Rightarrow> nat \<Rightarrow> nat \<Rightarrow> cbuf list set \<Rightarrow> cbuf list set \<Rightarrow> (cbuf list \<times> u8 list) set \<Rightarrow> 'a ktmpfs_scheme \<Rightarrow> bool" where
  "unpacked s0 b n i ds ps fs s \<longleftrightarrow> pages_ok s0 \<and> tree_inv s ds ps \<and> pages_ok s \<and> bitmap_bytes s = bitmap_bytes s0 \<and>
     (\<forall>j. free_page s j \<longrightarrow> free_page s0 j) \<and> tmp_filesystem s \<noteq> None \<and> (\<forall>(p, d) \<in> fs. holds_file (free_page s0) s p d) \<and>
     (\<forall>j. i \<le> j \<and> j < n \<longrightarrow> mem s (b + of_nat j) = mem s0 (b + of_nat j))"

lemma holds_file_keep:
  assumes h: "holds_file F s p d"
    and path: "\<And>x. path_node s p = Some x \<Longrightarrow> \<exists>y. path_node s' p = Some y \<and> same_node x y"
    and free: "\<And>q. free_page s' q \<Longrightarrow> free_page s q"
    and mem: "\<And>q x. F q \<Longrightarrow> \<not> free_page s q \<Longrightarrow> x \<in> frame q \<Longrightarrow> mem s' x = mem s x"
  shows "holds_file F s' p d"
proof -
  obtain x q where x: "path_node s p = Some x" "t_type x = File" "t_name x = last p @ [0]" "t_size x = 4096"
    "t_data x = PHYSICAL_BASE_ADDRESS + page_addr q" "F q" "\<not> free_page s q" "length d \<le> 4096" "bytes_at (mem s) (t_data x) d"
    using h unfolding holds_file_def by blast
  obtain y where y: "path_node s' p = Some y" "same_node x y" using path [OF x(1)] by blast
  have "t_data x + of_nat k \<in> frame q" if "k < length d" for k
    using run_byte(2) [of q k] x(5,8) that by simp
  then have "bytes_at (mem s') (t_data x) d" using mem [OF x(6,7)] by (intro bytes_at_cong [OF x(9)]) simp
  then show ?thesis unfolding holds_file_def using x y same_nodeD [OF y(2)] free by (intro exI [of _ y] exI [of _ q]) auto
qed

lemma module_byte:
  assumes "file_in_frames s0 b n" "j < n"
  shows "b + of_nat j \<notin> bitmap_bytes s0" "q < 2 ^ 52 \<Longrightarrow> free_page s0 q \<Longrightarrow> b + of_nat j \<notin> frame q"
proof -
  obtain r where r: "used_frame s0 r" "b + of_nat j \<in> frame r" using assms by (auto simp: file_in_frames_def)
  then show "b + of_nat j \<notin> bitmap_bytes s0" by (auto simp: used_frame_def)
  show "b + of_nat j \<notin> frame q" if "q < 2 ^ 52" "free_page s0 q"
    using r that frame_disjoint [of q r] by (auto simp: used_frame_def)
qed

lemma of_nat_offset_eq: "i < 2 ^ 64 \<Longrightarrow> j < 2 ^ 64 \<Longrightarrow> (b + of_nat i = b + (of_nat j :: u64)) = (i = j)"
  using unat_of_nat64 [of i] unat_of_nat64 [of j] by (metis add_left_cancel)

text \<open>A store into the archive before the offset \<open>i'\<close>.\<close>

lemma unpacked_store:
  assumes u: "unpacked s0 b n i ds ps fs s" and m: "file_in_frames s0 b n" "k < n" "n < 2 ^ 64" and i: "k < i'" "i \<le> i'"
  shows "unpacked s0 b n i' ds ps fs (s\<lparr>mem := (mem s)(b + of_nat k := v)\<rparr>)" "n_free (s\<lparr>mem := (mem s)(b + of_nat k := v)\<rparr>) = n_free s"
proof -
  define m1 where "m1 = (mem s)(b + of_nat k := v)"
  let ?s = "s\<lparr>mem := m1\<rparr>"
  have U: "tree_inv s ds ps" "pages_ok s" "bitmap_bytes s = bitmap_bytes s0" "\<forall>j. free_page s j \<longrightarrow> free_page s0 j"
    "tmp_filesystem s \<noteq> None" "\<forall>(p, d) \<in> fs. holds_file (free_page s0) s p d"
    "\<forall>j. i \<le> j \<and> j < n \<longrightarrow> mem s (b + of_nat j) = mem s0 (b + of_nat j)" "pages_ok s0"
    using u by (auto simp: unpacked_def)
  have "m1 x = mem s x" if "x \<in> bitmap_bytes s" for x
    using module_byte(1) [OF m(1,2)] that U(3) by (auto simp: m1_def)
  note st = pmm_store [OF this]
  show "n_free (s\<lparr>mem := (mem s)(b + of_nat k := v)\<rparr>) = n_free s" by (simp only: n_free_def st(1) flip: m1_def)
  have "holds_file (free_page s0) ?s p d" if "holds_file (free_page s0) s p d" for p d
  proof (rule holds_file_keep [OF that])
    fix q x assume q: "free_page s0 q" "\<not> free_page s q" "x \<in> frame q"
    have "q < 2 ^ 52" using pa.free_bound [OF U(8) q(1)] by simp
    then show "mem ?s x = mem s x" using module_byte(2) [OF m(1,2) _ q(1)] q(3) by (auto simp: m1_def)
  qed (auto simp: st(1) path_node_def same_node_def)
  moreover have "mem ?s (b + of_nat j) = mem s0 (b + of_nat j)" if "i' \<le> j" "j < n" for j
  proof -
    have "b + of_nat j \<noteq> b + of_nat k" using of_nat_offset_eq [of j k b] that i m(3) by simp
    then show ?thesis using U(7) that i by (simp add: m1_def)
  qed
  ultimately have "unpacked s0 b n i' ds ps fs ?s"
    unfolding unpacked_def using U st by (auto simp: bitmap_bytes_def)
  then show "unpacked s0 b n i' ds ps fs (s\<lparr>mem := (mem s)(b + of_nat k := v)\<rparr>)" by (simp only: m1_def)
qed

lemma field_str_at:
  assumes "bytes_at m (b + of_nat i + of_nat off) (xs @ [0])" "0 \<notin> set xs" "off + length xs < n - i" "n < 2 ^ 64"
  shows "field_str m b (of_nat n) (of_nat i) off = Some (xs @ [0])"
proof -
  have "(of_nat n - of_nat i :: u64) = of_nat (n - i)" using assms(3) by (simp add: of_nat_diff)
  moreover have "unat (of_nat (n - i) :: u64) = n - i" using assms(4) by (intro unat_of_nat64) simp
  ultimately show ?thesis unfolding field_str_def using str_at_string [OF assms(2,1), of "n - i - off"] assms(3) by simp
qed

lemma unpacked_byte:
  assumes "unpacked s0 b n i ds ps fs s" "i + k < n"
  shows "mem s (b + of_nat i + of_nat k) = mem s0 (b + of_nat i + of_nat k)"
proof -
  have "mem s (b + of_nat (i + k)) = mem s0 (b + of_nat (i + k))" using assms le_add1 unfolding unpacked_def by blast
  then show ?thesis by (simp add: add.assoc)
qed

lemma bytes_at_unpacked:
  assumes "unpacked s0 b n i ds ps fs s" "bytes_at (mem s0) (b + of_nat i + of_nat off) xs" "off + length xs \<le> n - i"
  shows "bytes_at (mem s) (b + of_nat i + of_nat off) xs"
proof (rule bytes_at_cong [OF assms(2)])
  fix k assume "k < length xs"
  then show "mem s (b + of_nat i + of_nat off + of_nat k) = mem s0 (b + of_nat i + of_nat off + of_nat k)"
    using unpacked_byte [OF assms(1), of "off + k"] assms(3) by (simp add: add.assoc)
qed

text \<open>A directory.\<close>

lemma load_directory_step:
  assumes u: "unpacked s0 b n i ds ps fs s" and m: "file_in_frames s0 b n" "n < 2 ^ 64"
    and it: "item_at (mem s0) (b + of_nat i) (Dir_item cs)" "i + 512 \<le> n"
    and cs: "cs \<noteq> []" "\<forall>c \<in> set cs. good c" "butlast cs \<in> ds" "cs \<notin> ps" "butlast cs \<noteq> [] \<longrightarrow> last (butlast cs) \<noteq> last cs"
  obtains s' where "load_directory b (of_nat n) (of_nat i) s = Some s'" "unpacked s0 b n (i + 512) (insert cs ds) (insert cs ps) fs s'" "n_free s' = n_free s"
proof -
  let ?a = "b + of_nat i + of_nat name_offset" and ?p = "butlast (path_str cs)"
  let ?k = "i + name_offset + length ?p"
  have len: "length ?p < 89" "name_offset = 10" using it(1) path_str_split [OF cs(2)] by (auto simp: name_offset_def)
  have nz: "0 \<notin> set (?p @ [SLASH])" "0 \<notin> set ?p" "path_str cs = ?p @ [0]" using path_str_split [OF cs(2)] by auto
  have name: "bytes_at (mem s) ?a ((?p @ [SLASH]) @ [0])"
    by (rule bytes_at_unpacked [OF u]) (use it len in simp_all)
  have f1: "field_str (mem s) b (of_nat n) (of_nat i) name_offset = Some ((?p @ [SLASH]) @ [0])"
    by (rule field_str_at [OF name nz(1)]) (use it(2) len m(2) in simp_all)
  have sl: "strlen ((?p @ [SLASH]) @ [0]) = Some (length ?p + 1)" using strlen_string [OF nz(1), of "[]"] by simp
  define m1 where "m1 = (mem s)(b + of_nat ?k := 0)"
  define L where "L = length ?p"
  have store: "(mem s)(?a + of_nat L := 0) = m1" by (simp only: m1_def L_def of_nat_add add.assoc)
  have old: "m1 (?a + of_nat j) = mem s (?a + of_nat j)" if "j < length ?p" for j
    using of_nat_offset_eq [of "i + name_offset + j" ?k b] that len m(2) it(2) by (simp add: m1_def ac_simps)
  have "bytes_at (mem s) ?a ?p" using name by (simp add: bytes_at_append)
  then have "bytes_at m1 ?a ?p" by (rule bytes_at_cong) (rule old)
  moreover have "m1 (?a + of_nat (length ?p)) = 0" by (simp add: m1_def ac_simps)
  ultimately have "bytes_at m1 ?a (?p @ [0])" by (simp add: bytes_at_append bytes_at_def [of _ _ "[0]"])
  from field_str_at [OF this nz(2), of n] have f2: "field_str m1 b (of_nat n) (of_nat i) name_offset = Some (path_str cs)"
    using len m(2) it(2) nz(3) by simp
  have u1: "unpacked s0 b n (i + 512) ds ps fs (s\<lparr>mem := m1\<rparr>)" "n_free (s\<lparr>mem := m1\<rparr>) = n_free s"
    unfolding m1_def by (rule unpacked_store [OF u m(1) _ m(2), where i' = "i + 512"]; use len it(2) in simp)+
  let ?s1 = "s\<lparr>mem := m1\<rparr>"
  have t1: "tree_inv ?s1 ds ps" and ok: "fs_ok ?s1" and tf: "tmp_filesystem s \<noteq> None" using u1(1) u by (auto simp: unpacked_def tree_inv_def)
  obtain d dd where d: "resolve (t_nodes ?s1) (root_tmpfs_node ?s1) (butlast cs) = Some d" "t_nodes ?s1 d = Some dd" "t_type dd = Directory"
    "t_name dd \<noteq> last cs @ [0]" "child_named (t_nodes ?s1) d (last cs) = None" "find_node (t_nodes ?s1) (root_tmpfs_node ?s1) cs = Some d"
    by (rule tree_find [OF t1 cs(3,4,1) _ cs(5)]) (use cs in auto)
  define new where "new = new_fs_node (last cs @ [0]) 0 0 Directory (Some d) (tmp_filesystem ?s1)"
  define s2 where "s2 = add_child d dd new ?s1"
  have new: "t_children new = []" "t_name new = last cs @ [0]" "good (last cs)" "t_parent new = Some d" "t_type new = Directory"
    using cs(1,2) by (simp_all add: new_def new_fs_node_def)
  have mk: "tmpfs_mkdir None False (path_str cs) ?s1 = Some (0, s2)"
    using mkdir_spec [OF ok cs(1,2), of None] d by (simp add: s2_def new_def)
  note ta = tree_add [OF t1 d(1,2,5) new(1-4), folded s2_def]
  have keep: "mem s2 = m1" "bitmap_bytes s2 = bitmap_bytes ?s1" "free_page s2 = free_page ?s1" "pages_ok s2 = pages_ok ?s1"
    "tmp_filesystem s2 = tmp_filesystem s" "n_free s2 = n_free ?s1"
    by (auto simp: s2_def add_child_def bitmap_bytes_def free_page_def pages_ok_def pmm_wf_def n_free_def fun_eq_iff)
  have "tree_inv s2 (insert cs ds) (insert cs ps)"
    using ta(1,2) new(2,5) cs(1) by (auto simp: tree_inv_def is_dir_def)
  moreover have "holds_file (free_page s0) s2 p x" if "holds_file (free_page s0) ?s1 p x" for p x
    by (rule holds_file_keep [OF that]) (use ta(3) keep in auto)
  ultimately have "unpacked s0 b n (i + 512) (insert cs ds) (insert cs ps) fs s2"
    using u1(1) keep unfolding unpacked_def by (auto simp: bitmap_bytes_def)
  moreover have "load_directory b (of_nat n) (of_nat i) s = Some s2"
    using f1 sl [folded L_def] f2 mk tf by (auto simp: load_directory_def store)
  ultimately show thesis using that keep u1(2) by simp
qed

text \<open>A file.\<close>

lemma skip_size:
  assumes "k \<le> 4096"
  shows "((of_nat k :: u64) + 512 - 1) div 512 * 512 = of_nat (512 * DIV_CEIL k 512)"
proof -
  have e: "(of_nat k :: u64) + 512 - 1 = of_nat (k + 511)" by simp
  have "(of_nat (k + 511) :: u64) div 512 = of_nat ((k + 511) div 512)"
  proof (rule word_unat_eq_iff [THEN iffD2])
    have "unat (of_nat (k + 511) :: u64) = k + 511" by (rule unat_of_nat64) (use assms in simp)
    moreover have "unat (of_nat ((k + 511) div 512) :: u64) = (k + 511) div 512" by (rule unat_of_nat64) (use assms in simp)
    ultimately show "unat ((of_nat (k + 511) :: u64) div 512) = unat (of_nat ((k + 511) div 512) :: u64)" by (simp add: unat_div del: of_nat_add)
  qed
  moreover have "DIV_CEIL k 512 = (k + 511) div 512" by (simp add: DIV_CEIL_def)
  ultimately show ?thesis unfolding e by (simp only: of_nat_mult of_nat_numeral mult.commute)
qed

definition created :: "'a ktmpfs_scheme \<Rightarrow> cbuf list set \<Rightarrow> cbuf list set \<Rightarrow> cbuf list \<Rightarrow> nat \<Rightarrow> tmpfs_node \<Rightarrow> 'a ktmpfs_scheme \<Rightarrow> bool" where
  "created s ds ps cs p new s2 \<longleftrightarrow> tree_inv s2 ds (insert cs ps) \<and> path_node s2 cs = Some new \<and>
     (\<forall>pp z. path_node s pp = Some z \<longrightarrow> (\<exists>y. path_node s2 pp = Some y \<and> same_node z y)) \<and>
     t_type new = File \<and> t_name new = last cs @ [0] \<and> t_size new = 4096 \<and> t_data new = PHYSICAL_BASE_ADDRESS + page_addr p \<and>
     free_page s p \<and> (\<forall>j. free_page s2 j \<longleftrightarrow> free_page s j \<and> j \<noteq> p) \<and> pages_ok s2 \<and> bitmap_bytes s2 = bitmap_bytes s \<and>
     tmp_filesystem s2 = tmp_filesystem s \<and> (\<forall>x. x \<notin> frame p \<and> x \<notin> bitmap_bytes s \<longrightarrow> mem s2 x = mem s x)"

lemma create_step:
  fixes s :: "'a ktmpfs_scheme"
  assumes t: "tree_inv s ds ps" and ok: "pages_ok s" and room: "0 < n_free s"
    and cs: "cs \<noteq> []" "\<forall>c \<in> set cs. good c" "butlast cs \<in> ds" "cs \<notin> ps" "butlast cs \<noteq> [] \<longrightarrow> last (butlast cs) \<noteq> last cs"
  obtains p new and s2 :: "'a ktmpfs_scheme" where "tmpfs_open None False (path_str cs) CREATE s = Some (Some \<lparr>fd_file = Tmp_node (t_fresh s), fd_mode = CREATE, fd_offset = 0\<rparr>, s2)"
    "t_nodes s2 (t_fresh s) = Some new" "created s ds ps cs p new s2"
proof -
  have fs: "fs_ok s" using t by (simp add: tree_inv_def)
  obtain q0 where q0: "free_page s q0" using n_free_pos [OF room] by blast
  obtain p s1 where s1: "pmm_alloc 1 s = Some (page_addr p, s1)" "free_page s p" "pages_ok s1" "bitmap_bytes s1 = bitmap_bytes s"
    "\<forall>j. free_page s1 j \<longleftrightarrow> free_page s j \<and> j \<noteq> p" "\<forall>x. x \<notin> frame p \<and> x \<notin> bitmap_bytes s \<longrightarrow> mem s1 x = mem s x"
    using pa.alloc_frame [OF ok q0] by blast
  obtain m1 where m1: "s1 = s\<lparr>mem := m1\<rparr>" using pmm_alloc_frame [OF s1(1)] by blast
  obtain e ed where e: "resolve (t_nodes s) (root_tmpfs_node s) (butlast cs) = Some e" "t_nodes s e = Some ed" "t_type ed = Directory"
    "t_name ed \<noteq> last cs @ [0]" "child_named (t_nodes s) e (last cs) = None" "find_node (t_nodes s) (root_tmpfs_node s) cs = Some e"
    by (rule tree_find [OF t cs(3,4,1) _ cs(5)]) (use cs in auto)
  define new where "new = new_file (last cs) e (page_addr p) s1"
  define s2 where "s2 = add_child e ed new s1"
  have new: "t_children new = []" "t_name new = last cs @ [0]" "good (last cs)" "t_parent new = Some e" "t_type new = File" "t_size new = 4096"
    "t_data new = PHYSICAL_BASE_ADDRESS + page_addr p"
    using cs(1,2) by (simp_all add: new_def)
  have e1: "resolve (t_nodes s1) (root_tmpfs_node s1) (butlast cs) = Some e" "t_nodes s1 e = Some ed" "child_named (t_nodes s1) e (last cs) = None"
    and t1: "tree_inv s1 ds ps" and path: "path_node s1 = path_node s"
    using e t m1 by (simp_all add: path_node_def fun_eq_iff)
  have keep: "mem s2 = m1" "bitmap_bytes s2 = bitmap_bytes s" "free_page s2 = free_page s1" "pages_ok s2" "tmp_filesystem s2 = tmp_filesystem s"
    using s1(3,4) m1 by (auto simp: s2_def add_child_def bitmap_bytes_def free_page_def pages_ok_def pmm_wf_def fun_eq_iff)
  have "created s ds ps cs p new s2"
    unfolding created_def using tree_add [OF t1 e1 new(1-4), folded s2_def] path new s1(2,5,6) keep cs(1) m1 by simp
  moreover have "tmpfs_open None False (path_str cs) CREATE s = Some (Some \<lparr>fd_file = Tmp_node (t_fresh s), fd_mode = CREATE, fd_offset = 0\<rparr>, s2)"
    using open_spec [OF fs cs(1,2), of None CREATE] e s1(1) by (simp add: s2_def new_def m1 CREATE_def)
  moreover have "t_nodes s2 (t_fresh s) = Some new" using fs_okD(5) [OF fs e(2)] by (simp add: s2_def add_child_def m1)
  ultimately show thesis using that by blast
qed

text \<open>Filling the page of the new file.\<close>

lemma fill_step:
  assumes u: "unpacked s0 b n i ds ps fs s" and m: "file_in_frames s0 b n" and c: "created s ds ps cs p new s2"
    and m3: "\<And>x. x \<notin> frame p \<Longrightarrow> m3 x = mem s2 x" "bytes_at m3 (t_data new) d" "length d \<le> 4096" and i: "i \<le> i'"
  shows "unpacked s0 b n i' ds (insert cs ps) (insert (cs, d) fs) (s2\<lparr>mem := m3\<rparr>)" "n_free s = Suc (n_free (s2\<lparr>mem := m3\<rparr>))"
proof -
  let ?s3 = "s2\<lparr>mem := m3\<rparr>"
  have U: "pages_ok s" "bitmap_bytes s = bitmap_bytes s0" "\<forall>j. free_page s j \<longrightarrow> free_page s0 j" "tmp_filesystem s \<noteq> None"
    "\<forall>(p, d) \<in> fs. holds_file (free_page s0) s p d" "pages_ok s0" "\<forall>j. i \<le> j \<and> j < n \<longrightarrow> mem s (b + of_nat j) = mem s0 (b + of_nat j)"
    using u by (auto simp: unpacked_def)
  note C = c [unfolded created_def]
  have p: "free_page s p" "p < 2 ^ 52" "free_page s0 p" "\<And>j. free_page s2 j \<longleftrightarrow> free_page s j \<and> j \<noteq> p"
    using pa.free_bound [OF U(1), of p] U(3) C by auto
  have same: "m3 x = mem s x" if "x \<notin> frame p" "x \<notin> bitmap_bytes s" for x using m3(1) C that by simp
  have "m3 x = mem s2 x" if "x \<in> bitmap_bytes s2" for x using m3(1) pa.free_apart [OF U(1) p(1)] that C by auto
  note st = pmm_store [OF this]
  have path3: "path_node ?s3 = path_node s2" by (simp add: path_node_def fun_eq_iff)
  have holds: "holds_file (free_page s0) ?s3 pp x" if "holds_file (free_page s0) s pp x" for pp x
  proof (rule holds_file_keep [OF that])
    show "\<exists>y. path_node ?s3 pp = Some y \<and> same_node z y" if "path_node s pp = Some z" for z using C that path3 by simp
    show "free_page s q" if "free_page ?s3 q" for q using that st(1) p(4) by simp
    fix q x assume q: "free_page s0 q" "\<not> free_page s q" "x \<in> frame q"
    have "q < 2 ^ 52" "q \<noteq> p" using pa.free_bound [OF U(6) q(1)] q(2) p(1) by auto
    then have "x \<notin> frame p" using frame_disjoint [of p q] p(2) q(3) by auto
    moreover have "x \<notin> bitmap_bytes s" using pa.free_apart [OF U(6) q(1)] q(3) U(2) by auto
    ultimately show "mem ?s3 x = mem s x" using same by simp
  qed
  have "holds_file (free_page s0) ?s3 cs d"
    unfolding holds_file_def using C p path3 m3(2,3) st(1) by (intro exI [of _ new] exI [of _ p]) simp
  moreover have "mem ?s3 (b + of_nat j) = mem s0 (b + of_nat j)" if "i' \<le> j" "j < n" for j
    using same module_byte [OF m that(2)] p(2,3) U(2,7) i that by simp
  ultimately show "unpacked s0 b n i' ds (insert cs ps) (insert (cs, d) fs) ?s3"
    unfolding unpacked_def using U C st holds p(4) by (auto simp: bitmap_bytes_def)
  show "n_free s = Suc (n_free ?s3)" using n_free_Suc [of ?s3 s p] p(1,4) st(1) by simp
qed

lemma copied_page:
  assumes "\<And>k. k < length d \<Longrightarrow> src + of_nat k \<notin> frame p" "bytes_at m src d" "length d \<le> 4096"
  defines "m3 \<equiv> memcpy m (PHYSICAL_BASE_ADDRESS + page_addr p) src (length d)"
  shows "bytes_at m3 (PHYSICAL_BASE_ADDRESS + page_addr p) d" "x \<notin> frame p \<Longrightarrow> m3 x = m x"
proof -
  have dst: "x \<in> frame p" if "x \<in> span (PHYSICAL_BASE_ADDRESS + page_addr p) (length d)" for x
    using that assms(3) span_mono [of "length d" PAGE_SIZE] by (auto simp: frame_def PAGE_SIZE_def)
  then show "m3 x = m x" if "x \<notin> frame p" unfolding m3_def using that by (auto intro!: memcpy_other)
  have "span (PHYSICAL_BASE_ADDRESS + page_addr p) (length d) \<inter> span src (length d) = {}"
    using dst assms(1) by (fastforce simp: in_span_iff_offset)
  note cp = memcpy_spec [OF this]
  show "bytes_at m3 (PHYSICAL_BASE_ADDRESS + page_addr p) d"
    unfolding bytes_at_def
  proof (intro allI impI)
    fix k assume k: "k < length d"
    then have "PHYSICAL_BASE_ADDRESS + page_addr p + of_nat k \<in> span (PHYSICAL_BASE_ADDRESS + page_addr p) (length d)"
      by (rule add_of_nat_in_span)
    then show "m3 (PHYSICAL_BASE_ADDRESS + page_addr p + of_nat k) = d ! k"
      using cp [of m] assms(3) bytes_atD [OF assms(2) k] by (simp add: m3_def)
  qed
qed

lemma load_file_step:
  assumes u: "unpacked s0 b n i ds ps fs s" and m: "file_in_frames s0 b n" "n < 2 ^ 64" and room: "0 < n_free s"
    and it: "item_at (mem s0) (b + of_nat i) (File_item cs d)" "i + item_size (File_item cs d) \<le> n" "length d \<le> 4096"
    and cs: "cs \<noteq> []" "\<forall>c \<in> set cs. good c" "butlast cs \<in> ds" "cs \<notin> ps" "butlast cs \<noteq> [] \<longrightarrow> last (butlast cs) \<noteq> last cs"
  obtains s' where "load_file b (of_nat n) (of_nat i) s = Some (of_nat (512 * DIV_CEIL (length d) 512), s')"
    "unpacked s0 b n (i + item_size (File_item cs d)) ds (insert cs ps) (insert (cs, d) fs) s'" "n_free s = Suc (n_free s')"
proof -
  have U: "tree_inv s ds ps" "pages_ok s" "bitmap_bytes s = bitmap_bytes s0" "\<forall>j. free_page s j \<longrightarrow> free_page s0 j" "tmp_filesystem s \<noteq> None"
    using u by (auto simp: unpacked_def)
  obtain p new s2 where op: "tmpfs_open None False (path_str cs) CREATE s = Some (Some \<lparr>fd_file = Tmp_node (t_fresh s), fd_mode = CREATE, fd_offset = 0\<rparr>, s2)"
    and fresh: "t_nodes s2 (t_fresh s) = Some new" and c: "created s ds ps cs p new s2"
    by (rule create_step [OF U(1,2) room cs])
  have new: "t_size new = 4096" "t_data new = PHYSICAL_BASE_ADDRESS + page_addr p" "free_page s p" using c by (simp_all add: created_def)
  have byte: "b + of_nat j \<notin> frame p \<and> mem s2 (b + of_nat j) = mem s (b + of_nat j)" if "j < n" for j
    using module_byte [OF m(1) that] pa.free_bound [OF U(2) new(3)] U(3,4) new(3) c by (simp add: created_def)
  have field: "bytes_at (mem s2) (b + of_nat i + of_nat off) xs"
    if x: "bytes_at (mem s0) (b + of_nat i + of_nat off) xs" "off + length xs \<le> n - i" for off xs
  proof (rule bytes_at_cong [OF bytes_at_unpacked [OF u x]])
    fix k assume "k < length xs"
    then show "mem s2 (b + of_nat i + of_nat off + of_nat k) = mem s (b + of_nat i + of_nat off + of_nat k)"
      using byte [of "i + off + k"] x(2) by (simp add: ac_simps)
  qed
  have len: "length (path_str cs) \<le> 90" "name_offset = 10" "size_offset = 124" "i + 512 \<le> n" "512 + length d \<le> n - i"
    using it DIV_CEIL_mult_ge [of 512 "length d"] by (simp_all add: name_offset_def size_offset_def)
  obtain ks where ks: "bytes_at (mem s0) (b + of_nat i + of_nat size_offset) (map digit_char ks @ [0])" "length ks < 12" "\<forall>k \<in> set ks. k < 8" "octal ks = length d"
    using it(1) by auto
  have f2: "field_str (mem s2) b (of_nat n) (of_nat i) size_offset = Some (map digit_char ks @ [0])"
    by (rule field_str_at [OF field [OF ks(1)] octal_to_int_digits(2) [OF ks(3)]]) (use ks(2) len m(2) in simp_all)
  have oct: "octal_to_int (map digit_char ks @ [0]) = Some (of_nat (length d))" using octal_to_int_digits(1) [OF ks(3)] ks(4) by simp
  obtain nm where nm: "path_str cs = nm @ [0]" "0 \<notin> set nm" using path_str_split [OF cs(2)] by blast
  have f1: "field_str (mem s) b (of_nat n) (of_nat i) name_offset = Some (path_str cs)"
    unfolding nm(1) by (rule field_str_at [OF bytes_at_unpacked [OF u] nm(2)]) (use it(1) nm(1) len m(2) in auto)
  let ?src = "b + of_nat i + 512" and ?m3 = "memcpy (mem s2) (t_data new) (b + of_nat i + 512) (length d)"
  have sz: "unat (of_nat (length d) :: u64) = length d" by (rule unat_of_nat64) (use it(3) in simp)
  have wr: "tmpfs_write (t_fresh s) 0 (of_nat (length d)) ?src s2 = Some (0, s2\<lparr>mem := ?m3\<rparr>)"
    using write_within(1) [OF fresh, of 0 "of_nat (length d)" ?src] sz new it(3) by simp
  have src: "?src + of_nat k \<notin> frame p" if "k < length d" for k
    using byte [of "i + 512 + k"] that len by (simp add: ac_simps)
  have data: "bytes_at (mem s2) ?src d" using field [of 512 d] it(1) len by simp
  note page = copied_page [OF src data it(3), folded new(2)]
  have "i \<le> i + item_size (File_item cs d)" by simp
  note fill = fill_step [OF u m(1) c page(2,1) it(3) this]
  have "load_file b (of_nat n) (of_nat i) s = Some (of_nat (512 * DIV_CEIL (length d) 512), s2\<lparr>mem := ?m3\<rparr>)"
    using f1 op f2 oct wr U(5) skip_size [OF it(3)] by (auto simp: load_file_def)
  then show thesis using that fill by blast
qed

lemma utypes: "U_FILE \<noteq> 0" "U_DIRECTORY \<noteq> 0" "U_DIRECTORY \<noteq> U_FILE" "U_DIRECTORY \<noteq> U_SYMLINK"
  by (simp_all add: U_FILE_def U_DIRECTORY_def U_SYMLINK_def)

lemma load_loop_unpacks:
  fixes s0 :: "'a ktmpfs_scheme"
  assumes m: "file_in_frames s0 b n" "n < 2 ^ 64" and "i < 2 ^ 64"
    and "unpacked s0 b n i ds ps fs s" "archive (mem s0) b n i xs" "in_order ds ps xs" "length xs \<le> n_free s"
  shows "\<exists>s' i' ds'. load_loop font b (of_nat n) (of_nat i) s = Some (Loaded, s') \<and> ds \<union> {cs. Dir_item cs \<in> set xs} \<subseteq> ds' \<and>
    unpacked s0 b n i' ds' (ps \<union> item_path ` set xs) (fs \<union> {(cs, d). File_item cs d \<in> set xs}) s'"
  using assms(3-)
proof (induction xs arbitrary: i ds ps fs s)
  case Nil
  have "load_loop font b (of_nat n) (of_nat i) s = Some (Loaded, s)"
  proof (cases "i < n")
    case True
    then have "mem s (b + of_nat i + of_nat type_offset) = 0"
      using unpacked_byte [OF Nil.prems(2), of type_offset] Nil.prems(3) by (simp add: type_offset_def)
    then show ?thesis by (subst load_loop.simps) simp
  next
    case False
    then have "\<not> (of_nat i :: u64) < of_nat n"
      using unat_of_nat64 [OF Nil.prems(1)] unat_of_nat64 [OF m(2)] by (simp add: word_less_nat_alt)
    then show ?thesis by (subst load_loop.simps) simp
  qed
  then show ?case using Nil.prems(2) by auto
next
  case (Cons x xs)
  have sz: "512 \<le> item_size x" by (cases x) simp_all
  have in_arch: "i + item_size x \<le> n" "item_at (mem s0) (b + of_nat i) x" "archive (mem s0) b n (i + item_size x) xs"
    using Cons.prems(3) by simp_all
  have more: "(of_nat i :: u64) < of_nat n" "i + item_size x < 2 ^ 64"
    using sz in_arch(1) m(2) unat_of_nat64 [OF Cons.prems(1)] unat_of_nat64 [OF m(2)] by (simp_all add: word_less_nat_alt)
  have type: "mem s (b + of_nat i + of_nat type_offset) = mem s0 (b + of_nat i + of_nat type_offset)"
    using unpacked_byte [OF Cons.prems(2), of type_offset] sz in_arch(1) by (simp add: type_offset_def)
  have p: "item_path x \<noteq> []" "\<forall>c \<in> set (item_path x). good c" "butlast (item_path x) \<in> ds" "item_path x \<notin> ps"
    "butlast (item_path x) \<noteq> [] \<longrightarrow> last (butlast (item_path x)) \<noteq> last (item_path x)"
    using Cons.prems(4) by auto
  show ?case
  proof (cases x)
    case (Dir_item cs)
    obtain s1 where s1: "load_directory b (of_nat n) (of_nat i) s = Some s1"
      "unpacked s0 b n (i + 512) (insert cs ds) (insert cs ps) fs s1" "n_free s1 = n_free s"
      by (rule load_directory_step [OF Cons.prems(2) m]) (use in_arch p Dir_item in auto)
    have step: "load_loop font b (of_nat n) (of_nat i) s = load_loop font b (of_nat n) (of_nat (i + 512)) s1"
      using more type in_arch(2) s1(1) Dir_item by (subst load_loop.simps) (simp add: utypes)
    have rest: "i + 512 < 2 ^ 64" "archive (mem s0) b n (i + 512) xs" "in_order (insert cs ds) (insert cs ps) xs" "length xs \<le> n_free s1"
      using in_arch(3) Cons.prems(4,5) s1(3) more(2) Dir_item by simp_all
    from Cons.IH [OF rest(1) s1(2) rest(2-4)] obtain s' i' ds' where
      "load_loop font b (of_nat n) (of_nat (i + 512)) s1 = Some (Loaded, s')" "insert cs ds \<union> {cs. Dir_item cs \<in> set xs} \<subseteq> ds'"
      "unpacked s0 b n i' ds' (insert cs ps \<union> item_path ` set xs) (fs \<union> {(cs, d). File_item cs d \<in> set xs}) s'" by blast
    then show ?thesis unfolding step Dir_item by (intro exI [of _ s'] exI [of _ i'] exI [of _ ds']) auto
  next
    case (File_item cs d)
    obtain s1 where s1: "load_file b (of_nat n) (of_nat i) s = Some (of_nat (512 * DIV_CEIL (length d) 512), s1)"
      "unpacked s0 b n (i + item_size x) ds (insert cs ps) (insert (cs, d) fs) s1" "n_free s = Suc (n_free s1)"
      unfolding File_item
      by (rule load_file_step [OF Cons.prems(2) m]) (use Cons.prems(4,5) in_arch p File_item in auto)
    have e: "(of_nat i :: u64) + of_nat (512 * DIV_CEIL (length d) 512) + 512 = of_nat (i + item_size x)"
      by (simp add: File_item algebra_simps)
    have "load_loop font b (of_nat n) (of_nat i) s =
        load_loop font b (of_nat n) (of_nat i + of_nat (512 * DIV_CEIL (length d) 512) + 512) s1"
      using more(1) type in_arch(2) s1(1) File_item by (subst load_loop.simps) (simp add: utypes)
    then have step: "load_loop font b (of_nat n) (of_nat i) s = load_loop font b (of_nat n) (of_nat (i + item_size x)) s1" by (simp only: e)
    have rest: "in_order ds (insert cs ps) xs" "length xs \<le> n_free s1" using Cons.prems(4,5) s1(3) File_item by simp_all
    from Cons.IH [OF more(2) s1(2) in_arch(3) rest] obtain s' i' ds' where
      "load_loop font b (of_nat n) (of_nat (i + item_size x)) s1 = Some (Loaded, s')" "ds \<union> {cs. Dir_item cs \<in> set xs} \<subseteq> ds'"
      "unpacked s0 b n i' ds' (insert cs ps \<union> item_path ` set xs) (insert (cs, d) fs \<union> {(cs, d). File_item cs d \<in> set xs}) s'" by blast
    moreover have "insert (cs, d) fs \<union> {(cs, d). File_item cs d \<in> set xs} = fs \<union> {(cs, d). File_item cs d \<in> set (x # xs)}"
      using File_item by auto
    ultimately show ?thesis unfolding step by (intro exI [of _ s'] exI [of _ i'] exI [of _ ds']) (auto simp: File_item)
  qed
qed

section \<open>The whole archive\<close>

lemma in_order_good: "in_order ds ps xs \<Longrightarrow> x \<in> set xs \<Longrightarrow> item_path x \<noteq> [] \<and> (\<forall>c \<in> set (item_path x). good c)"
  by (induction xs arbitrary: ds ps) (auto split: item.splits)

lemma unpacked_start:
  assumes "fs_ok s" "t_nodes s (root_tmpfs_node s) = Some r" "t_children r = []" "tmp_filesystem s \<noteq> None" "pages_ok s"
  shows "unpacked s b n i {[]} {[]} {} s"
proof -
  have "resolve (t_nodes s) (root_tmpfs_node s) p \<noteq> None \<longleftrightarrow> p \<in> {[]}" for p
    using assms(2,3) by (cases p) (simp_all add: child_named_def)
  moreover have "is_dir s []" using assms(1,2) by (simp add: is_dir_def path_node_def fs_ok_def)
  ultimately show ?thesis using assms(1,4,5) by (simp add: unpacked_def tree_inv_def)
qed

lemma holds_file_open:
  assumes "fs_ok s" "holds_file F s cs d" "cs \<noteq> []" "\<forall>c \<in> set cs. good c"
  shows "\<exists>f nd. tmpfs_open wd False (path_str cs) READ s = Some (Some \<lparr>fd_file = Tmp_node f, fd_mode = READ, fd_offset = 0\<rparr>, s) \<and>
    t_nodes s f = Some nd \<and> t_size nd = 4096 \<and> bytes_at (mem s) (t_data nd) d"
proof -
  obtain f nd where f: "resolve (t_nodes s) (root_tmpfs_node s) cs = Some f" "t_nodes s f = Some nd" "t_type nd = File" "t_name nd = last cs @ [0]"
    "t_size nd = 4096" "bytes_at (mem s) (t_data nd) d"
    using assms(2) unfolding holds_file_def path_node_def by (fastforce simp: bind_eq_Some_iff)
  then show ?thesis using open_spec [OF assms(1,3,4), of wd READ] resolve_find [OF f(1)] by (intro exI [of _ f] exI [of _ nd]) simp
qed

text \<open>C29: the archive is unpacked as it is: with a page left for every item, \<open>load\<close> returns, the tree then has exactly the paths
  of the archive, a directory for each directory of it, and every file of it opens and has its bytes. Assumed is that the
  archive lists a directory before what lies in it, under names that are not the name of the directory they lie in, that
  its files fit a page, and that it does not lie in free pages.\<close>

theorem initrd_unpacked:
  assumes "fs_ok s" "t_nodes s (root_tmpfs_node s) = Some r" "t_children r = []" "tmp_filesystem s \<noteq> None" "pages_ok s"
    and "file_in_frames s b n" "n < 2 ^ 64" "archive (mem s) b n 512 xs" "in_order {[]} {[]} xs" "length xs \<le> n_free s" "count \<noteq> 0"
  shows "\<exists>s'. tmpfs_load font count b (b + of_nat n) s = Some (Loaded, s') \<and> fs_ok s' \<and>
    (\<forall>p. resolve (t_nodes s') (root_tmpfs_node s') p \<noteq> None \<longleftrightarrow> p = [] \<or> p \<in> item_path ` set xs) \<and>
    (\<forall>cs. Dir_item cs \<in> set xs \<longrightarrow> is_dir s' cs) \<and>
    (\<forall>cs d. File_item cs d \<in> set xs \<longrightarrow> (\<exists>f nd.
       tmpfs_open wd False (path_str cs) READ s' = Some (Some \<lparr>fd_file = Tmp_node f, fd_mode = READ, fd_offset = 0\<rparr>, s') \<and>
       t_nodes s' f = Some nd \<and> t_size nd = 4096 \<and> bytes_at (mem s') (t_data nd) d))"
proof -
  note start = unpacked_start [OF assms(1-5), of b n 512]
  obtain s' i' ds' where l: "load_loop font b (of_nat n) (of_nat 512) s = Some (Loaded, s')" "{[]} \<union> {cs. Dir_item cs \<in> set xs} \<subseteq> ds'"
    "unpacked s b n i' ds' ({[]} \<union> item_path ` set xs) ({} \<union> {(cs, d). File_item cs d \<in> set xs}) s'"
    using load_loop_unpacks [OF assms(6,7) _ start assms(8-10), of font] by auto
  have U: "fs_ok s'" "\<forall>p. resolve (t_nodes s') (root_tmpfs_node s') p \<noteq> None \<longleftrightarrow> p \<in> {[]} \<union> item_path ` set xs" "\<forall>p \<in> ds'. is_dir s' p"
    "\<And>cs d. File_item cs d \<in> set xs \<Longrightarrow> holds_file (free_page s) s' cs d"
    using l(3) by (auto simp: unpacked_def tree_inv_def)
  have "tmpfs_load font count b (b + of_nat n) s = Some (Loaded, s')" using l(1) assms(11) by (simp add: tmpfs_load_def)
  moreover have "is_dir s' cs" if "Dir_item cs \<in> set xs" for cs using U(3) l(2) that by auto
  ultimately show ?thesis using U(1,2) holds_file_open [OF U(1) U(4)] in_order_good [OF assms(9)]
    by (intro exI [of _ s']) (simp, metis item_path.simps(2))
qed

text \<open>An archive with a directory \<open>/d\<close> and a file \<open>/d/f\<close> of one byte, in the frame 101.\<close>

definition image_sample :: mem where
  "image_sample = (let h = PHYSICAL_BASE_ADDRESS + 0x65000 in
     (\<lambda>_. 0)(h + 522 := 47, h + 523 := 100, h + 524 := 47, h + 668 := 53,
       h + 1034 := 47, h + 1035 := 100, h + 1036 := 47, h + 1037 := 102, h + 1148 := 49, h + 1180 := 48, h + 1536 := 65))"

definition initrd_sample :: ktmpfs where
  "initrd_sample = tmpfs_sample\<lparr>mem := image_sample, t_nodes := [0 \<mapsto> new_fs_node [SLASH, 0] 0 0 Directory None None], t_fresh := 1\<rparr>"

lemma image_bytes:
  fixes b :: u64
  defines "b \<equiv> PHYSICAL_BASE_ADDRESS + 0x65000"
  shows "image_sample (PHYSICAL_BASE_ADDRESS + 0x100000) = 0" "bytes_at image_sample (b + 522) [47, 100, 47, 0]" "image_sample (b + 668) = 53"
    "bytes_at image_sample (b + 1034) [47, 100, 47, 102, 0]" "bytes_at image_sample (b + 1148) [49, 0]" "image_sample (b + 1180) = 48"
    "image_sample (b + 1536) = 65"
  by (simp_all add: image_sample_def Let_def b_def PHYSICAL_BASE_ADDRESS_def bytes_at_Cons bytes_at_def [of _ _ "[]"])

definition items_sample :: "item list" where
  "items_sample = [Dir_item [[100]], File_item [[100], [102]] [65]]"

lemma sample_archive: "archive image_sample (PHYSICAL_BASE_ADDRESS + 0x65000) 2048 512 items_sample" "in_order {[]} {[]} items_sample"
proof -
  let ?b = "PHYSICAL_BASE_ADDRESS + 0x65000"
  have "item_at image_sample (?b + 512) (Dir_item [[100]])"
    using image_bytes(2,3) by (simp add: type_offset_def name_offset_def U_DIRECTORY_def SLASH_def butlast_append)
  moreover have "item_at image_sample (?b + 1024) (File_item [[100], [102]] [65])"
    using image_bytes(4-7) unfolding item_at.simps
    by (intro conjI exI [of _ "[1]"])
      (simp_all add: type_offset_def name_offset_def size_offset_def U_FILE_def SLASH_def octal_def digit_char_def bytes_at_Cons bytes_at_def [of _ _ "[]"])
  ultimately show "archive image_sample ?b 2048 512 items_sample" by (simp add: items_sample_def DIV_CEIL_def)
  show "in_order {[]} {[]} items_sample" by (simp add: items_sample_def good_def SLASH_def)
qed

text \<open>The pages of any state with that memory and one byte of bitmap.\<close>

lemma sample_pages:
  fixes s :: "'a kmem_scheme"
  assumes f: "bitmap s = PHYSICAL_BASE_ADDRESS + 0x100000" "bitmapSize s = 1" "pmm_lock s = 0" "mem s = image_sample"
  shows "free_page s i \<longleftrightarrow> i < 8" "pages_ok s" "file_in_frames s (PHYSICAL_BASE_ADDRESS + 0x65000) 2048" "n_free s = 8"
proof -
  have free: "free_page s i \<longleftrightarrow> i < 8" for i using image_bytes(1) by (auto simp: free_page_def is_bit_set_iff f)
  then show "free_page s i \<longleftrightarrow> i < 8" .
  have apart: "frame i \<inter> bitmap_bytes s = {}" if "i < 256" for i
  proof -
    have "span (PHYSICAL_BASE_ADDRESS + of_nat (i * 4096)) 4096 \<inter> span (PHYSICAL_BASE_ADDRESS + of_nat 0x100000) 1 = {}"
      by (intro span_offset_disjoint) (use that in simp_all)
    then show ?thesis by (simp add: frame_def page_addr_def PAGE_SIZE_def bitmap_bytes_def f)
  qed
  show "pages_ok s" using apart by (auto simp: pages_ok_def pmm_wf_def free) (simp_all add: f)
  have used: "used_frame s 101" using apart [of 101] free by (simp add: used_frame_def)
  have "PHYSICAL_BASE_ADDRESS + 0x65000 + of_nat j \<in> frame 101" if "j < 2048" for j
    using run_byte(2) [of 101 j] that by (simp add: page_addr_def PAGE_SIZE_def)
  then show "file_in_frames s (PHYSICAL_BASE_ADDRESS + 0x65000) 2048" using used by (auto simp: file_in_frames_def)
  have "{j. free_page s j} = {..< 8}" by (auto simp: free)
  then show "n_free s = 8" by (simp add: n_free_def)
qed

theorem initrd_unpacked_witness:
  "\<exists>s' f nd. tmpfs_load (\<lambda>_. 0) 1 (PHYSICAL_BASE_ADDRESS + 0x65000) (PHYSICAL_BASE_ADDRESS + 0x65000 + of_nat 2048) initrd_sample = Some (Loaded, s') \<and>
    is_dir s' [[100]] \<and>
    tmpfs_open None False (path_str [[100], [102]]) READ s' = Some (Some \<lparr>fd_file = Tmp_node f, fd_mode = READ, fd_offset = 0\<rparr>, s') \<and>
    t_nodes s' f = Some nd \<and> mem s' (t_data nd) = 65"
proof -
  let ?s = initrd_sample
  have f: "bitmap ?s = PHYSICAL_BASE_ADDRESS + 0x100000" "bitmapSize ?s = 1" "pmm_lock ?s = 0" "mem ?s = image_sample"
    by (simp_all add: initrd_sample_def tmpfs_sample_def pmm_sample_def)
  note pages = sample_pages [OF f]
  have root: "t_nodes ?s (root_tmpfs_node ?s) = Some (new_fs_node [SLASH, 0] 0 0 Directory None None)"
    "t_children (new_fs_node [SLASH, 0] 0 0 Directory None None) = []" "tmp_filesystem ?s \<noteq> None"
    by (simp_all add: initrd_sample_def tmpfs_sample_def new_fs_node_def)
  have tree: "fs_ok ?s" by (auto simp: fs_ok_def kids_ok_def initrd_sample_def tmpfs_sample_def new_fs_node_def split: if_splits)
  have room: "length items_sample \<le> n_free ?s" by (simp add: pages(4) items_sample_def)
  have two: "(2048 :: nat) < 2 ^ 64" "(1 :: u64) \<noteq> 0" by simp_all
  from initrd_unpacked [OF tree root pages(2,3) two(1) sample_archive(1) [folded f(4)] sample_archive(2) room two(2), of "\<lambda>_. 0" None]
  show ?thesis by (fastforce simp: bytes_at_def items_sample_def)
qed

end
