(* ===== verification/Start.thy ===== *)
theory Start
  imports Vfs_Props Initrd_Props
begin

text \<open>
  The part of \<open>_start\<close> (\<^verbatim>\<open>kernel/kernel.cpp\<close>) that sets the file systems up and fills them from the archive, and what unpacking
  leaves as it is: the mounts, and that every file belongs to tmpfs.
\<close>

definition start_files :: "(u64 \<Rightarrow> u8) \<Rightarrow> u64 \<Rightarrow> u64 \<Rightarrow> u64 \<Rightarrow> 'a kvfs_scheme \<Rightarrow> (load_end \<times> 'a kvfs_scheme) option" where
  "start_files font module_count begin_addr end_addr s = do {
     s \<leftarrow> start_fs s;
     tmpfs_load font module_count begin_addr end_addr s
   }"

section \<open>What unpacking keeps\<close>

definition owned :: "'a ktmpfs_scheme \<Rightarrow> bool" where
  "owned s \<longleftrightarrow> (\<forall>n nd. t_nodes s n = Some nd \<and> t_type nd = File \<longrightarrow> t_fs nd = tmp_filesystem s)"

definition keeps :: "'a ktmpfs_scheme \<Rightarrow> 'a ktmpfs_scheme \<Rightarrow> bool" where
  "keeps s s' \<longleftrightarrow> ktmpfs.more s' = ktmpfs.more s \<and> tmp_filesystem s' = tmp_filesystem s \<and> (owned s \<longrightarrow> owned s')"

lemma keeps_refl [simp]: "keeps s s"
  by (simp add: keeps_def)

lemma keeps_trans: "keeps s s' \<Longrightarrow> keeps s' s'' \<Longrightarrow> keeps s s''"
  by (simp add: keeps_def)

lemma keeps_mem [simp]: "keeps s (s\<lparr>mem := m\<rparr>)" "keeps s (s\<lparr>mem := m, pmm_lock := l\<rparr>)"
  by (simp_all add: keeps_def owned_def)

lemma keeps_alloc: "pmm_alloc k s = Some (a, s') \<Longrightarrow> keeps s s'"
  by (auto dest: pmm_alloc_frame)

lemma keeps_free: "pmm_free a k s = Some s' \<Longrightarrow> keeps s s'"
  by (auto simp: pmm_free_def acquire_eq_Some Let_def split: Option.bind_splits if_splits)

lemma keeps_add_child:
  assumes "t_nodes s p = Some parent" "t_type new = File \<longrightarrow> t_fs new = tmp_filesystem s"
  shows "keeps s (add_child p parent new s)"
  using assms by (auto simp: keeps_def owned_def add_child_def split: if_splits)

lemma keeps_open:
  assumes "tmpfs_open wd same path mode s = Some (fd, s')"
  shows "keeps s s'"
proof -
  consider "s' = s" | n node name a s1 where "t_nodes s n = Some node" "pmm_alloc 1 s = Some (a, s1)"
    "s' = add_child n node ((new_fs_node name 4096 0 File (Some n) (tmp_filesystem s1))\<lparr>t_data := a + PHYSICAL_BASE_ADDRESS\<rparr>) s1"
    using assms by (auto simp: tmpfs_open_def Let_def split: Option.bind_splits option.splits if_splits prod.splits)
  then show ?thesis
  proof cases
    case 2
    obtain m where "s1 = s\<lparr>mem := m\<rparr>" using pmm_alloc_frame [OF 2(2)] by blast
    then show ?thesis unfolding 2(3) using keeps_alloc [OF 2(2)] 2(1)
      by (intro keeps_trans [OF _ keeps_add_child]) (simp_all add: new_fs_node_def)
  qed simp
qed

lemma keeps_mkdir: "tmpfs_mkdir wd same path s = Some (r, s') \<Longrightarrow> keeps s s'"
  by (auto simp: tmpfs_mkdir_def new_fs_node_def intro!: keeps_add_child split: Option.bind_splits option.splits if_splits)

lemma keeps_resize:
  assumes "tmpfs_resize n new_size grow s = Some (r, s')"
  shows "keeps s s'"
proof -
  obtain node a s1 where n: "t_nodes s n = Some node" "pmm_alloc (unat (pages_for new_size)) s = Some (a, s1)"
    using assms by (auto simp: tmpfs_resize_def Let_def split: Option.bind_splits)
  obtain m where m: "s1 = s\<lparr>mem := m\<rparr>" using pmm_alloc_frame [OF n(2)] by blast
  show ?thesis
  proof (cases "a + PHYSICAL_BASE_ADDRESS = 0")
    case True
    then show ?thesis using assms n m by (auto simp: tmpfs_resize_def Let_def)
  next
    case False
    obtain m2 s2 where s2: "pmm_free (t_data node - PHYSICAL_BASE_ADDRESS) (unat (pages_for (t_size node))) (s1\<lparr>mem := m2\<rparr>) = Some s2"
      "s' = s2\<lparr>t_nodes := (t_nodes s2)(n \<mapsto> node\<lparr>t_data := a + PHYSICAL_BASE_ADDRESS\<rparr>)\<rparr>"
      using assms n False by (auto simp: tmpfs_resize_def Let_def split: Option.bind_splits)
    have k: "keeps s s2" using keeps_trans [OF _ keeps_free [OF s2(1)], of s] m by simp
    have "t_nodes s2 n = Some node" using s2(1) n(1) m by (auto simp: pmm_free_def Let_def split: Option.bind_splits)
    then have "keeps s2 s'" unfolding s2(2) by (auto simp: keeps_def owned_def)
    then show ?thesis by (rule keeps_trans [OF k])
  qed
qed

lemma keeps_write: "tmpfs_write n off len src s = Some (r, s') \<Longrightarrow> keeps s s'"
  unfolding tmpfs_write_def
  by (auto split: Option.bind_splits if_splits dest: keeps_resize intro: keeps_trans [OF keeps_resize keeps_mem(1)])

lemma keeps_file: "load_file b n i s = Some (k, s') \<Longrightarrow> keeps s s'"
  unfolding load_file_def
  by (auto split: Option.bind_splits option.splits fs_ref.splits dest!: keeps_open keeps_write intro: keeps_trans)

lemma keeps_directory:
  assumes "load_directory b n i s = Some s'"
  shows "keeps s s'"
proof -
  obtain m name r where "tmpfs_mkdir None False name (s\<lparr>mem := m\<rparr>) = Some (r, s')"
    using assms by (auto simp: load_directory_def Let_def split: Option.bind_splits)
  then show ?thesis by (rule keeps_trans [OF keeps_mem(1) keeps_mkdir])
qed

lemma keeps_loop:
  assumes "load_loop font b n i s = Some y"
  shows "fst y = Loaded \<longrightarrow> keeps s (snd y)"
  by (rule load_loop.raw_induct [where P = "\<lambda>font b n i s y. fst y = Loaded \<longrightarrow> keeps s (snd y)", OF _ assms])
    (auto simp: Let_def split: if_splits Option.bind_splits prod.splits dest!: keeps_file keeps_directory intro: keeps_trans)

section \<open>The files of the archive\<close>

lemma same_pages:
  assumes "mem s' = mem s" "bitmap s' = bitmap s" "bitmapSize s' = bitmapSize s" "pmm_lock s' = pmm_lock s"
  shows "free_page s' = free_page s" "bitmap_bytes s' = bitmap_bytes s" "pages_ok s' = pages_ok s" "n_free s' = n_free s" "used_frame s' = used_frame s"
proof -
  show f: "free_page s' = free_page s" "bitmap_bytes s' = bitmap_bytes s" by (auto simp: fun_eq_iff free_page_def bitmap_bytes_def assms)
  show "pages_ok s' = pages_ok s" "n_free s' = n_free s" "used_frame s' = used_frame s"
    using f by (auto simp: fun_eq_iff pages_ok_def pmm_wf_def n_free_def used_frame_def assms)
qed

lemma holds_file_node:
  assumes "fs_ok s" "holds_file F s cs d" "cs \<noteq> []" "\<forall>c \<in> set cs. good c"
  obtains f nd q where "tmpfs_open wd False (path_str cs) READ s = Some (Some \<lparr>fd_file = Tmp_node f, fd_mode = READ, fd_offset = 0\<rparr>, s)"
    "t_nodes s f = Some nd" "t_type nd = File" "t_size nd = 4096" "t_data nd = PHYSICAL_BASE_ADDRESS + page_addr q" "F q" "length d \<le> 4096" "bytes_at (mem s) (t_data nd) d"
proof -
  obtain f nd q where f: "resolve (t_nodes s) (root_tmpfs_node s) cs = Some f" "t_nodes s f = Some nd" "t_type nd = File" "t_name nd = last cs @ [0]"
    "t_size nd = 4096" "t_data nd = PHYSICAL_BASE_ADDRESS + page_addr q" "F q" "length d \<le> 4096" "bytes_at (mem s) (t_data nd) d"
    using assms(2) unfolding holds_file_def path_node_def by (fastforce simp: bind_eq_Some_iff)
  then show thesis using open_spec [OF assms(1,3,4), of wd READ] resolve_find [OF f(1)] by (intro that [of f nd q]) simp_all
qed

text \<open>A file read through the virtual file system into a buffer outside its page.\<close>

lemma read_file:
  assumes "t_nodes s f = Some nd" "t_fs nd = Some tmpfs" "t_size nd = 4096" "t_data nd = PHYSICAL_BASE_ADDRESS + page_addr q" "length d \<le> 4096"
    and "bytes_at (mem s) (t_data nd) d" "span dst (length d) \<inter> frame q = {}"
  shows "\<exists>s'. vfs_read ret (Tmp_node f) 0 (of_nat (length d)) dst s = Some (0, s') \<and> bytes_at (mem s') dst d"
proof -
  have n: "unat (of_nat (length d) :: u64) = length d" by (rule unat_of_nat64) (use assms(5) in simp)
  have "\<not> (4096 :: u64) < of_nat (length d)" using n assms(5) by (simp add: word_less_nat_alt)
  then have rd: "vfs_read ret (Tmp_node f) 0 (of_nat (length d)) dst s = Some (0, s\<lparr>mem := memcpy (mem s) dst (t_data nd) (length d)\<rparr>)"
    using assms(1-3) n by (simp add: vfs_read_def tmpfs_read_def)
  have "span (t_data nd) (length d) \<subseteq> frame q" using span_mono [of "length d" PAGE_SIZE] assms(4,5) by (simp add: frame_def PAGE_SIZE_def)
  then have "span dst (length d) \<inter> span (t_data nd) (length d) = {}" using assms(7) by blast
  from memcpy_spec [OF this] have "memcpy (mem s) dst (t_data nd) (length d) (dst + of_nat i) = d ! i" if "i < length d" for i
    using that assms(5,6) add_of_nat_in_span [of i "length d" dst] by (simp add: bytes_at_def)
  then show ?thesis unfolding rd by (auto simp: bytes_at_def)
qed

lemma kvfs_fields:
  fixes s :: "'a kvfs_scheme"
  assumes "ktmpfs.more s' = ktmpfs.more s"
  shows "v_nodes s' = v_nodes s" "vfs_root_node s' = vfs_root_node s"
  using assms by (cases s; cases s'; simp)+

text \<open>Nothing is mounted and no node of a file system exists yet.\<close>

definition cold :: "'a kvfs_scheme \<Rightarrow> bool" where
  "cold s \<longleftrightarrow> vfs_lock s = 0 \<and> fses s = [] \<and> vfs_root_node s = None \<and> t_nodes s = Map.empty \<and> pages_ok s"

lemma start_files_state:
  fixes s :: "'a kvfs_scheme"
  assumes c: "cold s" and a: "file_in_frames s b n" "n < 2 ^ 64" "archive (mem s) b n 512 xs" "in_order {[]} {[]} xs" "length xs \<le> n_free s" "count \<noteq> 0"
  obtains s' where "start_files font count b (b + of_nat n) s = Some (Loaded, s')" "fs_ok s'" "owned s'" "tmp_filesystem s' = Some tmpfs"
    "\<And>p. 0 \<in> set p \<Longrightarrow> get_absolute_path p s' = Some (if prefix (butlast DEV_PATH @ [SLASH]) p then (drop 4 p, devfs) else (p, tmpfs))"
    "\<And>cs d. File_item cs d \<in> set xs \<Longrightarrow> holds_file (free_page s) s' cs d"
proof -
  let ?r = "new_fs_node [SLASH, 0] 0 0 Directory None (tmp_filesystem s)"
  obtain s1 where s1: "start_fs s = Some s1" "vfs_root_node s1 = Some (v_fresh s)"
    "v_nodes s1 (v_fresh s) = Some \<lparr>v_name = [SLASH, 0], v_fs = tmpfs, v_parent = None, v_children = [Suc (v_fresh s)]\<rparr>"
    "v_nodes s1 (Suc (v_fresh s)) = Some \<lparr>v_name = DEV_PATH, v_fs = devfs, v_parent = Some (v_fresh s), v_children = []\<rparr>"
    "root_tmpfs_node s1 = t_fresh s" "t_nodes s1 = (t_nodes s)(t_fresh s \<mapsto> ?r)" "tmp_filesystem s1 = Some tmpfs" "t_fresh s1 = Suc (t_fresh s)"
    and kmem: "mem s1 = mem s" "bitmap s1 = bitmap s" "bitmapSize s1 = bitmapSize s" "pmm_lock s1 = pmm_lock s"
    by (rule start_fs_state [of s]) (use c in \<open>auto simp: cold_def\<close>)
  note same = same_pages [OF kmem]
  have root: "t_nodes s1 (root_tmpfs_node s1) = Some ?r" "t_children ?r = []" "tmp_filesystem s1 \<noteq> None" "pages_ok s1"
    using s1 c by (simp_all add: new_fs_node_def cold_def same)
  have "fs_ok s1" using s1 c by (auto simp: fs_ok_def kids_ok_def new_fs_node_def cold_def split: if_splits)
  note start = unpacked_start [OF this root, of b n 512]
  have arch: "file_in_frames s1 b n" "archive (mem s1) b n 512 xs" "length xs \<le> n_free s1" using a by (simp_all add: file_in_frames_def kmem same)
  obtain s' i' ds' where l: "load_loop font b (of_nat n) (of_nat 512) s1 = Some (Loaded, s')"
    "unpacked s1 b n i' ds' ({[]} \<union> item_path ` set xs) ({} \<union> {(cs, d). File_item cs d \<in> set xs}) s'"
    using load_loop_unpacks [OF arch(1) a(2) _ start arch(2) a(4) arch(3), of font] by auto
  have k: "keeps s1 s'" using keeps_loop [OF l(1)] by simp
  have "owned s1" using s1(6) c by (simp add: owned_def cold_def new_fs_node_def)
  then have own: "owned s'" "tmp_filesystem s' = Some tmpfs" using k s1(7) by (simp_all add: keeps_def)
  have v: "v_nodes s' = v_nodes s1" "vfs_root_node s' = vfs_root_node s1" by (rule kvfs_fields, use k in \<open>simp add: keeps_def\<close>)+
  show thesis
  proof (rule that [OF _ _ own])
    show "start_files font count b (b + of_nat n) s = Some (Loaded, s')" using s1(1) l(1) a(6) by (simp add: start_files_def tmpfs_load_def)
    show "fs_ok s'" using l(2) by (simp add: unpacked_def tree_inv_def)
    show "get_absolute_path p s' = Some (if prefix (butlast DEV_PATH @ [SLASH]) p then (drop 4 p, devfs) else (p, tmpfs))" if "0 \<in> set p" for p
      by (rule start_route [OF _ _ _ that, of s' "v_fresh s" "Suc (v_fresh s)"]) (simp_all add: v s1)
    show "holds_file (free_page s) s' cs d" if "File_item cs d \<in> set xs" for cs d
      using l(2) that by (auto simp: unpacked_def same)
  qed
qed

end
