(* ===== verification/Boot_Tags.thy ===== *)
theory Boot_Tags
  imports Stivale Start
begin

text \<open>
  The two ends of the boot protocol: what the kernel asks for (the header and its tags of \<^verbatim>\<open>boot/stivale2.cpp\<close>, which the loader
  finds in the image) and how \<open>_start\<close> of \<^verbatim>\<open>kernel/kernel.cpp\<close> looks up the tags it gets, with the functions that read them.
\<close>

section \<open>Identifiers\<close>

definition STIVALE2_HEADER_TAG_FRAMEBUFFER_ID :: u64 where "STIVALE2_HEADER_TAG_FRAMEBUFFER_ID = 0x3ecc1bc43d0f7971"
definition STIVALE2_HEADER_TAG_SMP_ID :: u64 where "STIVALE2_HEADER_TAG_SMP_ID = 0x1ab015085f3273df"
definition STIVALE2_STRUCT_TAG_MEMMAP_ID :: u64 where "STIVALE2_STRUCT_TAG_MEMMAP_ID = 0x2187f79e8612de07"
definition STIVALE2_STRUCT_TAG_FRAMEBUFFER_ID :: u64 where "STIVALE2_STRUCT_TAG_FRAMEBUFFER_ID = 0x506461d2950408fa"
definition STIVALE2_STRUCT_TAG_MODULES_ID :: u64 where "STIVALE2_STRUCT_TAG_MODULES_ID = 0x4b6fe466aade04ce"
definition STIVALE2_STRUCT_TAG_RSDP_ID :: u64 where "STIVALE2_STRUCT_TAG_RSDP_ID = 0x9e1786930a375e78"
definition STIVALE2_STRUCT_TAG_SMP_ID :: u64 where "STIVALE2_STRUCT_TAG_SMP_ID = 0x34d1d96339647025"

lemmas tag_ids = STIVALE2_HEADER_TAG_FRAMEBUFFER_ID_def STIVALE2_HEADER_TAG_SMP_ID_def STIVALE2_STRUCT_TAG_MEMMAP_ID_def
  STIVALE2_STRUCT_TAG_FRAMEBUFFER_ID_def STIVALE2_STRUCT_TAG_MODULES_ID_def STIVALE2_STRUCT_TAG_RSDP_ID_def STIVALE2_STRUCT_TAG_SMP_ID_def

section \<open>The header of the kernel\<close>

text \<open>The objects of the image and the bytes the compiler puts there; their addresses are chosen by the linker.\<close>

definition write16 :: "mem \<Rightarrow> u64 \<Rightarrow> u16 \<Rightarrow> mem" where
  "write16 m a v = m(a := ucast v, a + 1 := ucast (drop_bit 8 v))"

definition put_tag :: "u64 \<Rightarrow> u64 \<Rightarrow> u64 \<Rightarrow> mem \<Rightarrow> mem" where
  "put_tag a identifier nxt m = write64 (write64 m a identifier) (a + 8) nxt"

definition smpTag :: "u64 \<Rightarrow> mem \<Rightarrow> mem" where
  "smpTag a m = write64 (put_tag a STIVALE2_HEADER_TAG_SMP_ID 0 m) (a + 16) 0"

definition framebufferTag :: "u64 \<Rightarrow> u64 \<Rightarrow> mem \<Rightarrow> mem" where
  "framebufferTag a smp m = write16 (write16 (write16 (put_tag a STIVALE2_HEADER_TAG_FRAMEBUFFER_ID smp m) (a + 16) 0) (a + 18) 0) (a + 20) 0"

definition sizeof_stack :: u64 where "sizeof_stack = 16384"

definition stivaleHeader :: "u64 \<Rightarrow> u64 \<Rightarrow> u64 \<Rightarrow> mem \<Rightarrow> mem" where
  "stivaleHeader a stack fb m = write64 (write64 (write64 (write64 m a 0) (a + 8) (stack + sizeof_stack))
     (a + 16) (push_bit 1 1 OR push_bit 2 1)) (a + 24) fb"

definition header_image :: "u64 \<Rightarrow> u64 \<Rightarrow> u64 \<Rightarrow> u64 \<Rightarrow> mem \<Rightarrow> mem" where
  "header_image hdr stack fb smp m = stivaleHeader hdr stack fb (framebufferTag fb smp (smpTag smp m))"

section \<open>What \_start looks up\<close>

record boot_info =
  fb_info :: u64
  memmap_info :: u64
  rsdp_info :: u64
  smp_tag_info :: u64
  modules_info :: u64

definition start_tags :: "mem \<Rightarrow> u64 \<Rightarrow> boot_info option" where
  "start_tags m stivale2 = do {
     fb \<leftarrow> get_tag m stivale2 STIVALE2_STRUCT_TAG_FRAMEBUFFER_ID;
     memmap \<leftarrow> get_tag m stivale2 STIVALE2_STRUCT_TAG_MEMMAP_ID;
     rsdp \<leftarrow> get_tag m stivale2 STIVALE2_STRUCT_TAG_RSDP_ID;
     smp \<leftarrow> get_tag m stivale2 STIVALE2_STRUCT_TAG_SMP_ID;
     modules \<leftarrow> get_tag m stivale2 STIVALE2_STRUCT_TAG_MODULES_ID;
     Some \<lparr>fb_info = fb, memmap_info = memmap, rsdp_info = rsdp, smp_tag_info = smp, modules_info = modules\<rparr>
   }"

text \<open>The readers of the tags that are not arrays, with the functions that get them.\<close>

definition video_init_tag :: "u64 \<Rightarrow> 'a kscreen_scheme \<Rightarrow> 'a kscreen_scheme" where
  "video_init_tag tag s = (let m = mem s in
     video_init (read64 m (tag + 16)) (read16 m (tag + 28)) (read16 m (tag + 30)) (read16 m (tag + 24)) (read16 m (tag + 26)) s)"

definition tmpfs_load_tag :: "(u64 \<Rightarrow> u8) \<Rightarrow> u64 \<Rightarrow> 'a ktmpfs_scheme \<Rightarrow> (load_end \<times> 'a ktmpfs_scheme) option" where
  "tmpfs_load_tag font tag s = (let m = mem s in tmpfs_load font (read64 m (tag + 16)) (read64 m (tag + 24)) (read64 m (tag + 32)) s)"

text \<open>The part of \<open>_start\<close> that sets the file systems up, with the tag.\<close>

definition start_files_tag :: "(u64 \<Rightarrow> u8) \<Rightarrow> u64 \<Rightarrow> 'a kvfs_scheme \<Rightarrow> (load_end \<times> 'a kvfs_scheme) option" where
  "start_files_tag font tag s = do {
     s \<leftarrow> start_fs s;
     tmpfs_load_tag font tag s
   }"

section \<open>The header as the loader finds it\<close>

lemma write16_other: "x \<notin> span a 2 \<Longrightarrow> write16 m a v x = m x"
  using add_of_nat_in_span [of 0 2 a] add_of_nat_in_span [of 1 2 a] by (auto simp: write16_def)

lemma agree_write16: "span a 2 \<subseteq> R \<Longrightarrow> agree R (write16 m a v) m"
  by (auto simp: agree_def intro: write16_other)

lemma put_tag_reads: "read64 (put_tag a i n m) a = i" "read64 (put_tag a i n m) (a + 8) = n"
  using field_apart(1) [of a] by (simp_all add: put_tag_def read64_write64_other)

lemma agree_put_tag:
  assumes "16 \<le> n"
  shows "agree (span a n) (put_tag a i x m) m"
proof -
  have "span a 8 \<subseteq> span a n" "span (a + 8) 8 \<subseteq> span a n" using span_offset_subset [of 0 8 n a] span_offset_subset [of 8 8 n a] assms by simp_all
  then show ?thesis unfolding put_tag_def by (meson agree_trans agree_write64)
qed

lemma read64_agree: "agree R m' m \<Longrightarrow> span a 8 \<inter> R = {} \<Longrightarrow> read64 m' a = read64 m a"
  by (rule read64_cong) (auto intro: agree_off)

lemma smpTag_bytes:
  "agree (span a 24) (smpTag a m) m" "read64 (smpTag a m) a = STIVALE2_HEADER_TAG_SMP_ID" "read64 (smpTag a m) (a + 8) = 0" "read64 (smpTag a m) (a + 16) = 0"
proof -
  have "span (a + 16) 8 \<subseteq> span a 24" using span_offset_subset [of 16 8 24 a] by simp
  then show "agree (span a 24) (smpTag a m) m" unfolding smpTag_def by (rule agree_trans [OF agree_write64 agree_put_tag]) simp
  have "span a 8 \<inter> span (a + 16) 8 = {}" "span (a + 8) 8 \<inter> span (a + 16) 8 = {}"
    using span_offset_disjoint [of 0 8 16 8 a] span_offset_disjoint [of 8 8 16 8 a] by simp_all
  then show "read64 (smpTag a m) a = STIVALE2_HEADER_TAG_SMP_ID" "read64 (smpTag a m) (a + 8) = 0"
    by (simp_all add: smpTag_def read64_write64_other put_tag_reads)
qed (simp add: smpTag_def)

lemma framebufferTag_bytes:
  "agree (span a 22) (framebufferTag a smp m) m" "read64 (framebufferTag a smp m) a = STIVALE2_HEADER_TAG_FRAMEBUFFER_ID"
  "read64 (framebufferTag a smp m) (a + 8) = smp"
proof -
  let ?R = "span (a + 16) 6" and ?t = "put_tag a STIVALE2_HEADER_TAG_FRAMEBUFFER_ID smp m"
  have sub: "span (a + 16) 2 \<subseteq> ?R" "span (a + 18) 2 \<subseteq> ?R" "span (a + 20) 2 \<subseteq> ?R"
    using span_offset_subset [of 0 2 6 "a + 16"] span_offset_subset [of 2 2 6 "a + 16"] span_offset_subset [of 4 2 6 "a + 16"] by (simp_all add: add.assoc)
  have ag: "agree ?R (framebufferTag a smp m) ?t" unfolding framebufferTag_def
    by (rule agree_trans [OF agree_write16 [OF sub(3)] agree_trans [OF agree_write16 [OF sub(2)] agree_write16 [OF sub(1)]]])
  have "?R \<subseteq> span a 22" using span_offset_subset [of 16 6 22 a] by simp
  then show "agree (span a 22) (framebufferTag a smp m) m" by (rule agree_trans [OF agree_mono [OF ag] agree_put_tag]) simp
  have "span a 8 \<inter> ?R = {}" "span (a + 8) 8 \<inter> ?R = {}" using span_offset_disjoint [of 0 8 16 6 a] span_offset_disjoint [of 8 8 16 6 a] by simp_all
  then show "read64 (framebufferTag a smp m) a = STIVALE2_HEADER_TAG_FRAMEBUFFER_ID" "read64 (framebufferTag a smp m) (a + 8) = smp"
    using read64_agree [OF ag] by (simp_all add: put_tag_reads)
qed

lemma stivaleHeader_bytes:
  "agree (span a 32) (stivaleHeader a stack fb m) m" "read64 (stivaleHeader a stack fb m) (a + 8) = stack + sizeof_stack"
  "read64 (stivaleHeader a stack fb m) (a + 16) = 6" "read64 (stivaleHeader a stack fb m) (a + 24) = fb" "read64 (stivaleHeader a stack fb m) a = 0"
proof -
  have sub: "span a 8 \<subseteq> span a 32" by (rule span_mono) simp
  show "agree (span a 32) (stivaleHeader a stack fb m) m" unfolding stivaleHeader_def
    by (meson agree_trans agree_write64 field_inside(5-7) sub)
  have "span a 8 \<inter> span (a + 16) 8 = {}" "span a 8 \<inter> span (a + 24) 8 = {}"
    using span_offset_disjoint [of 0 8 16 8 a] span_offset_disjoint [of 0 8 24 8 a] by simp_all
  then show "read64 (stivaleHeader a stack fb m) (a + 8) = stack + sizeof_stack" "read64 (stivaleHeader a stack fb m) (a + 16) = 6"
    "read64 (stivaleHeader a stack fb m) (a + 24) = fb" "read64 (stivaleHeader a stack fb m) a = 0"
    using field_apart(1,7-9) [of a] by (simp_all add: stivaleHeader_def read64_write64_other)
qed

text \<open>What the loader reads in the image of the kernel: with the three objects at places of their own, the header has the end of the kernel's stack, and its
  list of tags is the framebuffer tag followed by the tag for the other cores and ends there, so that a walk over it finds both requests and no
  third one.\<close>

theorem header_requests:
  assumes "fb \<noteq> 0" "smp \<noteq> 0" "span hdr 32 \<inter> span fb 22 = {}" "span hdr 32 \<inter> span smp 24 = {}" "span fb 22 \<inter> span smp 24 = {}"
  shows "read64 (header_image hdr stack fb smp m) (hdr + 8) = stack + 16384 \<and>
    tag_list (header_image hdr stack fb smp m) (read64 (header_image hdr stack fb smp m) (hdr + 24)) [fb, smp] \<and>
    (\<forall>i. tag_loop (header_image hdr stack fb smp m) i (read64 (header_image hdr stack fb smp m) (hdr + 24)) =
       Some (if i = STIVALE2_HEADER_TAG_FRAMEBUFFER_ID then fb else if i = STIVALE2_HEADER_TAG_SMP_ID then smp else 0))"
proof -
  let ?m1 = "smpTag smp m" and ?m2 = "framebufferTag fb smp (smpTag smp m)" and ?m = "header_image hdr stack fb smp m"
  note h = stivaleHeader_bytes [of hdr stack fb ?m2, folded header_image_def]
  note f = framebufferTag_bytes [of fb smp ?m1] and t = smpTag_bytes [of smp m]
  have i: "span fb 8 \<subseteq> span fb 22" "span (fb + 8) 8 \<subseteq> span fb 22" "span smp 8 \<subseteq> span smp 24" "span (smp + 8) 8 \<subseteq> span smp 24"
    using span_offset_subset [of 0 8 22 fb] span_offset_subset [of 8 8 22 fb] field_inside(1,2) [of smp] by simp_all
  have hf: "read64 ?m a = read64 ?m2 a" if "span a 8 \<subseteq> span fb 22 \<or> span a 8 \<subseteq> span smp 24" for a
    by (rule read64_agree [OF h(1)]) (use that assms(3,4) in blast)
  have fs: "read64 ?m2 a = read64 ?m1 a" if "span a 8 \<subseteq> span smp 24" for a
    by (rule read64_agree [OF f(1)]) (use that assms(5) in blast)
  have rf: "read64 ?m fb = STIVALE2_HEADER_TAG_FRAMEBUFFER_ID" "read64 ?m (fb + 8) = smp" using hf i(1,2) f(2,3) by simp_all
  have rs: "read64 ?m smp = STIVALE2_HEADER_TAG_SMP_ID" "read64 ?m (smp + 8) = 0" using hf fs i(3,4) t(2,3) by simp_all
  have l: "tag_list ?m (read64 ?m (hdr + 24)) [fb, smp]" using h(4) rf(2) rs(2) assms(1,2) by simp
  moreover have "tag_loop ?m i (read64 ?m (hdr + 24)) =
       Some (if i = STIVALE2_HEADER_TAG_FRAMEBUFFER_ID then fb else if i = STIVALE2_HEADER_TAG_SMP_ID then smp else 0)" for i
    using tag_loop_finds [OF l, of i] rf(1) rs(1) by auto
  ultimately show ?thesis using h(2) by (simp add: sizeof_stack_def)
qed

theorem header_requests_witness:
  "tag_loop (header_image 0x1000 0x8000 0x2000 0x3000 (\<lambda>_. 0)) STIVALE2_HEADER_TAG_SMP_ID
     (read64 (header_image 0x1000 0x8000 0x2000 0x3000 (\<lambda>_. 0)) (0x1000 + 24)) = Some 0x3000"
proof -
  have "span (0x1000 + of_nat 0) 32 \<inter> span (0x1000 + of_nat 0x1000) 22 = {}" "span (0x1000 + of_nat 0) 32 \<inter> span (0x1000 + of_nat 0x2000) 24 = {}"
    "span (0x1000 + of_nat 0x1000) 22 \<inter> span (0x1000 + of_nat 0x2000) 24 = {}" by (rule span_offset_disjoint; simp)+
  then have d: "span 0x1000 32 \<inter> span 0x2000 22 = {}" "span 0x1000 32 \<inter> span 0x3000 24 = {}" "span 0x2000 22 \<inter> span 0x3000 24 = {}" by simp_all
  have "0x2000 \<noteq> (0 :: u64)" "0x3000 \<noteq> (0 :: u64)" by simp_all
  from header_requests [OF this d, of "0x8000" "\<lambda>_. 0", THEN conjunct2, THEN conjunct2, THEN spec, of STIVALE2_HEADER_TAG_SMP_ID] show ?thesis
    by (simp only: tag_ids) simp
qed

section \<open>The tags the kernel gets\<close>

text \<open>The first tag of a kind in the list, or null when there is none.\<close>

definition first_tag :: "mem \<Rightarrow> u64 list \<Rightarrow> u64 \<Rightarrow> u64 \<Rightarrow> bool" where
  "first_tag m xs i p \<longleftrightarrow> (if p = 0 then \<forall>x \<in> set xs. read64 m x \<noteq> i
     else \<exists>k < length xs. xs ! k = p \<and> read64 m p = i \<and> (\<forall>j < k. read64 m (xs ! j) \<noteq> i))"

lemma tag_list_nonzero: "tag_list m t xs \<Longrightarrow> 0 \<notin> set xs"
  by (induction xs arbitrary: t) auto

lemma get_tag_first:
  assumes "tag_list m (read64 m (stivale2 + 128)) xs"
  shows "\<exists>p. get_tag m stivale2 i = Some p \<and> first_tag m xs i p"
proof (cases "find (\<lambda>x. read64 m x = i) xs")
  case None
  then have "\<forall>x \<in> set xs. read64 m x \<noteq> i" by (simp add: find_None_iff)
  then show ?thesis using tag_loop_finds [OF assms, of i] None by (simp add: get_tag_def first_tag_def)
next
  case (Some p)
  then obtain k where "k < length xs" "xs ! k = p" "read64 m p = i" "\<forall>j < k. read64 m (xs ! j) \<noteq> i" by (auto simp: find_Some_iff)
  moreover have "p \<noteq> 0" using tag_list_nonzero [OF assms] \<open>k < length xs\<close> \<open>xs ! k = p\<close> by (metis nth_mem)
  ultimately show ?thesis using tag_loop_finds [OF assms, of i] Some by (auto simp: get_tag_def first_tag_def)
qed

text \<open>C37: on a list of tags that ends, in whatever order and with whatever else in it, \<open>_start\<close> gets all its five pointers: each is the first tag
  with the identifier, and null exactly when there is none.\<close>

theorem start_tags_found:
  assumes "tag_list m (read64 m (stivale2 + 128)) xs"
  shows "\<exists>b. start_tags m stivale2 = Some b \<and> first_tag m xs STIVALE2_STRUCT_TAG_FRAMEBUFFER_ID (fb_info b) \<and>
    first_tag m xs STIVALE2_STRUCT_TAG_MEMMAP_ID (memmap_info b) \<and> first_tag m xs STIVALE2_STRUCT_TAG_RSDP_ID (rsdp_info b) \<and>
    first_tag m xs STIVALE2_STRUCT_TAG_SMP_ID (smp_tag_info b) \<and> first_tag m xs STIVALE2_STRUCT_TAG_MODULES_ID (modules_info b)"
proof -
  note g = get_tag_first [OF assms]
  obtain a where "get_tag m stivale2 STIVALE2_STRUCT_TAG_FRAMEBUFFER_ID = Some a" "first_tag m xs STIVALE2_STRUCT_TAG_FRAMEBUFFER_ID a" using g by blast
  moreover obtain b where "get_tag m stivale2 STIVALE2_STRUCT_TAG_MEMMAP_ID = Some b" "first_tag m xs STIVALE2_STRUCT_TAG_MEMMAP_ID b" using g by blast
  moreover obtain c where "get_tag m stivale2 STIVALE2_STRUCT_TAG_RSDP_ID = Some c" "first_tag m xs STIVALE2_STRUCT_TAG_RSDP_ID c" using g by blast
  moreover obtain d where "get_tag m stivale2 STIVALE2_STRUCT_TAG_SMP_ID = Some d" "first_tag m xs STIVALE2_STRUCT_TAG_SMP_ID d" using g by blast
  moreover obtain e where "get_tag m stivale2 STIVALE2_STRUCT_TAG_MODULES_ID = Some e" "first_tag m xs STIVALE2_STRUCT_TAG_MODULES_ID e" using g by blast
  ultimately show ?thesis by (simp add: start_tags_def)
qed

text \<open>A list of one tag, the number of cores; the other pointers are null.\<close>

definition one_tag_sample :: mem where
  "one_tag_sample = put_tag 0x2000 STIVALE2_STRUCT_TAG_SMP_ID 0 (write64 (\<lambda>_. 0) (0x1000 + 128) 0x2000)"

theorem start_tags_found_witness: "\<exists>b. start_tags one_tag_sample 0x1000 = Some b \<and> smp_tag_info b = 0x2000 \<and> memmap_info b = 0"
proof -
  have d: "span (0x1000 + of_nat 128) 8 \<inter> span (0x1000 + of_nat 0x1000) 16 = {}" by (rule span_offset_disjoint) simp_all
  have "read64 one_tag_sample (0x1000 + 128) = 0x2000"
    using read64_agree [OF agree_put_tag [OF order_refl], of "0x1000 + 128" "0x2000" STIVALE2_STRUCT_TAG_SMP_ID 0 "write64 (\<lambda>_. 0) (0x1000 + 128) 0x2000"] d
    by (simp add: one_tag_sample_def)
  moreover have r: "read64 one_tag_sample 0x2000 = STIVALE2_STRUCT_TAG_SMP_ID" "read64 one_tag_sample (0x2000 + 8) = 0"
    unfolding one_tag_sample_def by (rule put_tag_reads)+
  ultimately have l: "tag_list one_tag_sample (read64 one_tag_sample (0x1000 + 128)) [0x2000]" by simp
  show ?thesis using start_tags_found [OF l] r(1) by (fastforce simp: first_tag_def tag_ids split: if_splits)
qed

section \<open>The readers\<close>

text \<open>The screen gets the geometry of the tag and is painted all over.\<close>

lemma video_init_tag_paints:
  obtains m where "video_init_tag tag s = s\<lparr>mem := m, frameBuffer := read64 (mem s) (tag + 16), pitch := read16 (mem s) (tag + 28), bpp := read16 (mem s) (tag + 30),
      screen_width := read16 (mem s) (tag + 24), screen_height := read16 (mem s) (tag + 26), cursor_x := 0, cursor_y := 0\<rparr>"
    "painted (read64 (mem s) (tag + 16)) {h * (unat (read16 (mem s) (tag + 28)) div 4) + w | w h. w < unat (read16 (mem s) (tag + 24)) \<and> h < unat (read16 (mem s) (tag + 26))}
       0x8075FF (mem s) m"
proof -
  let ?s = "s\<lparr>frameBuffer := read64 (mem s) (tag + 16), pitch := read16 (mem s) (tag + 28), bpp := read16 (mem s) (tag + 30),
      screen_width := read16 (mem s) (tag + 24), screen_height := read16 (mem s) (tag + 26)\<rparr>"
  obtain m where m: "clear_screen 0x8075FF ?s = ?s\<lparr>mem := m, cursor_x := 0, cursor_y := 0\<rparr>"
    "painted (frameBuffer ?s) {fb_index w h ?s | w h. w < unat (screen_width ?s) \<and> h < unat (screen_height ?s)} 0x8075FF (mem ?s) m"
    by (rule clear_paints) (rule that)
  have "video_init_tag tag s = ?s\<lparr>mem := m, cursor_x := 0, cursor_y := 0\<rparr>" using m(1) by (simp add: video_init_tag_def video_init_def Let_def)
  then show thesis using m(2) by (intro that [of m]) (simp_all add: fb_index_def)
qed

text \<open>Setting up the file systems does not change memory, so the tag says the same before and after.\<close>

lemma start_fs_mem: "start_fs s = Some s' \<Longrightarrow> mem s' = mem s"
  by (auto simp: start_fs_def tmpfs_init_def devfs_init_def add_fs_def tmpfs_new_def devfs_new_def add_device_def mount_def Let_def
      split: Option.bind_splits prod.splits if_splits option.splits)

lemma start_files_tag_reads:
  "start_files_tag font tag s = start_files font (read64 (mem s) (tag + 16)) (read64 (mem s) (tag + 24)) (read64 (mem s) (tag + 32)) s"
  using start_fs_mem [of s] by (cases "start_fs s") (simp_all add: start_files_tag_def start_files_def tmpfs_load_tag_def Let_def)

end
