(* ===== verification/Boot_Memory.thy ===== *)
theory Boot_Memory
  imports Stivale Kernel_Heap
begin

text \<open>
  What the kernel asks of the boot loader (\<^verbatim>\<open>boot/stivale2.cpp\<close>), how \<open>_start\<close> (\<^verbatim>\<open>kernel/kernel.cpp\<close>) finds what it
  gets, and the step from there to a working heap: \<open>PMM::init\<close> on the memory map of the tag, then \<open>Heap::init\<close>.
\<close>

section \<open>From the memory map to the heap\<close>

definition start_memory :: "u64 \<Rightarrow> 'a kheap_scheme \<Rightarrow> 'a kheap_scheme option" where
  "start_memory memmap_info s = heap_init (pmm_init_in (memmap_array memmap_info) (memmap_entries (mem s) memmap_info) s)"

text \<open>The bytes and the pages of the bitmap for a memory map.\<close>

definition map_bytes :: "mmap_entry list \<Rightarrow> nat" where
  "map_bytes es = DIV_CEIL (unat (find_last_usable es 0) div PAGE_SIZE) 8"

definition map_pages :: "mmap_entry list \<Rightarrow> nat" where
  "map_pages es = DIV_CEIL (map_bytes es) PAGE_SIZE"

definition first_page :: "mmap_entry \<Rightarrow> nat" where
  "first_page e = unat (mm_base e) div PAGE_SIZE"

definition end_page :: "mmap_entry \<Rightarrow> nat" where
  "end_page e = first_page e + unat (mm_length e) div PAGE_SIZE"

text \<open>A memory map the start can work with: the first region that has room for the bitmap is \<open>e\<close>, it is usable, starts at a page and has 258
  pages more than the bitmap takes; no other free region, with the page after it, reaches into the pages of the bitmap or past its
  last bit; and the memory ends below 64 TiB.\<close>

definition good_map :: "mmap_entry list \<Rightarrow> mmap_entry \<Rightarrow> mmap_entry list \<Rightarrow> bool" where
  "good_map pre e post \<longleftrightarrow> (let es = pre @ e # post in
     (\<forall>d \<in> set pre. \<not> (free_type d \<and> map_bytes es \<le> unat (mm_length d))) \<and> mm_type e = STIVALE2_MMAP_USABLE \<and>
     unat (mm_base e) mod PAGE_SIZE = 0 \<and> first_page e + map_pages es + 258 \<le> end_page e \<and> end_page e < map_bytes es * 8 \<and>
     (\<forall>d \<in> set (pre @ post). free_type d \<longrightarrow> end_page d < map_bytes es * 8 \<and>
        (end_page d < first_page e \<or> first_page e + map_pages es \<le> first_page d)) \<and>
     unat (find_last_usable es 0) \<le> 2 ^ 46)"

lemma cleared_pages: "cleared_page d j \<longleftrightarrow> free_type d \<and> first_page d \<le> j \<and> j \<le> end_page d"
  by (simp add: cleared_page_def first_page_def end_page_def)

text \<open>The search for a place skips what comes before \<open>e\<close>.\<close>

lemma place_bitmap_first:
  assumes "\<forall>d \<in> set pre. \<not> (free_type d \<and> bitmapSize s \<le> unat (mm_length d))" "free_type e" "bitmapSize s \<le> unat (mm_length e)"
  shows "place_bitmap (pre @ e # post) s = (pre @ shortened (bitmapSize s) e # post,
    s\<lparr>bitmap := mm_base e + PHYSICAL_BASE_ADDRESS, mem := filled e s\<rparr>)"
  using assms
proof (induction pre)
  case Nil
  then show ?case by (auto simp: Let_def shortened_def free_type_def)
next
  case (Cons d pre)
  then show ?case by (auto simp: Let_def free_type_def)
qed

lemma map_bytes_small:
  assumes "unat (find_last_usable es 0) \<le> 2 ^ 46"
  shows "map_bytes es \<le> 2 ^ 31"
proof -
  have "unat (find_last_usable es 0) div 4096 \<le> 2 ^ 46 div 4096" using assms by (rule div_le_mono)
  then show ?thesis by (simp add: map_bytes_def DIV_CEIL_def PAGE_SIZE_def)
qed

lemma first_page_addr: "unat (mm_base e) mod PAGE_SIZE = 0 \<Longrightarrow> mm_base e = page_addr (first_page e)"
proof -
  assume "unat (mm_base e) mod PAGE_SIZE = 0"
  then have "unat (mm_base e) div PAGE_SIZE * PAGE_SIZE = unat (mm_base e)" by (metis add.right_neutral div_mult_mod_eq)
  then show ?thesis by (simp only: page_addr_def first_page_def) simp
qed

text \<open>What the bitmap takes is cut off the region.\<close>

lemma shortened_pages:
  assumes "unat (mm_base e) mod PAGE_SIZE = 0" "first_page e + DIV_CEIL n PAGE_SIZE \<le> end_page e" "end_page e < 2 ^ 34"
  shows "first_page (shortened n e) = first_page e + DIV_CEIL n PAGE_SIZE" "end_page (shortened n e) = end_page e"
proof -
  let ?k = "DIV_CEIL n PAGE_SIZE"
  have lim: "(first_page e + ?k) * 4096 < 2 ^ 64" using assms(2,3) by simp
  have len: "?k * 4096 \<le> unat (mm_length e)" using assms(2) by (simp add: end_page_def PAGE_SIZE_def)
  have "mm_base (shortened n e) = of_nat ((first_page e + ?k) * 4096)"
    by (simp add: shortened_def first_page_addr [OF assms(1)] page_addr_def PAGE_SIZE_def algebra_simps)
  then have "unat (mm_base (shortened n e)) = (first_page e + ?k) * 4096" using lim by (simp only: unat_of_nat64)
  then show f: "first_page (shortened n e) = first_page e + ?k" by (simp add: first_page_def PAGE_SIZE_def)
  have k: "unat (of_nat (?k * 4096) :: u64) = ?k * 4096" using lim by (intro unat_of_nat64) simp
  have "mm_length (shortened n e) = mm_length e - of_nat (?k * 4096)" by (simp add: shortened_def PAGE_SIZE_def)
  moreover have "of_nat (?k * 4096) \<le> mm_length e" using len k by (simp only: word_le_nat_alt)
  ultimately have "unat (mm_length (shortened n e)) = unat (mm_length e) - ?k * 4096" using k by (simp only: unat_sub)
  then have "unat (mm_length (shortened n e)) div 4096 = unat (mm_length e) div 4096 - ?k" 
  proof -
    obtain y where "unat (mm_length e) = y + ?k * 4096" using len by (metis le_add_diff_inverse2)
    then show ?thesis using \<open>unat (mm_length (shortened n e)) = unat (mm_length e) - ?k * 4096\<close> by simp
  qed
  then show "end_page (shortened n e) = end_page e" using f len by (simp add: end_page_def PAGE_SIZE_def)
qed

section \<open>PMM::init on a good map\<close>

lemma pmm_init_good:
  fixes s :: "'a kmem_scheme"
  assumes g: "good_map pre e post" and s0: "lastUsablePage s = 0" "pmm_lock s = 0"
  obtains s' where "pmm_init (pre @ e # post) s = (pre @ shortened (map_bytes (pre @ e # post)) e # post, s')" "pages_ok s'"
    "free_run s' (first_page e + map_pages (pre @ e # post)) 258" "bitmapSize s' = map_bytes (pre @ e # post)"
    "bitmap s' = PHYSICAL_BASE_ADDRESS + page_addr (first_page e)" "kmem.more s' = kmem.more s"
    "\<forall>d \<in> set (pre @ shortened (map_bytes (pre @ e # post)) e # post). \<forall>j. cleared_page d j \<longrightarrow> j < bitmapSize s' * 8"
proof -
  let ?es = "pre @ e # post" and ?P = "first_page e"
  let ?n = "map_bytes ?es" and ?k = "map_pages ?es"
  let ?e = "shortened ?n e" and ?es' = "pre @ shortened ?n e # post"
  have gm: "\<forall>d \<in> set pre. \<not> (free_type d \<and> ?n \<le> unat (mm_length d))" "free_type e" "unat (mm_base e) mod PAGE_SIZE = 0"
    "?P + ?k + 258 \<le> end_page e" "end_page e < ?n * 8"
    and others: "\<And>d. d \<in> set (pre @ post) \<Longrightarrow> free_type d \<Longrightarrow> end_page d < ?n * 8 \<and> (end_page d < ?P \<or> ?P + ?k \<le> first_page d)"
    and small: "?n \<le> 2 ^ 31" using g map_bytes_small [of ?es] by (auto simp: good_map_def Let_def free_type_def)
  have lim: "end_page e < 2 ^ 34" using gm(5) small by simp
  have sp: "first_page ?e = ?P + ?k" "end_page ?e = end_page e" using shortened_pages [OF gm(3) _ lim, of ?n] gm(4) by (simp_all add: map_pages_def)
  have cover: "?n \<le> ?k * 4096" unfolding map_pages_def PAGE_SIZE_def by (rule DIV_CEIL_mult_ge) simp
  have "?k * 4096 \<le> unat (mm_length e)" using gm(4) by (simp add: end_page_def PAGE_SIZE_def)
  then have fits: "?n \<le> unat (mm_length e)" using cover by simp
  let ?s1 = "s\<lparr>lastUsablePage := find_last_usable ?es 0, bitmapSize := ?n\<rparr>"
  let ?bm = "mm_base e + PHYSICAL_BASE_ADDRESS"
  let ?s' = "?s1\<lparr>bitmap := ?bm, mem := mark_free ?bm ?es' (filled e ?s1)\<rparr>"
  have "place_bitmap ?es ?s1 = (?es', ?s1\<lparr>bitmap := ?bm, mem := filled e ?s1\<rparr>)"
    using place_bitmap_first [of pre ?s1 e post] gm(1,2) fits by simp
  then have init: "pmm_init ?es s = (?es', ?s')" using s0(1) by (simp add: pmm_init_def Let_def map_bytes_def)
  have cl: "j < ?n * 8 \<and> \<not> (?P \<le> j \<and> j < ?P + ?k)" if "d \<in> set ?es'" "cleared_page d j" for d j
  proof (cases "d = ?e")
    case True
    then show ?thesis using that(2) sp gm(5) by (auto simp: cleared_pages)
  next
    case False
    then show ?thesis using that others [of d] by (fastforce simp: cleared_pages)
  qed
  have ft: "free_type ?e" using gm(2) by (simp add: free_type_def shortened_def)
  have fp: "free_page ?s' j \<longleftrightarrow> j < ?n * 8 \<and> (\<exists>d \<in> set ?es'. cleared_page d j)" for j
    using pmm_init_free_iff [OF init, of j] gm(2) fits s0(1) by (auto simp: map_bytes_def)
  have bb: "bitmap_bytes ?s' = span (PHYSICAL_BASE_ADDRESS + page_addr ?P) ?n"
    by (simp add: bitmap_bytes_def first_page_addr [OF gm(3)] add.commute)
  have "(?P + ?k) * PAGE_SIZE \<le> 2 ^ 64" using gm(4) lim by (simp add: PAGE_SIZE_def)
  note ps = pages_span [OF this]
  have sub: "bitmap_bytes ?s' \<subseteq> (\<Union>i \<in> {?P ..< ?P + ?k}. frame i)" unfolding bb ps [symmetric] using cover by (intro span_mono) (simp add: PAGE_SIZE_def)
  have "frame j \<inter> bitmap_bytes ?s' = {}" if "free_page ?s' j" for j
  proof -
    have j: "j < ?n * 8" "\<not> (?P \<le> j \<and> j < ?P + ?k)" using that cl unfolding fp by blast+
    have "frame j \<inter> frame i = {}" if "i \<in> {?P ..< ?P + ?k}" for i using j that small gm(4) lim by (intro frame_disjoint) auto
    then show ?thesis using sub by blast
  qed
  then have ok: "pages_ok ?s'" using small s0(2) by (simp add: pages_ok_def pmm_wf_def)
  have "free_page ?s' j" if "?P + ?k \<le> j" "j < ?P + ?k + 258" for j
    unfolding fp using that gm(4,5) sp ft by (auto simp: cleared_pages)
  then have run: "free_run ?s' (?P + ?k) 258" by (simp add: free_run_def)
  show thesis
    by (rule that [OF init ok run]) (use cl in \<open>simp_all add: first_page_addr [OF gm(3)] add.commute\<close>)
qed

section \<open>The heap\<close>

lemma start_memory_run:
  fixes s :: "'a kheap_scheme"
  assumes es: "elems 24 read_mmap_entry (mem s) (memmap_array tag) (memmap_entries (mem s) tag) = pre @ e # post" and g: "good_map pre e post"
    and n: "memmap_entries (mem s) tag * 24 \<le> 2 ^ 64"
    and apart: "span (memmap_array tag) (memmap_entries (mem s) tag * 24) \<inter> span (PHYSICAL_BASE_ADDRESS + page_addr (first_page e)) (map_bytes (pre @ e # post)) = {}"
    and s0: "lastUsablePage s = 0" "pmm_lock s = 0"
  obtains h where "start_memory tag s = Some h" "heap_wf h (arena (baseAddr h))" "heap_lock h = heap_lock s" "\<And>n. unat n + 24 \<le> 2 ^ 20 \<Longrightarrow> can_serve n h"
proof -
  let ?a = "memmap_array tag" and ?n = "memmap_entries (mem s) tag"
  obtain s' where s': "pmm_init (pre @ e # post) s = (pre @ shortened (map_bytes (pre @ e # post)) e # post, s')" "pages_ok s'"
    "free_run s' (first_page e + map_pages (pre @ e # post)) 258" "bitmapSize s' = map_bytes (pre @ e # post)"
    "bitmap s' = PHYSICAL_BASE_ADDRESS + page_addr (first_page e)" "kmem.more s' = kmem.more s"
    "\<forall>d \<in> set (pre @ shortened (map_bytes (pre @ e # post)) e # post). \<forall>j. cleared_page d j \<longrightarrow> j < bitmapSize s' * 8"
    by (rule pmm_init_good [OF g s0]) (rule that)
  have ap: "span ?a (?n * 24) \<inter> bitmap_bytes s' = {}" using apart s'(4,5) by (simp add: bitmap_bytes_def)
  obtain m where m: "pmm_init_in ?a ?n s = s'\<lparr>mem := m\<rparr>" "agree (span ?a (?n * 24)) m (mem s')"
    using pmm_init_in_refines [OF _ n ap s'(7), of s, unfolded es, OF s'(1)] by blast
  have "m x = mem s' x" if "x \<in> bitmap_bytes s'" for x using ap that agree_off [OF m(2)] by blast
  note st = pmm_store [OF this]
  have ok: "pages_ok (s'\<lparr>mem := m\<rparr>)" using st(2) s'(2) by simp
  have run: "free_run (s'\<lparr>mem := m\<rparr>) (first_page e + map_pages (pre @ e # post)) 258" using s'(3) st(1) by (simp add: free_run_def)
  have lk: "heap_lock (s'\<lparr>mem := m\<rparr>) = heap_lock s" using s'(6) by (cases s; cases s') simp
  obtain h where "heap_init (s'\<lparr>mem := m\<rparr>) = Some h" "heap_wf h (arena (baseAddr h))" "heap_lock h = heap_lock (s'\<lparr>mem := m\<rparr>)"
    "\<And>n. unat n + 24 \<le> 2 ^ 20 \<Longrightarrow> can_serve n h" by (rule heap_init_run [OF ok run]) (rule that)
  then show thesis using lk m(1) by (intro that [of h]) (simp_all add: start_memory_def)
qed


text \<open>A machine with two megabytes at \<open>0x100000\<close> and the kernel at \<open>0x400000\<close>; the tag lies at \<open>0x500000\<close>.\<close>

definition boot_bytes_sample :: mem where
  "boot_bytes_sample = (\<lambda>_. 0)(0x500010 := 2, 0x50001A := 0x10, 0x500022 := 0x20, 0x500028 := 1, 0x500032 := 0x40, 0x50003A := 1, 0x500040 := 1, 0x500041 := 0x10)"

definition boot_state_sample :: kheap where
  "boot_state_sample = \<lparr>mem = boot_bytes_sample, bitmap = 0, bitmapSize = 0, lastUsablePage = 0, pmm_lock = 0, bucketList = 0, baseAddr = 0, heap_lock = 0\<rparr>"

definition usable_region :: mmap_entry where
  "usable_region = \<lparr>mm_base = 0x100000, mm_length = 0x200000, mm_type = 1\<rparr>"

definition kernel_region :: mmap_entry where
  "kernel_region = \<lparr>mm_base = 0x400000, mm_length = 0x10000, mm_type = 0x1001\<rparr>"

lemma boot_bytes_read: "elems 24 read_mmap_entry boot_bytes_sample (memmap_array 0x500000) 2 = [] @ usable_region # [kernel_region]"
  "memmap_entries boot_bytes_sample 0x500000 = 2"
  by (simp_all add: elems_def upt_rec [of _ 2] memmap_array_def memmap_entries_def read_mmap_entry_def read64_def read32_def boot_bytes_sample_def
      usable_region_def kernel_region_def)

lemma boot_map_sample: "map_bytes ([] @ usable_region # [kernel_region]) = 130" "good_map [] usable_region [kernel_region]"
proof -
  have last: "find_last_usable [usable_region, kernel_region] 0 = 0x410000"
    by (simp add: usable_region_def kernel_region_def STIVALE2_MMAP_USABLE_def STIVALE2_MMAP_KERNEL_AND_MODULES_def Let_def)
  have b: "map_bytes [usable_region, kernel_region] = 130" unfolding map_bytes_def last by (simp add: DIV_CEIL_def PAGE_SIZE_def)
  then show "map_bytes ([] @ usable_region # [kernel_region]) = 130" by simp
  have k: "map_pages [usable_region, kernel_region] = 1" unfolding map_pages_def b by (simp add: DIV_CEIL_def PAGE_SIZE_def)
  have "\<not> free_type kernel_region" by (simp add: free_type_def kernel_region_def STIVALE2_MMAP_USABLE_def STIVALE2_MMAP_BOOTLOADER_RECLAIMABLE_def)
  then show "good_map [] usable_region [kernel_region]" unfolding good_map_def Let_def
    by (simp add: b k last del: find_last_usable.simps) (simp add: usable_region_def STIVALE2_MMAP_USABLE_def PAGE_SIZE_def first_page_def end_page_def)
qed


section \<open>A region that ends where the bitmap starts\<close>

text \<open>When another free region ends at the region of the bitmap, the page after it, which \<open>PMM::init\<close> frees too, is the first page of the bitmap:
  the allocator starts in a state in which it gives its own bitmap away.\<close>

theorem bitmap_page_freed:
  assumes "pmm_init (pre @ e # post) s = (es', s')" "lastUsablePage s = 0"
    and "\<forall>d \<in> set pre. \<not> (free_type d \<and> map_bytes (pre @ e # post) \<le> unat (mm_length d))"
    and "free_type e" "map_bytes (pre @ e # post) \<le> unat (mm_length e)" "unat (mm_base e) mod PAGE_SIZE = 0"
    and "d \<in> set (pre @ post)" "free_type d" "end_page d = first_page e" "first_page e < map_bytes (pre @ e # post) * 8"
  shows "free_page s' (first_page e) \<and> \<not> pmm_wf s'"
proof -
  let ?es = "pre @ e # post"
  let ?s1 = "s\<lparr>lastUsablePage := find_last_usable ?es 0, bitmapSize := map_bytes ?es\<rparr>" and ?bm = "mm_base e + PHYSICAL_BASE_ADDRESS"
  have "place_bitmap ?es ?s1 = (pre @ shortened (map_bytes ?es) e # post, ?s1\<lparr>bitmap := ?bm, mem := filled e ?s1\<rparr>)"
    using place_bitmap_first [of pre ?s1 e post] assms(3-5) by simp
  then have r: "es' = pre @ shortened (map_bytes ?es) e # post" "bitmap s' = ?bm" "bitmapSize s' = map_bytes ?es"
    using assms(1,2) by (auto simp: pmm_init_def Let_def map_bytes_def)
  have "d \<in> set es'" "cleared_page d (first_page e)" using assms(7-9) by (auto simp: r(1) cleared_pages end_page_def)
  then have f: "free_page s' (first_page e)"
    using pmm_init_free_iff [OF assms(1), of "first_page e"] assms(2,4,5,10) r(3) by (auto simp: map_bytes_def)
  have "?bm \<in> frame (first_page e)" "?bm \<in> bitmap_bytes s'"
    using assms(10) r(2,3) first_page_addr [OF assms(6)] by (simp_all add: frame_def bitmap_bytes_def PAGE_SIZE_def add.commute)
  then show ?thesis using f by (auto simp: pmm_wf_def)
qed

text \<open>One page at 0, too small for the bitmap, and 256 megabytes after it.\<close>

theorem bitmap_page_freed_witness:
  "\<not> pmm_wf (snd (pmm_init ([\<lparr>mm_base = 0, mm_length = 0x1000, mm_type = 1\<rparr>] @ \<lparr>mm_base = 0x1000, mm_length = 0x10000000, mm_type = 1\<rparr> # []) (pmm_sample\<lparr>lastUsablePage := 0\<rparr>)))"
proof -
  let ?d = "\<lparr>mm_base = 0, mm_length = 0x1000, mm_type = 1\<rparr>" and ?e = "\<lparr>mm_base = 0x1000, mm_length = 0x10000000, mm_type = 1\<rparr>"
  have "map_bytes ([?d] @ ?e # []) = 8193"
    by (simp add: map_bytes_def STIVALE2_MMAP_USABLE_def Let_def DIV_CEIL_def PAGE_SIZE_def)
  then show ?thesis
    using bitmap_page_freed [of "[?d]" ?e "[]" "pmm_sample\<lparr>lastUsablePage := 0\<rparr>" _ _ ?d, OF surjective_pairing]
    by (simp add: first_page_def end_page_def PAGE_SIZE_def free_type_def STIVALE2_MMAP_USABLE_def)
qed

end
