(* ===== verification/Boot_Devices.thy ===== *)
theory Boot_Devices
  imports Apic_Props Hpet Boot_Props
begin

text \<open>
  The part of \<open>_start\<close> (\<^verbatim>\<open>kernel/kernel.cpp\<close>) that goes from the tables of the firmware to working interrupts: \<open>Acpi::init\<close>, \<open>Hpet::init\<close>,
  \<open>Keyboard::init\<close> and \<open>Apic::init\<close>, after the gates were made.
\<close>

section \<open>The calls\<close>

definition start_devices :: "'d hw \<Rightarrow> mem \<Rightarrow> u64 \<Rightarrow> u64 \<Rightarrow> idt \<Rightarrow> 'd \<Rightarrow> (khpet \<times> u64 \<times> idt \<times> 'd) option" where
  "start_devices io m rsdp isr_keyboard t d = do {
     let rsdt = acpi_init m rsdp;
     (h, d) \<leftarrow> hpet_init io m rsdt d;
     t \<leftarrow> keyboard_init isr_keyboard t;
     (lapic, d) \<leftarrow> apic_init io m rsdt d;
     Some (h, lapic, t, d)
   }"

text \<open>All calls that concern interrupts, in their order: the gates of \<open>init_idt\<close> and \<open>VMM::init\<close> come first.\<close>

definition start_interrupts ::
  "u64 \<Rightarrow> u64 \<Rightarrow> u64 \<Rightarrow> u64 \<Rightarrow> u64 \<Rightarrow> u64 \<Rightarrow> u64 \<Rightarrow> u64 \<Rightarrow> u64 \<Rightarrow> 'd hw \<Rightarrow> mem \<Rightarrow> u64 \<Rightarrow> 'd \<Rightarrow> (vmm \<times> khpet \<times> u64 \<times> idt \<times> 'd) option" where
  "start_interrupts h0 h3 h8 h13 h20 h80 isr_page_fault isr_keyboard cr3 io m rsdp d = do {
     t \<leftarrow> init_idt h0 h3 h8 h13 h20 h80;
     (v, t) \<leftarrow> vmm_init cr3 isr_page_fault t;
     (h, lapic, t, d) \<leftarrow> start_devices io m rsdp isr_keyboard t d;
     Some (v, h, lapic, t, d)
   }"

section \<open>Finding the tables\<close>

definition lists_table :: "mem \<Rightarrow> u64 \<Rightarrow> cbuf \<Rightarrow> u64 option \<Rightarrow> bool" where
  "lists_table m rsdt signature r \<longleftrightarrow> find (\<lambda>t. sdt_signature m t = take 4 signature) (map (rsdt_table m rsdt) [0 ..< tablesNum m rsdt]) = r"

lemma direct_nonzero: "(ucast (w :: u32) :: u64) + PHYSICAL_BASE_ADDRESS \<noteq> 0"
proof -
  have w: "unat w < 2 ^ 32" by (rule order_less_le_trans [OF unsigned_less]) simp
  then have "take_bit 64 (unat w) = unat w" by (intro take_bit_nat_eq_self) simp
  then have "unat (ucast w :: u64) < 2 ^ 32" using w by (simp add: unsigned_ucast_eq)
  then have "unat ((ucast w :: u64) + PHYSICAL_BASE_ADDRESS) = unat (ucast w :: u64) + unat PHYSICAL_BASE_ADDRESS"
    by (subst unat_plus_if') (simp add: PHYSICAL_BASE_ADDRESS_def)
  then have "unat ((ucast w :: u64) + PHYSICAL_BASE_ADDRESS) \<noteq> 0" by (simp add: PHYSICAL_BASE_ADDRESS_def)
  then show ?thesis by (metis unat_0)
qed

lemma lists_table_found:
  assumes "4 \<le> length signature" "lists_table m rsdt signature r"
  shows "find_table m rsdt signature = Some (case r of None \<Rightarrow> 0 | Some t \<Rightarrow> t)" "r = Some t \<Longrightarrow> t \<noteq> 0"
proof -
  show "find_table m rsdt signature = Some (case r of None \<Rightarrow> 0 | Some t \<Rightarrow> t)"
    unfolding find_table_def using find_from_finds [OF assms(1), of 0 "tablesNum m rsdt"] assms(2) by (simp add: lists_table_def)
  show "r = Some t \<Longrightarrow> t \<noteq> 0" using assms(2) direct_nonzero by (auto simp: lists_table_def find_Some_iff rsdt_table_def)
qed

text \<open>Without one of the two tables the start does not get past these calls.\<close>

lemma start_devices_stuck:
  assumes "lists_table m (acpi_init m rsdp) (cstr ''HPET'') None \<or> lists_table m (acpi_init m rsdp) (cstr ''APIC'') None"
  shows "start_devices io m rsdp kb t d = None"
proof -
  have l: "4 \<le> length (cstr ''HPET'')" "4 \<le> length (cstr ''APIC'')" by (simp_all add: cstr_def ascii_def)
  show ?thesis using assms lists_table_found(1) [OF l(1), of m "acpi_init m rsdp" None] lists_table_found(1) [OF l(2), of m "acpi_init m rsdp" None]
    by (auto simp: start_devices_def hpet_init_def apic_init_def Let_def split: Option.bind_splits)
qed

text \<open>What the calls do on tables that are there: the table of the controllers is as long as its entries.\<close>

lemma start_devices_run:
  assumes th: "lists_table m (acpi_init m rsdp) (cstr ''HPET'') (Some th)" and tm: "lists_table m (acpi_init m rsdp) (cstr ''APIC'') (Some tm)"
    and es: "entries_at m (tm + sizeof_madt) 0 es" "unat (sdt_length m tm) = 44 + total es" and t: "length t = 256"
  obtains madt d1 where
    "madt = (let ps = entry_addrs (tm + sizeof_madt) 0 es in \<lparr>lapics = of_type LAPIC ps, ioapics = of_type IOAPIC ps, isos = of_type IOAPIC_ISO ps, addressOverride = of_type LAPIC_AO ps\<rparr>)"
    "d1 = store64 io (read64 m (th + 44) + PHYSICAL_BASE_ADDRESS + 16) 1 (snd (fetch64 io (read64 m (th + 44) + PHYSICAL_BASE_ADDRESS) d))"
    "start_devices io m rsdp kb t d = Some (\<lparr>hpet_addr = read64 m (th + 44) + PHYSICAL_BASE_ADDRESS,
        clock = ucast (drop_bit 32 (fst (fetch64 io (read64 m (th + 44) + PHYSICAL_BASE_ADDRESS) d)))\<rparr>, local_apic_base m tm madt, t[0x21 := gate_for kb 0x8E 0],
      xapic_enable io (local_apic_base m tm madt) (remap_pic io 0x20 0x28 (foldl (setup_ioapic io m (isos madt)) d1 (ioapics madt))))"
proof -
  have l: "4 \<le> length (cstr ''HPET'')" "4 \<le> length (cstr ''APIC'')" by (simp_all add: cstr_def ascii_def)
  have nz: "th \<noteq> 0" "tm \<noteq> 0" using lists_table_found(2) [OF l(1) th] lists_table_found(2) [OF l(2) tm] by simp_all
  show thesis
    using that lists_table_found(1) [OF l(1) th] lists_table_found(1) [OF l(2) tm] nz madt_read [OF es] t
    by (simp add: start_devices_def hpet_init_def apic_init_def keyboard_init_def register_gate Let_def split: prod.splits)
qed

section \<open>Devices beside the I/O APIC\<close>

text \<open>Accesses outside its registers leave the entries of the chip alone.\<close>

definition beside_chip :: "'d hw \<Rightarrow> u64 \<Rightarrow> ('d \<Rightarrow> nat \<Rightarrow> u32) \<Rightarrow> bool" where
  "beside_chip io base entry \<longleftrightarrow> (\<forall>p v d. entry (outb io p v d) = entry d) \<and>
     (\<forall>a v d. a \<notin> span base 0x20 \<longrightarrow> entry (store32 io a v d) = entry d \<and> entry (snd (fetch32 io a d)) = entry d)"

lemma route_none:
  assumes "\<forall>o' \<in> set over. iso_gsi m o' \<noteq> 1"
  shows "route m over 1 r = r"
proof -
  have "unat (iso_gsi m o') \<noteq> 1" if "o' \<in> set over" for o' using assms that by (metis unat_1 word_unat_eq_iff)
  then show ?thesis by (induction over arbitrary: r) (auto simp: route_def)
qed

lemma remap_pic_beside: "beside_chip io base entry \<Longrightarrow> entry (remap_pic io x y d) = entry d"
  by (simp add: beside_chip_def remap_pic_def)

lemma xapic_enable_beside: "beside_chip io base entry \<Longrightarrow> a + 0xF0 \<notin> span base 0x20 \<Longrightarrow> entry (xapic_enable io a d) = entry d"
  by (simp add: beside_chip_def xapic_enable_def xapic_read_def xapic_write_def SIVR_def split: prod.splits) (metis snd_conv)

section \<open>A machine\<close>

text \<open>The tag of the loader at \<open>0x100\<close>, the root table at \<open>0x1000\<close> of the direct map, the timer's table at \<open>0x2000\<close>, and at \<open>0x3000\<close> the one of the
  controllers with an I/O APIC at 0.\<close>

definition firmware_sample :: mem where
  "firmware_sample = (let b = PHYSICAL_BASE_ADDRESS in (\<lambda>_. 0)(0x111 := 2, 0x211 := 0x10, b + 0x1004 := 44, b + 0x1025 := 0x20, b + 0x1029 := 0x30,
     b + 0x2000 := 72, b + 0x2001 := 80, b + 0x2002 := 69, b + 0x2003 := 84,
     b + 0x3000 := 65, b + 0x3001 := 80, b + 0x3002 := 73, b + 0x3003 := 67, b + 0x3004 := 56, b + 0x3026 := 0xE0, b + 0x3027 := 0xFE, b + 0x302C := 1, b + 0x302D := 12))"

definition board_sample :: "(u32 \<times> (u32 \<Rightarrow> u32)) hw" where
  "board_sample = chip_sample\<lparr>store32 := (\<lambda>a v (sel, regs). if a = PHYSICAL_BASE_ADDRESS then (v, regs) else
     if a = PHYSICAL_BASE_ADDRESS + 0x10 then (sel, regs(sel := v)) else (sel, regs))\<rparr>"

lemma board_sample_ok: "ioapic_chip board_sample PHYSICAL_BASE_ADDRESS 24 sample_entry" "beside_chip board_sample PHYSICAL_BASE_ADDRESS sample_entry"
proof -
  have w: "ioapic_write board_sample PHYSICAL_BASE_ADDRESS r v d = (r, (snd d)(r := v))" for r v d
    by (cases d) (simp add: ioapic_write_def board_sample_def)
  have r: "ioapic_read board_sample PHYSICAL_BASE_ADDRESS r d = (if r = 1 then 0x170011 else snd d r, (r, snd d))" for r d
    by (cases d) (simp add: ioapic_read_def board_sample_def chip_sample_def)
  show "ioapic_chip board_sample PHYSICAL_BASE_ADDRESS 24 sample_entry" unfolding ioapic_chip_def w r by (auto simp: sample_entry_def pin_reg_inj)
  have "a \<noteq> PHYSICAL_BASE_ADDRESS" "a \<noteq> PHYSICAL_BASE_ADDRESS + 0x10" if "a \<notin> span PHYSICAL_BASE_ADDRESS 0x20" for a
    using that add_of_nat_in_span [of 0 "0x20" PHYSICAL_BASE_ADDRESS] add_of_nat_in_span [of "0x10" "0x20" PHYSICAL_BASE_ADDRESS] by auto
  then show "beside_chip board_sample PHYSICAL_BASE_ADDRESS sample_entry"
    by (auto simp: beside_chip_def board_sample_def chip_sample_def)
qed

lemma firmware_sample_tables:
  "acpi_init firmware_sample 0x100 = PHYSICAL_BASE_ADDRESS + 0x1000"
  "lists_table firmware_sample (PHYSICAL_BASE_ADDRESS + 0x1000) (cstr ''HPET'') (Some (PHYSICAL_BASE_ADDRESS + 0x2000))"
  "lists_table firmware_sample (PHYSICAL_BASE_ADDRESS + 0x1000) (cstr ''APIC'') (Some (PHYSICAL_BASE_ADDRESS + 0x3000))"
proof -
  note e = firmware_sample_def PHYSICAL_BASE_ADDRESS_def Let_def
  show "acpi_init firmware_sample 0x100 = PHYSICAL_BASE_ADDRESS + 0x1000" by (simp add: acpi_init_def read64_def read32_def e)
  have n: "tablesNum firmware_sample (PHYSICAL_BASE_ADDRESS + 0x1000) = 2" by (simp add: tablesNum_def sdt_length_def read32_def sizeof_sdt_def e)
  have t: "rsdt_table firmware_sample (PHYSICAL_BASE_ADDRESS + 0x1000) 0 = PHYSICAL_BASE_ADDRESS + 0x2000"
    "rsdt_table firmware_sample (PHYSICAL_BASE_ADDRESS + 0x1000) (Suc 0) = PHYSICAL_BASE_ADDRESS + 0x3000"
    by (simp_all add: rsdt_table_def sizeof_sdt_def read32_def e)
  have sg: "sdt_signature firmware_sample (PHYSICAL_BASE_ADDRESS + 0x2000) = take 4 (cstr ''HPET'')"
    "sdt_signature firmware_sample (PHYSICAL_BASE_ADDRESS + 0x3000) = take 4 (cstr ''APIC'')" "take 4 (cstr ''HPET'') \<noteq> take 4 (cstr ''APIC'')"
    by (simp_all add: sdt_signature_def upt_rec [of _ 4] cstr_def ascii_def e)
  show "lists_table firmware_sample (PHYSICAL_BASE_ADDRESS + 0x1000) (cstr ''HPET'') (Some (PHYSICAL_BASE_ADDRESS + 0x2000))"
    "lists_table firmware_sample (PHYSICAL_BASE_ADDRESS + 0x1000) (cstr ''APIC'') (Some (PHYSICAL_BASE_ADDRESS + 0x3000))"
    using sg by (simp_all add: lists_table_def n t numeral_2_eq_2)
qed

lemma firmware_sample_madt:
  "entries_at firmware_sample (PHYSICAL_BASE_ADDRESS + 0x3000 + sizeof_madt) 0 [(1, 12)]"
  "unat (sdt_length firmware_sample (PHYSICAL_BASE_ADDRESS + 0x3000)) = 44 + total [(1, 12)]"
  "madt_gsib firmware_sample (PHYSICAL_BASE_ADDRESS + 0x302C) = 0" "ioapic_base firmware_sample (PHYSICAL_BASE_ADDRESS + 0x302C) = PHYSICAL_BASE_ADDRESS"
  "read32 firmware_sample (PHYSICAL_BASE_ADDRESS + 0x3000 + sizeof_sdt) = 0xFEE00000"
  by (simp_all add: firmware_sample_def PHYSICAL_BASE_ADDRESS_def Let_def sizeof_madt_def sizeof_sdt_def sdt_length_def read32_def total_def madt_gsib_def ioapic_base_def)

end
