(* ===== verification/Sched_Types.thy ===== *)
theory Sched_Types
  imports Sched_Props
begin

text \<open>
  The objects of the scheduler as a type discipline (\<^verbatim>\<open>kernel/scheduler/scheduler.cpp\<close>): every reference the scheduler follows leads to an object
  of the right kind, however the kernel runs, so that a reschedule never goes wrong on a core that has anything to run.
\<close>

text \<open>A thread in a state, with its process and the page map of that.\<close>

definition typed_thread :: "'a ksched_scheme \<Rightarrow> Status \<Rightarrow> nat \<Rightarrow> bool" where
  "typed_thread s st t \<longleftrightarrow> (case thread_at s t of None \<Rightarrow> False | Some x \<Rightarrow> th_status x = st \<and>
     (case process_at s (parent_process x) of None \<Rightarrow> False | Some p \<Rightarrow> vmm_at s (pagemap p) \<noteq> None))"

lemma typed_waiting: "sched_inv s \<Longrightarrow> t \<in> set (waiting_queue s) \<Longrightarrow> typed_thread s Waiting t"
  using runq_okD(1) [of s t] by (auto simp: sched_inv_def typed_thread_def page_map_of_def)

lemma typed_running: "sched_inv s \<Longrightarrow> running_thread (cores s c) = Some t \<Longrightarrow> typed_thread s Running t"
  using runq_okD(2) [of s c t] by (fastforce simp: sched_inv_def typed_thread_def page_map_of_def)

lemma reschedule_progress:
  fixes s :: "'a ksched_scheme"
  assumes "sched_inv s"
  shows "(\<exists>rg' pm s'. reschedule core rg s = Some (Switch rg' pm, s') \<and> sched_inv s' \<and> running_thread (cores s' core) \<noteq> None) \<longleftrightarrow>
    running_thread (cores s core) \<noteq> None \<or> waiting_queue s \<noteq> []"
    (is "?goes \<longleftrightarrow> _")
proof -
  have ok: "runq_ok s" "objects_ok s" "sched_lock s = 0" using assms by (simp_all add: sched_inv_def)
  consider (stuck) "running_thread (cores s core) = None" "waiting_queue s = []" | (first) t ts where "running_thread (cores s core) = None" "waiting_queue s = t # ts"
    | (alone) r where "running_thread (cores s core) = Some r" "waiting_queue s = []" | (switch) r t ts where "running_thread (cores s core) = Some r" "waiting_queue s = t # ts"
    by (cases "running_thread (cores s core)"; cases "waiting_queue s") auto
  then show ?thesis
  proof cases
    case stuck
    then show ?thesis using ok(3) by (simp add: reschedule_def Let_def)
  next
    case first
    obtain x v and s' :: "'a ksched_scheme" where "thread_at s t = Some x" "reschedule core rg s = Some (Switch (regs x) (switch_pagemap v), s')" "runq_ok s'" "objects_ok s'" "sched_lock s' = 0"
      "running_thread (cores s' core) = Some t" by (rule reschedule_first [OF ok first, where rg = rg]) (rule that)
    then show ?thesis using first by (simp add: sched_inv_def)
  next
    case alone
    obtain v and s' :: "'a ksched_scheme" where "reschedule core rg s = Some (Switch rg (switch_pagemap v), s')" "runq_ok s'" "objects_ok s'" "sched_lock s' = 0"
      "running_thread (cores s' core) = Some r" by (rule reschedule_alone [OF ok alone, where rg = rg]) (rule that)
    then show ?thesis using alone by (simp add: sched_inv_def)
  next
    case switch
    obtain x v and s' :: "'a ksched_scheme" where "thread_at s t = Some x" "reschedule core rg s = Some (Switch (regs x) (switch_pagemap v), s')" "runq_ok s'" "objects_ok s'" "sched_lock s' = 0"
      "\<And>c. running_thread (cores s' c) = (if c = core then Some t else running_thread (cores s c))"
      by (rule reschedule_switch [OF ok switch, where rg = rg]) (rule that)
    then show ?thesis using switch by (simp add: sched_inv_def)
  qed
qed



end
