(* ===== verification/Spec2Isabelle.thy ===== *)
theory Spec2Isabelle
  imports Kernel_Heap Hash_Map Syscall Loader_Props Duplicate Keyboard Apic_Props Hpet Reports Font_Props Port_Io Boot_Tags Boot_Memory Boot_Devices Sched_Types
begin

text \<open>
  Toystar is a small x86-64 kernel in C++ (\<^verbatim>\<open>src/src\<close>). This development models the parts that carry its logic
  and proves what makes them correct.

  \<^bold>\<open>The parts and how they interact.\<close> The boot loader leaves a list of tags (\<^verbatim>\<open>boot/stivale2.hpp\<close>), in which
  \<open>_start\<close> (\<^verbatim>\<open>kernel/kernel.cpp\<close>) finds the memory map for the physical memory manager
  (\<^verbatim>\<open>kernel/memory/pmm.cpp\<close>), which keeps one bit per page. The kernel heap (\<^verbatim>\<open>heap.cpp\<close>) is a buddy allocator in pages
  from it; the page maps (\<^verbatim>\<open>vmm.cpp\<close>) take their tables from it, and so does tmpfs (\<^verbatim>\<open>kernel/fs/tmpfs.cpp\<close>) for
  the contents of files. The virtual file system (\<^verbatim>\<open>vfs.cpp\<close>) routes a path to tmpfs or to the file system of devices
  (\<^verbatim>\<open>devfs.cpp\<close>), whose one device writes to the screen (\<^verbatim>\<open>kernel/drivers/tty.cpp\<close>, \<^verbatim>\<open>kernel/video.cpp\<close>). The system
  calls on files (\<^verbatim>\<open>files.cpp\<close>) work on the descriptors of the running process; the scheduler (\<^verbatim>\<open>scheduler.cpp\<close>) keeps
  the processes and the queue of threads and is entered by the timer interrupt. At start-up the tables of the firmware
  (\<^verbatim>\<open>kernel/acpi\<close>) say where the interrupt controllers (\<^verbatim>\<open>apic.cpp\<close>) and the timer (\<^verbatim>\<open>hpet.cpp\<close>) are, the initial archive
  (\<^verbatim>\<open>inittmpfs.cpp\<close>) fills the file system, and the boot core starts the others (\<^verbatim>\<open>cpu.cpp\<close>). All of them use the library in \<^verbatim>\<open>klibc\<close>
  and the spin lock of \<^verbatim>\<open>kernel/lock.hpp\<close>.

  \<^bold>\<open>Modelling conventions.\<close> Memory is one function from 64-bit addresses to bytes and every pointer into it is a
  \<open>64 word\<close>; page tables, the free lists of the heap, the bitmaps, the frame buffer and the contents of files all lie
  in it, so that aliasing is part of the model. Kernel objects that are only reached by typed pointers (nodes,
  processes, threads, page maps) live in maps from numbers to records, the number standing for the address and a
  missing entry for a pointer that is null or freed. State is passed explicitly in records that extend each other:
  \<open>kmem\<close> (memory and pages), \<open>kscreen\<close>, \<open>ktmpfs\<close>, \<open>kvfs\<close>, \<open>ksched\<close>, and \<open>kheap\<close> beside them. A call that does not
  return, because it dereferences null, reads outside a buffer or waits for a lock that the same core holds, has the
  value \<open>None\<close>; an error the code reports is part of the result. Strings are buffers of bytes with their terminator.
  Devices answer through the operations of a record \<open>hw\<close> over a state of their own; what a proof needs of a device is a named
  predicate over it (\<open>ioapic_chip\<close>, \<open>serial_chip\<close>, \<open>counter_chip\<close>, \<open>pci_bridge\<close>), with a concrete device in each witness. Calls of
  \<open>log\<close> in other components have no effect on their state and are left out. Allocation of small objects with \<open>new\<close> gives a fresh
  number and does not fail outside the theories of the heap itself.

  \<^bold>\<open>The theories.\<close>

  \<^item> \<open>Prelude\<close>: words, spans of addresses, options. \<open>Phys_Mem\<close>: memory access and \<^verbatim>\<open>klibc/memory.cpp\<close>; \<open>memcpy8\<close>
    copies what \<open>memcpy\<close> copies when the length is a multiple of eight.

  \<^item> \<open>Bitmap\<close>: \<^verbatim>\<open>klibc/bitmap.hpp\<close>; the locale \<open>bit_array\<close> is what the page allocator uses. \<open>Spinlock\<close>: the lock
    with several cores as a step relation, mutual exclusion by rule induction.

  \<^item> \<open>Pmm\<close>: initialisation from the memory map, first-fit allocation, freeing, and that no page is handed out twice.

  \<^item> \<open>Buddy_Heap\<close> holds the operations of \<^verbatim>\<open>heap.cpp\<close>; \<open>Buddy_Layout\<close> and \<open>Buddy_Rep\<close> relate the linked lists in memory
    to sets of blocks, \<open>Buddy_Malloc\<close> and \<open>Buddy_Free\<close> prove each loop against this view, and \<open>Kernel_Heap\<close> has the
    results: every successful \<open>kmalloc\<close> returns a block of its own that is large enough, blocks in use never overlap over any
    sequence of calls, nothing leaks, \<open>kfree\<close> returns.

  \<^item> \<open>Vector\<close>, \<open>Strings\<close>, \<open>Hash_Map\<close>: the containers and string functions of \<^verbatim>\<open>klibc\<close>, vectors as a refinement of
    lists, queues first-in first-out, the number conversions as a round trip, look-up after insertion, and what the destructor of the map deletes.

  \<^item> \<open>Vmm\<close> holds the operations of \<^verbatim>\<open>vmm.cpp\<close>; \<open>Page_Tables\<close> relates the four-level tables in memory to one map from page
    indices to entries, \<open>Vmm_Props\<close> has the results, with the processor's own table walk among them.

  \<^item> \<open>Video\<close>: the frame buffer console. \<open>Font\<close> is the glyph table of \<^verbatim>\<open>kernel/font.hpp\<close>, byte for byte; \<open>Font_Props\<close>: every ASCII character has its
    glyph inside the table and a byte above has not, and what is drawn for a printable character can be read off the screen. \<open>Tmpfs\<close> and \<open>Tmpfs_Props\<close>: the tree of nodes, path look-up as a refinement of an
    abstract look-up by names, creating, reading and writing files.

  \<^item> \<open>Vfs\<close> and \<open>Vfs_Props\<close>: mounting, path routing, devices, and the start-up sequence of \<^verbatim>\<open>kernel.cpp\<close> for the file
    systems. \<open>Files\<close> and \<open>Files_Props\<close>: the system calls on descriptors; the locale \<open>file_system\<close> is interpreted on tmpfs
    and on devfs.

  \<^item> \<open>Process\<close> and \<open>Sched\<close>: processes, threads, run queue, \<open>reschedule\<close>, \<open>fork\<close>, exit. \<open>Sched_Props\<close>: over every
    interleaving of timer interrupts and calls no thread is on two cores or queued while it runs; the locale \<open>rotation\<close>
    gives the order in which waiting threads run and is interpreted on \<open>reschedule\<close>; an interrupted thread continues
    with the registers it had. \<open>Sched_Types\<close>: preservation and progress, every reference the scheduler follows leads to an object in
    the right state, and a reschedule succeeds exactly when there is a thread to run.

  \<^item> \<open>Syscall\<close>: the table of system calls and its dispatch, \<open>panic\<close>. \<open>Descriptors\<close>: segment and interrupt tables as the
    processor reads them, and which vectors user code can enter. \<open>Keyboard\<close>: the handler of \<^verbatim>\<open>keyboard.cpp\<close> with the
    scancode as its argument.

  \<^item> \<open>Loader\<close>: \<^verbatim>\<open>elf.cpp\<close>, \<open>create_program\<close> and \<open>execve\<close>. \<open>Page_Data\<close> joins page tables and the frames they map:
    what the processor reads at an address after a run of pages was allocated, filled and mapped. On it rest \<open>Loader_Props\<close>
    (a loaded segment holds the bytes of the file) and \<open>Duplicate\<close> (the address space of a forked child).

  \<^item> \<open>Initrd\<close> and \<open>Initrd_Props\<close>: the archive in memory, and that unpacking it gives the tree and the contents it describes.

  \<^item> \<open>Acpi\<close>: the tags of the boot loader and the tables of the firmware. \<open>Devices\<close>: the operations on device registers and
    waiting for a device. \<open>Port_Io\<close>: the functions of \<^verbatim>\<open>io.cpp\<close> as the two instructions they consist of, each equal to one access to the
    port. \<open>Apic\<close> and \<open>Apic_Props\<close>: the interrupt controllers, the table they are found in, and where each
    interrupt goes after the set-up. \<open>Hpet\<close>: the timer, whose wait ends and is long enough. \<open>Ports\<close>: the serial
    port with \<open>log\<close>, and the configuration space of PCI. \<open>Format\<close>: the templates \<open>print\<close> and \<open>log\<close> with
    arguments; the locale \<open>text_sink\<close> is what they need of the place the text goes to, and is interpreted on the screen and
    used for the serial line. \<open>Reports\<close>: the exception handlers and the dumps of the heap, the mounts and the registers.

  \<^item> \<open>Start\<close>: the part of \<open>_start\<close> that makes, mounts and fills the file systems. \<open>Boot\<close> and \<open>Boot_Props\<close>: the gates of all handlers,
    and starting the cores: each one has data and a stack of its own, and the boot core waits for
    all of them, in whatever order they start.

  \<^item> \<open>Stivale\<close>: the memory map and the array of cores as the bytes the boot loader has left, and the loops of \<open>PMM::init\<close> and
    \<open>bootstrap_cores\<close> that read and write them; the locale \<open>packed\<close> is an array of packed entries, interpreted on both, and each loop
    refines the one on lists of \<open>Pmm\<close> and \<open>Boot\<close>. \<open>Boot_Tags\<close>: the header of \<^verbatim>\<open>boot/stivale2.cpp\<close> in the image, the look-up of the tags in \<open>_start\<close>, and
    the readers of the remaining tags. \<open>Boot_Memory\<close>: from the memory map in the tag to a heap that serves requests, and the memory
    maps on which \<open>PMM::init\<close> frees a page of its own bitmap. \<open>Boot_Devices\<close>: the calls of \<open>_start\<close> that find the timer and the controllers in the
    tables of the firmware.

  The properties of this theory span components: from the archive through tmpfs and the virtual file system to the bytes a
  read returns, and from the tables of the firmware through the interrupt controller and the gates to the handler of the keyboard.

  \<^bold>\<open>Bounds and loops.\<close> Loops over arrays and lists are structural or have a measure. Loops that may not end (merging
  in the heap, walking a mount tree) are partial functions in the option monad, and that they return is proved where a
  theorem relies on it. Sizes and addresses keep their 64 bits; counters of pages and indices are natural numbers where
  the code's bounds keep them far below the word size.

  \<^bold>\<open>Not modelled.\<close> The instructions that load the descriptor tables and the entry code in assembly, which have no meaning in a model of
  memory; the structures of the boot protocol that nothing reads; the order of the calls in \<open>_start\<close> outside the tags, the memory,
  the interrupts and the file systems, which is a sequence of calls of the other components; the instruction \<open>invlpg\<close> and with it a stale
  translation in the processor.
\<close>

section \<open>From the archive to a read\<close>


definition cold_sample :: kvfs where
  "cold_sample = vfs_sample\<lparr>mem := image_sample, t_nodes := Map.empty\<rparr>"


section \<open>From the keyboard to its handler\<close>

text \<open>C40: from the tables of the firmware to the handler of the keyboard: when the root table lists the tables of the timer and of the controllers, and the
  latter has one I/O APIC, with more than 16 pins and no override for pin 1, the calls of \<open>_start\<close> that set interrupts up return; after them
  the timer is where its table says, pin 1 is unmasked, and its vector is one whose gate leads to the handler of the keyboard at the level of the
  kernel. Assumed are the registers of the chip, and that the ports and the register of the local controller are not among them.\<close>

theorem keyboard_interrupt:
  assumes "lists_table m (acpi_init m rsdp) (cstr ''HPET'') (Some th)" "lists_table m (acpi_init m rsdp) (cstr ''APIC'') (Some tm)"
    and "entries_at m (tm + sizeof_madt) 0 es" "unat (sdt_length m tm) = 44 + total es"
    and "of_type IOAPIC (entry_addrs (tm + sizeof_madt) 0 es) = [p]" "madt_gsib m p = 0"
    and "of_type LAPIC_AO (entry_addrs (tm + sizeof_madt) 0 es) = []" "\<forall>o' \<in> set (of_type IOAPIC_ISO (entry_addrs (tm + sizeof_madt) 0 es)). iso_gsi m o' \<noteq> 1"
    and "ioapic_chip io (ioapic_base m p) pins pin" "16 < pins" "beside_chip io (ioapic_base m p) pin"
    and "ucast (read32 m (tm + sizeof_sdt)) + PHYSICAL_BASE_ADDRESS + 0xF0 \<notin> span (ioapic_base m p) 0x20"
  shows "\<exists>v h lapic t d'. start_interrupts h0 h3 h8 h13 h20 h80 pf kb cr3 io m rsdp d = Some (v, h, lapic, t, d') \<and>
    hpet_addr h = read64 m (th + 44) + PHYSICAL_BASE_ADDRESS \<and> lapic = ucast (read32 m (tm + sizeof_sdt)) + PHYSICAL_BASE_ADDRESS \<and>
    \<not> bit (pin d' 1) 16 \<and> may_enter (load_tss a init_gdt) t 0 (unat (pin d' 1 AND 0xFF)) = Some (kb, 0)"
proof -
  define t0 where "t0 = (replicate 256 zero_gate)[0 := gate_for h0 0x8E 0, 3 := gate_for h3 0x8E 0, 8 := gate_for h8 0x8E 0,
    0xD := gate_for h13 0x8E 0, 0x20 := gate_for h20 0x8E 1, 0x80 := gate_for h80 0xEE 0, 0xE := gate_for pf 0x8E 0]"
  have t0: "length t0 = 256" by (simp add: t0_def)
  let ?over = "of_type IOAPIC_ISO (entry_addrs (tm + sizeof_madt) 0 es)" and ?lapic = "ucast (read32 m (tm + sizeof_sdt)) + PHYSICAL_BASE_ADDRESS :: u64"
  obtain madt d1 where md: "madt = (let ps = entry_addrs (tm + sizeof_madt) 0 es in \<lparr>lapics = of_type LAPIC ps, ioapics = of_type IOAPIC ps,
      isos = of_type IOAPIC_ISO ps, addressOverride = of_type LAPIC_AO ps\<rparr>)"
    and run: "start_devices io m rsdp kb t0 d = Some (\<lparr>hpet_addr = read64 m (th + 44) + PHYSICAL_BASE_ADDRESS,
        clock = ucast (drop_bit 32 (fst (fetch64 io (read64 m (th + 44) + PHYSICAL_BASE_ADDRESS) d)))\<rparr>, local_apic_base m tm madt, t0[0x21 := gate_for kb 0x8E 0],
      xapic_enable io (local_apic_base m tm madt) (remap_pic io 0x20 0x28 (foldl (setup_ioapic io m (isos madt)) d1 (ioapics madt))))"
    by (rule start_devices_run [OF assms(1-4) t0, where io = io and kb = kb and d = d]) (rule that)
  have l: "local_apic_base m tm madt = ?lapic" "isos madt = ?over" "ioapics madt = [p]" using assms(5,7) by (simp_all add: md Let_def local_apic_base_def)
  let ?d = "xapic_enable io ?lapic (remap_pic io 0x20 0x28 (setup_ioapic io m ?over d1 p))"
  have "route m ?over 1 r = r" for r by (rule route_none [OF assms(8)])
  then have "pin (setup_ioapic io m ?over d1 p) 1 = 0x21"
    using setup_entry [OF assms(9,10,6), of 1 ?over d1] assms(10) by (simp add: redirection_def MASKED_def)
  then have e: "pin ?d 1 = 0x21" using xapic_enable_beside [OF assms(11,12)] remap_pic_beside [OF assms(11)] by simp
  have "start_interrupts h0 h3 h8 h13 h20 h80 pf kb cr3 io m rsdp d = Some (\<lparr>m_pml4 = cr3 + PHYSICAL_BASE_ADDRESS, m_ranges = vector_new, page_tables_addr = vector_new\<rparr>,
      \<lparr>hpet_addr = read64 m (th + 44) + PHYSICAL_BASE_ADDRESS, clock = ucast (drop_bit 32 (fst (fetch64 io (read64 m (th + 44) + PHYSICAL_BASE_ADDRESS) d)))\<rparr>,
      ?lapic, t0[0x21 := gate_for kb 0x8E 0], ?d)"
    using run unfolding l by (simp add: start_interrupts_def init_idt_gates vmm_init_def register_gate flip: t0_def)
  moreover have "may_enter (load_tss a init_gdt) (t0[0x21 := gate_for kb 0x8E 0]) 0 0x21 = Some (kb, 0)"
    by (simp add: may_enter_def gate_bits kernel_code_segment t0)
  ultimately show ?thesis using e by simp
qed

theorem keyboard_interrupt_witness:
  "\<exists>v h lapic t d'. start_interrupts 1 2 3 4 5 6 7 0xABCDEF123456 0x1000 board_sample firmware_sample 0x100 (0, \<lambda>_. 0) = Some (v, h, lapic, t, d') \<and>
     lapic = PHYSICAL_BASE_ADDRESS + 0xFEE00000 \<and> \<not> bit (sample_entry d' 1) 16 \<and>
     may_enter (load_tss 0 init_gdt) t 0 (unat (sample_entry d' 1 AND 0xFF)) = Some (0xABCDEF123456, 0)"
proof -
  let ?p = "PHYSICAL_BASE_ADDRESS + 0x302C"
  note tb = firmware_sample_tables(2,3) [folded firmware_sample_tables(1)] and md = firmware_sample_madt
  have sp: "ucast (read32 firmware_sample (PHYSICAL_BASE_ADDRESS + 0x3000 + sizeof_sdt)) + PHYSICAL_BASE_ADDRESS = PHYSICAL_BASE_ADDRESS + 0xFEE00000"
    unfolding md(5) by (simp add: PHYSICAL_BASE_ADDRESS_def)
  have ap: "ucast (read32 firmware_sample (PHYSICAL_BASE_ADDRESS + 0x3000 + sizeof_sdt)) + PHYSICAL_BASE_ADDRESS + 0xF0 \<notin> span (ioapic_base firmware_sample ?p) 0x20"
    unfolding sp md(4) by (simp add: in_span PHYSICAL_BASE_ADDRESS_def)
  have ty: "of_type IOAPIC (entry_addrs (PHYSICAL_BASE_ADDRESS + 0x3000 + sizeof_madt) 0 [(1, 12)]) = [?p]"
    "of_type LAPIC_AO (entry_addrs (PHYSICAL_BASE_ADDRESS + 0x3000 + sizeof_madt) 0 [(1, 12)]) = []"
    "\<forall>o' \<in> set (of_type IOAPIC_ISO (entry_addrs (PHYSICAL_BASE_ADDRESS + 0x3000 + sizeof_madt) 0 [(1, 12)])). iso_gsi firmware_sample o' \<noteq> 1"
    by (simp_all add: of_type_def IOAPIC_def LAPIC_AO_def IOAPIC_ISO_def sizeof_madt_def sizeof_sdt_def add.assoc)
  have c: "ioapic_chip board_sample (ioapic_base firmware_sample ?p) 24 sample_entry" "beside_chip board_sample (ioapic_base firmware_sample ?p) sample_entry"
    unfolding md(4) by (rule board_sample_ok)+
  have "(16 :: nat) < 24" by simp
  from keyboard_interrupt [OF tb md(1,2) ty(1) md(3) ty(2,3) c(1) this c(2) ap, of 1 2 3 4 5 6 7 "0xABCDEF123456" "0x1000" "(0, \<lambda>_. 0)" 0]
  show ?thesis unfolding sp by blast
qed

end
